(* ===== verification/Prelude.thy ===== *)
theory Prelude
  imports Complex_Main "HOL-Library.Word" "HOL-Library.Monad_Syntax"
begin

text \<open>
  Shared vocabulary of the development: the types of keys and values, the collections of
  rewrite rules that the component theories extend, the specification of a lower and an upper
  bound in a sorted range, and generic facts on lists that several components use.
\<close>

type_synonym u8 = "8 word"
type_synonym u64 = "64 word"

text \<open>
  \<^theory_text>\<open>iter\<close> is a random-access iterator, an offset into the container it walks over. It is
  an integer because the code forms iterators before the first element (and never reads them).
  An \<^theory_text>\<open>access\<close> is the function object \<open>at\<close> that the search classes take; \<open>None\<close> is
  a read through an iterator that must not be dereferenced.
\<close>

type_synonym iter = int
type_synonym 'k access = "iter \<Rightarrow> 'k option"

named_theorems search_simps "one unfolding of the loops of the search classes"

text \<open>\<open>util::NOT_FOUND\<close>, the largest \<open>uint64_t\<close>.\<close>

definition NOT_FOUND :: u64 where "NOT_FOUND = - 1"

text \<open>\<open>util::OVERFLOW\<close>, the largest \<open>size_t\<close>.\<close>

definition OVERFLOW :: u64 where "OVERFLOW = - 1"

subsection \<open>Ranges, lower and upper bounds\<close>

definition readable :: "'k access \<Rightarrow> (iter \<Rightarrow> 'k) \<Rightarrow> iter \<Rightarrow> iter \<Rightarrow> bool" where
  "readable rd f first last' \<longleftrightarrow> (\<forall>i. first \<le> i \<and> i < last' \<longrightarrow> rd i = Some (f i))"

definition sorted_range :: "(iter \<Rightarrow> 'k::linorder) \<Rightarrow> iter \<Rightarrow> iter \<Rightarrow> bool" where
  "sorted_range f first last' \<longleftrightarrow> (\<forall>i j. first \<le> i \<and> i \<le> j \<and> j < last' \<longrightarrow> f i \<le> f j)"

definition is_lower_bound :: "(iter \<Rightarrow> 'k::linorder) \<Rightarrow> iter \<Rightarrow> iter \<Rightarrow> 'k \<Rightarrow> iter \<Rightarrow> bool" where
  "is_lower_bound f first last' key r \<longleftrightarrow> first \<le> r \<and> r \<le> last'
     \<and> (\<forall>i. first \<le> i \<and> i < r \<longrightarrow> f i < key) \<and> (\<forall>i. r \<le> i \<and> i < last' \<longrightarrow> key \<le> f i)"

definition is_upper_bound :: "(iter \<Rightarrow> 'k::linorder) \<Rightarrow> iter \<Rightarrow> iter \<Rightarrow> 'k \<Rightarrow> iter \<Rightarrow> bool" where
  "is_upper_bound f first last' key r \<longleftrightarrow> first \<le> r \<and> r \<le> last'
     \<and> (\<forall>i. first \<le> i \<and> i < r \<longrightarrow> f i \<le> key) \<and> (\<forall>i. r \<le> i \<and> i < last' \<longrightarrow> key < f i)"

lemma readableD: "readable rd f first last' \<Longrightarrow> first \<le> i \<Longrightarrow> i < last' \<Longrightarrow> rd i = Some (f i)"
  by (simp add: readable_def)

lemma readable_mono:
  "readable rd f first last' \<Longrightarrow> first \<le> first' \<Longrightarrow> last'' \<le> last' \<Longrightarrow> readable rd f first' last''"
  by (simp add: readable_def)

lemma sorted_rangeD: "sorted_range f first last' \<Longrightarrow> first \<le> i \<Longrightarrow> i \<le> j \<Longrightarrow> j < last' \<Longrightarrow> f i \<le> f j"
  by (simp add: sorted_range_def)

lemma sorted_range_mono:
  "sorted_range f first last' \<Longrightarrow> first \<le> first' \<Longrightarrow> last'' \<le> last' \<Longrightarrow> sorted_range f first' last''"
  by (simp add: sorted_range_def)

lemma is_lower_bound_unique:
  assumes "is_lower_bound f first last' key r" and "is_lower_bound f first last' key s"
  shows "r = s"
proof (rule ccontr)
  assume "r \<noteq> s"
  then consider "r < s" | "s < r" by linarith
  then show False
  proof cases
    case 1
    then have "f r < key" "key \<le> f r" using assms by (auto simp: is_lower_bound_def)
    then show False by simp
  next
    case 2
    then have "f s < key" "key \<le> f s" using assms by (auto simp: is_lower_bound_def)
    then show False by simp
  qed
qed

lemma is_upper_bound_unique:
  assumes "is_upper_bound f first last' key r" and "is_upper_bound f first last' key s"
  shows "r = s"
proof (rule ccontr)
  assume "r \<noteq> s"
  then consider "r < s" | "s < r" by linarith
  then show False
  proof cases
    case 1
    then have "f r \<le> key" "key < f r" using assms by (auto simp: is_upper_bound_def)
    then show False by simp
  next
    case 2
    then have "f s \<le> key" "key < f s" using assms by (auto simp: is_upper_bound_def)
    then show False by simp
  qed
qed

text \<open>
  In a sorted range a bound is recognised by its two neighbours; the loops of the search classes
  maintain exactly one of the two neighbour conditions.
\<close>

lemma lower_boundI:
  assumes "sorted_range f first last'" "first \<le> r" "r \<le> last'"
    and "r = first \<or> f (r - 1) < key" and "r = last' \<or> key \<le> f r"
  shows "is_lower_bound f first last' key r"
proof (unfold is_lower_bound_def, intro conjI allI impI)
  fix i assume i: "first \<le> i \<and> i < r"
  then have "f i \<le> f (r - 1)" using assms by (intro sorted_rangeD [OF assms(1)]) auto
  moreover have "f (r - 1) < key" using assms(4) i by auto
  ultimately show "f i < key" by simp
next
  fix i assume i: "r \<le> i \<and> i < last'"
  then have "f r \<le> f i" using assms by (intro sorted_rangeD [OF assms(1)]) auto
  moreover have "key \<le> f r" using assms(5) i by auto
  ultimately show "key \<le> f i" by simp
qed (use assms in auto)

lemma upper_boundI:
  assumes "sorted_range f first last'" "first \<le> r" "r \<le> last'"
    and "r = first \<or> f (r - 1) \<le> key" and "r = last' \<or> key < f r"
  shows "is_upper_bound f first last' key r"
proof (unfold is_upper_bound_def, intro conjI allI impI)
  fix i assume i: "first \<le> i \<and> i < r"
  then have "f i \<le> f (r - 1)" using assms by (intro sorted_rangeD [OF assms(1)]) auto
  moreover have "f (r - 1) \<le> key" using assms(4) i by auto
  ultimately show "f i \<le> key" by simp
next
  fix i assume i: "r \<le> i \<and> i < last'"
  then have "f r \<le> f i" using assms by (intro sorted_rangeD [OF assms(1)]) auto
  moreover have "key < f r" using assms(5) i by auto
  ultimately show "key < f i" by simp
qed (use assms in auto)

lemma lower_boundD:
  assumes "is_lower_bound f first last' key r"
  shows "first \<le> r" "r \<le> last'" "r = first \<or> f (r - 1) < key" "r = last' \<or> key \<le> f r"
proof -
  show "first \<le> r" "r \<le> last'" using assms by (auto simp: is_lower_bound_def)
  have "first \<le> r - 1 \<and> r - 1 < r \<longrightarrow> f (r - 1) < key" using assms unfolding is_lower_bound_def by blast
  then show "r = first \<or> f (r - 1) < key" using \<open>first \<le> r\<close> by auto
  show "r = last' \<or> key \<le> f r" using assms by (auto simp: is_lower_bound_def)
qed

lemma upper_boundD:
  assumes "is_upper_bound f first last' key r"
  shows "first \<le> r" "r \<le> last'" "r = first \<or> f (r - 1) \<le> key" "r = last' \<or> key < f r"
proof -
  show "first \<le> r" "r \<le> last'" using assms by (auto simp: is_upper_bound_def)
  have "first \<le> r - 1 \<and> r - 1 < r \<longrightarrow> f (r - 1) \<le> key" using assms unfolding is_upper_bound_def by blast
  then show "r = first \<or> f (r - 1) \<le> key" using \<open>first \<le> r\<close> by auto
  show "r = last' \<or> key < f r" using assms by (auto simp: is_upper_bound_def)
qed

subsection \<open>Vectors read through iterators\<close>

definition vec_at :: "('a \<Rightarrow> 'k) \<Rightarrow> 'a list \<Rightarrow> 'k access" where
  "vec_at key xs i = (if 0 \<le> i \<and> i < int (length xs) then Some (key (xs ! nat i)) else None)"

lemma readable_vec_at:
  "readable (vec_at key xs) (\<lambda>i. key (xs ! nat i)) 0 (int (length xs))"
  by (simp add: readable_def vec_at_def)

lemma sorted_range_vec:
  assumes "sorted (map key xs)"
  shows "sorted_range (\<lambda>i. key (xs ! nat i)) 0 (int (length xs))"
proof (unfold sorted_range_def, intro allI impI)
  fix i j :: int
  assume "0 \<le> i \<and> i \<le> j \<and> j < int (length xs)"
  then have "nat i \<le> nat j" and "nat j < length (map key xs)" by auto
  from sorted_nth_mono [OF assms this] show "key (xs ! nat i) \<le> key (xs ! nat j)"
    using \<open>nat i \<le> nat j\<close> \<open>nat j < length (map key xs)\<close> by (simp add: nth_map)
qed

text \<open>The first element that is not smaller than a key, in a sorted vector\<close>

lemma is_lower_bound_vec:
  assumes "sorted (map key xs)"
  shows "is_lower_bound (\<lambda>i. key (xs ! nat i)) 0 (int (length xs)) k (int (length (takeWhile (\<lambda>x. key x < k) xs)))"
proof (rule lower_boundI)
  let ?i = "length (takeWhile (\<lambda>x. key x < k) xs)"
  show "sorted_range (\<lambda>i. key (xs ! nat i)) 0 (int (length xs))" by (rule sorted_range_vec [OF assms])
  have le: "?i \<le> length xs" by (rule length_takeWhile_le)
  have "key (xs ! j) < k" if "j < ?i" for j
    using nth_mem [OF that] takeWhile_nth [OF that] set_takeWhileD [of "xs ! j" "\<lambda>x. key x < k" xs] by simp
  then show "int ?i = 0 \<or> key (xs ! nat (int ?i - 1)) < k" by (cases ?i) auto
  have "k \<le> key (xs ! ?i)" if "?i < length xs"
    using nth_length_takeWhile [of "\<lambda>x. key x < k" xs] that by simp
  then show "int ?i = int (length xs) \<or> k \<le> key (xs ! nat (int ?i))" using le by fastforce
qed (use length_takeWhile_le in auto)

lemma list_cases3:
  obtains (Nil) "xs = []" | (One) x where "xs = [x]" | (Two) x y where "xs = [x, y]"
    | (More) x y z zs where "xs = x # y # z # zs"
proof (cases xs)
  case (Cons x ys)
  note 1 = this
  then show thesis
  proof (cases ys)
    case (Cons y zs)
    then show thesis using 1 that(3,4) by (cases zs) auto
  qed (use that(2) in auto)
qed (use that(1) in auto)

subsection \<open>Sequences of pairs sorted by key\<close>

lemma sorted_member:
  fixes es :: "('k::linorder \<times> 'v) list" and key :: 'k
  assumes "sorted (map fst es)"
  defines "w \<equiv> length (takeWhile (\<lambda>e. fst e < key) es)"
  shows "key \<in> fst ` set es \<longleftrightarrow> w < length es \<and> fst (es ! w) = key"
proof
  assume "key \<in> fst ` set es"
  then obtain i where i: "i < length es" "fst (es ! i) = key" by (auto simp: in_set_conv_nth)
  have lt: "\<not> i < w"
  proof
    assume "i < w"
    then have "takeWhile (\<lambda>e. fst e < key) es ! i \<in> set (takeWhile (\<lambda>e. fst e < key) es)" unfolding w_def by (rule nth_mem)
    then show False using \<open>i < w\<close> i(2) by (auto simp: w_def takeWhile_nth dest: set_takeWhileD)
  qed
  then have w: "w < length es" using i(1) by simp
  then have "\<not> fst (es ! w) < key" unfolding w_def by (rule nth_length_takeWhile)
  moreover have "fst (es ! w) \<le> fst (es ! i)" using sorted_nth_mono [OF assms(1), of w i] lt i(1) w by simp
  ultimately show "w < length es \<and> fst (es ! w) = key" using w i(2) by simp
qed (auto intro: rev_image_eqI)

text \<open>The sum over a range\<close>

definition range_values :: "u64 \<Rightarrow> u64 \<Rightarrow> (u64 \<times> u64) list \<Rightarrow> u64" where
  "range_values lo hi es = sum_list (map snd (filter (\<lambda>x. lo \<le> fst x \<and> fst x \<le> hi) es))"

lemma takeWhile_filter_sorted:
  "sorted (map fst es) \<Longrightarrow> takeWhile (\<lambda>x. fst x \<le> hi) es = filter (\<lambda>x. fst x \<le> hi) es"
  by (induction es) (auto intro!: filter_False [symmetric] dest: order_trans)

lemma dropWhile_filter_sorted:
  "sorted (map fst es) \<Longrightarrow> dropWhile (\<lambda>x. fst x < lo) es = filter (\<lambda>x. lo \<le> fst x) es"
  for lo :: "'k::linorder"
  by (induction es) (auto intro!: filter_True [symmetric] dest: order_trans simp: not_less)

lemma range_values_sorted:
  assumes "sorted (map fst es)"
  shows "sum_list (map snd (takeWhile (\<lambda>x. fst x \<le> hi) (dropWhile (\<lambda>x. fst x < lo) es))) = range_values lo hi es"
proof -
  have "sorted (map fst (filter (\<lambda>x. lo \<le> fst x) es))" using assms by (rule sorted_filter)
  then show ?thesis using assms by (simp add: range_values_def dropWhile_filter_sorted takeWhile_filter_sorted conj_commute)
qed

subsection \<open>Computations that can fail\<close>

text \<open>
  A function of the code that can stop the program returns a sum: \<open>Inl\<close> the way it stopped,
  \<open>Inr\<close> the result. \<open>bindE\<close> runs the rest of the function on the result.
\<close>

definition bindE :: "'e + 'a \<Rightarrow> ('a \<Rightarrow> 'e + 'b) \<Rightarrow> 'e + 'b" where
  "bindE m f = (case m of Inl e \<Rightarrow> Inl e | Inr x \<Rightarrow> f x)"

declare bindE_def [code_unfold]

lemma bindE_simps [simp]: "bindE (Inl e) f = Inl e" "bindE (Inr x) f = f x"
  by (simp_all add: bindE_def)

definition checkE :: "'e \<Rightarrow> bool \<Rightarrow> 'e + unit" where
  "checkE e b = (if b then Inr () else Inl e)"

lemma bindE_Inr: "bindE m f = Inr y \<longleftrightarrow> (\<exists>x. m = Inr x \<and> f x = Inr y)"
  by (cases m) auto

lemma bindE_cong [fundef_cong]:
  "m = m' \<Longrightarrow> (\<And>x. m' = Inr x \<Longrightarrow> f x = g x) \<Longrightarrow> bindE m f = bindE m' g"
  by (cases m') auto

lemma checkE_Inr [simp]: "checkE e b = Inr u \<longleftrightarrow> b"
  by (simp add: checkE_def)

lemma checkE_simps [simp]: "checkE e True = Inr ()" "checkE e False = Inl e"
  by (simp_all add: checkE_def)

lemma bindE_check: "bindE (checkE e b) f = Inr y \<longleftrightarrow> b \<and> f () = Inr y"
  by (simp add: checkE_def)

end
