(* ===== verification/Search_Base.thy ===== *)
theory Search_Base
  imports Prelude
begin

text \<open>
  The interface of the search classes (\<open>searches/search.h\<close>): every index of the
  repository is a template over a \<open>SearchClass\<close> with the two static members
  \<open>lower_bound\<close> and \<open>upper_bound\<close>. Both take the range, the key, a predicted position
  \<open>start\<close> inside the range, the accessor \<open>rd\<close> and the comparison \<open>lt\<close>. The
  result is an option: \<open>None\<close> stands for a read through an iterator that must not be
  dereferenced, or for a loop that does not end.
\<close>

type_synonym 'k search_fn =
  "iter \<Rightarrow> iter \<Rightarrow> 'k \<Rightarrow> iter \<Rightarrow> 'k access \<Rightarrow> ('k \<Rightarrow> 'k \<Rightarrow> bool) \<Rightarrow> iter option"

text \<open>
  The test every class makes first: \<open>start != last && less(at(start), key)\<close> of
  \<open>lower_bound\<close> and \<open>start == last || less(key, at(start))\<close> of \<open>upper_bound\<close>.
\<close>

definition starts_below :: "'k access \<Rightarrow> ('k \<Rightarrow> 'k \<Rightarrow> bool) \<Rightarrow> iter \<Rightarrow> 'k \<Rightarrow> iter \<Rightarrow> bool option" where
  "starts_below rd lt last' key start =
     (if start \<noteq> last' then do { x \<leftarrow> rd start; Some (lt x key) } else Some False)"

definition starts_above :: "'k access \<Rightarrow> ('k \<Rightarrow> 'k \<Rightarrow> bool) \<Rightarrow> iter \<Rightarrow> 'k \<Rightarrow> iter \<Rightarrow> bool option" where
  "starts_above rd lt last' key start =
     (if start = last' then Some True else do { x \<leftarrow> rd start; Some (lt key x) })"

lemma starts_below_eq:
  "readable rd f first last' \<Longrightarrow> first \<le> start \<Longrightarrow> start \<le> last'
   \<Longrightarrow> starts_below rd (<) last' key start = Some (start \<noteq> last' \<and> f start < key)"
  by (auto simp: starts_below_def readable_def)

lemma starts_above_eq:
  "readable rd f first last' \<Longrightarrow> first \<le> start \<Longrightarrow> start \<le> last'
   \<Longrightarrow> starts_above rd (<) last' key start = Some (start = last' \<or> key < f start)"
  by (auto simp: starts_above_def readable_def)

locale search_class =
  fixes lower :: "'k::linorder search_fn"
    and upper :: "'k search_fn"
  assumes lower_spec:
      "first \<le> start \<Longrightarrow> start \<le> last' \<Longrightarrow> last' - first < 2 ^ 53 \<Longrightarrow> readable rd f first last'
       \<Longrightarrow> sorted_range f first last'
       \<Longrightarrow> \<exists>r. lower first last' key start rd (<) = Some r \<and> is_lower_bound f first last' key r"
    and upper_spec:
      "first \<le> start \<Longrightarrow> start \<le> last' \<Longrightarrow> last' - first < 2 ^ 53 \<Longrightarrow> readable rd f first last'
       \<Longrightarrow> sorted_range f first last'
       \<Longrightarrow> \<exists>r. upper first last' key start rd (<) = Some r \<and> is_upper_bound f first last' key r"
begin

lemma lower_bound_eq:
  assumes "first \<le> start" and "start \<le> last'" and "last' - first < 2 ^ 53"
    and "readable rd f first last'" and "sorted_range f first last'"
    and "is_lower_bound f first last' key r"
  shows "lower first last' key start rd (<) = Some r"
  using lower_spec [OF assms(1-5), of key] assms(6) is_lower_bound_unique by blast

lemma upper_bound_eq:
  assumes "first \<le> start" and "start \<le> last'" and "last' - first < 2 ^ 53"
    and "readable rd f first last'" and "sorted_range f first last'"
    and "is_upper_bound f first last' key r"
  shows "upper first last' key start rd (<) = Some r"
  using upper_spec [OF assms(1-5), of key] assms(6) is_upper_bound_unique by blast

text \<open>The predicted position decides how long the search takes, never what it returns.\<close>

lemma lower_start_irrelevant:
  assumes "first \<le> start" "start \<le> last'" "first \<le> start'" "start' \<le> last'" "last' - first < 2 ^ 53"
    and "readable rd f first last'" and "sorted_range f first last'"
  shows "lower first last' key start rd (<) = lower first last' key start' rd (<)"
  using lower_spec [OF assms(1,2,5,6,7), of key] lower_bound_eq [OF assms(3,4,5,6,7)] by force

lemma upper_start_irrelevant:
  assumes "first \<le> start" "start \<le> last'" "first \<le> start'" "start' \<le> last'" "last' - first < 2 ^ 53"
    and "readable rd f first last'" and "sorted_range f first last'"
  shows "upper first last' key start rd (<) = upper first last' key start' rd (<)"
  using upper_spec [OF assms(1,2,5,6,7), of key] upper_bound_eq [OF assms(3,4,5,6,7)] by force

text \<open>
  Searching a window of the range that does not begin too late gives the answer for the whole range,
  or the end of the window if that comes first; a window \<open>[lo, hi]\<close> that encloses the answer gives
  it exactly. This is the step that a learned index relies on.
\<close>

lemma lower_clipped:
  assumes "first \<le> lo" "lo \<le> start" "start \<le> hi" "hi \<le> last'" "hi - lo < 2 ^ 53"
    and "readable rd f first last'" and "sorted_range f first last'"
    and "is_lower_bound f first last' key r" and "lo \<le> r"
  shows "lower lo hi key start rd (<) = Some (min r hi)"
proof (rule lower_bound_eq)
  show "readable rd f lo hi" using assms by (blast intro: readable_mono)
  show "sorted_range f lo hi" using assms by (blast intro: sorted_range_mono)
  show "is_lower_bound f lo hi key (min r hi)"
    using assms unfolding is_lower_bound_def by auto
qed (use assms in auto)

lemma lower_window:
  assumes "first \<le> lo" "lo \<le> start" "start \<le> hi" "hi \<le> last'" "hi - lo < 2 ^ 53"
    and "readable rd f first last'" and "sorted_range f first last'"
    and "is_lower_bound f first last' key r" and "lo \<le> r" and "r \<le> hi"
  shows "lower lo hi key start rd (<) = Some r"
  using lower_clipped [OF assms(1-9)] assms(10) by simp

end

end
