(* ===== verification/Linear_Search.thy ===== *)
theory Linear_Search
  imports Search_Base
begin

text \<open>
  \<open>LinearSearch\<close> (\<open>searches/linear_search.h\<close>): walk from the predicted position
  towards the bound, one element rd a time. The four \<open>while\<close> loops are the four loop
  functions below.
\<close>

partial_function (option) lower_forward ::
  "'k access \<Rightarrow> ('k \<Rightarrow> 'k \<Rightarrow> bool) \<Rightarrow> iter \<Rightarrow> 'k \<Rightarrow> iter \<Rightarrow> iter option" where
  "lower_forward rd lt last' key it =
     (if it = last' then Some it
      else do { x \<leftarrow> rd it; if lt x key then lower_forward rd lt last' key (it + 1) else Some it })"

partial_function (option) lower_backward ::
  "'k access \<Rightarrow> ('k \<Rightarrow> 'k \<Rightarrow> bool) \<Rightarrow> iter \<Rightarrow> 'k \<Rightarrow> iter \<Rightarrow> iter option" where
  "lower_backward rd lt first key it =
     (if it = first then Some it
      else do { x \<leftarrow> rd (it - 1);
                if lt x key then Some (it - 1) else lower_backward rd lt first key (it - 1) })"

definition linear_lower_bound :: "'k search_fn" where
  "linear_lower_bound first last' key start rd lt =
     (if first = last' then Some first
      else do {
        go \<leftarrow> starts_below rd lt last' key start;
        if go then lower_forward rd lt last' key (start + 1)
        else do {
          it \<leftarrow> lower_backward rd lt first key start;
          x \<leftarrow> rd it;
          Some (if lt x key then it + 1 else it) } })"

partial_function (option) upper_backward ::
  "'k access \<Rightarrow> ('k \<Rightarrow> 'k \<Rightarrow> bool) \<Rightarrow> iter \<Rightarrow> 'k \<Rightarrow> iter \<Rightarrow> iter option" where
  "upper_backward rd lt first key it =
     (if it = first then Some it
      else do { x \<leftarrow> rd (it - 1);
                if \<not> lt key x then Some (it - 1) else upper_backward rd lt first key (it - 1) })"

partial_function (option) upper_forward ::
  "'k access \<Rightarrow> ('k \<Rightarrow> 'k \<Rightarrow> bool) \<Rightarrow> iter \<Rightarrow> 'k \<Rightarrow> iter \<Rightarrow> iter option" where
  "upper_forward rd lt last' key it =
     (if it = last' then Some it
      else do { x \<leftarrow> rd it; if \<not> lt key x then upper_forward rd lt last' key (it + 1) else Some it })"

definition linear_upper_bound :: "'k search_fn" where
  "linear_upper_bound first last' key start rd lt =
     (if first = last' then Some first
      else do {
        back \<leftarrow> starts_above rd lt last' key start;
        if back then do {
          it \<leftarrow> upper_backward rd lt first key start;
          x \<leftarrow> rd it;
          Some (if \<not> lt key x then it + 1 else it) }
        else upper_forward rd lt last' key (start + 1) })"

declare lower_forward.simps [search_simps] lower_backward.simps [search_simps]
  upper_forward.simps [search_simps] upper_backward.simps [search_simps]

subsection \<open>The loops\<close>

lemma lower_forward_spec:
  assumes "readable rd f first last'" "sorted_range f first last'"
    and "first \<le> it" "it \<le> last'" "it = first \<or> f (it - 1) < key"
  shows "\<exists>r. lower_forward rd (<) last' key it = Some r \<and> is_lower_bound f first last' key r"
  using assms(3-5)
proof (induction "nat (last' - it)" arbitrary: it)
  case 0
  then have "it = last'" by simp
  with 0 assms show ?case by (auto simp: lower_forward.simps intro!: lower_boundI)
next
  case (Suc n)
  then have it: "it < last'" "rd it = Some (f it)" using assms(1) by (auto dest: readableD)
  show ?case
  proof (cases "f it < key")
    case True
    with Suc it have "\<exists>r. lower_forward rd (<) last' key (it + 1) = Some r
        \<and> is_lower_bound f first last' key r"
      by (intro Suc.hyps(1)) auto
    with True it show ?thesis by (subst lower_forward.simps) auto
  next
    case False
    with Suc.prems assms it show ?thesis
      by (subst lower_forward.simps) (auto intro!: lower_boundI)
  qed
qed

lemma upper_forward_spec:
  assumes "readable rd f first last'" "sorted_range f first last'"
    and "first \<le> it" "it \<le> last'" "it = first \<or> f (it - 1) \<le> key"
  shows "\<exists>r. upper_forward rd (<) last' key it = Some r \<and> is_upper_bound f first last' key r"
  using assms(3-5)
proof (induction "nat (last' - it)" arbitrary: it)
  case 0
  then have "it = last'" by simp
  with 0 assms show ?case by (auto simp: upper_forward.simps intro!: upper_boundI)
next
  case (Suc n)
  then have it: "it < last'" "rd it = Some (f it)" using assms(1) by (auto dest: readableD)
  show ?case
  proof (cases "key < f it")
    case False
    with Suc it have "\<exists>r. upper_forward rd (<) last' key (it + 1) = Some r
        \<and> is_upper_bound f first last' key r"
      by (intro Suc.hyps(1)) auto
    with False it show ?thesis by (subst upper_forward.simps) auto
  next
    case True
    with Suc.prems assms it show ?thesis
      by (subst upper_forward.simps) (auto intro!: upper_boundI)
  qed
qed

text \<open>
  The backward loops stop on the first element or on one that is on the low side of the key;
  the neighbour to the right of where they stop is on the high side.
\<close>

lemma lower_backward_spec:
  assumes "readable rd f first last'" "sorted_range f first last'" "first < last'"
    and "first \<le> it" "it \<le> last'" "it = last' \<or> key \<le> f it"
  shows "\<exists>r. lower_backward rd (<) first key it = Some r \<and> first \<le> r \<and> r < last'
           \<and> (r = first \<or> f r < key) \<and> (r + 1 = last' \<or> key \<le> f (r + 1))"
  using assms(4-6)
proof (induction "nat (it - first)" arbitrary: it)
  case 0
  then have "it = first" by simp
  moreover have "first + 1 = last' \<or> key \<le> f (first + 1)"
    using 0 \<open>it = first\<close> assms sorted_rangeD [OF assms(2), of first "first + 1"] by force
  ultimately show ?case using assms(3) by (simp add: lower_backward.simps)
next
  case (Suc n)
  then have it: "first < it" "rd (it - 1) = Some (f (it - 1))"
    by (auto intro!: readableD [OF assms(1)])
  show ?case
  proof (cases "f (it - 1) < key")
    case True
    with Suc.prems it show ?thesis by (subst lower_backward.simps) auto
  next
    case False
    with Suc it have "\<exists>r. lower_backward rd (<) first key (it - 1) = Some r \<and> first \<le> r \<and> r < last'
           \<and> (r = first \<or> f r < key) \<and> (r + 1 = last' \<or> key \<le> f (r + 1))"
      by (intro Suc.hyps(1)) auto
    with False it show ?thesis by (subst lower_backward.simps) auto
  qed
qed

lemma upper_backward_spec:
  assumes "readable rd f first last'" "sorted_range f first last'" "first < last'"
    and "first \<le> it" "it \<le> last'" "it = last' \<or> key < f it"
  shows "\<exists>r. upper_backward rd (<) first key it = Some r \<and> first \<le> r \<and> r < last'
           \<and> (r = first \<or> f r \<le> key) \<and> (r + 1 = last' \<or> key < f (r + 1))"
  using assms(4-6)
proof (induction "nat (it - first)" arbitrary: it)
  case 0
  then have "it = first" by simp
  moreover have "first + 1 = last' \<or> key < f (first + 1)"
    using 0 \<open>it = first\<close> assms sorted_rangeD [OF assms(2), of first "first + 1"] by force
  ultimately show ?case using assms(3) by (simp add: upper_backward.simps)
next
  case (Suc n)
  then have it: "first < it" "rd (it - 1) = Some (f (it - 1))"
    by (auto intro!: readableD [OF assms(1)])
  show ?case
  proof (cases "key < f (it - 1)")
    case False
    with Suc.prems it show ?thesis by (subst upper_backward.simps) auto
  next
    case True
    with Suc it have "\<exists>r. upper_backward rd (<) first key (it - 1) = Some r \<and> first \<le> r \<and> r < last'
           \<and> (r = first \<or> f r \<le> key) \<and> (r + 1 = last' \<or> key < f (r + 1))"
      by (intro Suc.hyps(1)) auto
    with True it show ?thesis by (subst upper_backward.simps) auto
  qed
qed

subsection \<open>The two entry points\<close>

lemma linear_lower_bound_spec:
  assumes "first \<le> start" "start \<le> last'" "readable rd f first last'" "sorted_range f first last'"
  shows "\<exists>r. linear_lower_bound first last' key start rd (<) = Some r
           \<and> is_lower_bound f first last' key r"
proof (cases "first = last'")
  case True
  with assms show ?thesis by (auto simp: linear_lower_bound_def intro!: lower_boundI)
next
  case ne: False
  show ?thesis
  proof (cases "start \<noteq> last' \<and> f start < key")
    case True
    with assms have "starts_below rd (<) last' key start = Some True" by (simp add: starts_below_eq [OF assms(3)])
    with True ne lower_forward_spec [OF assms(3,4), of "start + 1" key] assms show ?thesis
      by (auto simp: linear_lower_bound_def)
  next
    case False
    with assms ne obtain r where r: "lower_backward rd (<) first key start = Some r" "first \<le> r"
        "r < last'" "r = first \<or> f r < key" "r + 1 = last' \<or> key \<le> f (r + 1)"
      using lower_backward_spec [OF assms(3,4), of start key] by force
    then have rd_r: "rd r = Some (f r)" using assms by (auto intro: readableD)
    have go: "starts_below rd (<) last' key start = Some False"
      using False assms by (simp add: starts_below_eq [OF assms(3)])
    have "is_lower_bound f first last' key (if f r < key then r + 1 else r)"
      using r assms by (intro lower_boundI) auto
    with go r(1) rd_r ne show ?thesis by (simp add: linear_lower_bound_def)
  qed
qed

lemma linear_upper_bound_spec:
  assumes "first \<le> start" "start \<le> last'" "readable rd f first last'" "sorted_range f first last'"
  shows "\<exists>r. linear_upper_bound first last' key start rd (<) = Some r
           \<and> is_upper_bound f first last' key r"
proof (cases "first = last'")
  case True
  with assms show ?thesis by (auto simp: linear_upper_bound_def intro!: upper_boundI)
next
  case ne: False
  show ?thesis
  proof (cases "start = last' \<or> key < f start")
    case False
    with assms have "starts_above rd (<) last' key start = Some False" by (simp add: starts_above_eq [OF assms(3)])
    with False ne upper_forward_spec [OF assms(3,4), of "start + 1" key] assms show ?thesis
      by (auto simp: linear_upper_bound_def)
  next
    case True
    with assms ne obtain r where r: "upper_backward rd (<) first key start = Some r" "first \<le> r"
        "r < last'" "r = first \<or> f r \<le> key" "r + 1 = last' \<or> key < f (r + 1)"
      using upper_backward_spec [OF assms(3,4), of start key] by force
    then have rd_r: "rd r = Some (f r)" using assms by (auto intro: readableD)
    have bk: "starts_above rd (<) last' key start = Some True"
      using True assms by (simp add: starts_above_eq [OF assms(3)])
    have "is_upper_bound f first last' key (if \<not> key < f r then r + 1 else r)"
      using r assms by (intro upper_boundI) auto
    with bk r(1) rd_r ne show ?thesis by (simp add: linear_upper_bound_def)
  qed
qed

interpretation linear: search_class linear_lower_bound linear_upper_bound
  by unfold_locales (blast intro: linear_lower_bound_spec linear_upper_bound_spec)+

end
