(* ===== verification/Binary_Search.thy ===== *)
theory Binary_Search
  imports Search_Base
begin

text \<open>
  \<open>BranchingBinarySearch\<close> (\<open>searches/branching_binary_search.h\<close>): one comparison at the
  predicted position decides which half is searched, and the half is searched by bisection on
  a length that is a \<open>size_t\<close>.
\<close>

text \<open>\<open>size_t len = std::distance(first, last)\<close>: a negative distance would wrap around.\<close>

definition distance_size :: "iter \<Rightarrow> iter \<Rightarrow> nat" where
  "distance_size first last' = nat ((last' - first) mod 2 ^ 64)"

lemma distance_size_eq:
  "first \<le> last' \<Longrightarrow> last' - first < 2 ^ 53 \<Longrightarrow> distance_size first last' = nat (last' - first)"
  by (simp add: distance_size_def mod_pos_pos_trivial)

fun lower_bound_loop :: "'k access \<Rightarrow> ('k \<Rightarrow> 'k \<Rightarrow> bool) \<Rightarrow> 'k \<Rightarrow> iter \<Rightarrow> nat \<Rightarrow> iter option" where
  "lower_bound_loop rd lt key first len =
     (if 0 < len then
        let half = len div 2; middle = first + int half in
        case rd middle of
          None \<Rightarrow> None
        | Some x \<Rightarrow> if lt x key then lower_bound_loop rd lt key (middle + 1) (len - half - 1)
                    else lower_bound_loop rd lt key first half
      else Some first)"

fun upper_bound_loop :: "'k access \<Rightarrow> ('k \<Rightarrow> 'k \<Rightarrow> bool) \<Rightarrow> 'k \<Rightarrow> iter \<Rightarrow> nat \<Rightarrow> iter option" where
  "upper_bound_loop rd lt key first len =
     (if 0 < len then
        let half = len div 2; middle = first + int half in
        case rd middle of
          None \<Rightarrow> None
        | Some x \<Rightarrow> if lt key x then upper_bound_loop rd lt key first half
                    else upper_bound_loop rd lt key (middle + 1) (len - half - 1)
      else Some first)"

declare lower_bound_loop.simps [simp del, search_simps] upper_bound_loop.simps [simp del, search_simps]

definition binary_lower_bound :: "'k search_fn" where
  "binary_lower_bound first last' key start rd lt =
     do {
       right \<leftarrow> starts_below rd lt last' key start;
       if right then lower_bound_loop rd lt key (start + 1) (distance_size (start + 1) last')
       else lower_bound_loop rd lt key first (distance_size first start) }"

definition binary_upper_bound :: "'k search_fn" where
  "binary_upper_bound first last' key start rd lt =
     do {
       left \<leftarrow> starts_above rd lt last' key start;
       if left then upper_bound_loop rd lt key first (distance_size first start)
       else upper_bound_loop rd lt key (start + 1) (distance_size (start + 1) last') }"

subsection \<open>Bisection\<close>

text \<open>
  The loop invariant: the element before \<open>first\<close> is on the low side, the element at
  \<open>first + len\<close> is on the high side.
\<close>

lemma lower_bound_loop_spec:
  assumes "readable rd f a b" "sorted_range f a b"
    and "a \<le> first" "first + int len \<le> b"
    and "first = a \<or> f (first - 1) < key" "first + int len = b \<or> key \<le> f (first + int len)"
  shows "\<exists>r. lower_bound_loop rd (<) key first len = Some r \<and> is_lower_bound f a b key r"
  using assms(3-6)
proof (induction len arbitrary: first rule: less_induct)
  case (less len)
  show ?case
  proof (cases "len = 0")
    case True
    then show ?thesis
      using less.prems assms by (subst lower_bound_loop.simps) (auto intro!: lower_boundI)
  next
    case False
    let ?half = "len div 2" and ?m = "first + int (len div 2)"
    from False have m: "?half < len" "a \<le> ?m" "?m < b" using less.prems by auto
    then have rd_m: "rd ?m = Some (f ?m)" using assms(1) by (auto intro: readableD)
    show ?thesis
    proof (cases "f ?m < key")
      case True
      have "\<exists>r. lower_bound_loop rd (<) key (?m + 1) (len - ?half - 1) = Some r
          \<and> is_lower_bound f a b key r"
        using m less.prems True by (intro less.IH) (auto simp: of_nat_diff algebra_simps)
      with True False rd_m show ?thesis by (subst lower_bound_loop.simps) (simp add: Let_def)
    next
      case ge: False
      have "\<exists>r. lower_bound_loop rd (<) key first ?half = Some r \<and> is_lower_bound f a b key r"
        using m less.prems ge by (intro less.IH) auto
      with ge False rd_m show ?thesis by (subst lower_bound_loop.simps) (simp add: Let_def)
    qed
  qed
qed

lemma upper_bound_loop_spec:
  assumes "readable rd f a b" "sorted_range f a b"
    and "a \<le> first" "first + int len \<le> b"
    and "first = a \<or> f (first - 1) \<le> key" "first + int len = b \<or> key < f (first + int len)"
  shows "\<exists>r. upper_bound_loop rd (<) key first len = Some r \<and> is_upper_bound f a b key r"
  using assms(3-6)
proof (induction len arbitrary: first rule: less_induct)
  case (less len)
  show ?case
  proof (cases "len = 0")
    case True
    then show ?thesis
      using less.prems assms by (subst upper_bound_loop.simps) (auto intro!: upper_boundI)
  next
    case False
    let ?half = "len div 2" and ?m = "first + int (len div 2)"
    from False have m: "?half < len" "a \<le> ?m" "?m < b" using less.prems by auto
    then have rd_m: "rd ?m = Some (f ?m)" using assms(1) by (auto intro: readableD)
    show ?thesis
    proof (cases "key < f ?m")
      case le: False
      have "\<exists>r. upper_bound_loop rd (<) key (?m + 1) (len - ?half - 1) = Some r
          \<and> is_upper_bound f a b key r"
        using m less.prems le by (intro less.IH) (auto simp: of_nat_diff algebra_simps)
      with le False rd_m show ?thesis by (subst upper_bound_loop.simps) (simp add: Let_def)
    next
      case True
      have "\<exists>r. upper_bound_loop rd (<) key first ?half = Some r \<and> is_upper_bound f a b key r"
        using m less.prems True by (intro less.IH) auto
      with True False rd_m show ?thesis by (subst upper_bound_loop.simps) (simp add: Let_def)
    qed
  qed
qed

subsection \<open>The two entry points\<close>

lemma binary_lower_bound_spec:
  assumes "first \<le> start" "start \<le> last'" "last' - first < 2 ^ 53"
    and "readable rd f first last'" "sorted_range f first last'"
  shows "\<exists>r. binary_lower_bound first last' key start rd (<) = Some r
           \<and> is_lower_bound f first last' key r"
proof (cases "start \<noteq> last' \<and> f start < key")
  case True
  then have rd_s: "starts_below rd (<) last' key start = Some True" using assms by (simp add: starts_below_eq [OF assms(4)])
  have d: "distance_size (start + 1) last' = nat (last' - (start + 1))"
    using True assms by (intro distance_size_eq) auto
  have "\<exists>r. lower_bound_loop rd (<) key (start + 1) (nat (last' - (start + 1))) = Some r
      \<and> is_lower_bound f first last' key r"
    using True assms by (intro lower_bound_loop_spec [OF assms(4,5)]) auto
  with True rd_s d show ?thesis by (simp add: binary_lower_bound_def)
next
  case False
  have right: "starts_below rd (<) last' key start = Some False"
    using False assms by (simp add: starts_below_eq [OF assms(4)])
  have d: "distance_size first start = nat (start - first)"
    using assms by (intro distance_size_eq) auto
  have "\<exists>r. lower_bound_loop rd (<) key first (nat (start - first)) = Some r
      \<and> is_lower_bound f first last' key r"
    using False assms by (intro lower_bound_loop_spec [OF assms(4,5)]) auto
  with right d show ?thesis by (simp add: binary_lower_bound_def)
qed

lemma binary_upper_bound_spec:
  assumes "first \<le> start" "start \<le> last'" "last' - first < 2 ^ 53"
    and "readable rd f first last'" "sorted_range f first last'"
  shows "\<exists>r. binary_upper_bound first last' key start rd (<) = Some r
           \<and> is_upper_bound f first last' key r"
proof (cases "start = last' \<or> key < f start")
  case False
  then have rd_s: "starts_above rd (<) last' key start = Some False" using assms by (simp add: starts_above_eq [OF assms(4)])
  have d: "distance_size (start + 1) last' = nat (last' - (start + 1))"
    using False assms by (intro distance_size_eq) auto
  have "\<exists>r. upper_bound_loop rd (<) key (start + 1) (nat (last' - (start + 1))) = Some r
      \<and> is_upper_bound f first last' key r"
    using False assms by (intro upper_bound_loop_spec [OF assms(4,5)]) auto
  with False rd_s d show ?thesis by (simp add: binary_upper_bound_def)
next
  case True
  have left: "starts_above rd (<) last' key start = Some True"
    using True assms by (simp add: starts_above_eq [OF assms(4)])
  have d: "distance_size first start = nat (start - first)"
    using assms by (intro distance_size_eq) auto
  have "\<exists>r. upper_bound_loop rd (<) key first (nat (start - first)) = Some r
      \<and> is_upper_bound f first last' key r"
    using True assms by (intro upper_bound_loop_spec [OF assms(4,5)]) auto
  with left d show ?thesis by (simp add: binary_upper_bound_def)
qed

interpretation binary: search_class binary_lower_bound binary_upper_bound
  by unfold_locales (blast intro: binary_lower_bound_spec binary_upper_bound_spec)+

end
