(* ===== verification/Exponential_Search.thy ===== *)
theory Exponential_Search
  imports Binary_Search
begin

text \<open>
  \<open>ExponentialSearch\<close> (\<open>searches/exponential_search.h\<close>): from the predicted position,
  double the step until the bound is bracketed, then run the binary search on the bracket. The
  binary search is called without the \<open>less\<close> argument, so it compares with \<open><\<close>
  whatever comparison the caller passed. The doubled \<open>bound\<close> is at most twice \<open>sz\<close>,
  half a \<open>ptrdiff_t\<close>, so the \<open>size_t\<close> never wraps; the iterators can leave the range
  (before the first or after the last element), but are then reset before they are read.
\<close>

definition half_size :: "int \<Rightarrow> nat" where
  "half_size d = nat (d div 2 mod 2 ^ 64)"

lemma half_size_eq: "0 \<le> d \<Longrightarrow> d < 2 ^ 54 \<Longrightarrow> half_size d = nat (d div 2)"
  by (simp add: half_size_def mod_pos_pos_trivial)

partial_function (option) gallop_lower_right ::
  "'k access \<Rightarrow> ('k \<Rightarrow> 'k \<Rightarrow> bool) \<Rightarrow> 'k \<Rightarrow> nat \<Rightarrow> iter \<Rightarrow> iter \<Rightarrow> nat \<Rightarrow> (iter \<times> iter \<times> nat) option" where
  "gallop_lower_right rd lt key sz l r bound =
     (if bound \<le> sz then do {
        x \<leftarrow> rd r;
        if lt x key then gallop_lower_right rd lt key sz r (r + int (2 * bound)) (2 * bound)
        else Some (l, r, bound) }
      else Some (l, r, bound))"

partial_function (option) gallop_lower_left ::
  "'k access \<Rightarrow> ('k \<Rightarrow> 'k \<Rightarrow> bool) \<Rightarrow> 'k \<Rightarrow> nat \<Rightarrow> iter \<Rightarrow> iter \<Rightarrow> nat \<Rightarrow> (iter \<times> iter \<times> nat) option" where
  "gallop_lower_left rd lt key sz l r bound =
     (if bound \<le> sz then do {
        x \<leftarrow> rd l;
        if \<not> lt x key then gallop_lower_left rd lt key sz (l - int (2 * bound)) l (2 * bound)
        else Some (l, r, bound) }
      else Some (l, r, bound))"

definition exponential_lower_bound :: "'k::linorder search_fn" where
  "exponential_lower_bound first last' key start rd lt =
     (if first = last' then Some first
      else do {
        right \<leftarrow> starts_below rd lt last' key start;
        (l, r) \<leftarrow>
          (if right then
             let sz = half_size (last' - start) in do {
               (l, r, bound) \<leftarrow> gallop_lower_right rd lt key sz start (start + 1) 1;
               Some (l + 1, if bound > sz then last' else r) }
           else
             let sz = half_size (start - first + 1) in do {
               (l, r, bound) \<leftarrow> gallop_lower_left rd lt key sz (start - 1) start 1;
               Some (if bound > sz then first else l + 1, r) });
        binary_lower_bound l r key l rd (<) })"

partial_function (option) gallop_upper_left ::
  "'k access \<Rightarrow> ('k \<Rightarrow> 'k \<Rightarrow> bool) \<Rightarrow> 'k \<Rightarrow> nat \<Rightarrow> iter \<Rightarrow> iter \<Rightarrow> nat \<Rightarrow> (iter \<times> iter \<times> nat) option" where
  "gallop_upper_left rd lt key sz l r bound =
     (if bound \<le> sz then do {
        x \<leftarrow> rd l;
        if lt key x then gallop_upper_left rd lt key sz (l - int (2 * bound)) l (2 * bound)
        else Some (l, r, bound) }
      else Some (l, r, bound))"

partial_function (option) gallop_upper_right ::
  "'k access \<Rightarrow> ('k \<Rightarrow> 'k \<Rightarrow> bool) \<Rightarrow> 'k \<Rightarrow> nat \<Rightarrow> iter \<Rightarrow> iter \<Rightarrow> nat \<Rightarrow> (iter \<times> iter \<times> nat) option" where
  "gallop_upper_right rd lt key sz l r bound =
     (if bound \<le> sz then do {
        x \<leftarrow> rd r;
        if \<not> lt key x then gallop_upper_right rd lt key sz r (r + int (2 * bound)) (2 * bound)
        else Some (l, r, bound) }
      else Some (l, r, bound))"

definition exponential_upper_bound :: "'k::linorder search_fn" where
  "exponential_upper_bound first last' key start rd lt =
     (if first = last' then Some first
      else do {
        left \<leftarrow> starts_above rd lt last' key start;
        (l, r) \<leftarrow>
          (if left then
             let sz = half_size (start - first + 1) in do {
               (l, r, bound) \<leftarrow> gallop_upper_left rd lt key sz (start - 1) start 1;
               Some (if bound > sz then first else l + 1, r) }
           else
             let sz = half_size (last' - start) in do {
               (l, r, bound) \<leftarrow> gallop_upper_right rd lt key sz start (start + 1) 1;
               Some (l + 1, if bound > sz then last' else r) });
        binary_upper_bound l r key l rd (<) })"

declare gallop_lower_right.simps [search_simps] gallop_lower_left.simps [search_simps]
  gallop_upper_left.simps [search_simps] gallop_upper_right.simps [search_simps]

subsection \<open>The galloping loops\<close>

text \<open>
  After \<open>n\<close> doublings the inner end of the bracket is \<open>bound - 1\<close> and the outer end
  \<open>2 * bound - 1\<close> away from the start; \<open>bound \<le> sz\<close> keeps the outer end inside
  the range.
\<close>

lemma gallop_lower_right_spec:
  fixes f :: "iter \<Rightarrow> 'k::linorder"
  assumes "readable rd f first last'" "first \<le> start"
    and "sz = nat ((last' - start) div 2)" "0 < bound" "l = start + int bound - 1"
    and "r = l + int bound" "l < last'" "f l < key"
  shows "\<exists>l' r' b'. gallop_lower_right rd (<) key sz l r bound = Some (l', r', b')
     \<and> first \<le> l' \<and> l' < last' \<and> f l' < key
     \<and> (sz < b' \<or> l' + 1 \<le> r' \<and> r' < last' \<and> key \<le> f r')"
  using assms(4-8)
proof (induction "Suc sz - bound" arbitrary: bound l r rule: less_induct)
  case less
  show ?case
  proof (cases "bound \<le> sz")
    case False
    with less.prems assms(2) show ?thesis by (subst gallop_lower_right.simps) (auto simp: not_less not_le)
  next
    case True
    have r: "first \<le> r" "r < last'" using True less.prems assms(2,3) by auto
    then have rd_r: "rd r = Some (f r)" using assms(1) by (auto intro: readableD)
    show ?thesis
    proof (cases "f r < key")
      case lt: True
      let ?P = "\<lambda>l r bound l' r' b'. gallop_lower_right rd (<) key sz l r bound = Some (l', r', b')
       \<and> first \<le> l' \<and> l' < last' \<and> f l' < key
       \<and> (sz < b' \<or> l' + 1 \<le> r' \<and> r' < last' \<and> key \<le> f r')"
      have "\<exists>l' r' b'. ?P r (r + int (2 * bound)) (2 * bound) l' r' b'"
        using less.prems True r lt by (intro less.hyps) (auto simp: not_less not_le)
      with True lt rd_r show ?thesis by (subst gallop_lower_right.simps) (auto simp: not_less not_le)
    next
      case False
      with True rd_r r less.prems assms(2) show ?thesis
        by (subst gallop_lower_right.simps) (auto simp: not_less not_le)
    qed
  qed
qed

lemma gallop_upper_right_spec:
  fixes f :: "iter \<Rightarrow> 'k::linorder"
  assumes "readable rd f first last'" "first \<le> start"
    and "sz = nat ((last' - start) div 2)" "0 < bound" "l = start + int bound - 1"
    and "r = l + int bound" "l < last'" "f l \<le> key"
  shows "\<exists>l' r' b'. gallop_upper_right rd (<) key sz l r bound = Some (l', r', b')
     \<and> first \<le> l' \<and> l' < last' \<and> f l' \<le> key
     \<and> (sz < b' \<or> l' + 1 \<le> r' \<and> r' < last' \<and> key < f r')"
  using assms(4-8)
proof (induction "Suc sz - bound" arbitrary: bound l r rule: less_induct)
  case less
  show ?case
  proof (cases "bound \<le> sz")
    case False
    with less.prems assms(2) show ?thesis by (subst gallop_upper_right.simps) (auto simp: not_less not_le)
  next
    case True
    have r: "first \<le> r" "r < last'" using True less.prems assms(2,3) by auto
    then have rd_r: "rd r = Some (f r)" using assms(1) by (auto intro: readableD)
    show ?thesis
    proof (cases "f r \<le> key")
      case le: True
      let ?P = "\<lambda>l r bound l' r' b'. gallop_upper_right rd (<) key sz l r bound = Some (l', r', b')
       \<and> first \<le> l' \<and> l' < last' \<and> f l' \<le> key
       \<and> (sz < b' \<or> l' + 1 \<le> r' \<and> r' < last' \<and> key < f r')"
      have "\<exists>l' r' b'. ?P r (r + int (2 * bound)) (2 * bound) l' r' b'"
        using less.prems True r le by (intro less.hyps) (auto simp: not_less not_le)
      with True le rd_r show ?thesis by (subst gallop_upper_right.simps) (auto simp: not_less not_le)
    next
      case False
      with True rd_r r less.prems assms(2) show ?thesis
        by (subst gallop_upper_right.simps) (auto simp: not_less not_le)
    qed
  qed
qed

lemma gallop_lower_left_spec:
  fixes f :: "iter \<Rightarrow> 'k::linorder"
  assumes "readable rd f first last'" "start \<le> last'"
    and "sz = nat ((start - first + 1) div 2)" "0 < bound" "l = start - 2 * int bound + 1"
    and "r = l + int bound" "first \<le> r" "r = last' \<or> key \<le> f r"
  shows "\<exists>l' r' b'. gallop_lower_left rd (<) key sz l r bound = Some (l', r', b')
     \<and> first \<le> r' \<and> r' \<le> last' \<and> (r' = last' \<or> key \<le> f r')
     \<and> (sz < b' \<or> first \<le> l' \<and> l' + 1 \<le> r' \<and> f l' < key)"
  using assms(4-8)
proof (induction "Suc sz - bound" arbitrary: bound l r rule: less_induct)
  case less
  show ?case
  proof (cases "bound \<le> sz")
    case False
    with less.prems assms(2) show ?thesis by (subst gallop_lower_left.simps) (auto simp: not_less not_le)
  next
    case True
    have l: "first \<le> l" "l < last'" using True less.prems assms(2,3) by auto
    then have rd_l: "rd l = Some (f l)" using assms(1) by (auto intro: readableD)
    show ?thesis
    proof (cases "f l < key")
      case ge: False
      let ?P = "\<lambda>l r bound l' r' b'. gallop_lower_left rd (<) key sz l r bound = Some (l', r', b')
       \<and> first \<le> r' \<and> r' \<le> last' \<and> (r' = last' \<or> key \<le> f r')
       \<and> (sz < b' \<or> first \<le> l' \<and> l' + 1 \<le> r' \<and> f l' < key)"
      have "\<exists>l' r' b'. ?P (l - int (2 * bound)) l (2 * bound) l' r' b'"
        using less.prems True l ge by (intro less.hyps) (auto simp: not_less not_le)
      with True ge rd_l show ?thesis by (subst gallop_lower_left.simps) (auto simp: not_less not_le)
    next
      case lt: True
      with True rd_l l less.prems assms(2) show ?thesis
        by (subst gallop_lower_left.simps) (auto simp: not_less not_le)
    qed
  qed
qed

lemma gallop_upper_left_spec:
  fixes f :: "iter \<Rightarrow> 'k::linorder"
  assumes "readable rd f first last'" "start \<le> last'"
    and "sz = nat ((start - first + 1) div 2)" "0 < bound" "l = start - 2 * int bound + 1"
    and "r = l + int bound" "first \<le> r" "r = last' \<or> key < f r"
  shows "\<exists>l' r' b'. gallop_upper_left rd (<) key sz l r bound = Some (l', r', b')
     \<and> first \<le> r' \<and> r' \<le> last' \<and> (r' = last' \<or> key < f r')
     \<and> (sz < b' \<or> first \<le> l' \<and> l' + 1 \<le> r' \<and> f l' \<le> key)"
  using assms(4-8)
proof (induction "Suc sz - bound" arbitrary: bound l r rule: less_induct)
  case less
  show ?case
  proof (cases "bound \<le> sz")
    case False
    with less.prems assms(2) show ?thesis by (subst gallop_upper_left.simps) (auto simp: not_less not_le)
  next
    case True
    have l: "first \<le> l" "l < last'" using True less.prems assms(2,3) by auto
    then have rd_l: "rd l = Some (f l)" using assms(1) by (auto intro: readableD)
    show ?thesis
    proof (cases "f l \<le> key")
      case gt: False
      let ?P = "\<lambda>l r bound l' r' b'. gallop_upper_left rd (<) key sz l r bound = Some (l', r', b')
       \<and> first \<le> r' \<and> r' \<le> last' \<and> (r' = last' \<or> key < f r')
       \<and> (sz < b' \<or> first \<le> l' \<and> l' + 1 \<le> r' \<and> f l' \<le> key)"
      have "\<exists>l' r' b'. ?P (l - int (2 * bound)) l (2 * bound) l' r' b'"
        using less.prems True l gt by (intro less.hyps) (auto simp: not_less not_le)
      with True gt rd_l show ?thesis by (subst gallop_upper_left.simps) (auto simp: not_less not_le)
    next
      case le: True
      with True rd_l l less.prems assms(2) show ?thesis
        by (subst gallop_upper_left.simps) (auto simp: not_less not_le)
    qed
  qed
qed

subsection \<open>The two entry points\<close>

text \<open>The bracket handed to the binary search has the bound of the whole range inside.\<close>

lemma binary_lower_bracket:
  assumes "readable rd f first last'" "sorted_range f first last'" "last' - first < 2 ^ 53"
    and "first \<le> l" "l \<le> r" "r \<le> last'"
    and "l = first \<or> f (l - 1) < key" "r = last' \<or> key \<le> f r"
  shows "\<exists>p. binary_lower_bound l r key l rd (<) = Some p \<and> is_lower_bound f first last' key p"
proof -
  obtain p where p: "binary_lower_bound l r key l rd (<) = Some p" "is_lower_bound f l r key p"
    using binary_lower_bound_spec [of l l r rd f key] assms(3-6) readable_mono [OF assms(1,4,6)]
      sorted_range_mono [OF assms(2,4,6)] by auto
  have "l \<le> p" "p \<le> r" "p = l \<or> f (p - 1) < key" "p = r \<or> key \<le> f p"
    using lower_boundD [OF p(2)] by auto
  then have "is_lower_bound f first last' key p"
    using assms by (intro lower_boundI) auto
  with p(1) show ?thesis by blast
qed

lemma binary_upper_bracket:
  assumes "readable rd f first last'" "sorted_range f first last'" "last' - first < 2 ^ 53"
    and "first \<le> l" "l \<le> r" "r \<le> last'"
    and "l = first \<or> f (l - 1) \<le> key" "r = last' \<or> key < f r"
  shows "\<exists>p. binary_upper_bound l r key l rd (<) = Some p \<and> is_upper_bound f first last' key p"
proof -
  obtain p where p: "binary_upper_bound l r key l rd (<) = Some p" "is_upper_bound f l r key p"
    using binary_upper_bound_spec [of l l r rd f key] assms(3-6) readable_mono [OF assms(1,4,6)]
      sorted_range_mono [OF assms(2,4,6)] by auto
  have "l \<le> p" "p \<le> r" "p = l \<or> f (p - 1) \<le> key" "p = r \<or> key < f p"
    using upper_boundD [OF p(2)] by auto
  then have "is_upper_bound f first last' key p"
    using assms by (intro upper_boundI) auto
  with p(1) show ?thesis by blast
qed

lemma exponential_lower_bound_spec:
  assumes "first \<le> start" "start \<le> last'" "last' - first < 2 ^ 53"
    and "readable rd f first last'" "sorted_range f first last'"
  shows "\<exists>r. exponential_lower_bound first last' key start rd (<) = Some r
           \<and> is_lower_bound f first last' key r"
proof (cases "first = last'")
  case True
  with assms show ?thesis by (auto simp: exponential_lower_bound_def intro!: lower_boundI)
next
  case ne: False
  show ?thesis
  proof (cases "start \<noteq> last' \<and> f start < key")
    case True
    then have rd_s: "starts_below rd (<) last' key start = Some True" using assms by (simp add: starts_below_eq [OF assms(4)])
    let ?sz = "half_size (last' - start)"
    have sz: "?sz = nat ((last' - start) div 2)" using assms by (intro half_size_eq) auto
    have "\<exists>l r b. gallop_lower_right rd (<) key ?sz start (start + 1) 1 = Some (l, r, b)
        \<and> first \<le> l \<and> l < last' \<and> f l < key \<and> (?sz < b \<or> l + 1 \<le> r \<and> r < last' \<and> key \<le> f r)"
      by (rule gallop_lower_right_spec [OF assms(4,1) sz]) (use True assms(2) in \<open>simp_all\<close>)
    then obtain l r b where g: "gallop_lower_right rd (<) key ?sz start (start + 1) 1 = Some (l, r, b)"
        "first \<le> l" "l < last'" "f l < key" "?sz < b \<or> l + 1 \<le> r \<and> r < last' \<and> key \<le> f r" by blast
    define r2 where "r2 = (if ?sz < b then last' else r)"
    have "\<exists>p. binary_lower_bound (l + 1) r2 key (l + 1) rd (<) = Some p
        \<and> is_lower_bound f first last' key p"
      using g(2-5) assms(1,2) by (intro binary_lower_bracket [OF assms(4,5,3)]) (auto simp: r2_def)
    moreover have "exponential_lower_bound first last' key start rd (<) = binary_lower_bound (l + 1) r2 key (l + 1) rd (<)"
      using ne by (simp only: exponential_lower_bound_def rd_s g(1) Let_def r2_def if_True if_False bind.simps prod.case)
    ultimately show ?thesis by simp
  next
    case False
    have right: "starts_below rd (<) last' key start = Some False"
      using False assms by (simp add: starts_below_eq [OF assms(4)])
    let ?sz = "half_size (start - first + 1)"
    have sz: "?sz = nat ((start - first + 1) div 2)" using assms by (intro half_size_eq) auto
    obtain l r b where g: "gallop_lower_left rd (<) key ?sz (start - 1) start 1 = Some (l, r, b)"
        "first \<le> r" "r \<le> last'" "r = last' \<or> key \<le> f r" "?sz < b \<or> first \<le> l \<and> l + 1 \<le> r \<and> f l < key"
      using gallop_lower_left_spec [OF assms(4,2) sz, of 1 "start - 1" start key] False assms(1) by (auto simp: not_less)
    define l2 where "l2 = (if ?sz < b then first else l + 1)"
    have "\<exists>p. binary_lower_bound l2 r key l2 rd (<) = Some p \<and> is_lower_bound f first last' key p"
      using g(2-5) assms(1,2) by (intro binary_lower_bracket [OF assms(4,5,3)]) (auto simp: l2_def)
    moreover have "exponential_lower_bound first last' key start rd (<) = binary_lower_bound l2 r key l2 rd (<)"
      using ne by (simp only: exponential_lower_bound_def right g(1) Let_def l2_def if_False bind.simps prod.case)
    ultimately show ?thesis by simp
  qed
qed

lemma exponential_upper_bound_spec:
  assumes "first \<le> start" "start \<le> last'" "last' - first < 2 ^ 53"
    and "readable rd f first last'" "sorted_range f first last'"
  shows "\<exists>r. exponential_upper_bound first last' key start rd (<) = Some r
           \<and> is_upper_bound f first last' key r"
proof (cases "first = last'")
  case True
  with assms show ?thesis by (auto simp: exponential_upper_bound_def intro!: upper_boundI)
next
  case ne: False
  show ?thesis
  proof (cases "start = last' \<or> key < f start")
    case False
    then have rd_s: "starts_above rd (<) last' key start = Some False" using assms by (simp add: starts_above_eq [OF assms(4)])
    let ?sz = "half_size (last' - start)"
    have sz: "?sz = nat ((last' - start) div 2)" using assms by (intro half_size_eq) auto
    have "\<exists>l r b. gallop_upper_right rd (<) key ?sz start (start + 1) 1 = Some (l, r, b)
        \<and> first \<le> l \<and> l < last' \<and> f l \<le> key \<and> (?sz < b \<or> l + 1 \<le> r \<and> r < last' \<and> key < f r)"
      by (rule gallop_upper_right_spec [OF assms(4,1) sz]) (use False assms(2) in \<open>simp_all add: not_less\<close>)
    then obtain l r b where g: "gallop_upper_right rd (<) key ?sz start (start + 1) 1 = Some (l, r, b)"
        "first \<le> l" "l < last'" "f l \<le> key" "?sz < b \<or> l + 1 \<le> r \<and> r < last' \<and> key < f r" by blast
    define r2 where "r2 = (if ?sz < b then last' else r)"
    have "\<exists>p. binary_upper_bound (l + 1) r2 key (l + 1) rd (<) = Some p
        \<and> is_upper_bound f first last' key p"
      using g(2-5) assms(1,2) by (intro binary_upper_bracket [OF assms(4,5,3)]) (auto simp: r2_def)
    moreover have "exponential_upper_bound first last' key start rd (<) = binary_upper_bound (l + 1) r2 key (l + 1) rd (<)"
      using ne by (simp only: exponential_upper_bound_def rd_s g(1) Let_def r2_def if_True if_False bind.simps prod.case)
    ultimately show ?thesis by simp
  next
    case True
    have left: "starts_above rd (<) last' key start = Some True"
      using True assms by (simp add: starts_above_eq [OF assms(4)])
    let ?sz = "half_size (start - first + 1)"
    have sz: "?sz = nat ((start - first + 1) div 2)" using assms by (intro half_size_eq) auto
    obtain l r b where g: "gallop_upper_left rd (<) key ?sz (start - 1) start 1 = Some (l, r, b)"
        "first \<le> r" "r \<le> last'" "r = last' \<or> key < f r" "?sz < b \<or> first \<le> l \<and> l + 1 \<le> r \<and> f l \<le> key"
      using gallop_upper_left_spec [OF assms(4,2) sz, of 1 "start - 1" start key] True assms(1) by (auto simp: not_less)
    define l2 where "l2 = (if ?sz < b then first else l + 1)"
    have "\<exists>p. binary_upper_bound l2 r key l2 rd (<) = Some p \<and> is_upper_bound f first last' key p"
      using g(2-5) assms(1,2) by (intro binary_upper_bracket [OF assms(4,5,3)]) (auto simp: l2_def)
    moreover have "exponential_upper_bound first last' key start rd (<) = binary_upper_bound l2 r key l2 rd (<)"
      using ne by (simp only: exponential_upper_bound_def left g(1) Let_def l2_def if_True if_False bind.simps prod.case)
    ultimately show ?thesis by simp
  qed
qed

interpretation exponential: search_class exponential_lower_bound exponential_upper_bound
  by unfold_locales (blast intro: exponential_lower_bound_spec exponential_upper_bound_spec)+

end
