(* ===== verification/Floats.thy ===== *)
theory Floats
  imports Prelude "HOL-Library.Log_Nat"
begin

text \<open>
  The floating-point arithmetic the learned models compute with. A floating-point value is the
  rational number it stands for, and an operation is the exact rational operation followed by
  rounding to nearest, ties to even, at the precision of the format: 53 bits for \<open>double\<close>
  (SSE arithmetic of x86-64) and 64 bits for \<open>long double\<close> (the x87 format). The exponent
  range is not modelled: the values the indexes form from 64-bit keys stay between
  \<open>2\<close> to the \<open>-80\<close> and \<open>2\<close> to the \<open>160\<close>, far inside both formats. A division by
  zero, which gives an infinity or a NaN in the code, is written out where it can happen.
\<close>

subsection \<open>Rounding a rational to an integer\<close>

definition round_half_even :: "rat \<Rightarrow> int" where
  "round_half_even x =
     (let f = \<lfloor>x\<rfloor>; d = x - of_int f in
      if d < 1/2 then f else if 1/2 < d then f + 1 else if even f then f else f + 1)"

lemma round_half_even_bounds: "\<lfloor>x\<rfloor> \<le> round_half_even x" "round_half_even x \<le> \<lfloor>x\<rfloor> + 1"
  by (simp_all add: round_half_even_def Let_def)

lemma round_half_even_of_int [simp]: "round_half_even (of_int n) = n"
  by (simp add: round_half_even_def)

lemma round_half_even_mono:
  assumes "x \<le> y"
  shows "round_half_even x \<le> round_half_even y"
proof (cases "\<lfloor>x\<rfloor> = \<lfloor>y\<rfloor>")
  case True
  with assms show ?thesis by (auto simp: round_half_even_def Let_def)
next
  case False
  with assms have "\<lfloor>x\<rfloor> + 1 \<le> \<lfloor>y\<rfloor>" using floor_mono [OF assms] by linarith
  then show ?thesis using round_half_even_bounds [of x] round_half_even_bounds [of y] by linarith
qed

lemma round_half_even_error: "\<bar>of_int (round_half_even x) - x\<bar> \<le> 1/2"
proof -
  have "of_int \<lfloor>x\<rfloor> \<le> x" "x < of_int \<lfloor>x\<rfloor> + 1" by linarith+
  then show ?thesis by (auto simp: round_half_even_def Let_def)
qed

subsection \<open>The binary exponent\<close>

definition ilog2 :: "rat \<Rightarrow> int" where
  "ilog2 x = (let (n, d) = quotient_of x; e = bitlen n - bitlen d in
              if 2 powi e \<le> x then e else e - 1)"

lemma ilog2_bounds:
  assumes "0 < x"
  shows "2 powi ilog2 x \<le> x" and "x < 2 powi (ilog2 x + 1)"
proof -
  obtain n d where q: "quotient_of x = (n, d)" by fastforce
  then have d: "0 < d" and x: "x = of_int n / of_int d"
    by (auto dest: quotient_of_denom_pos quotient_of_div)
  with assms have n: "0 < n" by (simp add: zero_less_divide_iff)
  define a b where "a = bitlen n" and "b = bitlen d"
  have pos: "1 \<le> a" "1 \<le> b"
    using n d by (auto simp: a_def b_def bitlen_def floorlog_def)
  have nb: "(2::rat) powi (a - 1) \<le> of_int n" "of_int n < (2::rat) powi a"
    using bitlen_bounds [OF n] pos by (auto simp: a_def power_int_def simp flip: of_int_power of_int_le_iff of_int_less_iff)
  have db: "(2::rat) powi (b - 1) \<le> of_int d" "of_int d < (2::rat) powi b"
    using bitlen_bounds [OF d] pos by (auto simp: b_def power_int_def simp flip: of_int_power of_int_le_iff of_int_less_iff)
  have "2 powi (a - 1) / (2 powi b :: rat) \<le> x"
    using nb db d n unfolding x by (intro frac_le) (auto simp: order.strict_implies_order)
  then have lo: "2 powi (a - b - 1) \<le> x"
    by (simp add: power_int_diff power_int_add field_simps)
  have "x < 2 powi a / 2 powi (b - 1)"
    using nb db d n unfolding x by (intro frac_less) auto
  then have hi: "x < 2 powi (a - b + 1)"
    by (simp add: power_int_diff power_int_add field_simps)
  show "2 powi ilog2 x \<le> x" "x < 2 powi (ilog2 x + 1)"
    using lo hi by (auto simp: ilog2_def q a_def b_def Let_def not_le)
qed

lemma ilog2_less: "0 < x \<Longrightarrow> x < 2 powi k \<Longrightarrow> ilog2 x < k"
  using ilog2_bounds(1) [of x] by (meson le_less_trans less_le_not_le linorder_not_le power_int_increasing one_le_numeral)

lemma ilog2_mono: "0 < x \<Longrightarrow> x \<le> y \<Longrightarrow> ilog2 x \<le> ilog2 y"
  using ilog2_less [of x "ilog2 y + 1"] ilog2_bounds(2) [of y] by force

subsection \<open>Rounding to a precision\<close>

definition ulp :: "nat \<Rightarrow> rat \<Rightarrow> rat" where
  "ulp p x = 2 powi (ilog2 x - int p + 1)"

definition round_pos :: "nat \<Rightarrow> rat \<Rightarrow> rat" where
  "round_pos p x = (if x \<le> 0 then 0 else of_int (round_half_even (x / ulp p x)) * ulp p x)"

definition fl :: "nat \<Rightarrow> rat \<Rightarrow> rat" where
  "fl p x = (if x < 0 then - round_pos p (- x) else round_pos p x)"

abbreviation dbl :: "rat \<Rightarrow> rat" where "dbl \<equiv> fl 53"
abbreviation ldbl :: "rat \<Rightarrow> rat" where "ldbl \<equiv> fl 64"

lemma ulp_pos [simp]: "0 < ulp p x"
  by (simp add: ulp_def)

lemma round_pos_nonneg: "0 \<le> round_pos p x"
proof (cases "x \<le> 0")
  case False
  then have "round_half_even 0 \<le> round_half_even (x / ulp p x)"
    by (intro round_half_even_mono) (simp add: order.strict_implies_order)
  moreover have "round_half_even 0 = 0" using round_half_even_of_int [of 0] by simp
  ultimately show ?thesis by (simp add: round_pos_def order.strict_implies_order)
qed (simp add: round_pos_def)

text \<open>A power of two that is one of the two ends of a binade is not moved.\<close>

lemma round_pos_below:
  assumes "0 < x" "1 \<le> p"
  shows "round_pos p x \<le> 2 powi (ilog2 x + 1)" and "2 powi ilog2 x \<le> round_pos p x"
proof -
  have up: "2 powi (ilog2 x + 1) = of_int (2 ^ p) * ulp p x"
    by (simp add: ulp_def power_int_add power_int_diff)
  have lo: "2 powi (ilog2 x) = of_int (2 ^ (p - 1)) * ulp p x"
    using assms(2) by (cases p) (simp_all add: ulp_def power_int_add power_int_diff)
  have "x / ulp p x \<le> of_int (2 ^ p)"
    using ilog2_bounds(2) [OF assms(1)] unfolding up by (simp add: pos_divide_le_eq order.strict_implies_order)
  from round_half_even_mono [OF this] have "round_half_even (x / ulp p x) \<le> 2 ^ p" by (simp only: round_half_even_of_int)
  then show "round_pos p x \<le> 2 powi (ilog2 x + 1)"
    using assms(1) unfolding up by (auto simp: round_pos_def simp del: of_int_power intro!: mult_right_mono order.strict_implies_order)
  have "of_int (2 ^ (p - 1)) \<le> x / ulp p x"
    using ilog2_bounds(1) [OF assms(1)] unfolding lo by (simp add: pos_le_divide_eq)
  from round_half_even_mono [OF this] have "2 ^ (p - 1) \<le> round_half_even (x / ulp p x)" by (simp only: round_half_even_of_int)
  then show "2 powi ilog2 x \<le> round_pos p x"
    using assms(1) unfolding lo by (auto simp: round_pos_def simp del: of_int_power intro!: mult_right_mono order.strict_implies_order)
qed

lemma round_pos_mono:
  assumes "x \<le> y" "1 \<le> p"
  shows "round_pos p x \<le> round_pos p y"
proof (cases "0 < x")
  case False
  then show ?thesis using round_pos_nonneg by (simp add: round_pos_def)
next
  case x: True
  with assms have y: "0 < y" by simp
  show ?thesis
  proof (cases "ilog2 x = ilog2 y")
    case True
    then have u: "ulp p x = ulp p y" by (simp add: ulp_def)
    have "round_half_even (x / ulp p x) \<le> round_half_even (y / ulp p y)"
      using assms(1) unfolding u by (intro round_half_even_mono divide_right_mono) (simp_all add: order.strict_implies_order)
    then show ?thesis using x y u
      by (simp add: round_pos_def mult_right_mono order.strict_implies_order)
  next
    case False
    with ilog2_mono [OF x assms(1)] have "ilog2 x + 1 \<le> ilog2 y" by simp
    then have "(2::rat) powi (ilog2 x + 1) \<le> 2 powi ilog2 y" by (intro power_int_increasing) auto
    with round_pos_below(1) [OF x assms(2)] round_pos_below(2) [OF y assms(2)] show ?thesis by linarith
  qed
qed

lemma fl_mono: "x \<le> y \<Longrightarrow> 1 \<le> p \<Longrightarrow> fl p x \<le> fl p y"
  using round_pos_mono [of x y p] round_pos_mono [of "- y" "- x" p] round_pos_nonneg [of p y]
    round_pos_nonneg [of p "- x"] by (auto simp: fl_def)

lemma fl_zero [simp]: "fl p 0 = 0"
  by (simp add: fl_def round_pos_def)

lemma fl_nonneg: "0 \<le> x \<Longrightarrow> 0 \<le> fl p x"
  by (simp add: fl_def round_pos_nonneg)

lemma fl_nonpos: "x \<le> 0 \<Longrightarrow> fl p x \<le> 0"
  using round_pos_nonneg [of p "- x"] by (auto simp: fl_def round_pos_def)

text \<open>The relative error of one rounding is at most half a unit in the last place.\<close>

lemma round_pos_error:
  assumes "0 < x"
  shows "\<bar>round_pos p x - x\<bar> \<le> x / 2 ^ p"
proof -
  let ?u = "ulp p x"
  have "round_pos p x - x = (of_int (round_half_even (x / ?u)) - x / ?u) * ?u"
    using assms by (simp add: round_pos_def algebra_simps less_imp_neq [OF ulp_pos, symmetric])
  then have "\<bar>round_pos p x - x\<bar> = \<bar>of_int (round_half_even (x / ?u)) - x / ?u\<bar> * ?u"
    by (simp add: abs_mult order.strict_implies_order)
  also have "\<dots> \<le> 1/2 * ?u"
    using round_half_even_error by (intro mult_right_mono) (auto simp: order.strict_implies_order)
  also have "1/2 * ?u = 2 powi ilog2 x / 2 ^ p"
    by (simp add: ulp_def power_int_add power_int_diff)
  also have "\<dots> \<le> x / 2 ^ p"
    using ilog2_bounds(1) [OF assms] by (intro divide_right_mono) auto
  finally show ?thesis .
qed

lemma fl_error: "\<bar>fl p x - x\<bar> \<le> \<bar>x\<bar> / 2 ^ p"
proof -
  consider "x = 0" | "0 < x" | "x < 0" by linarith
  then show ?thesis
  proof cases
    case 2
    then show ?thesis using round_pos_error [of x p] by (simp add: fl_def)
  next
    case 3
    then show ?thesis using round_pos_error [of "- x" p] by (simp add: fl_def abs_if split: if_splits)
  qed simp
qed

text \<open>What the format can represent is not changed.\<close>

lemma fl_exact:
  assumes "\<bar>m\<bar> < 2 ^ p"
  shows "fl p (of_int m * 2 powi k) = of_int m * 2 powi k"
proof -
  have pos: "round_pos p (of_int m * 2 powi k) = of_int m * 2 powi k" if m: "0 < m" "m < 2 ^ p" for m
  proof -
    let ?x = "of_int m * (2::rat) powi k"
    have x: "0 < ?x" using m by simp
    have "of_int m < (2::rat) ^ p" using m(2) by (metis of_int_less_iff of_int_numeral of_int_power)
    then have "?x < 2 powi (int p + k)" by (simp add: power_int_add)
    then have "ilog2 ?x < int p + k" using x by (intro ilog2_less)
    then have e: "0 \<le> k - (ilog2 ?x - int p + 1)" by simp
    have "?x / ulp p ?x = of_int m * 2 powi (k - (ilog2 ?x - int p + 1))"
      by (simp add: ulp_def power_int_diff)
    also have "\<dots> = of_int (m * 2 ^ nat (k - (ilog2 ?x - int p + 1)))"
      using e by (simp add: power_int_def)
    finally have "of_int (round_half_even (?x / ulp p ?x)) = ?x / ulp p ?x"
      by (simp only: round_half_even_of_int)
    then show ?thesis using x by (simp add: round_pos_def less_imp_neq [OF ulp_pos, symmetric])
  qed
  consider "m = 0" | "0 < m" | "m < 0" by linarith
  then show ?thesis
  proof cases
    case 2
    then have "\<not> of_int m * (2::rat) powi k < 0" by (simp add: not_less)
    then show ?thesis using pos [of m] assms 2 by (simp only: fl_def if_False)
  next
    case 3
    then have "of_int m * (2::rat) powi k < 0" by (simp add: mult_neg_pos)
    then show ?thesis using pos [of "- m"] assms 3 by (simp only: fl_def if_True) simp
  qed simp
qed

lemma fl_of_int: "\<bar>m\<bar> < 2 ^ p \<Longrightarrow> fl p (of_int m) = of_int m"
  using fl_exact [of m p 0] by simp

lemma fl_of_nat: "n < 2 ^ p \<Longrightarrow> fl p (of_nat n) = of_nat n"
  using fl_of_int [of "int n" p] by simp

subsection \<open>Conversion to an integer\<close>

text \<open>A C conversion from a floating-point number to an integer truncates; \<open>std::round\<close> rounds halves away from zero.\<close>

definition trunc :: "rat \<Rightarrow> int" where
  "trunc x = (if x < 0 then - \<lfloor>- x\<rfloor> else \<lfloor>x\<rfloor>)"

definition round_away :: "rat \<Rightarrow> int" where
  "round_away x = (if x < 0 then - \<lfloor>- x + 1/2\<rfloor> else \<lfloor>x + 1/2\<rfloor>)"

lemma trunc_nonneg: "0 \<le> x \<Longrightarrow> 0 \<le> trunc x"
  by (simp add: trunc_def)

lemma trunc_bounds: "0 \<le> x \<Longrightarrow> of_int (trunc x) \<le> x \<and> x < of_int (trunc x) + 1"
  using floor_correct [of x] by (simp add: trunc_def)

lemma trunc_mono:
  assumes "x \<le> y"
  shows "trunc x \<le> trunc y"
proof -
  consider "y < 0" | "x < 0" "0 \<le> y" | "0 \<le> x" by linarith
  then show ?thesis
  proof cases
    case 1
    then have "x < 0" "\<lfloor>- y\<rfloor> \<le> \<lfloor>- x\<rfloor>" using assms by (simp_all add: floor_mono)
    then show ?thesis using 1 by (simp add: trunc_def)
  next
    case 2
    then have "0 \<le> \<lfloor>- x\<rfloor>" "0 \<le> \<lfloor>y\<rfloor>" by (simp_all only: zero_le_floor neg_0_le_iff_le less_imp_le)
    then have "- \<lfloor>- x\<rfloor> \<le> \<lfloor>y\<rfloor>" by linarith
    then show ?thesis unfolding trunc_def using 2 by simp
  next
    case 3
    then have "0 \<le> y" "\<lfloor>x\<rfloor> \<le> \<lfloor>y\<rfloor>" using assms by (simp_all add: floor_mono)
    then show ?thesis using 3 by (simp add: trunc_def)
  qed
qed

lemma round_away_of_int [simp]: "round_away (of_int n) = n"
proof -
  have "\<lfloor>of_int n + 1/2 :: rat\<rfloor> = n" "\<lfloor>- of_int n + 1/2 :: rat\<rfloor> = - n" by (rule floor_unique; simp)+
  then show ?thesis by (simp add: round_away_def)
qed

lemma round_away_bounds: "of_int (round_away x) \<le> x + 1/2" "x \<le> of_int (round_away x) + 1/2"
proof -
  have "of_int (round_away x) \<le> x + 1/2 \<and> x \<le> of_int (round_away x) + 1/2"
  proof (cases "x < 0")
    case True
    then have e: "(of_int (round_away x) :: rat) = - of_int \<lfloor>- x + 1/2\<rfloor>" unfolding round_away_def by (simp only: if_True of_int_minus)
    show ?thesis unfolding e using of_int_floor_le [of "- x + 1/2"] floor_less_iff [of "- x + 1/2" "\<lfloor>- x + 1/2\<rfloor> + 1"] by linarith
  next
    case False
    then have e: "(of_int (round_away x) :: rat) = of_int \<lfloor>x + 1/2\<rfloor>" unfolding round_away_def by (simp only: if_False)
    show ?thesis unfolding e using of_int_floor_le [of "x + 1/2"] floor_less_iff [of "x + 1/2" "\<lfloor>x + 1/2\<rfloor> + 1"] by linarith
  qed
  then show "of_int (round_away x) \<le> x + 1/2" "x \<le> of_int (round_away x) + 1/2" by blast+
qed

subsection \<open>Evaluation\<close>

text \<open>
  Evaluating a rounding by the definition recomputes the rational at every use. These equations
  round the quotient of two integers with integer arithmetic.
\<close>

definition round_frac :: "int \<Rightarrow> int \<Rightarrow> int" where
  "round_frac n d =
     (let q = n div d; r = 2 * (n mod d) in
      if r < d then q else if d < r then q + 1 else if even q then q else q + 1)"

definition scaled :: "int \<Rightarrow> int \<Rightarrow> rat" where
  "scaled m s = (if 0 \<le> s then of_int (m * 2 ^ nat s) else Fract m (2 ^ nat (- s)))"

definition round_quot :: "nat \<Rightarrow> int \<Rightarrow> int \<Rightarrow> rat" where
  "round_quot p n d =
     (let e = bitlen n - bitlen d;
          l = (if 0 \<le> e then if 2 ^ nat e * d \<le> n then e else e - 1
               else if d \<le> n * 2 ^ nat (- e) then e else e - 1);
          s = l - int p + 1 in
      scaled (if 0 \<le> s then round_frac n (d * 2 ^ nat s) else round_frac (n * 2 ^ nat (- s)) d) s)"

lemma powi_nat: "(2::rat) powi s = (if 0 \<le> s then of_int (2 ^ nat s) else 1 / of_int (2 ^ nat (- s)))"
  by (simp add: power_int_def power_one_over)

lemma scaled_eq: "scaled m s = of_int m * 2 powi s"
  by (simp add: scaled_def powi_nat Fract_of_int_quotient)

lemma round_frac_eq:
  assumes "0 < d"
  shows "round_half_even (of_int n / of_int d) = round_frac n d"
proof -
  have f: "\<lfloor>of_int n / of_int d :: rat\<rfloor> = n div d" by (simp add: floor_divide_of_int_eq)
  have "of_int n = (of_int (n div d) * of_int d + of_int (n mod d) :: rat)"
    by (metis div_mult_mod_eq of_int_add of_int_mult)
  then have r: "of_int n / of_int d - of_int (n div d) = (of_int (n mod d) / of_int d :: rat)"
    using assms by (simp add: field_simps)
  have "of_int (n mod d) / of_int d < (1 / 2 :: rat) \<longleftrightarrow> of_int (2 * (n mod d)) < (of_int d :: rat)"
    "1 / 2 < (of_int (n mod d) / of_int d :: rat) \<longleftrightarrow> (of_int d :: rat) < of_int (2 * (n mod d))"
    using assms by (simp_all add: field_simps)
  then show ?thesis
    unfolding round_half_even_def round_frac_def Let_def f r of_int_less_iff by (simp only:)
qed

lemma le_quot_powi:
  assumes "0 < d"
  shows "2 powi e \<le> (of_int n / of_int d :: rat)
     \<longleftrightarrow> (if 0 \<le> e then 2 ^ nat e * d \<le> n else d \<le> n * 2 ^ nat (- e))"
proof -
  have "2 ^ nat e * of_int d \<le> (of_int n :: rat) \<longleftrightarrow> 2 ^ nat e * d \<le> n"
    by (metis of_int_le_iff of_int_mult of_int_numeral of_int_power)
  moreover have "of_int d \<le> (of_int n * 2 ^ nat (- e) :: rat) \<longleftrightarrow> d \<le> n * 2 ^ nat (- e)"
    by (metis of_int_le_iff of_int_mult of_int_numeral of_int_power)
  ultimately show ?thesis using assms by (simp add: powi_nat field_simps)
qed

lemma round_pos_quot:
  assumes "0 < x" "quotient_of x = (n, d)"
  shows "round_pos p x = round_quot p n d"
proof -
  have d: "0 < d" and x: "x = of_int n / of_int d"
    using assms(2) by (auto dest: quotient_of_denom_pos quotient_of_div)
  define s where "s = ilog2 x - int p + 1"
  have "x / 2 powi s = (if 0 \<le> s then of_int n / of_int (d * 2 ^ nat s) else of_int (n * 2 ^ nat (- s)) / of_int d)"
    by (simp add: x powi_nat)
  then have "round_half_even (x / 2 powi s)
      = (if 0 \<le> s then round_frac n (d * 2 ^ nat s) else round_frac (n * 2 ^ nat (- s)) d)"
    using d by (cases "0 \<le> s") (simp_all only: if_True if_False, simp_all only: round_frac_eq
      zero_less_mult_iff zero_less_power zero_less_numeral simp_thms)
  then have "round_pos p x = scaled (if 0 \<le> s then round_frac n (d * 2 ^ nat s) else round_frac (n * 2 ^ nat (- s)) d) s"
    using assms(1) by (simp add: round_pos_def ulp_def s_def scaled_eq)
  moreover have "ilog2 x = (let e = bitlen n - bitlen d in if 0 \<le> e then if 2 ^ nat e * d \<le> n then e else e - 1
               else if d \<le> n * 2 ^ nat (- e) then e else e - 1)"
    unfolding ilog2_def assms(2) Let_def prod.case unfolding x le_quot_powi [OF d] by simp
  ultimately show ?thesis by (simp add: round_quot_def Let_def s_def)
qed

lemma fl_code [code]:
  "fl p x = (let (n, d) = quotient_of x in
     if n = 0 then 0 else if n < 0 then - round_quot p (- n) d else round_quot p n d)"
proof -
  obtain n d where q: "quotient_of x = (n, d)" by fastforce
  then have d: "0 < d" and x: "x = of_int n / of_int d"
    by (auto dest: quotient_of_denom_pos quotient_of_div)
  consider "n = 0" | "n < 0" | "0 < n" by linarith
  then show ?thesis
  proof cases
    case 1
    then show ?thesis using x q by simp
  next
    case 2
    then have "x < 0" using x d by (simp add: divide_neg_pos)
    moreover have "quotient_of (- x) = (- n, d)" using q by (simp add: rat_uminus_code)
    ultimately show ?thesis using round_pos_quot [of "- x" "- n" d p] q 2 by (simp add: fl_def)
  next
    case 3
    then have "0 < x" using x d by simp
    then show ?thesis using round_pos_quot [OF _ q, of p] q 3 by (simp add: fl_def)
  qed
qed

end
