(* ===== verification/Interpolation_Search.thy ===== *)
theory Interpolation_Search
  imports Search_Base Floats
begin

text \<open>
  \<open>InterpolationSearch\<close> (\<open>searches/interpolation_search.h\<close>) on 64-bit keys: the next
  probe is computed from the keys at the two ends, in \<open>double\<close>. The class takes a
  \<open>less\<close> argument like the others and never uses it: it compares with \<open><\<close>.
\<close>

definition probe_offset :: "u64 \<Rightarrow> u64 \<Rightarrow> u64 \<Rightarrow> int \<Rightarrow> int" where
  "probe_offset key a b len =
     (let rel_position = dbl (dbl (of_nat (unat (key - a))) / dbl (of_nat (unat (b - a))))
      in \<lfloor>dbl (rel_position * dbl (of_int len))\<rfloor>)"

partial_function (option) walk_down :: "u64 access \<Rightarrow> u64 \<Rightarrow> iter \<Rightarrow> iter \<Rightarrow> iter option" where
  "walk_down rd key first mid =
     (if mid = first then Some mid
      else do { x \<leftarrow> rd mid; if x = key then walk_down rd key first (mid - 1) else Some mid })"

partial_function (option) interpolate_lower :: "u64 access \<Rightarrow> u64 \<Rightarrow> iter \<Rightarrow> iter \<Rightarrow> iter option" where
  "interpolate_lower rd key first last' =
     do {
       a \<leftarrow> rd first;
       b \<leftarrow> rd last';
       if a < b \<and> a < key \<and> \<not> b < key then do {
         let mid = first + probe_offset key a b (last' - first);
         m \<leftarrow> rd mid;
         if m < key then interpolate_lower rd key (mid + 1) last'
         else if key < m then interpolate_lower rd key first (mid - 1)
         else do { mid \<leftarrow> walk_down rd key first mid; x \<leftarrow> rd mid;
                   Some (if x < key then mid + 1 else mid) } }
       else Some (if \<not> a < key then first else last' + 1) }"

partial_function (option) walk_up :: "u64 access \<Rightarrow> u64 \<Rightarrow> iter \<Rightarrow> iter \<Rightarrow> iter option" where
  "walk_up rd key last' mid =
     (if mid = last' then Some mid
      else do { x \<leftarrow> rd mid; if x = key then walk_up rd key last' (mid + 1) else Some mid })"

partial_function (option) interpolate_upper :: "u64 access \<Rightarrow> u64 \<Rightarrow> iter \<Rightarrow> iter \<Rightarrow> iter option" where
  "interpolate_upper rd key first last' =
     do {
       a \<leftarrow> rd first;
       b \<leftarrow> rd last';
       if a < b \<and> \<not> key < a \<and> key < b then do {
         let mid = first + probe_offset key a b (last' - first);
         m \<leftarrow> rd mid;
         if m < key then interpolate_upper rd key (mid + 1) last'
         else if key < m then interpolate_upper rd key first (mid - 1)
         else walk_up rd key (last' + 1) mid }
       else Some (if key < a then first else last' + 1) }"

declare walk_down.simps [search_simps] walk_up.simps [search_simps]
  interpolate_lower.simps [search_simps] interpolate_upper.simps [search_simps]

definition interpolation_lower_half :: "iter \<Rightarrow> iter \<Rightarrow> u64 \<Rightarrow> u64 access \<Rightarrow> iter option" where
  "interpolation_lower_half first last' key rd =
     (if first = last' then Some first else interpolate_lower rd key first (last' - 1))"

definition interpolation_upper_half :: "iter \<Rightarrow> iter \<Rightarrow> u64 \<Rightarrow> u64 access \<Rightarrow> iter option" where
  "interpolation_upper_half first last' key rd =
     (if first = last' then Some first else interpolate_upper rd key first (last' - 1))"

definition interpolation_lower_bound :: "u64 search_fn" where
  "interpolation_lower_bound first last' key start rd lt =
     do {
       right \<leftarrow> starts_below rd (<) last' key start;
       if right then interpolation_lower_half (start + 1) last' key rd
       else interpolation_lower_half first start key rd }"

definition interpolation_upper_bound :: "u64 search_fn" where
  "interpolation_upper_bound first last' key start rd lt =
     do {
       left \<leftarrow> starts_above rd (<) last' key start;
       if left then interpolation_upper_half first start key rd
       else interpolation_upper_half (start + 1) last' key rd }"

subsection \<open>The probe stays inside the range\<close>

text \<open>
  The only floating-point fact the search needs: for \<open>a \<le> key \<le> b\<close>, rounding never pushes
  the probe past either end, because rounding is monotone and keeps 0, 1 and the length.
\<close>

lemma probe_offset_bounds:
  assumes "a < b" "a \<le> key" "key \<le> b" "0 \<le> len" "len < 2 ^ 53"
  shows "0 \<le> probe_offset key a b len" "probe_offset key a b len \<le> len"
proof -
  let ?x = "dbl (of_nat (unat (key - a)))" and ?y = "dbl (of_nat (unat (b - a)))"
  have un: "unat (key - a) \<le> unat (b - a)" "1 \<le> unat (b - a)"
    using assms by (simp_all add: unat_sub word_le_nat_alt word_less_nat_alt order.strict_implies_order)
  have x: "0 \<le> ?x" by (rule fl_nonneg [OF of_nat_0_le_iff])
  have xy: "?x \<le> ?y" using un by (intro fl_mono of_nat_mono) simp_all
  have "dbl 1 \<le> ?y" using of_nat_mono [OF un(2), where 'a = rat] by (intro fl_mono) simp_all
  moreover have one: "dbl 1 = 1" using fl_of_int [of 1 53] by simp
  ultimately have y: "0 < ?y" by simp
  then have "?x / ?y \<le> 1" "0 \<le> ?x / ?y" using x xy by simp_all
  then have rel: "0 \<le> dbl (?x / ?y)" "dbl (?x / ?y) \<le> 1"
    using fl_mono [of "?x / ?y" 1 53] one fl_nonneg by auto
  have d: "dbl (of_int len) = of_int len" using assms by (intro fl_of_int) simp
  have "dbl (?x / ?y) * of_int len \<le> of_int len"
    using rel assms(4) by (simp add: mult_left_le_one_le)
  then have "dbl (dbl (?x / ?y) * of_int len) \<le> dbl (of_int len)" by (intro fl_mono) simp_all
  moreover have "0 \<le> dbl (dbl (?x / ?y) * of_int len)" using rel assms(4) by (intro fl_nonneg) simp
  ultimately show "0 \<le> probe_offset key a b len" "probe_offset key a b len \<le> len"
    using d by (auto simp: probe_offset_def Let_def floor_le_iff le_floor_iff)
qed

subsection \<open>The loops\<close>

lemma walk_down_spec:
  assumes "readable rd f a b" "sorted_range f a b" "a \<le> first" "first \<le> mid" "mid < b" "f first < key"
    and "f mid \<le> key" "mid + 1 = b \<or> key \<le> f (mid + 1)"
  shows "\<exists>r. walk_down rd key first mid = Some r \<and> first \<le> r \<and> r < b \<and> f r < key
      \<and> (r + 1 = b \<or> key \<le> f (r + 1))"
  using assms(4-8)
proof (induction "nat (mid - first)" arbitrary: mid)
  case 0
  then show ?case by (simp add: walk_down.simps)
next
  case (Suc n)
  then have mid: "first < mid" "rd mid = Some (f mid)"
    using assms(3) by (auto intro!: readableD [OF assms(1)])
  show ?case
  proof (cases "f mid = key")
    case True
    have "f (mid - 1) \<le> key" using sorted_rangeD [OF assms(2), of "mid - 1" mid] mid Suc.prems assms(3) True by auto
    then have "\<exists>r. walk_down rd key first (mid - 1) = Some r \<and> first \<le> r \<and> r < b \<and> f r < key
        \<and> (r + 1 = b \<or> key \<le> f (r + 1))"
      using Suc mid True by (intro Suc.hyps(1)) auto
    with True mid show ?thesis by (subst walk_down.simps) simp
  next
    case False
    with Suc.prems mid show ?thesis by (subst walk_down.simps) auto
  qed
qed

lemma walk_up_spec:
  assumes "readable rd f a b" "sorted_range f a b" "last' \<le> b" "a \<le> mid" "mid \<le> last'"
    and "last' = b \<or> key < f last'" "mid = a \<or> f (mid - 1) \<le> key" "mid = last' \<or> key \<le> f mid"
  shows "\<exists>r. walk_up rd key last' mid = Some r \<and> is_upper_bound f a b key r"
  using assms(4,5,7,8)
proof (induction "nat (last' - mid)" arbitrary: mid)
  case 0
  then have "mid = last'" by simp
  with 0 assms show ?case by (auto simp: walk_up.simps intro!: upper_boundI)
next
  case (Suc n)
  then have mid: "mid < last'" "rd mid = Some (f mid)"
    using assms(3) by (auto intro!: readableD [OF assms(1)])
  show ?case
  proof (cases "f mid = key")
    case True
    have "mid + 1 = last' \<or> key \<le> f (mid + 1)"
      using sorted_rangeD [OF assms(2), of mid "mid + 1"] mid Suc.prems assms(3) True by force
    then have "\<exists>r. walk_up rd key last' (mid + 1) = Some r \<and> is_upper_bound f a b key r"
      using Suc mid True by (intro Suc.hyps(1)) auto
    with True mid show ?thesis by (subst walk_up.simps) simp
  next
    case False
    then have "is_upper_bound f a b key mid"
      using assms(2,3) mid Suc.prems by (intro upper_boundI) auto
    with False mid show ?thesis by (subst walk_up.simps) auto
  qed
qed

lemma interpolate_lower_spec:
  assumes "readable rd f a b" "sorted_range f a b" "b - a < 2 ^ 53"
    and "a \<le> first" "first \<le> last'" "last' < b"
    and "first = a \<or> f (first - 1) < key" "last' + 1 = b \<or> key \<le> f (last' + 1)"
  shows "\<exists>r. interpolate_lower rd key first last' = Some r \<and> is_lower_bound f a b key r"
  using assms(4-8)
proof (induction "nat (last' - first)" arbitrary: first last' rule: less_induct)
  case less
  have rd_ends: "rd first = Some (f first)" "rd last' = Some (f last')"
    using less.prems by (auto intro!: readableD [OF assms(1)])
  show ?case
  proof (cases "f first < f last' \<and> f first < key \<and> \<not> f last' < key")
    case False
    have le: "f first \<le> f last'" using less.prems by (intro sorted_rangeD [OF assms(2)]) auto
    have "is_lower_bound f a b key (if \<not> f first < key then first else last' + 1)"
      using less.prems False le by (intro lower_boundI [OF assms(2)]) auto
    with False rd_ends show ?thesis by (subst interpolate_lower.simps) auto
  next
    case True
    define mid where "mid = first + probe_offset key (f first) (f last') (last' - first)"
    have mid: "first \<le> mid" "mid \<le> last'"
      using probe_offset_bounds [of "f first" "f last'" key "last' - first"] True less.prems assms(3)
      by (auto simp: mid_def not_less order.strict_implies_order)
    then have rd_mid: "rd mid = Some (f mid)" using less.prems by (auto intro!: readableD [OF assms(1)])
    have unfold: "interpolate_lower rd key first last' =
       (if f mid < key then interpolate_lower rd key (mid + 1) last'
        else if key < f mid then interpolate_lower rd key first (mid - 1)
        else do { mid \<leftarrow> walk_down rd key first mid; x \<leftarrow> rd mid;
                  Some (if x < key then mid + 1 else mid) })"
      using True rd_ends rd_mid by (subst interpolate_lower.simps) (simp add: Let_def mid_def [symmetric])
    consider "f mid < key" | "key < f mid" | "f mid = key" by fastforce
    then show ?thesis
    proof cases
      case 1
      with True mid have "mid \<noteq> last'" by auto
      with 1 True mid less.prems have
        "\<exists>r. interpolate_lower rd key (mid + 1) last' = Some r \<and> is_lower_bound f a b key r"
        by (intro less.hyps) auto
      with 1 show ?thesis by (simp add: unfold)
    next
      case 2
      with True mid have "mid \<noteq> first" by auto
      with 2 True mid less.prems have
        "\<exists>r. interpolate_lower rd key first (mid - 1) = Some r \<and> is_lower_bound f a b key r"
        by (intro less.hyps) (auto simp: order.strict_implies_order)
      with 2 show ?thesis by (auto simp: unfold)
    next
      case 3
      have "mid + 1 = b \<or> key \<le> f (mid + 1)"
        using sorted_rangeD [OF assms(2), of mid "mid + 1"] mid 3 less.prems by force
      then obtain r where r: "walk_down rd key first mid = Some r" "first \<le> r" "r < b" "f r < key"
          "r + 1 = b \<or> key \<le> f (r + 1)"
        using walk_down_spec [OF assms(1,2), of first mid key] True 3 mid less.prems by auto
      then have "rd r = Some (f r)" using less.prems by (auto intro!: readableD [OF assms(1)])
      moreover have "is_lower_bound f a b key (r + 1)"
        using r less.prems by (intro lower_boundI [OF assms(2)]) auto
      ultimately show ?thesis using 3 r by (simp add: unfold)
    qed
  qed
qed

lemma interpolate_upper_spec:
  assumes "readable rd f a b" "sorted_range f a b" "b - a < 2 ^ 53"
    and "a \<le> first" "first \<le> last'" "last' < b"
    and "first = a \<or> f (first - 1) \<le> key" "last' + 1 = b \<or> key < f (last' + 1)"
  shows "\<exists>r. interpolate_upper rd key first last' = Some r \<and> is_upper_bound f a b key r"
  using assms(4-8)
proof (induction "nat (last' - first)" arbitrary: first last' rule: less_induct)
  case less
  have rd_ends: "rd first = Some (f first)" "rd last' = Some (f last')"
    using less.prems by (auto intro!: readableD [OF assms(1)])
  show ?case
  proof (cases "f first < f last' \<and> \<not> key < f first \<and> key < f last'")
    case False
    have le: "f first \<le> f last'" using less.prems by (intro sorted_rangeD [OF assms(2)]) auto
    have "is_upper_bound f a b key (if key < f first then first else last' + 1)"
      using less.prems False le by (intro upper_boundI [OF assms(2)]) auto
    with False rd_ends show ?thesis by (subst interpolate_upper.simps) auto
  next
    case True
    define mid where "mid = first + probe_offset key (f first) (f last') (last' - first)"
    have mid: "first \<le> mid" "mid \<le> last'"
      using probe_offset_bounds [of "f first" "f last'" key "last' - first"] True less.prems assms(3)
      by (auto simp: mid_def not_less order.strict_implies_order)
    then have rd_mid: "rd mid = Some (f mid)" using less.prems by (auto intro!: readableD [OF assms(1)])
    have unfold: "interpolate_upper rd key first last' =
       (if f mid < key then interpolate_upper rd key (mid + 1) last'
        else if key < f mid then interpolate_upper rd key first (mid - 1)
        else walk_up rd key (last' + 1) mid)"
      using True rd_ends rd_mid by (subst interpolate_upper.simps) (simp add: Let_def mid_def [symmetric])
    consider "f mid < key" | "key < f mid" | "f mid = key" by fastforce
    then show ?thesis
    proof cases
      case 1
      with True mid have "mid \<noteq> last'" by auto
      with 1 True mid less.prems have
        "\<exists>r. interpolate_upper rd key (mid + 1) last' = Some r \<and> is_upper_bound f a b key r"
        by (intro less.hyps) (auto simp: order.strict_implies_order)
      with 1 show ?thesis by (simp add: unfold)
    next
      case 2
      with True mid have "mid \<noteq> first" by auto
      with 2 True mid less.prems have
        "\<exists>r. interpolate_upper rd key first (mid - 1) = Some r \<and> is_upper_bound f a b key r"
        by (intro less.hyps) auto
      with 2 show ?thesis by (auto simp: unfold)
    next
      case 3
      have "mid = a \<or> f (mid - 1) \<le> key"
        using sorted_rangeD [OF assms(2), of "mid - 1" mid] mid 3 less.prems by force
      then show ?thesis
        using walk_up_spec [OF assms(1,2), of "last' + 1" mid key] 3 mid less.prems by (simp add: unfold)
    qed
  qed
qed

subsection \<open>The two entry points\<close>

lemma interpolation_lower_half_spec:
  assumes "readable rd f a b" "sorted_range f a b" "b - a < 2 ^ 53"
    and "a \<le> first" "first \<le> last'" "last' \<le> b"
    and "first = a \<or> f (first - 1) < key" "last' = b \<or> key \<le> f last'"
  shows "\<exists>r. interpolation_lower_half first last' key rd = Some r \<and> is_lower_bound f a b key r"
proof (cases "first = last'")
  case True
  then show ?thesis using assms by (auto simp: interpolation_lower_half_def intro!: lower_boundI)
next
  case False
  then show ?thesis using interpolate_lower_spec [OF assms(1-4), of "last' - 1" key] assms
    by (auto simp: interpolation_lower_half_def)
qed

lemma interpolation_upper_half_spec:
  assumes "readable rd f a b" "sorted_range f a b" "b - a < 2 ^ 53"
    and "a \<le> first" "first \<le> last'" "last' \<le> b"
    and "first = a \<or> f (first - 1) \<le> key" "last' = b \<or> key < f last'"
  shows "\<exists>r. interpolation_upper_half first last' key rd = Some r \<and> is_upper_bound f a b key r"
proof (cases "first = last'")
  case True
  then show ?thesis using assms by (auto simp: interpolation_upper_half_def intro!: upper_boundI)
next
  case False
  then show ?thesis using interpolate_upper_spec [OF assms(1-4), of "last' - 1" key] assms
    by (auto simp: interpolation_upper_half_def)
qed

lemma interpolation_lower_bound_spec:
  assumes "first \<le> start" "start \<le> last'" "last' - first < 2 ^ 53"
    and "readable rd f first last'" "sorted_range f first last'"
  shows "\<exists>r. interpolation_lower_bound first last' key start rd (<) = Some r
           \<and> is_lower_bound f first last' key r"
  using interpolation_lower_half_spec [OF assms(4,5,3), of "start + 1" last' key]
    interpolation_lower_half_spec [OF assms(4,5,3), of first start key] assms(1,2)
  by (auto simp: not_less interpolation_lower_bound_def starts_below_eq [OF assms(4,1,2)])

lemma interpolation_upper_bound_spec:
  assumes "first \<le> start" "start \<le> last'" "last' - first < 2 ^ 53"
    and "readable rd f first last'" "sorted_range f first last'"
  shows "\<exists>r. interpolation_upper_bound first last' key start rd (<) = Some r
           \<and> is_upper_bound f first last' key r"
  using interpolation_upper_half_spec [OF assms(4,5,3), of "start + 1" last' key]
    interpolation_upper_half_spec [OF assms(4,5,3), of first start key] assms(1,2)
  by (auto simp: not_less interpolation_upper_bound_def starts_above_eq [OF assms(4,1,2)])

interpretation interpolation: search_class interpolation_lower_bound interpolation_upper_bound
  by unfold_locales (blast intro: interpolation_lower_bound_spec interpolation_upper_bound_spec)+

end
