(* ===== verification/Search_Props.thy ===== *)
theory Search_Props
  imports Linear_Search Exponential_Search Interpolation_Search
begin

text \<open>
  The properties of the search classes. Each is an instance of the laws of \<open>search_class\<close>,
  which the theory of the class discharges for its model.
\<close>

abbreviation sample :: "u64 list" where "sample \<equiv> [1, 3, 3, 7]"

lemmas range_of_vec = readable_vec_at sorted_range_vec

text \<open>C32: \<open>InterpolationSearch\<close> on 64-bit keys: the probe computed in \<open>double\<close> stays between
  the two ends, every iteration shrinks the range, and the result is the bound.\<close>

lemma interpolation_search_correct:
  assumes "first \<le> start" "start \<le> last'" "last' - first < 2 ^ 53"
    and "readable rd f first last'" "sorted_range f first last'"
  shows "\<exists>lo hi. interpolation_lower_bound first last' key start rd (<) = Some lo \<and> is_lower_bound f first last' key lo
     \<and> interpolation_upper_bound first last' key start rd (<) = Some hi \<and> is_upper_bound f first last' key hi"
  using interpolation.lower_spec [OF assms] interpolation.upper_spec [OF assms] by blast

lemma interpolation_search_correct_witness:
  "\<exists>lo hi. interpolation_lower_bound 0 4 3 1 (vec_at id sample) (<) = Some lo
     \<and> is_lower_bound (\<lambda>i. id (sample ! nat i)) 0 4 3 lo
     \<and> interpolation_upper_bound 0 4 3 1 (vec_at id sample) (<) = Some hi
     \<and> is_upper_bound (\<lambda>i. id (sample ! nat i)) 0 4 3 hi"
  by (rule interpolation_search_correct)
    (use range_of_vec [of id sample] in simp_all)

text \<open>C33: The search classes are interchangeable: from any starts, the four of them return the same
  iterator for the same key, so that the choice of a class is a matter of speed only.\<close>

lemma search_classes_agree:
  assumes "last' - first < 2 ^ 53" "readable rd f first last'" "sorted_range f first last'"
    and "{s1, s2, s3, s4} \<subseteq> {first..last'}"
  shows "linear_lower_bound first last' key s1 rd (<) = binary_lower_bound first last' key s2 rd (<)
    \<and> binary_lower_bound first last' key s2 rd (<) = exponential_lower_bound first last' key s3 rd (<)
    \<and> exponential_lower_bound first last' key s3 rd (<) = interpolation_lower_bound first last' key s4 rd (<)
    \<and> linear_upper_bound first last' key s1 rd (<) = binary_upper_bound first last' key s2 rd (<)
    \<and> binary_upper_bound first last' key s2 rd (<) = exponential_upper_bound first last' key s3 rd (<)
    \<and> exponential_upper_bound first last' key s3 rd (<) = interpolation_upper_bound first last' key s4 rd (<)"
proof -
  have s: "first \<le> s1" "s1 \<le> last'" "first \<le> s2" "s2 \<le> last'" "first \<le> s3" "s3 \<le> last'" "first \<le> s4" "s4 \<le> last'"
    using assms(4) by auto
  obtain lo where lo: "linear_lower_bound first last' key s1 rd (<) = Some lo" "is_lower_bound f first last' key lo"
    using linear.lower_spec [OF s(1,2) assms(1-3)] by blast
  obtain hi where hi: "linear_upper_bound first last' key s1 rd (<) = Some hi" "is_upper_bound f first last' key hi"
    using linear.upper_spec [OF s(1,2) assms(1-3)] by blast
  show ?thesis
    using lo hi binary.lower_bound_eq [OF s(3,4) assms(1-3) lo(2)] exponential.lower_bound_eq [OF s(5,6) assms(1-3) lo(2)]
      interpolation.lower_bound_eq [OF s(7,8) assms(1-3) lo(2)] binary.upper_bound_eq [OF s(3,4) assms(1-3) hi(2)]
      exponential.upper_bound_eq [OF s(5,6) assms(1-3) hi(2)] interpolation.upper_bound_eq [OF s(7,8) assms(1-3) hi(2)]
    by simp
qed

lemma search_classes_agree_witness:
  "linear_lower_bound 0 4 3 0 (vec_at id sample) (<) = binary_lower_bound 0 4 3 2 (vec_at id sample) (<)
    \<and> exponential_upper_bound 0 4 3 4 (vec_at id sample) (<) = interpolation_upper_bound 0 4 3 1 (vec_at id sample) (<)"
  using search_classes_agree [OF _ range_of_vec [of id sample], of 0 2 4 1 3] by simp

end
