(* ===== verification/Lipp_Node.thy ===== *)
theory Lipp_Node
  imports Floats
begin

text \<open>
  The data model of \<open>LIPP\<close> (\<open>competitors/lipp/src/core\<close>): the linear model of
  \<open>lipp_base.h\<close>, the bitmap macros, \<open>PREDICT_POS\<close>, and the structs \<open>Node\<close> and
  \<open>Item\<close> of \<open>lipp.h\<close>. A node owns its items and, through them, its children, so the
  tree of nodes is a datatype; the scalar fields of the struct are the record \<open>node_hdr\<close>.
  The union in \<open>Item\<close> is the datatype \<open>item\<close>, which remembers the member written last;
  \<open>Garbage\<close> is a union that was never written. Which member is meaningful is recorded in the
  two bitmaps only, and the lemmas about \<open>slots\<close> lift the bitmap operations to updates of a
  list of slots, on which all later proofs are done.
\<close>

subsection \<open>Bitmaps\<close>

unbundle bit_operations_syntax

type_synonym bitmap = "u8 list"

definition BITMAP_SIZE :: "int \<Rightarrow> int" where
  "BITMAP_SIZE num_items = (num_items + 8 - 1) div 8"

definition BITMAP_GET :: "bitmap \<Rightarrow> nat \<Rightarrow> bool" where
  "BITMAP_GET bm pos \<longleftrightarrow> drop_bit (pos mod 8) (bm ! (pos div 8)) AND 1 = 1"

definition BITMAP_SET :: "bitmap \<Rightarrow> nat \<Rightarrow> bitmap" where
  "BITMAP_SET bm pos = bm[pos div 8 := bm ! (pos div 8) OR push_bit (pos mod 8) 1]"

definition BITMAP_CLEAR :: "bitmap \<Rightarrow> nat \<Rightarrow> bitmap" where
  "BITMAP_CLEAR bm pos = bm[pos div 8 := bm ! (pos div 8) AND NOT (push_bit (pos mod 8) 1)]"

definition new_bitmap :: "int \<Rightarrow> u8 \<Rightarrow> bitmap" where
  "new_bitmap n byte = replicate (nat n) byte"

lemma and_1_eq_1: "(w :: u8) AND 1 = 1 \<longleftrightarrow> bit w 0"
  by (simp add: and_one_eq mod_2_eq_odd bit_0)

lemma BITMAP_GET_bit: "BITMAP_GET bm pos \<longleftrightarrow> bit (bm ! (pos div 8)) (pos mod 8)"
  by (simp add: BITMAP_GET_def and_1_eq_1 bit_drop_bit_eq)

lemma length_BITMAP [simp]:
  "length (BITMAP_SET bm pos) = length bm" "length (BITMAP_CLEAR bm pos) = length bm"
  by (simp_all add: BITMAP_SET_def BITMAP_CLEAR_def)

lemma byte_index_eq: "(p::nat) div 8 = q div 8 \<Longrightarrow> p mod 8 = q mod 8 \<longleftrightarrow> p = q"
  by (metis div_mod_decomp)

lemma bit_pow2: "bit (2 ^ m :: u8) n \<longleftrightarrow> n < 8 \<and> m = n"
  by (auto simp: bit_exp_iff)

lemma BITMAP_GET_SET:
  assumes "p div 8 < length bm"
  shows "BITMAP_GET (BITMAP_SET bm p) q \<longleftrightarrow> q = p \<or> BITMAP_GET bm q"
proof (cases "q div 8 = p div 8")
  case True
  with assms show ?thesis
    by (auto simp: BITMAP_GET_bit BITMAP_SET_def bit_or_iff bit_pow2 byte_index_eq)
next
  case False
  then have "q \<noteq> p" by auto
  with False show ?thesis by (simp add: BITMAP_GET_bit BITMAP_SET_def)
qed

lemma BITMAP_GET_CLEAR:
  assumes "p div 8 < length bm"
  shows "BITMAP_GET (BITMAP_CLEAR bm p) q \<longleftrightarrow> q \<noteq> p \<and> BITMAP_GET bm q"
proof (cases "q div 8 = p div 8")
  case True
  with assms show ?thesis
    by (auto simp: BITMAP_GET_bit BITMAP_CLEAR_def bit_and_iff bit_not_iff bit_pow2 byte_index_eq)
next
  case False
  then have "q \<noteq> p" by auto
  with False show ?thesis by (simp add: BITMAP_GET_bit BITMAP_CLEAR_def)
qed

lemma BITMAP_SIZE_covers: "int pos < n \<Longrightarrow> pos div 8 < nat (BITMAP_SIZE n)"
  unfolding BITMAP_SIZE_def by linarith

lemma BITMAP_GET_new:
  "pos div 8 < nat n \<Longrightarrow> BITMAP_GET (new_bitmap n byte) pos \<longleftrightarrow> bit byte (pos mod 8)"
  by (simp add: BITMAP_GET_bit new_bitmap_def)

lemma bit_0xff: "n < 8 \<Longrightarrow> bit (0xff :: u8) n"
  by (simp add: less_Suc_eq numeral_eq_Suc) (auto simp: bit_numeral_rec numeral_eq_Suc)

lemma BITMAP_GET_new_full: "pos div 8 < nat n \<Longrightarrow> BITMAP_GET (new_bitmap n 0xff) pos"
  unfolding BITMAP_GET_new by (rule bit_0xff) simp

lemma BITMAP_GET_new_clear: "pos div 8 < nat n \<Longrightarrow> \<not> BITMAP_GET (new_bitmap n 0) pos"
  by (simp add: BITMAP_GET_new)

subsection \<open>The linear model and the predicted position\<close>

record linear_model =
  slope :: rat      \<comment> \<open>\<open>double a\<close>\<close>
  intercept :: rat  \<comment> \<open>\<open>long double b\<close>\<close>

definition key_ld :: "u64 \<Rightarrow> rat" where
  "key_ld key = ldbl (of_int (uint key))"

definition model_value :: "linear_model \<Rightarrow> u64 \<Rightarrow> rat" where
  "model_value m key = ldbl (ldbl (slope m * key_ld key) + intercept m)"

definition model_predict :: "linear_model \<Rightarrow> u64 \<Rightarrow> int" where
  "model_predict m key = \<lfloor>model_value m key\<rfloor>"

definition predict_double :: "linear_model \<Rightarrow> u64 \<Rightarrow> rat" where
  "predict_double m key = dbl (model_value m key)"

definition PREDICT_POS :: "linear_model \<Rightarrow> int \<Rightarrow> u64 \<Rightarrow> int" where
  "PREDICT_POS m num_items key =
     (let v = predict_double m key in
      if v > 1073741823 then num_items - 1
      else if v < 0 then 0
      else min (num_items - 1) \<lfloor>v\<rfloor>)"

lemma key_ld_exact: "key_ld key = of_int (uint key)"
  using fl_of_int [of "uint key" 64] unsigned_less [of key] by (simp add: key_ld_def)

lemma key_ld_mono: "k \<le> k' \<Longrightarrow> key_ld k \<le> key_ld k'"
  unfolding key_ld_exact of_int_le_iff word_le_def by assumption

lemma predict_double_mono:
  assumes "0 \<le> slope m" "k \<le> k'"
  shows "predict_double m k \<le> predict_double m k'"
  unfolding predict_double_def model_value_def
  by (intro fl_mono add_right_mono mult_left_mono key_ld_mono) (use assms in simp_all)

text \<open>The predicted position is always a valid index, and grows with the key.\<close>

lemma PREDICT_POS_range:
  assumes "1 \<le> n"
  shows "0 \<le> PREDICT_POS m n key" "PREDICT_POS m n key < n"
  using assms by (auto simp: PREDICT_POS_def Let_def not_less le_floor_iff)

lemma PREDICT_POS_mono:
  assumes "0 \<le> slope m" "1 \<le> n" "k \<le> k'"
  shows "PREDICT_POS m n k \<le> PREDICT_POS m n k'"
proof -
  have "predict_double m k \<le> predict_double m k'" using assms by (intro predict_double_mono)
  then show ?thesis
    using assms(2) floor_mono [of "predict_double m k" "predict_double m k'"]
    by (auto simp: PREDICT_POS_def Let_def not_less le_floor_iff floor_less_iff min_def)
qed

lemma PREDICT_POS_less:
  assumes "0 \<le> slope m" "1 \<le> n" "PREDICT_POS m n k < PREDICT_POS m n k'"
  shows "k < k'"
  using PREDICT_POS_mono [OF assms(1,2), of k' k] assms(3) by (meson not_le)

subsection \<open>Nodes, items and slots\<close>

record node_hdr =
  is_two :: bool
  build_size :: int
  node_size :: int
  fixed :: bool
  num_inserts :: int
  num_insert_to_data :: int
  num_items :: int
  model :: linear_model
  none_bitmap :: bitmap
  child_bitmap :: bitmap

datatype 'v node = Node (hdr: node_hdr) (items: "'v item list")
  and 'v item = Garbage | Data u64 'v | Child "'v node"

datatype 'v slot = Empty | Entry u64 'v | Sub "'v node" | Corrupt

definition slot_of :: "node_hdr \<Rightarrow> nat \<Rightarrow> 'v item \<Rightarrow> 'v slot" where
  "slot_of h i it =
     (if BITMAP_GET (none_bitmap h) i then (if BITMAP_GET (child_bitmap h) i then Corrupt else Empty)
      else if BITMAP_GET (child_bitmap h) i then (case it of Child c \<Rightarrow> Sub c | _ \<Rightarrow> Corrupt)
      else (case it of Data k v \<Rightarrow> Entry k v | _ \<Rightarrow> Corrupt))"

definition slots :: "'v node \<Rightarrow> 'v slot list" where
  "slots n = map (\<lambda>(i, it). slot_of (hdr n) i it) (enumerate 0 (items n))"

definition padded :: "'v node \<Rightarrow> bool" where
  "padded n \<longleftrightarrow> (\<forall>i. num_items (hdr n) \<le> int i \<and> i div 8 < length (none_bitmap (hdr n))
     \<longrightarrow> BITMAP_GET (none_bitmap (hdr n)) i)"

definition hdr_ok :: "'v node \<Rightarrow> bool" where
  "hdr_ok n \<longleftrightarrow> items n \<noteq> [] \<and> num_items (hdr n) = int (length (items n)) \<and> 0 \<le> slope (model (hdr n))
     \<and> length (none_bitmap (hdr n)) = nat (BITMAP_SIZE (num_items (hdr n)))
     \<and> length (child_bitmap (hdr n)) = nat (BITMAP_SIZE (num_items (hdr n)))
     \<and> (num_items (hdr n) \<noteq> 1 \<longrightarrow> padded n)
     \<and> (is_two (hdr n) \<longrightarrow> build_size (hdr n) = 2 \<and> num_items (hdr n) = 8 \<and> \<not> fixed (hdr n))"

definition node_pos :: "'v node \<Rightarrow> u64 \<Rightarrow> nat" where
  "node_pos n key = nat (PREDICT_POS (model (hdr n)) (num_items (hdr n)) key)"

lemma length_slots [simp]: "length (slots n) = length (items n)"
  by (simp add: slots_def)

lemma slots_nth: "i < length (items n) \<Longrightarrow> slots n ! i = slot_of (hdr n) i (items n ! i)"
  by (simp add: slots_def nth_enumerate_eq)

lemma bitmap_index:
  assumes "hdr_ok n" "i < length (items n)"
  shows "i div 8 < length (none_bitmap (hdr n))" "i div 8 < length (child_bitmap (hdr n))"
  using assms BITMAP_SIZE_covers [of i "num_items (hdr n)"] by (simp_all add: hdr_ok_def)

lemma node_pos_less: "hdr_ok n \<Longrightarrow> node_pos n key < length (items n)"
  using PREDICT_POS_range [of "num_items (hdr n)" "model (hdr n)" key]
  by (cases "items n") (auto simp: hdr_ok_def node_pos_def)

lemma node_pos_mono: "hdr_ok n \<Longrightarrow> k \<le> k' \<Longrightarrow> node_pos n k \<le> node_pos n k'"
  by (cases "items n") (auto simp: hdr_ok_def node_pos_def intro!: nat_mono PREDICT_POS_mono)

lemma node_pos_less_key: "hdr_ok n \<Longrightarrow> node_pos n k < node_pos n k' \<Longrightarrow> k < k'"
  using node_pos_mono [of n k' k] by (meson leD not_le)

lemma size_child_less:
  assumes "Child c \<in> set (items n)"
  shows "size c < size n"
proof -
  have "size c < size_list size (items n)"
    using assms by (rule size_list_estimation) simp
  then show ?thesis by (cases n) simp
qed

lemma Sub_in_items: "Sub c \<in> set (slots n) \<Longrightarrow> Child c \<in> set (items n)"
  by (auto simp: slots_def slot_of_def in_set_enumerate_eq split: if_splits item.splits)
    (metis nth_mem)

lemma size_sub_less [termination_simp]: "Sub c \<in> set (slots n) \<Longrightarrow> size c < size n"
  by (rule size_child_less [OF Sub_in_items])

subsection \<open>Writing a slot\<close>

text \<open>
  The three ways the code changes a slot: store a pair in a free slot (the none bit is cleared and
  the union written), store a child in a free slot (both bitmaps change), and turn an occupied slot
  into a child (only the child bit is set).
\<close>

definition put_data :: "'v node \<Rightarrow> nat \<Rightarrow> u64 \<Rightarrow> 'v \<Rightarrow> 'v node" where
  "put_data n pos k v =
     Node (hdr n\<lparr>none_bitmap := BITMAP_CLEAR (none_bitmap (hdr n)) pos\<rparr>) ((items n)[pos := Data k v])"

definition put_child :: "'v node \<Rightarrow> nat \<Rightarrow> 'v node \<Rightarrow> 'v node" where
  "put_child n pos c =
     Node (hdr n\<lparr>none_bitmap := BITMAP_CLEAR (none_bitmap (hdr n)) pos,
                 child_bitmap := BITMAP_SET (child_bitmap (hdr n)) pos\<rparr>) ((items n)[pos := Child c])"

definition set_child :: "'v node \<Rightarrow> nat \<Rightarrow> 'v node \<Rightarrow> 'v node" where
  "set_child n pos c =
     Node (hdr n\<lparr>child_bitmap := BITMAP_SET (child_bitmap (hdr n)) pos\<rparr>) ((items n)[pos := Child c])"

definition replace_child :: "'v node \<Rightarrow> nat \<Rightarrow> 'v node \<Rightarrow> 'v node" where
  "replace_child n pos c = Node (hdr n) ((items n)[pos := Child c])"

lemmas put_defs = put_data_def put_child_def set_child_def replace_child_def

lemma slots_put_data:
  assumes "hdr_ok n" "pos < length (items n)" "slots n ! pos = Empty"
  shows "slots (put_data n pos k v) = (slots n)[pos := Entry k v]"
  using assms
  by (intro nth_equalityI)
    (auto simp: put_data_def slots_nth nth_list_update BITMAP_GET_CLEAR bitmap_index slot_of_def
      split: if_splits item.splits)

lemma slots_put_child:
  assumes "hdr_ok n" "pos < length (items n)"
  shows "slots (put_child n pos c) = (slots n)[pos := Sub c]"
  using assms
  by (intro nth_equalityI)
    (auto simp: put_child_def slots_nth nth_list_update BITMAP_GET_CLEAR BITMAP_GET_SET bitmap_index slot_of_def)

lemma slots_set_child:
  assumes "hdr_ok n" "pos < length (items n)" "slots n ! pos = Entry k v"
  shows "slots (set_child n pos c) = (slots n)[pos := Sub c]"
  using assms
  by (intro nth_equalityI)
    (auto simp: set_child_def slots_nth nth_list_update BITMAP_GET_SET bitmap_index slot_of_def
      split: if_splits item.splits)

lemma slots_replace_child:
  assumes "pos < length (items n)" "slots n ! pos = Sub c"
  shows "slots (replace_child n pos c') = (slots n)[pos := Sub c']"
  using assms
  by (intro nth_equalityI)
    (auto simp: replace_child_def slots_nth nth_list_update slot_of_def split: if_splits item.splits)

lemma padded_clear:
  assumes "padded n" "num_items (hdr n) = int (length (items n))" "pos < length (items n)"
    and "none_bitmap h = BITMAP_CLEAR (none_bitmap (hdr n)) pos" "num_items h = num_items (hdr n)"
    and "pos div 8 < length (none_bitmap (hdr n))"
  shows "padded (Node h its)"
  using assms by (auto simp: padded_def BITMAP_GET_CLEAR)

lemma hdr_ok_put [simp]:
  "hdr_ok n \<Longrightarrow> pos < length (items n) \<Longrightarrow> hdr_ok (put_data n pos k v)"
  "hdr_ok n \<Longrightarrow> pos < length (items n) \<Longrightarrow> hdr_ok (put_child n pos c)"
  "hdr_ok n \<Longrightarrow> hdr_ok (set_child n pos c)" "hdr_ok n \<Longrightarrow> hdr_ok (replace_child n pos c)"
proof -
  assume n: "hdr_ok n"
  have len: "num_items (hdr n) = int (length (items n))" using n by (simp add: hdr_ok_def)
  show "hdr_ok (put_data n pos k v)" "hdr_ok (put_child n pos c)" if p: "pos < length (items n)"
  proof -
    note idx = bitmap_index(1) [OF n p]
    have "padded n \<Longrightarrow> padded (put_data n pos k v)" "padded n \<Longrightarrow> padded (put_child n pos c)"
      unfolding put_defs by (rule padded_clear [OF _ len p _ _ idx], simp_all)+
    with n show "hdr_ok (put_data n pos k v)" "hdr_ok (put_child n pos c)"
      by (auto simp: put_defs hdr_ok_def)
  qed
  show "hdr_ok (set_child n pos c)" "hdr_ok (replace_child n pos c)"
    using n by (auto simp: put_defs hdr_ok_def padded_def)
qed

lemma node_pos_put [simp]:
  "node_pos (put_data n pos k v) key = node_pos n key" "node_pos (put_child n pos c) key = node_pos n key"
  "node_pos (set_child n pos c) key = node_pos n key" "node_pos (replace_child n pos c) key = node_pos n key"
  by (simp_all add: put_defs node_pos_def)

lemma node_pos_put_fun [simp]:
  "node_pos (put_data n pos k v) = node_pos n" "node_pos (put_child n pos c) = node_pos n"
  by (simp_all add: fun_eq_iff)

lemma put_sizes [simp]:
  "length (items (put_data n pos k v)) = length (items n)" "length (items (put_child n pos c)) = length (items n)"
  "length (items (set_child n pos c)) = length (items n)" "length (items (replace_child n pos c)) = length (items n)"
  "node_size (hdr (put_data n pos k v)) = node_size (hdr n)" "node_size (hdr (put_child n pos c)) = node_size (hdr n)"
  "node_size (hdr (set_child n pos c)) = node_size (hdr n)" "node_size (hdr (replace_child n pos c)) = node_size (hdr n)"
  "num_items (hdr (put_data n pos k v)) = num_items (hdr n)" "num_items (hdr (put_child n pos c)) = num_items (hdr n)"
  "num_items (hdr (set_child n pos c)) = num_items (hdr n)" "num_items (hdr (replace_child n pos c)) = num_items (hdr n)"
  by (simp_all add: put_defs)

end
