(* ===== verification/Lipp_Spec.thy ===== *)
theory Lipp_Spec
  imports Lipp_Node "HOL-Library.Multiset"
begin

text \<open>
  What a LIPP tree stands for: \<open>entries\<close> is its in-order traversal, \<open>lipp_map\<close> the map
  from keys to values, and \<open>lipp_wf\<close> the invariant of the structure. The invariant says that
  the bitmaps and the union members agree, that every key sits in the slot its node's model
  predicts for it, and that the \<open>size\<close> fields count the entries.
\<close>

function entries :: "'v node \<Rightarrow> (u64 \<times> 'v) list" where
  "entries n = concat (map (\<lambda>s. case s of Entry k v \<Rightarrow> [(k, v)] | Sub c \<Rightarrow> entries c | _ \<Rightarrow> []) (slots n))"
  by pat_completeness auto
termination by (relation "measure size") (auto simp: termination_simp)

declare entries.simps [simp del]

fun slot_entries :: "'v slot \<Rightarrow> (u64 \<times> 'v) list" where
  "slot_entries (Entry k v) = [(k, v)]"
| "slot_entries (Sub c) = entries c"
| "slot_entries _ = []"

definition lipp_map :: "'v node \<Rightarrow> u64 \<rightharpoonup> 'v" where
  "lipp_map n = map_of (entries n)"

definition lipp_keys :: "'v node \<Rightarrow> u64 set" where
  "lipp_keys n = fst ` set (entries n)"

lemma entries_slots: "entries n = concat (map slot_entries (slots n))"
  by (subst entries.simps) (intro arg_cong [where f = concat] map_cong refl, auto split: slot.splits)

text \<open>
  A child holds at least two entries and is never the one-slot node of an empty index, the only
  node whose bitmap leaves the bits after the last slot unset (\<open>padded\<close>).
\<close>

definition big :: "'v node \<Rightarrow> bool" where
  "big c \<longleftrightarrow> 2 \<le> length (entries c) \<and> num_items (hdr c) \<noteq> 1"

inductive lipp_wf :: "'v node \<Rightarrow> bool" where
  lipp_wfI: "hdr_ok n \<Longrightarrow> node_size (hdr n) = int (length (entries n))
    \<Longrightarrow> Corrupt \<notin> set (slots n)
    \<Longrightarrow> (\<forall>i<length (items n). \<forall>k\<in>fst ` set (slot_entries (slots n ! i)). node_pos n k = i)
    \<Longrightarrow> (\<forall>c. Sub c \<in> set (slots n) \<longrightarrow> lipp_wf c \<and> big c)
    \<Longrightarrow> lipp_wf n"

inductive_cases lipp_wfE: "lipp_wf n"

lemma lipp_wfD:
  assumes "lipp_wf n"
  shows "hdr_ok n" "node_size (hdr n) = int (length (entries n))" "Corrupt \<notin> set (slots n)"
    "\<And>i k. i < length (items n) \<Longrightarrow> k \<in> fst ` set (slot_entries (slots n ! i)) \<Longrightarrow> node_pos n k = i"
    "\<And>c. Sub c \<in> set (slots n) \<Longrightarrow> lipp_wf c \<and> big c"
  using assms by (auto elim: lipp_wf.cases)

subsection \<open>Looking at one slot decides a lookup\<close>

lemma map_of_concat_at:
  assumes "p < length xss"
    and "\<And>i. i < length xss \<Longrightarrow> i \<noteq> p \<Longrightarrow> k \<notin> fst ` set (xss ! i)"
  shows "map_of (concat xss) k = map_of (xss ! p) k"
  using assms
proof (induction xss arbitrary: p)
  case (Cons xs xss)
  show ?case
  proof (cases p)
    case 0
    have "\<And>i. i < length xss \<Longrightarrow> k \<notin> fst ` set (xss ! i)" using Cons.prems(2) [of "Suc _"] 0 by simp
    then have "k \<notin> fst ` set (concat xss)" by (force simp: in_set_conv_nth)
    then have "map_of (concat xss) k = None" by (simp add: map_of_eq_None_iff)
    then show ?thesis using 0 by (simp add: map_add_def split: option.splits)
  next
    case (Suc q)
    have "k \<notin> fst ` set xs" using Cons.prems(2) [of 0] Suc by simp
    then have "map_of xs k = None" by (simp add: map_of_eq_None_iff)
    moreover have "map_of (concat xss) k = map_of (xss ! q) k"
    proof (rule Cons.IH)
      show "k \<notin> fst ` set (xss ! i)" if "i < length xss" "i \<noteq> q" for i
        using Cons.prems(2) [of "Suc i"] that Suc by simp
    qed (use Cons.prems(1) Suc in simp)
    ultimately show ?thesis using Suc by (simp add: map_add_def split: option.splits)
  qed
qed simp

lemma lipp_map_slot:
  assumes "lipp_wf n"
  shows "lipp_map n key = map_of (slot_entries (slots n ! node_pos n key)) key"
proof -
  note wf = lipp_wfD [OF assms]
  have p: "node_pos n key < length (items n)" using wf(1) by (rule node_pos_less)
  have "map_of (concat (map slot_entries (slots n))) key
      = map_of (map slot_entries (slots n) ! node_pos n key) key"
  proof (rule map_of_concat_at)
    fix i assume i: "i < length (map slot_entries (slots n))" "i \<noteq> node_pos n key"
    then have "key \<notin> fst ` set (slot_entries (slots n ! i))" using wf(4) [of i key] by auto
    then show "key \<notin> fst ` set (map slot_entries (slots n) ! i)" using i(1) by simp
  qed (use p in simp)
  with p show ?thesis by (simp add: lipp_map_def entries_slots)
qed

lemma lipp_keys_map: "k \<in> lipp_keys n \<longleftrightarrow> lipp_map n k \<noteq> None"
  unfolding lipp_keys_def lipp_map_def by (metis map_of_eq_None_iff)

subsection \<open>The in-order traversal is sorted\<close>

lemma sorted_concat_slots:
  assumes "\<And>i. i < length xss \<Longrightarrow> sorted_wrt (<) (map fst (xss ! i))"
    and "\<And>i j x y. i < j \<Longrightarrow> j < length xss \<Longrightarrow> x \<in> set (xss ! i) \<Longrightarrow> y \<in> set (xss ! j) \<Longrightarrow> fst x < (fst y :: u64)"
  shows "sorted_wrt (<) (map fst (concat xss))"
  using assms
proof (induction xss)
  case (Cons xs xss)
  have "sorted_wrt (<) (map fst (concat xss))"
    using Cons.prems(1) [of "Suc _"] Cons.prems(2) [of "Suc _" "Suc _"] by (intro Cons.IH) auto
  moreover have "sorted_wrt (<) (map fst xs)" using Cons.prems(1) [of 0] by simp
  moreover have "fst x < fst y" if "x \<in> set xs" "ys \<in> set xss" "y \<in> set ys" for x y ys
    using that Cons.prems(2) [of 0 "Suc _" x y] by (auto simp: in_set_conv_nth)
  ultimately show ?case by (auto simp: sorted_wrt_append)
qed simp

lemma entries_sorted:
  assumes "lipp_wf n"
  shows "sorted_wrt (<) (map fst (entries n))"
  using assms
proof (induction n rule: lipp_wf.induct)
  case (lipp_wfI n)
  have "sorted_wrt (<) (map fst (concat (map slot_entries (slots n))))"
  proof (rule sorted_concat_slots)
    fix i assume i: "i < length (map slot_entries (slots n))"
    then have "slots n ! i \<in> set (slots n)" by simp
    with lipp_wfI.IH i show "sorted_wrt (<) (map fst (map slot_entries (slots n) ! i))"
      by (cases "slots n ! i") auto
  next
    fix i j x y
    assume ij: "i < j" "j < length (map slot_entries (slots n))"
      and xy: "x \<in> set (map slot_entries (slots n) ! i)" "y \<in> set (map slot_entries (slots n) ! j)"
    then have "node_pos n (fst x) = i" "node_pos n (fst y) = j" using lipp_wfI.hyps(4) by auto
    with ij(1) show "fst x < fst y" by (intro node_pos_less_key [OF lipp_wfI.hyps(1)]) simp
  qed
  then show ?case by (simp add: entries_slots)
qed

lemma entries_distinct: "lipp_wf n \<Longrightarrow> distinct (map fst (entries n))"
  using entries_sorted strict_sorted_iff by blast

lemma lipp_map_in_entries: "lipp_wf n \<Longrightarrow> lipp_map n k = Some v \<longleftrightarrow> (k, v) \<in> set (entries n)"
  unfolding lipp_map_def using entries_distinct map_of_eq_Some_iff by metis

lemma entries_eqI:
  assumes "lipp_wf n" and "sorted_wrt (<) (map fst ys)" and "set (entries n) = set ys"
  shows "entries n = ys"
proof -
  have "map fst (entries n) = map fst ys"
    using entries_sorted [OF assms(1)] assms(2,3) by (intro strict_sorted_equal) simp_all
  moreover have "entries n ! i = ys ! i" if i: "i < length ys" for i
  proof -
    have len: "length (entries n) = length ys" using calculation map_eq_imp_length_eq by blast
    have "entries n ! i \<in> set ys" using assms(3) i len by (metis nth_mem)
    moreover have "fst (entries n ! i) = fst (ys ! i)"
      using \<open>map fst (entries n) = map fst ys\<close> i len by (metis nth_map)
    moreover have "distinct (map fst ys)" using assms(2) strict_sorted_iff by blast
    ultimately show ?thesis using i
      by (metis eq_key_imp_eq_value nth_mem prod.collapse)
  qed
  ultimately show ?thesis by (metis map_eq_imp_length_eq nth_equalityI)
qed

subsection \<open>Changing one slot\<close>

text \<open>\<open>slots_ok\<close> is the invariant without the count, which is only restored at the end of an insert.\<close>

definition slot_ok :: "'v node \<Rightarrow> nat \<Rightarrow> 'v slot \<Rightarrow> bool" where
  "slot_ok n i s \<longleftrightarrow> s \<noteq> Corrupt \<and> (\<forall>k\<in>fst ` set (slot_entries s). node_pos n k = i)
     \<and> (\<forall>c. s = Sub c \<longrightarrow> lipp_wf c \<and> big c)"

definition slots_ok :: "'v node \<Rightarrow> bool" where
  "slots_ok n \<longleftrightarrow> hdr_ok n \<and> (\<forall>i<length (items n). slot_ok n i (slots n ! i))"

lemma lipp_wf_iff: "lipp_wf n \<longleftrightarrow> slots_ok n \<and> node_size (hdr n) = int (length (entries n))"
proof
  assume "lipp_wf n"
  note wf = lipp_wfD [OF this]
  have "slot_ok n i (slots n ! i)" if "i < length (items n)" for i
  proof -
    have "slots n ! i \<in> set (slots n)" using that by simp
    then show ?thesis using wf(3,4,5) that unfolding slot_ok_def by metis
  qed
  then show "slots_ok n \<and> node_size (hdr n) = int (length (entries n))"
    using wf(1,2) by (simp add: slots_ok_def)
next
  assume ok: "slots_ok n \<and> node_size (hdr n) = int (length (entries n))"
  then have slot: "slot_ok n i (slots n ! i)" if "i < length (items n)" for i
    using that by (simp add: slots_ok_def)
  then have "slot_ok n i s" if "i < length (slots n)" "s = slots n ! i" for i s
    using that by simp
  then have "Corrupt \<notin> set (slots n)" "\<forall>c. Sub c \<in> set (slots n) \<longrightarrow> lipp_wf c \<and> big c"
    unfolding slot_ok_def by (metis in_set_conv_nth)+
  then show "lipp_wf n"
    using ok slot by (intro lipp_wfI) (auto simp: slots_ok_def slot_ok_def)
qed

lemma mset_concat_update:
  "p < length xss \<Longrightarrow> mset (concat (xss[p := ys])) + mset (xss ! p) = mset (concat xss) + mset ys"
proof (induction xss arbitrary: p)
  case (Cons xs xss)
  then show ?case by (cases p) (auto simp: ac_simps)
qed simp

lemma mset_entries_update:
  assumes "slots n' = (slots n)[p := s]" "p < length (items n)"
  shows "mset (entries n') + mset (slot_entries (slots n ! p)) = mset (entries n) + mset (slot_entries s)"
  using assms mset_concat_update [of p "map slot_entries (slots n)" "slot_entries s"]
  by (simp add: entries_slots map_update)

lemma slots_ok_update:
  assumes "slots_ok n" "hdr_ok n'" "\<And>k. node_pos n' k = node_pos n k"
    and "slots n' = (slots n)[p := s]" "slot_ok n p s"
  shows "slots_ok n'"
proof -
  have len: "length (items n') = length (items n)" using arg_cong [OF assms(4), of length] by simp
  have "slot_ok n i ((slots n)[p := s] ! i)" if "i < length (items n)" for i
    using that assms(1,5) by (cases "i = p") (simp_all add: slots_ok_def)
  then show ?thesis
    using assms(2,3,4) len unfolding slots_ok_def slot_ok_def by simp
qed

lemma lipp_map_update:
  assumes "lipp_wf n'" "mset (entries n') = add_mset (k, v) (mset (entries n))" "lipp_wf n"
  shows "lipp_map n' = (lipp_map n)(k \<mapsto> v)" "k \<notin> lipp_keys n"
proof -
  have "mset (map fst (entries n')) = mset (k # map fst (entries n))"
    using arg_cong [OF assms(2), of "image_mset fst"] by simp
  with entries_distinct [OF assms(1)] have "distinct (k # map fst (entries n))"
    using mset_eq_imp_distinct_iff by blast
  then have k: "k \<notin> fst ` set (entries n)" by simp
  then show "k \<notin> lipp_keys n" by (simp add: lipp_keys_def)
  have set': "set (entries n') = insert (k, v) (set (entries n))"
    using arg_cong [OF assms(2), of set_mset] by simp
  show "lipp_map n' = (lipp_map n)(k \<mapsto> v)"
  proof
    fix x
    show "lipp_map n' x = ((lipp_map n)(k \<mapsto> v)) x"
    proof (cases "x = k")
      case True
      then show ?thesis using set' by (simp add: lipp_map_in_entries [OF assms(1)])
    next
      case False
      then have "lipp_map n' x = Some y \<longleftrightarrow> lipp_map n x = Some y" for y
        using set' by (simp add: lipp_map_in_entries assms(1,3))
      then have "lipp_map n' x = lipp_map n x" by (metis not_None_eq)
      with False show ?thesis by simp
    qed
  qed
qed

end
