(* ===== verification/Lipp_Build.thy ===== *)
theory Lipp_Build
  imports Lipp_Spec
begin

text \<open>
  The node constructors of \<open>lipp.h\<close>: \<open>build_tree_none\<close>, \<open>build_tree_two\<close> with the pool
  \<open>pending_two\<close> of recycled nodes, the two ways of fitting a linear model (FMCD and the
  three-parts split), and the bulk build. An \<open>RT_ASSERT\<close> that fails prints a message and exits,
  so every constructor returns a sum. The bulk build is an iteration over a stack of segments;
  here it is the recursion that this stack implements, children being built from right to left.
\<close>

subsection \<open>Errors, options, and the pool\<close>

datatype lipp_error = RT_ASSERT | BAD_ACCESS | DIVERGES

record lipp_opts =
  USE_FMCD :: bool            \<comment> \<open>template argument\<close>
  BUILD_LR_REMAIN :: rat      \<comment> \<open>constructor argument\<close>

type_synonym 'v pool = "'v node list"
type_synonym 'v kvs = "(u64 \<times> 'v) list"

definition recycled_ok :: "'v node \<Rightarrow> bool" where
  "recycled_ok n \<longleftrightarrow> length (items n) = 8 \<and> is_two (hdr n) \<and> build_size (hdr n) = 2 \<and> node_size (hdr n) = 2
     \<and> \<not> fixed (hdr n) \<and> num_inserts (hdr n) = 0 \<and> num_insert_to_data (hdr n) = 0 \<and> num_items (hdr n) = 8
     \<and> none_bitmap (hdr n) = [0xff] \<and> child_bitmap (hdr n) = [0]"

definition pool_ok :: "'v pool \<Rightarrow> bool" where
  "pool_ok pool \<longleftrightarrow> (\<forall>n\<in>set pool. recycled_ok n)"

subsection \<open>Small nodes\<close>

definition build_tree_none :: "'v node" where
  "build_tree_none =
     Node \<lparr>is_two = False, build_size = 0, node_size = 0, fixed = False, num_inserts = 0,
           num_insert_to_data = 0, num_items = 1, model = \<lparr>slope = 0, intercept = 0\<rparr>,
           none_bitmap = BITMAP_SET (new_bitmap 1 0) 0, child_bitmap = new_bitmap 1 0\<rparr>
       (replicate 1 Garbage)"

definition new_two :: "'v node" where
  "new_two =
     Node \<lparr>is_two = True, build_size = 2, node_size = 2, fixed = False, num_inserts = 0,
           num_insert_to_data = 0, num_items = 8, model = \<lparr>slope = 0, intercept = 0\<rparr>,
           none_bitmap = new_bitmap 1 0xff, child_bitmap = new_bitmap 1 0\<rparr>
       (replicate 8 Garbage)"

declare build_tree_none_def [code_unfold] new_two_def [code_unfold]

fun pop_pending :: "'v pool \<Rightarrow> 'v node \<times> 'v pool" where
  "pop_pending [] = (new_two, [])"
| "pop_pending (n # ns) = (n, ns)"

definition set_model :: "linear_model \<Rightarrow> 'v node \<Rightarrow> 'v node" where
  "set_model m n = Node (hdr n\<lparr>model := m\<rparr>) (items n)"

definition two_model :: "int \<Rightarrow> u64 \<Rightarrow> u64 \<Rightarrow> linear_model" where
  "two_model n_items key1 key2 =
     (let mid1_target = dbl (of_int (n_items div 3));
          mid2_target = dbl (of_int (n_items * 2 div 3));
          a = dbl (dbl (mid2_target - mid1_target) / dbl (of_int (uint (key2 - key1))))
      in \<lparr>slope = a, intercept = ldbl (mid1_target - ldbl (a * key_ld key1))\<rparr>)"

definition insert_new :: "'v node \<Rightarrow> u64 \<Rightarrow> 'v \<Rightarrow> lipp_error + 'v node" where
  "insert_new n key v =
     (let pos = node_pos n key in
      bindE (checkE RT_ASSERT (BITMAP_GET (none_bitmap (hdr n)) pos)) (\<lambda>_. Inr (put_data n pos key v)))"

definition build_tree_two :: "u64 \<Rightarrow> 'v \<Rightarrow> u64 \<Rightarrow> 'v \<Rightarrow> 'v pool \<Rightarrow> lipp_error + ('v node \<times> 'v pool)" where
  "build_tree_two k v k' v' pool =
     (let (key1, value1, key2, value2) = (if k > k' then (k', v', k, v) else (k, v, k', v')) in
      bindE (checkE RT_ASSERT (key1 < key2)) (\<lambda>_.
      let (node, pool') = pop_pending pool;
          node = set_model (two_model (num_items (hdr node)) key1 key2) node in
      bindE (insert_new node key1 value1) (\<lambda>node.
      bindE (insert_new node key2 value2) (\<lambda>node.
      Inr (node, pool')))))"

lemma slots_replicate:
  assumes "\<And>i. i < n \<Longrightarrow> BITMAP_GET (none_bitmap h) i" "\<And>i. i < n \<Longrightarrow> \<not> BITMAP_GET (child_bitmap h) i"
    and "length its = n"
  shows "slots (Node h its) = replicate n Empty"
  by (rule nth_equalityI) (use assms in \<open>auto simp: slots_nth slot_of_def\<close>)

lemma entries_replicate_Empty: "slots n = replicate m Empty \<Longrightarrow> entries n = []"
  by (simp add: entries_slots)

lemma build_tree_none_bitmaps:
  "none_bitmap (hdr build_tree_none) = [1]" "child_bitmap (hdr build_tree_none) = [0]"
  by (simp_all add: build_tree_none_def BITMAP_SET_def new_bitmap_def)

lemma build_tree_none_simps:
  "items build_tree_none = [Garbage]" "node_size (hdr build_tree_none) = 0"
  "num_items (hdr build_tree_none) = 1" "slope (model (hdr build_tree_none)) = 0"
  "\<not> is_two (hdr build_tree_none)"
  by (simp_all add: build_tree_none_def)

lemma build_tree_none_slots: "slots build_tree_none = [Empty]"
  by (simp add: slots_def build_tree_none_simps build_tree_none_bitmaps slot_of_def BITMAP_GET_def)

lemma build_tree_none_entries: "entries build_tree_none = []"
  by (simp add: entries_slots build_tree_none_slots)

lemma build_tree_none_hdr_ok: "hdr_ok build_tree_none"
  by (simp add: hdr_ok_def build_tree_none_simps build_tree_none_bitmaps BITMAP_SIZE_def)

lemma build_tree_none_wf: "lipp_wf build_tree_none"
proof (rule lipp_wfI)
  show "Corrupt \<notin> set (slots build_tree_none)"
    "\<forall>c. Sub c \<in> set (slots build_tree_none) \<longrightarrow> lipp_wf c \<and> big c"
    "\<forall>i<length (items build_tree_none). \<forall>k\<in>fst ` set (slot_entries (slots build_tree_none ! i)).
       node_pos build_tree_none k = i"
    by (simp_all add: build_tree_none_slots build_tree_none_simps)
qed (simp_all add: build_tree_none_hdr_ok build_tree_none_simps build_tree_none_entries)

lemma recycled_new_two: "recycled_ok new_two"
  by (simp add: recycled_ok_def new_two_def new_bitmap_def)

lemma pool_ok_simps [simp]: "pool_ok []" "pool_ok (n # ns) \<longleftrightarrow> recycled_ok n \<and> pool_ok ns"
  by (auto simp: pool_ok_def)

lemma pop_pending_ok:
  "pop_pending pool = (n, pool') \<Longrightarrow> pool_ok pool \<Longrightarrow> recycled_ok n \<and> pool_ok pool'"
  by (cases pool) (auto simp: recycled_new_two)

lemma recycled_slots:
  assumes "recycled_ok n"
  shows "slots (set_model m n) = replicate 8 Empty"
  unfolding set_model_def
proof (rule slots_replicate)
  show "BITMAP_GET (none_bitmap (hdr n\<lparr>model := m\<rparr>)) i" if "i < 8" for i
    using assms that bit_0xff [of i] by (simp add: recycled_ok_def BITMAP_GET_bit)
  show "\<not> BITMAP_GET (child_bitmap (hdr n\<lparr>model := m\<rparr>)) i" if "i < 8" for i
    using assms that by (simp add: recycled_ok_def BITMAP_GET_bit)
  show "length (items n) = 8" using assms by (simp add: recycled_ok_def)
qed

lemma recycled_hdr_ok: "recycled_ok n \<Longrightarrow> 0 \<le> slope m \<Longrightarrow> hdr_ok (set_model m n)"
  by (auto simp: recycled_ok_def set_model_def hdr_ok_def BITMAP_SIZE_def padded_def)

lemma set_model_simps [simp]:
  "items (set_model m n) = items n" "hdr (set_model m n) = hdr n\<lparr>model := m\<rparr>"
  by (simp_all add: set_model_def)

lemma two_model_slope:
  assumes "0 \<le> n"
  shows "0 \<le> slope (two_model n k k')"
proof -
  have "dbl (of_int (n div 3)) \<le> dbl (of_int (n * 2 div 3))"
    using assms by (intro fl_mono) (simp_all add: zdiv_mono1)
  then have "0 \<le> dbl (dbl (of_int (n * 2 div 3)) - dbl (of_int (n div 3)))" by (intro fl_nonneg) simp
  moreover have "0 \<le> dbl (of_int (uint (k' - k)))"
    by (rule fl_nonneg) (simp only: of_int_0_le_iff uint_ge_0)
  ultimately show ?thesis
    unfolding two_model_def Let_def by (simp only: linear_model.simps fl_nonneg divide_nonneg_nonneg)
qed

text \<open>Storing into a free slot: the invariant is kept and one entry is added.\<close>

lemma put_data_slots_ok:
  assumes "slots_ok n" "slots n ! node_pos n k = Empty"
  shows "slots_ok (put_data n (node_pos n k) k v)"
    and "mset (entries (put_data n (node_pos n k) k v)) = add_mset (k, v) (mset (entries n))"
proof -
  have ok: "hdr_ok n" using assms(1) by (simp add: slots_ok_def)
  note p = node_pos_less [OF ok, of k]
  note s = slots_put_data [OF ok p assms(2), of k v]
  show "slots_ok (put_data n (node_pos n k) k v)"
    by (rule slots_ok_update [OF assms(1) _ _ s]) (simp_all add: ok p slot_ok_def)
  show "mset (entries (put_data n (node_pos n k) k v)) = add_mset (k, v) (mset (entries n))"
    using mset_entries_update [OF s p] assms(2) by simp
qed

lemma put_child_slots_ok:
  assumes "slots_ok n" "slots n ! p = Empty" "p < length (items n)" "slot_ok n p (Sub c)"
  shows "slots_ok (put_child n p c)"
    and "mset (entries (put_child n p c)) = mset (entries c) + mset (entries n)"
proof -
  have ok: "hdr_ok n" using assms(1) by (simp add: slots_ok_def)
  note s = slots_put_child [OF ok assms(3), of c]
  show "slots_ok (put_child n p c)"
    by (rule slots_ok_update [OF assms(1) _ _ s]) (simp_all add: ok assms(3,4))
  show "mset (entries (put_child n p c)) = mset (entries c) + mset (entries n)"
    using mset_entries_update [OF s assms(3)] assms(2) by simp
qed

lemma BITMAP_GET_Empty:
  assumes n: "slots_ok n" "p < length (items n)"
  shows "BITMAP_GET (none_bitmap (hdr n)) p \<longleftrightarrow> slots n ! p = Empty"
proof -
  from n have "slots n ! p = slot_of (hdr n) p (items n ! p)" "slots n ! p \<noteq> Corrupt"
    by (simp_all add: slots_nth slots_ok_def slot_ok_def)
  then show ?thesis
    by (auto simp: slot_of_def split: if_splits item.splits)
qed

lemma insert_new_ok:
  assumes "insert_new n k v = Inr n'" "slots_ok n"
  shows "slots_ok n'" "mset (entries n') = add_mset (k, v) (mset (entries n))"
    "node_size (hdr n') = node_size (hdr n)" "num_items (hdr n') = num_items (hdr n)"
proof -
  have "node_pos n k < length (items n)" using assms(2) by (intro node_pos_less) (simp add: slots_ok_def)
  then have e: "slots n ! node_pos n k = Empty" and n': "n' = put_data n (node_pos n k) k v"
    using assms by (auto simp: insert_new_def Let_def bindE_check BITMAP_GET_Empty)
  show "slots_ok n'" "mset (entries n') = add_mset (k, v) (mset (entries n))"
    using put_data_slots_ok [OF assms(2) e] n' by simp_all
  show "node_size (hdr n') = node_size (hdr n)" "num_items (hdr n') = num_items (hdr n)" using n' by simp_all
qed

lemma recycled_slots_ok:
  assumes "recycled_ok n" "0 \<le> slope m"
  shows "slots_ok (set_model m n)" "entries (set_model m n) = []"
  using assms recycled_slots [OF assms(1), of m] recycled_hdr_ok [OF assms]
  by (auto simp: slots_ok_def slot_ok_def entries_slots recycled_ok_def)

lemma build_tree_two_ok:
  assumes b: "build_tree_two k v k' v' pool = Inr (n, pool')" and "pool_ok pool"
  shows "lipp_wf n" "mset (entries n) = {#(k, v), (k', v')#}" "pool_ok pool'" "k \<noteq> k'"
    "big n"
proof -
  define q where "q = (if k > k' then (k', v', k, v) else (k, v, k', v'))"
  obtain k1 v1 k2 v2 where q': "q = (k1, v1, k2, v2)" by (metis prod_cases4)
  obtain m p1 where pop: "pop_pending pool = (m, p1)" by fastforce
  let ?m = "set_model (two_model (num_items (hdr m)) k1 k2) m"
  have m: "recycled_ok m" "pool_ok p1" using pop_pending_ok [OF pop assms(2)] by simp_all
  then have "0 \<le> slope (two_model (num_items (hdr m)) k1 k2)"
    by (intro two_model_slope) (simp add: recycled_ok_def)
  note ok = recycled_slots_ok [OF m(1) this]
  from b [folded q_def [symmetric]] obtain n1 where lt: "k1 < k2" and i1: "insert_new ?m k1 v1 = Inr n1"
    and i2: "insert_new n1 k2 v2 = Inr n" and p: "pool' = p1"
    unfolding build_tree_two_def q_def [symmetric] q' by (auto simp: bindE_check bindE_Inr pop Let_def)
  note r1 = insert_new_ok [OF i1 ok(1)]
  note r2 = insert_new_ok [OF i2 r1(1)]
  have ms: "mset (entries n) = {#(k1, v1), (k2, v2)#}" using r1(2) r2(2) ok(2) by simp
  have len: "length (entries n) = 2" using arg_cong [OF ms, of size] by simp
  moreover have "node_size (hdr n) = 2" using r1(3) r2(3) m(1) by (simp add: recycled_ok_def)
  ultimately show "lipp_wf n" using r2(1) by (simp add: lipp_wf_iff)
  have "{#(k1, v1), (k2, v2)#} = {#(k, v), (k', v')#}"
    using q' unfolding q_def by (auto split: if_splits simp: add_mset_commute)
  then show "mset (entries n) = {#(k, v), (k', v')#}" using ms by simp
  show "k \<noteq> k'" using q' lt unfolding q_def by (auto split: if_splits)
  show "pool_ok pool'" using p m by simp
  show "big n" using len r1(4) r2(4) m(1) by (simp add: big_def recycled_ok_def)
qed

end
