(* ===== verification/Lipp_Bulk.thy ===== *)
theory Lipp_Bulk
  imports Lipp_Build
begin

text \<open>
  The bulk build of \<open>lipp.h\<close>: \<open>build_tree_bulk_fast\<close> and \<open>build_tree_bulk_fmcd\<close>.
  Both fit a model to a sorted segment, cut the segment into runs of keys that the model sends to
  the same slot, store the runs of one key and build a child for each longer run.
\<close>

subsection \<open>Fitting the model\<close>

definition compute_gap_count :: "int \<Rightarrow> int" where
  "compute_gap_count sz = (if sz \<ge> 1000000 then 1 else if sz \<ge> 100000 then 2 else 5)"

definition key_at :: "'v kvs \<Rightarrow> int \<Rightarrow> u64" where
  "key_at kvs i = fst (kvs ! nat i)"

definition three_parts :: "'v kvs \<Rightarrow> lipp_error + linear_model" where
  "three_parts kvs =
     (let sz = int (length kvs); gap = compute_gap_count sz;
          mid1_pos = (sz - 1) div 3; mid2_pos = (sz - 1) * 2 div 3 in
      bindE (checkE RT_ASSERT (0 \<le> mid1_pos \<and> mid1_pos < mid2_pos \<and> mid2_pos < sz - 1)) (\<lambda>_.
      let mid1_key = ldbl (ldbl (key_ld (key_at kvs mid1_pos) + key_ld (key_at kvs (mid1_pos + 1))) / 2);
          mid2_key = ldbl (ldbl (key_ld (key_at kvs mid2_pos) + key_ld (key_at kvs (mid2_pos + 1))) / 2);
          mid1_target = dbl (of_int (mid1_pos * (gap + 1) + (gap + 1) div 2));
          mid2_target = dbl (of_int (mid2_pos * (gap + 1) + (gap + 1) div 2));
          dkey = ldbl (mid2_key - mid1_key);
          a = dbl (ldbl (dbl (mid2_target - mid1_target) / dkey));
          b = ldbl (mid1_target - ldbl (a * mid1_key)) in
      bindE (checkE RT_ASSERT (dkey \<noteq> 0)) (\<lambda>_. Inr \<lparr>slope = a, intercept = b\<rparr>)))"

definition fmcd_Ut :: "'v kvs \<Rightarrow> int \<Rightarrow> int \<Rightarrow> rat" where
  "fmcd_Ut kvs L D =
     (let sz = int (length kvs) in
      dbl (ldbl (ldbl (ldbl (key_ld (key_at kvs (sz - 1 - D)) - key_ld (key_at kvs D)) / dbl (of_int (L - 2)))
                 + dbl (1 / 10 ^ 6))))"

function fmcd_scan :: "'v kvs \<Rightarrow> rat \<Rightarrow> int \<Rightarrow> int \<Rightarrow> int" where
  "fmcd_scan kvs Ut D i =
     (if i + D < int (length kvs)
         \<and> dbl (of_int (uint (key_at kvs (i + D) - key_at kvs i))) \<ge> Ut
      then fmcd_scan kvs Ut D (i + 1) else i)"
  by pat_completeness auto
termination by (relation "measure (\<lambda>(kvs, Ut, D, i). nat (int (length kvs) - D - i))") auto

function fmcd_loop :: "'v kvs \<Rightarrow> int \<Rightarrow> int \<Rightarrow> int \<Rightarrow> rat \<Rightarrow> lipp_error + (int \<times> rat)" where
  "fmcd_loop kvs L i D Ut =
     (let sz = int (length kvs) in
      if i < sz - 1 - D
      then (let i' = fmcd_scan kvs Ut D i in
            if i' + D \<ge> sz then Inr (D, Ut)
            else if (D + 1) * 3 > sz then Inr (D + 1, Ut)
            else bindE (checkE RT_ASSERT (D + 1 \<le> sz - 1 - (D + 1))) (\<lambda>_.
                   fmcd_loop kvs L i' (D + 1) (fmcd_Ut kvs L (D + 1))))
      else Inr (D, Ut))"
  by pat_completeness auto
termination by (relation "measure (\<lambda>(kvs, L, i, D, Ut). nat (int (length kvs) - D))") auto

declare fmcd_scan.simps [simp del] fmcd_loop.simps [simp del]

definition fmcd :: "'v kvs \<Rightarrow> lipp_error + linear_model" where
  "fmcd kvs =
     (let sz = int (length kvs); L = sz * (compute_gap_count sz + 1) in
      bindE (checkE RT_ASSERT (1 \<le> sz - 1 - 1)) (\<lambda>_.
      bindE (fmcd_loop kvs L 0 1 (fmcd_Ut kvs L 1)) (\<lambda>(D, Ut).
      bindE (if D * 3 \<le> sz
             then let a = dbl (1 / Ut);
                      b = ldbl (ldbl (of_int L - ldbl (a * ldbl (key_ld (key_at kvs (sz - 1 - D)) + key_ld (key_at kvs D)))) / 2) in
                  bindE (checkE RT_ASSERT (Ut \<noteq> 0)) (\<lambda>_. Inr \<lparr>slope = a, intercept = b\<rparr>)
             else three_parts kvs) (\<lambda>m.
      bindE (checkE RT_ASSERT (slope m \<ge> 0)) (\<lambda>_. Inr m)))))"

definition empty_bulk_node :: "lipp_opts \<Rightarrow> int \<Rightarrow> linear_model \<Rightarrow> 'v node" where
  "empty_bulk_node opts sz m =
     (let lr_remains = trunc (dbl (of_int sz * BUILD_LR_REMAIN opts));
          n_items = sz * (compute_gap_count sz + 1) + lr_remains * 2 in
      Node \<lparr>is_two = False, build_size = sz, node_size = sz, fixed = (sz > 1000000), num_inserts = 0,
            num_insert_to_data = 0, num_items = n_items,
            model = m\<lparr>intercept := ldbl (intercept m + of_int lr_remains)\<rparr>,
            none_bitmap = new_bitmap (BITMAP_SIZE n_items) 0xff,
            child_bitmap = new_bitmap (BITMAP_SIZE n_items) 0\<rparr>
        (replicate (nat n_items) Garbage))"

definition train :: "lipp_opts \<Rightarrow> 'v kvs \<Rightarrow> lipp_error + 'v node" where
  "train opts kvs =
     bindE (if USE_FMCD opts then fmcd kvs else three_parts kvs) (\<lambda>m.
     Inr (empty_bulk_node opts (int (length kvs)) m))"

subsection \<open>Placing the runs\<close>

function runs :: "(u64 \<Rightarrow> nat) \<Rightarrow> 'v kvs \<Rightarrow> (nat \<times> 'v kvs) list" where
  "runs f [] = []"
| "runs f (x # xs) =
     (f (fst x), x # takeWhile (\<lambda>y. f (fst y) = f (fst x)) xs)
     # runs f (dropWhile (\<lambda>y. f (fst y) = f (fst x)) xs)"
  by pat_completeness auto
termination by (relation "measure (length \<circ> snd)") (auto simp: less_Suc_eq_le length_dropWhile_le)

fun place_runs ::
  "('v kvs \<Rightarrow> 'v pool \<Rightarrow> lipp_error + ('v node \<times> 'v pool)) \<Rightarrow> 'v node \<Rightarrow> (nat \<times> 'v kvs) list
   \<Rightarrow> 'v pool \<Rightarrow> lipp_error + ('v node \<times> 'v pool)" where
  "place_runs build node [] pool = Inr (node, pool)"
| "place_runs build node ((pos, run) # rs) pool =
     bindE (place_runs build node rs pool) (\<lambda>(node, pool).
     case run of [(k, v)] \<Rightarrow> Inr (put_data node pos k v, pool)
     | _ \<Rightarrow> bindE (build run pool) (\<lambda>(c, pool). Inr (put_child node pos c, pool)))"

text \<open>
  \<open>fuel\<close> bounds the depth of the tree. Two levels of the same tree always have different
  segments unless the build repeats itself forever, so \<open>length kvs\<close> levels are enough
  (\<open>bulk_fuel_enough\<close>): \<open>DIVERGES\<close> is the answer exactly when no depth suffices.
\<close>

primrec bulk_fuel ::
  "lipp_opts \<Rightarrow> nat \<Rightarrow> 'v kvs \<Rightarrow> 'v pool \<Rightarrow> lipp_error + ('v node \<times> 'v pool)" where
  "bulk_fuel opts 0 kvs pool = Inl DIVERGES"
| "bulk_fuel opts (Suc fuel) kvs pool =
     bindE (checkE RT_ASSERT (2 \<le> length kvs)) (\<lambda>_.
     if length kvs = 2
     then build_tree_two (fst (kvs ! 0)) (snd (kvs ! 0)) (fst (kvs ! 1)) (snd (kvs ! 1)) pool
     else bindE (train opts kvs) (\<lambda>node.
            place_runs (\<lambda>kvs pool. bulk_fuel opts fuel kvs pool) node (runs (node_pos node) kvs) pool))"

definition build_tree_bulk :: "lipp_opts \<Rightarrow> 'v kvs \<Rightarrow> 'v pool \<Rightarrow> lipp_error + ('v node \<times> 'v pool)" where
  "build_tree_bulk opts kvs pool =
     bindE (checkE RT_ASSERT (1 < length kvs)) (\<lambda>_. bulk_fuel opts (length kvs) kvs pool)"

subsection \<open>The fitted model\<close>

lemma compute_gap_count_pos: "1 \<le> compute_gap_count sz"
  by (simp add: compute_gap_count_def)

lemma key_at_mono:
  assumes "sorted (map fst kvs)" "0 \<le> i" "i \<le> j" "j < int (length kvs)"
  shows "key_at kvs i \<le> key_at kvs j"
  using sorted_nth_mono [OF assms(1), of "nat i" "nat j"] assms by (simp add: key_at_def)

lemma three_parts_slope:
  assumes "three_parts kvs = Inr m" "sorted (map fst kvs)"
  shows "0 \<le> slope m"
proof -
  define sz where "sz = int (length kvs)"
  define g where "g = compute_gap_count sz"
  let ?p = "(sz - 1) div 3" and ?q = "(sz - 1) * 2 div 3"
  let ?k = "\<lambda>i. key_ld (key_at kvs i)"
  let ?mid = "\<lambda>i. ldbl (ldbl (?k i + ?k (i + 1)) / 2)"
  let ?t = "\<lambda>i. dbl (of_int (i * (g + 1) + (g + 1) div 2))"
  have ch: "0 \<le> ?p" "?p < ?q" "?q < sz - 1"
    and m: "slope m = dbl (ldbl (dbl (?t ?q - ?t ?p) / ldbl (?mid ?q - ?mid ?p)))"
    using assms(1) unfolding three_parts_def Let_def sz_def g_def by (auto simp: bindE_check)
  have g: "1 \<le> g" by (simp add: g_def compute_gap_count_pos)
  have "?p * (g + 1) \<le> ?q * (g + 1)" using ch(2) g by (intro mult_right_mono) auto
  then have "?t ?p \<le> ?t ?q" by (intro fl_mono) (simp_all only: of_int_le_iff add_right_mono)
  then have num: "0 \<le> dbl (?t ?q - ?t ?p)" by (intro fl_nonneg) simp
  have "?k ?p \<le> ?k ?q" "?k (?p + 1) \<le> ?k (?q + 1)"
    using ch by (auto intro!: key_ld_mono key_at_mono [OF assms(2)] simp: sz_def)
  then have "?mid ?p \<le> ?mid ?q" by (intro fl_mono divide_right_mono add_mono) simp_all
  then have "0 \<le> ldbl (?mid ?q - ?mid ?p)" by (intro fl_nonneg) simp
  then show ?thesis unfolding m by (rule fl_nonneg [OF fl_nonneg [OF divide_nonneg_nonneg [OF num]]])
qed

lemma empty_bulk_node_ok:
  assumes "0 \<le> slope m" "0 \<le> BUILD_LR_REMAIN opts" "1 \<le> sz"
  shows "slots_ok (empty_bulk_node opts sz m :: 'a node)"
    "entries (empty_bulk_node opts sz m :: 'a node) = []"
    "node_size (hdr (empty_bulk_node opts sz m :: 'a node)) = sz"
    "set (slots (empty_bulk_node opts sz m :: 'a node)) \<subseteq> {Empty}"
    "num_items (hdr (empty_bulk_node opts sz m :: 'a node)) \<noteq> 1"
proof -
  let ?n = "empty_bulk_node opts sz m :: 'a node"
  define lr where "lr = trunc (dbl (of_int sz * BUILD_LR_REMAIN opts))"
  define k where "k = sz * (compute_gap_count sz + 1) + lr * 2"
  note defs = empty_bulk_node_def Let_def lr_def [symmetric] k_def [symmetric]
  have "0 \<le> lr" unfolding lr_def using assms(2,3) by (intro trunc_nonneg fl_nonneg) simp
  moreover have "1 * 2 \<le> sz * (compute_gap_count sz + 1)"
    using assms(3) compute_gap_count_pos [of sz] by (intro mult_mono) auto
  ultimately have k: "2 \<le> k" by (simp add: k_def)
  have "padded ?n" by (simp add: padded_def defs) (simp add: new_bitmap_def BITMAP_GET_new_full [unfolded new_bitmap_def])
  then have hdr: "hdr_ok ?n" using k assms(1) by (simp add: hdr_ok_def defs new_bitmap_def)
  have len: "length (items ?n) = nat k" by (simp add: defs)
  have idx: "i div 8 < nat (BITMAP_SIZE k)" if "i < nat k" for i
    using BITMAP_SIZE_covers [of i k] that by linarith
  have s: "slots ?n = replicate (nat k) Empty"
    unfolding defs
    by (rule slots_replicate) (simp_all add: BITMAP_GET_new_full BITMAP_GET_new_clear idx)
  show "entries ?n = []" using s by (rule entries_replicate_Empty)
  show "slots_ok ?n" using hdr s len by (simp add: slots_ok_def slot_ok_def)
  show "set (slots ?n) \<subseteq> {Empty}" unfolding s by (auto simp del: set_replicate)
  show "node_size (hdr ?n) = sz" by (simp add: defs)
  show "num_items (hdr ?n) \<noteq> 1" using k by (simp add: defs)
qed

lemma train_ok:
  assumes "train opts kvs = Inr n" "sorted (map fst kvs)" "0 \<le> BUILD_LR_REMAIN opts" "kvs \<noteq> []"
  shows "slots_ok n" "entries n = []" "node_size (hdr n) = int (length kvs)" "set (slots n) \<subseteq> {Empty}"
    "num_items (hdr n) \<noteq> 1"
proof -
  obtain m where m: "n = empty_bulk_node opts (int (length kvs)) m"
    and "(if USE_FMCD opts then fmcd kvs else three_parts kvs) = Inr m"
    using assms(1) by (auto simp: train_def bindE_Inr)
  then have "0 \<le> slope m"
    using three_parts_slope [OF _ assms(2)]
    by (auto simp: fmcd_def bindE_Inr Let_def split: if_splits)
  moreover have "1 \<le> int (length kvs)" using assms(4) by (cases kvs) auto
  ultimately show "slots_ok n" "entries n = []" "node_size (hdr n) = int (length kvs)" "set (slots n) \<subseteq> {Empty}"
    "num_items (hdr n) \<noteq> 1"
    using empty_bulk_node_ok [of m opts "int (length kvs)"] assms(3) m by auto
qed

subsection \<open>The runs cover the segment\<close>

lemma runs_concat: "concat (map snd (runs f xs)) = xs"
  by (induction f xs rule: runs.induct) (simp_all add: takeWhile_dropWhile_id)

lemma runs_run: "(i, r) \<in> set (runs f xs) \<Longrightarrow> r \<noteq> [] \<and> (\<forall>y\<in>set r. f (fst y) = i)"
proof (induction f xs rule: runs.induct)
  case (2 f x xs)
  from "2.prems" consider "i = f (fst x)" "r = x # takeWhile (\<lambda>y. f (fst y) = f (fst x)) xs"
    | "(i, r) \<in> set (runs f (dropWhile (\<lambda>y. f (fst y) = f (fst x)) xs))" by auto
  then show ?case
  proof cases
    case 1
    have "f (fst y) = i" if "y \<in> set (takeWhile (\<lambda>y. f (fst y) = f (fst x)) xs)" for y
      using set_takeWhileD [OF that] 1(1) by blast
    moreover have "f (fst x) = i" by (rule 1(1) [symmetric])
    ultimately show ?thesis unfolding 1(2) set_simps(2) by blast
  next
    case 2
    then show ?thesis by (rule "2.IH")
  qed
qed simp

lemma runs_split:
  assumes "(i, r) \<in> set (runs f xs)"
  obtains ys zs where "xs = ys @ r @ zs"
proof -
  obtain as bs where "runs f xs = as @ (i, r) # bs" using assms by (meson split_list)
  then have "xs = concat (map snd as) @ r @ concat (map snd bs)" using runs_concat [of f xs] by simp
  then show thesis by (rule that)
qed

lemma runs_length: "(i, r) \<in> set (runs f xs) \<Longrightarrow> length r \<le> length xs"
  by (erule runs_split) simp

lemma runs_positions: "fst ` set (runs f xs) = f ` fst ` set xs"
proof (induction f xs rule: runs.induct)
  case (2 f x xs)
  let ?P = "\<lambda>y. f (fst y) = f (fst x)"
  have "set xs = set (takeWhile ?P xs) \<union> set (dropWhile ?P xs)"
    by (metis set_append takeWhile_dropWhile_id)
  moreover have "f ` fst ` set (takeWhile ?P xs) \<subseteq> {f (fst x)}" by (auto dest: set_takeWhileD)
  ultimately show ?case using 2 by (auto simp: image_Un)
qed simp

lemma runs_distinct:
  assumes "sorted (map (\<lambda>y. f (fst y)) xs)"
  shows "distinct (map fst (runs f xs))"
  using assms
proof (induction f xs rule: runs.induct)
  case (2 f x xs)
  let ?P = "\<lambda>y. f (fst y) = f (fst x)"
  have srt: "sorted (map (\<lambda>y. f (fst y)) (dropWhile ?P xs))"
    using "2.prems" sorted_dropWhile [of "map (\<lambda>y. f (fst y)) xs" "\<lambda>z. z = f (fst x)"]
    by (simp add: dropWhile_map o_def)
  moreover have "f (fst x) \<noteq> f (fst y)" if "y \<in> set (dropWhile ?P xs)" for y
  proof (cases "dropWhile ?P xs")
    case (Cons z zs)
    then have "f (fst z) \<noteq> f (fst x)" using hd_dropWhile [of ?P xs] by auto
    moreover have "z \<in> set xs" using Cons by (metis list.set_intros(1) set_dropWhileD)
    then have "f (fst x) \<le> f (fst z)" using "2.prems" by simp
    moreover have "f (fst z) \<le> f (fst y)" using that Cons srt by auto
    ultimately show ?thesis by simp
  next
    case Nil
    then show ?thesis using that by (simp only: list.set empty_iff)
  qed
  ultimately show ?case using "2.IH" by (auto simp: runs_positions)
qed simp

lemma runs_sublist: "(i, r) \<in> set (runs f xs) \<Longrightarrow> sorted_wrt P (map fst xs) \<Longrightarrow> sorted_wrt P (map fst r)"
  by (erule runs_split) (simp add: sorted_wrt_append)

subsection \<open>Placing the runs builds the tree of the segment\<close>

definition builds_ok :: "('v kvs \<Rightarrow> 'v pool \<Rightarrow> lipp_error + ('v node \<times> 'v pool)) \<Rightarrow> 'v kvs \<Rightarrow> bool" where
  "builds_ok build r \<longleftrightarrow> (\<forall>pool c pool'. pool_ok pool \<longrightarrow> build r pool = Inr (c, pool')
     \<longrightarrow> lipp_wf c \<and> entries c = r \<and> num_items (hdr c) \<noteq> 1 \<and> pool_ok pool')"

definition placed :: "'v node \<Rightarrow> (nat \<times> 'v kvs) list \<Rightarrow> 'v node \<Rightarrow> bool" where
  "placed n0 rs n \<longleftrightarrow> slots_ok n \<and> mset (entries n) = mset (concat (map snd rs)) \<and> node_pos n = node_pos n0
     \<and> node_size (hdr n) = node_size (hdr n0) \<and> num_items (hdr n) = num_items (hdr n0) \<and> length (items n) = length (items n0)
     \<and> (\<forall>j<length (items n). j \<notin> fst ` set rs \<longrightarrow> slots n ! j = Empty)"

lemma placed_one:
  assumes "placed n0 rs n" "i \<notin> fst ` set rs" "i < length (items n0)" "node_pos n0 k = i"
  shows "placed n0 ((i, [(k, v)]) # rs) (put_data n i k v)"
proof -
  have n: "slots_ok n" "slots n ! i = Empty" "node_pos n k = i" "i < length (items n)"
    using assms by (auto simp: placed_def)
  have ok: "hdr_ok n" using n(1) by (simp add: slots_ok_def)
  show ?thesis
    using assms(1) put_data_slots_ok [OF n(1), of k v] n slots_put_data [OF ok n(4,2), of k v]
    unfolding placed_def by auto
qed

lemma placed_child:
  assumes "placed n0 rs n" "i \<notin> fst ` set rs" "i < length (items n0)"
    and "\<forall>y\<in>set r. node_pos n0 (fst y) = i" "lipp_wf c" "entries c = r" "2 \<le> length r" "num_items (hdr c) \<noteq> 1"
  shows "placed n0 ((i, r) # rs) (put_child n i c)"
proof -
  have n: "slots_ok n" "slots n ! i = Empty" "i < length (items n)" and pos: "node_pos n = node_pos n0"
    using assms(1-3) by (auto simp: placed_def)
  have ok: "hdr_ok n" using n(1) by (simp add: slots_ok_def)
  have "slot_ok n i (Sub c)" using assms(4-8) pos by (simp add: slot_ok_def big_def)
  note put = put_child_slots_ok [OF n this]
  show ?thesis
    using assms(1,6) put n slots_put_child [OF ok n(3), of c]
    unfolding placed_def by auto
qed

lemma place_runs_ok:
  assumes "place_runs build n0 rs pool = Inr (n, pool')" "pool_ok pool"
    and "placed n0 [] n0" "distinct (map fst rs)"
    and "\<forall>(i, r)\<in>set rs. r \<noteq> [] \<and> i < length (items n0) \<and> (\<forall>y\<in>set r. node_pos n0 (fst y) = i)
           \<and> (2 \<le> length r \<longrightarrow> builds_ok build r)"
  shows "placed n0 rs n \<and> pool_ok pool'"
  using assms
proof (induction rs arbitrary: n pool')
  case (Cons ir rs)
  obtain i r where ir: "ir = (i, r)" by fastforce
  obtain n1 p1 where rest: "place_runs build n0 rs pool = Inr (n1, p1)"
    using Cons.prems(1) ir by (auto simp: bindE_Inr)
  have IH: "placed n0 rs n1" "pool_ok p1" using Cons.IH [OF rest] Cons.prems(2-5) by auto
  have r: "r \<noteq> []" "i < length (items n0)" "\<forall>y\<in>set r. node_pos n0 (fst y) = i" "i \<notin> fst ` set rs"
    "2 \<le> length r \<Longrightarrow> builds_ok build r"
    using Cons.prems(4,5) ir by auto
  show ?case
  proof (cases "2 \<le> length r")
    case False
    then obtain k v where kv: "r = [(k, v)]" using r(1) by (cases r rule: list.exhaust; cases "tl r") auto
    then have "n = put_data n1 i k v" "pool' = p1" using Cons.prems(1) rest ir by simp_all
    then show ?thesis using placed_one [OF IH(1) r(4,2), of k v] r(3) IH(2) kv ir by simp
  next
    case True
    then obtain x y ys where r': "r = x # y # ys" by (cases r rule: list.exhaust; cases "tl r") auto
    then obtain c where c: "build r p1 = Inr (c, pool')" "n = put_child n1 i c"
      using Cons.prems(1) rest ir by (cases x) (auto simp: bindE_Inr)
    then have c': "lipp_wf c" "entries c = r" "num_items (hdr c) \<noteq> 1" "pool_ok pool'"
      using r(5) [OF True] IH(2) by (auto simp: builds_ok_def)
    then show ?thesis using placed_child [OF IH(1) r(4,2,3) c'(1,2) True c'(3)] c(2) ir c'(4) by simp
  qed
qed simp

lemma bulk_fuel_ok:
  assumes "0 \<le> BUILD_LR_REMAIN opts"
  shows "sorted_wrt (<) (map fst kvs) \<Longrightarrow> builds_ok (bulk_fuel opts fuel) kvs"
proof (induction fuel arbitrary: kvs)
  case 0
  then show ?case by (simp add: builds_ok_def)
next
  case (Suc fuel)
  note strict = Suc.prems
  have sorted: "sorted (map fst kvs)" using strict strict_sorted_iff by blast
  show ?case unfolding builds_ok_def
  proof (intro allI impI)
    fix pool n pool'
    assume pool: "pool_ok pool" and b: "bulk_fuel opts (Suc fuel) kvs pool = Inr (n, pool')"
    then have len: "2 \<le> length kvs" by (auto simp: bindE_check)
    show "lipp_wf n \<and> entries n = kvs \<and> num_items (hdr n) \<noteq> 1 \<and> pool_ok pool'"
    proof (cases "length kvs = 2")
      case True
      then obtain x y where xy: "kvs = [x, y]" by (auto simp: length_Suc_conv numeral_2_eq_2)
      then have "build_tree_two (fst x) (snd x) (fst y) (snd y) pool = Inr (n, pool')"
        using b by simp
      note two = build_tree_two_ok [OF this pool]
      have "set (entries n) = set kvs" using arg_cong [OF two(2), of set_mset] xy by simp
      then show ?thesis using two(1,3,5) entries_eqI [OF two(1) strict] by (simp add: big_def)
    next
      case False
      with b len obtain n0 where t: "train opts kvs = Inr n0"
        and pl: "place_runs (\<lambda>kvs pool. bulk_fuel opts fuel kvs pool) n0 (runs (node_pos n0) kvs) pool = Inr (n, pool')"
        by (auto simp: bindE_check bindE_Inr)
      have "kvs \<noteq> []" using len by auto
      note n0 = train_ok [OF t sorted assms this]
      have ok: "hdr_ok n0" using n0(1) by (simp add: slots_ok_def)
      have e: "placed n0 [] n0" using n0 nth_mem [of _ "slots n0"] by (force simp: placed_def)
      have d: "distinct (map fst (runs (node_pos n0) kvs))"
        using sorted node_pos_mono [OF ok] by (intro runs_distinct) (auto simp: sorted_wrt_map elim: sorted_wrt_mono_rel [rotated])
      have "\<forall>(i, r)\<in>set (runs (node_pos n0) kvs). r \<noteq> [] \<and> i < length (items n0)
          \<and> (\<forall>y\<in>set r. node_pos n0 (fst y) = i) \<and> (2 \<le> length r \<longrightarrow> builds_ok (bulk_fuel opts fuel) r)"
      proof (clarify, intro conjI impI)
        fix i r assume ir: "(i, r) \<in> set (runs (node_pos n0) kvs)"
        show "r \<noteq> []" "\<forall>y\<in>set r. node_pos n0 (fst y) = i" using runs_run [OF ir] by blast+
        then show "i < length (items n0)" using node_pos_less [OF ok] by (cases r) auto
        show "builds_ok (bulk_fuel opts fuel) r" by (rule Suc.IH [OF runs_sublist [OF ir strict]])
      qed
      then have r: "placed n0 (runs (node_pos n0) kvs) n" "pool_ok pool'"
        using place_runs_ok [OF pl pool e d] by auto
      then have ms: "mset (entries n) = mset kvs" by (simp add: placed_def runs_concat)
      have "length (entries n) = length kvs" using arg_cong [OF ms, of size] by simp
      then have wf: "lipp_wf n" using r(1) n0(3) by (simp add: lipp_wf_iff placed_def)
      have "set (entries n) = set kvs" using arg_cong [OF ms, of set_mset] by simp
      then show ?thesis using wf r n0(5) entries_eqI [OF wf strict] by (simp add: placed_def)
    qed
  qed
qed

lemma build_tree_bulk_ok:
  assumes "build_tree_bulk opts kvs pool = Inr (n, pool')" "pool_ok pool"
    and "0 \<le> BUILD_LR_REMAIN opts" "sorted_wrt (<) (map fst kvs)"
  shows "lipp_wf n" "entries n = kvs" "pool_ok pool'" "num_items (hdr n) \<noteq> 1"
  using assms bulk_fuel_ok [OF assms(3,4), of "length kvs"]
  by (auto simp: build_tree_bulk_def bindE_check builds_ok_def)

subsection \<open>The fuel is exact\<close>

lemma runs_full:
  assumes "(i, r) \<in> set (runs f xs)" "length r = length xs"
  shows "runs f xs = [(i, xs)]"
proof -
  obtain as bs where rs: "runs f xs = as @ (i, r) # bs" using assms(1) by (meson split_list)
  then have xs: "xs = concat (map snd as) @ r @ concat (map snd bs)" using runs_concat [of f xs] by simp
  have "snd q \<noteq> []" if "q \<in> set (as @ bs)" for q
    using runs_run [of "fst q" "snd q" f xs] rs that by auto
  moreover have "concat (map snd as) = []" "concat (map snd bs) = []"
    using arg_cong [OF xs, of length] assms(2) by auto
  ultimately have "as = []" "bs = []" by (auto simp: concat_eq_Nil_conv) (metis list.set_intros(1) snd_conv surj_pair neq_Nil_conv)+
  then show ?thesis using rs xs by simp
qed

lemma place_runs_cong:
  assumes "\<And>i r pool. (i, r) \<in> set rs \<Longrightarrow> build r pool = build' r pool"
  shows "place_runs build node rs pool = place_runs build' node rs pool"
  using assms
proof (induction rs arbitrary: pool)
  case (Cons ir rs)
  obtain i r where ir: "ir = (i, r)" by fastforce
  have "place_runs build node rs pool = place_runs build' node rs pool"
    by (rule Cons.IH) (metis Cons.prems list.set_intros(2))
  moreover have "build r = build' r" using Cons.prems [of i r] ir by auto
  ultimately show ?case unfolding ir place_runs.simps by (simp only:)
qed simp

lemma place_runs_single:
  assumes "2 \<le> length r"
  shows "place_runs build node [(i, r)] pool
    = bindE (build r pool) (\<lambda>(c, pool). Inr (put_child node i c, pool))"
proof -
  obtain x y ys where "r = x # y # ys" using assms by (cases r rule: list.exhaust; cases "tl r") auto
  then show ?thesis by (cases x) simp
qed

lemma bulk_fuel_stuck:
  assumes "2 < length kvs" "train opts kvs = Inr n" "runs (node_pos n) kvs = [(i, kvs)]"
  shows "bulk_fuel opts fuel kvs pool = Inl DIVERGES"
proof (induction fuel arbitrary: pool)
  case (Suc fuel)
  have "bulk_fuel opts (Suc fuel) kvs pool
      = place_runs (\<lambda>kvs pool. bulk_fuel opts fuel kvs pool) n (runs (node_pos n) kvs) pool"
    using assms(1,2) by simp
  also have "\<dots> = Inl DIVERGES"
    unfolding assms(3) using assms(1) Suc by (subst place_runs_single) simp_all
  finally show ?case .
qed simp

lemma bulk_fuel_enough:
  assumes "kvs \<noteq> []" "length kvs \<le> m" "length kvs \<le> m'"
  shows "bulk_fuel opts m kvs pool = bulk_fuel opts m' kvs pool"
  using assms
proof (induction "length kvs" arbitrary: kvs m m' pool rule: less_induct)
  case less
  obtain a b where m: "m = Suc a" "m' = Suc b"
    using less.prems by (cases m; cases m') auto
  consider "length kvs \<le> 2" | e where "2 < length kvs" "train opts kvs = Inl e"
    | n where "2 < length kvs" "train opts kvs = Inr n" by (cases "train opts kvs") force+
  then show ?case
  proof cases
    case 1
    then show ?thesis using m by (cases "length kvs = 2") (auto simp: checkE_def)
  next
    case 2
    then show ?thesis using m by simp
  next
    case 3
    let ?rs = "runs (node_pos n) kvs"
    show ?thesis
    proof (cases "\<exists>i r. (i, r) \<in> set ?rs \<and> length r = length kvs")
      case True
      then obtain i where "?rs = [(i, kvs)]" using runs_full by blast
      from bulk_fuel_stuck [OF 3 this] show ?thesis by (simp only:)
    next
      case False
      have "bulk_fuel opts a r p = bulk_fuel opts b r p" if r: "(i, r) \<in> set ?rs" for i r p
      proof (rule less.hyps)
        show short: "length r < length kvs" using runs_length [OF r] False r by force
        show "r \<noteq> []" using runs_run [OF r] by simp
        show "length r \<le> a" "length r \<le> b" using short less.prems m by simp_all
      qed
      then have "place_runs (\<lambda>kvs pool. bulk_fuel opts a kvs pool) n ?rs pool
          = place_runs (\<lambda>kvs pool. bulk_fuel opts b kvs pool) n ?rs pool"
        by (intro place_runs_cong) blast
      then show ?thesis using m 3 by simp
    qed
  qed
qed

end
