(* ===== verification/Lipp_Ops.thy ===== *)
theory Lipp_Ops
  imports Lipp_Bulk
begin

text \<open>
  The public operations of \<open>LIPP\<close> (\<open>lipp.h\<close>): the lookups \<open>find\<close>, \<open>exists\<close> and
  \<open>at\<close>, the insertion with its rebuild of the first overgrown node on the path, the scan that
  flattens a subtree into arrays, the destruction of a tree, \<open>bulk_load\<close> and \<open>verify\<close>.
\<close>

subsection \<open>Lookups\<close>

definition item_at :: "'v node \<Rightarrow> nat \<Rightarrow> 'v item" where
  "item_at n pos = (if pos < length (items n) then items n ! pos else Garbage)"

lemma item_at_child [termination_simp]:
  assumes "item_at n pos = Child c"
  shows "size c < size n"
proof (rule size_child_less)
  show "Child c \<in> set (items n)"
    using assms by (auto simp: item_at_def in_set_conv_nth split: if_splits)
qed

function lipp_find :: "'v node \<Rightarrow> u64 \<Rightarrow> lipp_error + 'v option" where
  "lipp_find node key =
     (let pos = node_pos node key in
      if BITMAP_GET (child_bitmap (hdr node)) pos
      then (case item_at node pos of Child c \<Rightarrow> lipp_find c key | _ \<Rightarrow> Inl BAD_ACCESS)
      else if \<not> BITMAP_GET (none_bitmap (hdr node)) pos
      then (case item_at node pos of Data k v \<Rightarrow> Inr (if k = key then Some v else None) | _ \<Rightarrow> Inl BAD_ACCESS)
      else Inr None)"
  by pat_completeness auto
termination by (relation "measure (size \<circ> fst)") (auto simp: termination_simp)

function lipp_exists :: "'v node \<Rightarrow> u64 \<Rightarrow> lipp_error + bool" where
  "lipp_exists node key =
     (let pos = node_pos node key in
      if BITMAP_GET (none_bitmap (hdr node)) pos then Inr False
      else if \<not> BITMAP_GET (child_bitmap (hdr node)) pos
      then (case item_at node pos of Data k v \<Rightarrow> Inr (k = key) | _ \<Rightarrow> Inl BAD_ACCESS)
      else (case item_at node pos of Child c \<Rightarrow> lipp_exists c key | _ \<Rightarrow> Inl BAD_ACCESS))"
  by pat_completeness auto
termination by (relation "measure (size \<circ> fst)") (auto simp: termination_simp)

function lipp_at :: "'v node \<Rightarrow> u64 \<Rightarrow> bool \<Rightarrow> lipp_error + 'v" where
  "lipp_at node key skip_existence_check =
     (let pos = node_pos node key in
      if BITMAP_GET (child_bitmap (hdr node)) pos
      then (case item_at node pos of Child c \<Rightarrow> lipp_at c key skip_existence_check | _ \<Rightarrow> Inl BAD_ACCESS)
      else if skip_existence_check
      then (case item_at node pos of Data k v \<Rightarrow> Inr v | _ \<Rightarrow> Inl BAD_ACCESS)
      else if BITMAP_GET (none_bitmap (hdr node)) pos then Inl RT_ASSERT
      else (case item_at node pos of
              Data k v \<Rightarrow> bindE (checkE RT_ASSERT (k = key)) (\<lambda>_. Inr v)
            | _ \<Rightarrow> Inl BAD_ACCESS))"
  by pat_completeness auto
termination by (relation "measure (size \<circ> fst)") (auto simp: termination_simp)

declare lipp_find.simps [simp del] lipp_exists.simps [simp del] lipp_at.simps [simp del]

subsection \<open>Destroying and flattening a tree\<close>

definition reset_two :: "'v node \<Rightarrow> 'v node" where
  "reset_two n = Node (hdr n\<lparr>node_size := 2, num_inserts := 0, num_insert_to_data := 0,
     none_bitmap := (none_bitmap (hdr n))[0 := 0xff], child_bitmap := (child_bitmap (hdr n))[0 := 0]\<rparr>) (items n)"

definition recycle :: "'v node \<Rightarrow> 'v pool \<Rightarrow> lipp_error + 'v pool" where
  "recycle node pool =
     (if is_two (hdr node)
      then bindE (checkE RT_ASSERT (build_size (hdr node) = 2)) (\<lambda>_.
           bindE (checkE RT_ASSERT (num_items (hdr node) = 8)) (\<lambda>_.
           Inr (reset_two node # pool)))
      else Inr pool)"

fun push_children :: "bitmap \<Rightarrow> (nat \<times> 'v item) list \<Rightarrow> 'v node list \<Rightarrow> lipp_error + 'v node list" where
  "push_children child_bm [] s = Inr s"
| "push_children child_bm ((i, it) # its) s =
     (if BITMAP_GET child_bm i
      then (case it of Child c \<Rightarrow> push_children child_bm its (c # s) | _ \<Rightarrow> Inl BAD_ACCESS)
      else push_children child_bm its s)"

text \<open>The array pair \<open>keys\<close>, \<open>values\<close> is one list of cells; \<open>None\<close> is a cell not yet written.\<close>

fun scan_items ::
  "node_hdr \<Rightarrow> (nat \<times> 'v item) list \<Rightarrow> int \<Rightarrow> (u64 \<times> 'v) option list \<Rightarrow> (int \<times> 'v node) list
   \<Rightarrow> lipp_error + (int \<times> (u64 \<times> 'v) option list \<times> (int \<times> 'v node) list)" where
  "scan_items h [] begin' arr s = Inr (begin', arr, s)"
| "scan_items h ((i, it) # its) begin' arr s =
     (if \<not> BITMAP_GET (none_bitmap h) i
      then if \<not> BITMAP_GET (child_bitmap h) i
           then (case it of Data k v \<Rightarrow>
                   bindE (checkE BAD_ACCESS (0 \<le> begin' \<and> begin' < int (length arr))) (\<lambda>_.
                   scan_items h its (begin' + 1) (arr[nat begin' := Some (k, v)]) s)
                 | _ \<Rightarrow> Inl BAD_ACCESS)
           else (case it of Child c \<Rightarrow> scan_items h its (begin' + node_size (hdr c)) arr ((begin', c) # s)
                 | _ \<Rightarrow> Inl BAD_ACCESS)
      else scan_items h its begin' arr s)"

lemma push_children_size:
  "push_children bm its s = Inr s' \<Longrightarrow> sum_list (map size s') \<le> sum_list (map size s) + size_list (size \<circ> snd) its"
proof (induction its arbitrary: s)
  case (Cons x its)
  obtain i it where x: "x = (i, it)" by fastforce
  show ?case
  proof (cases "\<exists>c. it = Child c \<and> BITMAP_GET bm i")
    case True
    then obtain c where "it = Child c" "push_children bm its (c # s) = Inr s'"
      using Cons.prems x by auto
    then show ?thesis using Cons.IH [of "c # s"] x by simp
  next
    case False
    then have "push_children bm its s = Inr s'" using Cons.prems x by (auto split: if_splits item.splits)
    then show ?thesis using Cons.IH [of s] by simp
  qed
qed simp

lemma scan_items_size:
  "scan_items h its b arr s = Inr (b', arr', s')
   \<Longrightarrow> sum_list (map (size \<circ> snd) s') \<le> sum_list (map (size \<circ> snd) s) + size_list (size \<circ> snd) its"
proof (induction its arbitrary: b arr s)
  case (Cons x its)
  obtain i it where x: "x = (i, it)" by fastforce
  show ?case
  proof (cases "\<exists>c b1 b2. it = Child c \<and> scan_items h its b1 arr ((b2, c) # s) = Inr (b', arr', s')")
    case True
    then obtain c b1 b2 where "it = Child c" "scan_items h its b1 arr ((b2, c) # s) = Inr (b', arr', s')" by blast
    then show ?thesis using Cons.IH [of b1 arr "(b2, c) # s"] x by simp
  next
    case False
    then obtain b arr where "scan_items h its b arr s = Inr (b', arr', s')"
      using Cons.prems x by (auto simp: bindE_check split: if_splits item.splits)
    then show ?thesis using Cons.IH [of b arr s] by simp
  qed
qed simp

lemma size_list_enumerate: "size_list (size \<circ> snd) (enumerate k its) = size_list size its"
  by (induction its arbitrary: k) (simp_all add: o_def)

lemma size_items: "size_list size (items n) < size n"
  by (cases n) simp

function destroy_loop :: "'v node list \<Rightarrow> 'v pool \<Rightarrow> lipp_error + 'v pool" where
  "destroy_loop [] pool = Inr pool"
| "destroy_loop (node # s) pool =
     bindE (push_children (child_bitmap (hdr node)) (enumerate 0 (items node)) s) (\<lambda>s'.
     bindE (recycle node pool) (\<lambda>pool'.
     destroy_loop s' pool'))"
  by pat_completeness auto

termination
proof (relation "measure (\<lambda>(s, pool). sum_list (map size s))", goal_cases)
  case (2 node s pool s' pool')
  then show ?case
    using push_children_size [of _ "enumerate 0 (items node)" s s'] size_items [of node]
    by (force simp: size_list_enumerate)
qed simp

definition destroy_tree :: "'v node \<Rightarrow> 'v pool \<Rightarrow> lipp_error + 'v pool" where
  "destroy_tree node pool = destroy_loop [node] pool"

function scan_loop ::
  "bool \<Rightarrow> (int \<times> 'v node) list \<Rightarrow> (u64 \<times> 'v) option list \<Rightarrow> 'v pool
   \<Rightarrow> lipp_error + ((u64 \<times> 'v) option list \<times> 'v pool)" where
  "scan_loop destory [] arr pool = Inr (arr, pool)"
| "scan_loop destory ((begin', node) # s) arr pool =
     bindE (scan_items (hdr node) (enumerate 0 (items node)) begin' arr s) (\<lambda>(end', arr', s').
     bindE (checkE RT_ASSERT (begin' + node_size (hdr node) = end')) (\<lambda>_.
     bindE (if destory then recycle node pool else Inr pool) (\<lambda>pool'.
     scan_loop destory s' arr' pool')))"
  by pat_completeness auto
termination
proof (relation "measure (\<lambda>(d, s, arr, pool). sum_list (map (size \<circ> snd) s))", goal_cases)
  case (2 destory begin' node s arr pool r end' arr' s' u pool')
  then show ?case
    using scan_items_size [of _ "enumerate 0 (items node)" begin' arr s end'] size_items [of node]
    by (force simp: size_list_enumerate)
qed simp

definition scan_and_destory_tree ::
  "'v node \<Rightarrow> (u64 \<times> 'v) option list \<Rightarrow> bool \<Rightarrow> 'v pool
   \<Rightarrow> lipp_error + ((u64 \<times> 'v) option list \<times> 'v pool)" where
  "scan_and_destory_tree node arr destory pool = scan_loop destory [(0, node)] arr pool"

subsection \<open>Insertion\<close>

definition need_rebuild :: "'v node \<Rightarrow> bool" where
  "need_rebuild n \<longleftrightarrow> \<not> fixed (hdr n) \<and> node_size (hdr n) \<ge> build_size (hdr n) * 4 \<and> node_size (hdr n) \<ge> 64
     \<and> num_insert_to_data (hdr n) * 10 \<ge> num_inserts (hdr n)"

definition count_insert :: "'v node \<Rightarrow> 'v node" where
  "count_insert n = Node (hdr n\<lparr>node_size := node_size (hdr n) + 1, num_inserts := num_inserts (hdr n) + 1\<rparr>) (items n)"

definition count_data :: "int \<Rightarrow> 'v node \<Rightarrow> 'v node" where
  "count_data d n = Node (hdr n\<lparr>num_insert_to_data := num_insert_to_data (hdr n) + d\<rparr>) (items n)"

definition MAX_DEPTH :: nat where
  "MAX_DEPTH = 128"

text \<open>
  The first loop of \<open>insert_tree\<close>, from \<open>node\<close> at depth \<open>path_size\<close> downwards. The result
  is the changed subtree, the final \<open>path_size\<close> and \<open>insert_to_data\<close>.
\<close>

function insert_descend ::
  "nat \<Rightarrow> 'v node \<Rightarrow> u64 \<Rightarrow> 'v \<Rightarrow> 'v pool \<Rightarrow> lipp_error + ('v node \<times> nat \<times> int \<times> 'v pool)" where
  "insert_descend path_size node0 key v pool =
     bindE (checkE RT_ASSERT (path_size < MAX_DEPTH)) (\<lambda>_.
     let node = count_insert node0; pos = node_pos node0 key in
     if BITMAP_GET (none_bitmap (hdr node0)) pos
     then Inr (put_data node pos key v, path_size + 1, 0, pool)
     else if \<not> BITMAP_GET (child_bitmap (hdr node0)) pos
     then (case item_at node0 pos of Data k' v' \<Rightarrow>
             bindE (build_tree_two key v k' v' pool) (\<lambda>(c, pool').
             Inr (set_child node pos c, path_size + 1, 1, pool'))
           | _ \<Rightarrow> Inl BAD_ACCESS)
     else (case item_at node0 pos of Child c \<Rightarrow>
             bindE (insert_descend (path_size + 1) c key v pool) (\<lambda>(c', path_size', insert_to_data, pool').
             Inr (replace_child node pos c', path_size', insert_to_data, pool'))
           | _ \<Rightarrow> Inl BAD_ACCESS))"
  by pat_completeness auto
termination by (relation "measure (\<lambda>(d, n, k, v, pool). size n)") (auto simp: termination_simp)

declare insert_descend.simps [simp del]

text \<open>The two loops over the path; \<open>len\<close> is the number of path nodes from \<open>node\<close> on.\<close>

definition path_child :: "'v node \<Rightarrow> u64 \<Rightarrow> lipp_error + 'v node" where
  "path_child node key = (case item_at node (node_pos node key) of Child c \<Rightarrow> Inr c | _ \<Rightarrow> Inl BAD_ACCESS)"

fun path_count_data :: "nat \<Rightarrow> 'v node \<Rightarrow> u64 \<Rightarrow> int \<Rightarrow> lipp_error + 'v node" where
  "path_count_data 0 node key d = Inr node"
| "path_count_data (Suc 0) node key d = Inr (count_data d node)"
| "path_count_data (Suc (Suc len)) node key d =
     bindE (path_child node key) (\<lambda>c.
     bindE (path_count_data (Suc len) c key d) (\<lambda>c'.
     Inr (replace_child (count_data d node) (node_pos node key) c')))"

definition rebuild_node :: "lipp_opts \<Rightarrow> 'v node \<Rightarrow> 'v pool \<Rightarrow> lipp_error + ('v node \<times> 'v pool)" where
  "rebuild_node opts node pool =
     (let ESIZE = node_size (hdr node) in
      bindE (scan_and_destory_tree node (replicate (nat ESIZE) None) True pool) (\<lambda>(arr, pool').
      bindE (checkE BAD_ACCESS (None \<notin> set arr)) (\<lambda>_.
      build_tree_bulk opts (map the arr) pool')))"

fun path_rebuild :: "lipp_opts \<Rightarrow> nat \<Rightarrow> 'v node \<Rightarrow> u64 \<Rightarrow> 'v pool \<Rightarrow> lipp_error + ('v node \<times> 'v pool)" where
  "path_rebuild opts 0 node key pool = Inr (node, pool)"
| "path_rebuild opts (Suc len) node key pool =
     (if need_rebuild node then rebuild_node opts node pool
      else if len = 0 then Inr (node, pool)
      else bindE (path_child node key) (\<lambda>c.
           bindE (path_rebuild opts len c key pool) (\<lambda>(c', pool').
           Inr (replace_child node (node_pos node key) c', pool'))))"

definition insert_tree ::
  "lipp_opts \<Rightarrow> 'v node \<Rightarrow> u64 \<Rightarrow> 'v \<Rightarrow> 'v pool \<Rightarrow> lipp_error + ('v node \<times> 'v pool)" where
  "insert_tree opts node key v pool =
     bindE (insert_descend 0 node key v pool) (\<lambda>(node, path_size, insert_to_data, pool).
     bindE (path_count_data path_size node key insert_to_data) (\<lambda>node.
     path_rebuild opts path_size node key pool))"

subsection \<open>The index object\<close>

record 'v lipp =
  root_node :: "'v node"
  pending_two :: "'v pool"

definition lipp_new :: "'v lipp" where
  "lipp_new = \<lparr>root_node = build_tree_none, pending_two = []\<rparr>"

definition lipp_insert :: "lipp_opts \<Rightarrow> u64 \<Rightarrow> 'v \<Rightarrow> 'v lipp \<Rightarrow> lipp_error + 'v lipp" where
  "lipp_insert opts key v st =
     bindE (insert_tree opts (root_node st) key v (pending_two st)) (\<lambda>(node, pool).
     Inr (st\<lparr>root_node := node, pending_two := pool\<rparr>))"

fun ascending :: "'v kvs \<Rightarrow> bool" where
  "ascending (x # y # ys) \<longleftrightarrow> fst x < fst y \<and> ascending (y # ys)"
| "ascending _ \<longleftrightarrow> True"

definition lipp_bulk_load :: "lipp_opts \<Rightarrow> 'v kvs \<Rightarrow> 'v lipp \<Rightarrow> lipp_error + 'v lipp" where
  "lipp_bulk_load opts vs st =
     (case vs of
        [] \<Rightarrow> bindE (destroy_tree (root_node st) (pending_two st)) (\<lambda>pool.
              Inr (st\<lparr>root_node := build_tree_none, pending_two := pool\<rparr>))
      | [(k, v)] \<Rightarrow> bindE (destroy_tree (root_node st) (pending_two st)) (\<lambda>pool.
              lipp_insert opts k v (st\<lparr>root_node := build_tree_none, pending_two := pool\<rparr>))
      | [(k, v), (k', v')] \<Rightarrow> bindE (destroy_tree (root_node st) (pending_two st)) (\<lambda>pool.
              bindE (build_tree_two k v k' v' pool) (\<lambda>(node, pool).
              Inr (st\<lparr>root_node := node, pending_two := pool\<rparr>)))
      | _ \<Rightarrow> bindE (checkE RT_ASSERT (ascending vs)) (\<lambda>_.
              bindE (destroy_tree (root_node st) (pending_two st)) (\<lambda>pool.
              bindE (build_tree_bulk opts vs pool) (\<lambda>(node, pool).
              Inr (st\<lparr>root_node := node, pending_two := pool\<rparr>)))))"

end
