(* ===== verification/Lipp_Correct.thy ===== *)
theory Lipp_Correct
  imports Lipp_Ops
begin

text \<open>
  The operations of \<open>Lipp_Ops\<close> against the map \<open>lipp_map\<close> and the invariant
  \<open>lipp_wf\<close>: lookups read the map, the scan writes the in-order traversal, the insertion
  adds one pair to the map, and every operation keeps the invariant and the pool of recycled nodes.
\<close>

subsection \<open>What the bitmaps and the union say about a slot\<close>

lemma slot_of_cases:
  "slot_of h i it = Empty \<longleftrightarrow> BITMAP_GET (none_bitmap h) i \<and> \<not> BITMAP_GET (child_bitmap h) i"
  "slot_of h i it = Entry k v \<longleftrightarrow> \<not> BITMAP_GET (none_bitmap h) i \<and> \<not> BITMAP_GET (child_bitmap h) i \<and> it = Data k v"
  "slot_of h i it = Sub c \<longleftrightarrow> \<not> BITMAP_GET (none_bitmap h) i \<and> BITMAP_GET (child_bitmap h) i \<and> it = Child c"
  by (auto simp: slot_of_def split: item.splits)

lemma slot_view:
  assumes "p < length (items n)"
  shows "slots n ! p = Empty \<longleftrightarrow> BITMAP_GET (none_bitmap (hdr n)) p \<and> \<not> BITMAP_GET (child_bitmap (hdr n)) p"
    and "slots n ! p = Entry k v \<longleftrightarrow> \<not> BITMAP_GET (none_bitmap (hdr n)) p \<and> \<not> BITMAP_GET (child_bitmap (hdr n)) p
           \<and> item_at n p = Data k v"
    and "slots n ! p = Sub c \<longleftrightarrow> \<not> BITMAP_GET (none_bitmap (hdr n)) p \<and> BITMAP_GET (child_bitmap (hdr n)) p
           \<and> item_at n p = Child c"
  using assms by (simp_all add: slots_nth item_at_def slot_of_cases)

lemma slot_cases_wf:
  assumes "slots_ok n" "p < length (items n)"
  obtains (Empty) "slots n ! p = Empty" "BITMAP_GET (none_bitmap (hdr n)) p" "\<not> BITMAP_GET (child_bitmap (hdr n)) p"
  | (Entry) k v where "slots n ! p = Entry k v" "\<not> BITMAP_GET (none_bitmap (hdr n)) p"
      "\<not> BITMAP_GET (child_bitmap (hdr n)) p" "item_at n p = Data k v"
  | (Sub) c where "slots n ! p = Sub c" "\<not> BITMAP_GET (none_bitmap (hdr n)) p"
      "BITMAP_GET (child_bitmap (hdr n)) p" "item_at n p = Child c" "lipp_wf c" "big c"
proof -
  have ok: "slot_ok n p (slots n ! p)" using assms by (simp add: slots_ok_def)
  show thesis
  proof (cases "slots n ! p")
    case Empty
    with slot_view(1) [OF assms(2)] that(1) show thesis by simp
  next
    case (Entry k v)
    with slot_view(2) [OF assms(2), of k v] that(2) [of k v] show thesis by simp
  next
    case (Sub c)
    with slot_view(3) [OF assms(2), of c] that(3) [of c] ok show thesis by (simp add: slot_ok_def)
  next
    case Corrupt
    with ok show thesis by (simp add: slot_ok_def)
  qed
qed

lemma lipp_wf_slots_ok: "lipp_wf n \<Longrightarrow> slots_ok n"
  by (simp add: lipp_wf_iff)

lemma slots_ok_hdr_ok: "slots_ok n \<Longrightarrow> hdr_ok n"
  by (simp add: slots_ok_def)

lemmas wf_pos = node_pos_less [OF slots_ok_hdr_ok, OF lipp_wf_slots_ok]

lemma lipp_map_Sub:
  "lipp_wf n \<Longrightarrow> slots n ! node_pos n key = Sub c \<Longrightarrow> lipp_map n key = lipp_map c key"
  using lipp_map_slot [of n key] by (simp add: lipp_map_def)

subsection \<open>Lookups\<close>

lemma lipp_find_map: "lipp_wf n \<Longrightarrow> lipp_find n key = Inr (lipp_map n key)"
proof (induction n key rule: lipp_find.induct)
  case (1 n key)
  let ?p = "node_pos n key"
  note wf = 1(2)
  have p: "?p < length (items n)" using wf by (rule wf_pos)
  show ?case
  proof (cases rule: slot_cases_wf [OF lipp_wf_slots_ok [OF wf] p])
    case 1
    then show ?thesis by (simp add: lipp_find.simps [of n] lipp_map_slot [OF wf] Let_def)
  next
    case (2 k v)
    then show ?thesis by (simp add: lipp_find.simps [of n] lipp_map_slot [OF wf] Let_def)
  next
    case (3 c)
    then have "lipp_find c key = Inr (lipp_map c key)" by (intro "1.IH") auto
    with 3 show ?thesis by (simp add: lipp_find.simps [of n] lipp_map_Sub [OF wf] Let_def)
  qed
qed

lemma lipp_exists_map: "lipp_wf n \<Longrightarrow> lipp_exists n key = Inr (key \<in> lipp_keys n)"
proof (induction n key rule: lipp_exists.induct)
  case (1 n key)
  let ?p = "node_pos n key"
  note wf = 1(2)
  have p: "?p < length (items n)" using wf by (rule wf_pos)
  show ?case
  proof (cases rule: slot_cases_wf [OF lipp_wf_slots_ok [OF wf] p])
    case 1
    then show ?thesis by (simp add: lipp_exists.simps [of n] lipp_keys_map lipp_map_slot [OF wf] Let_def)
  next
    case (2 k v)
    then show ?thesis by (simp add: lipp_exists.simps [of n] lipp_keys_map lipp_map_slot [OF wf] Let_def)
  next
    case (3 c)
    then have "lipp_exists c key = Inr (key \<in> lipp_keys c)" by (intro "1.IH") auto
    with 3 show ?thesis by (simp add: lipp_exists.simps [of n] lipp_keys_map lipp_map_Sub [OF wf] Let_def)
  qed
qed

lemma lipp_at_map:
  "lipp_wf n \<Longrightarrow> lipp_map n key = Some v \<Longrightarrow> lipp_at n key skip = Inr v"
proof (induction n key skip rule: lipp_at.induct)
  case (1 n key skip)
  let ?p = "node_pos n key"
  note wf = 1(2)
  have p: "?p < length (items n)" using wf by (rule wf_pos)
  show ?case
  proof (cases rule: slot_cases_wf [OF lipp_wf_slots_ok [OF wf] p])
    case 1
    then show ?thesis using "1.prems"(2) by (simp add: lipp_map_slot [OF wf])
  next
    case (2 k v)
    then show ?thesis using "1.prems"(2)
      by (simp add: lipp_at.simps [of n] lipp_map_slot [OF wf] Let_def split: if_splits)
  next
    case (3 c)
    then have "lipp_at c key skip = Inr v" using "1.prems"(2)
      by (intro "1.IH") (simp_all add: lipp_map_Sub [OF wf])
    with 3 show ?thesis by (simp add: lipp_at.simps [of n] Let_def)
  qed
qed

lemma lipp_at_missing:
  "lipp_wf n \<Longrightarrow> lipp_map n key = None \<Longrightarrow> lipp_at n key False = Inl RT_ASSERT"
proof (induction n key "False" rule: lipp_at.induct)
  case (1 n key)
  let ?p = "node_pos n key"
  note wf = "1.prems"(1)
  have p: "?p < length (items n)" using wf by (rule wf_pos)
  show ?case
  proof (cases rule: slot_cases_wf [OF lipp_wf_slots_ok [OF wf] p])
    case 1
    then show ?thesis by (simp add: lipp_at.simps [of n] Let_def)
  next
    case (2 k v)
    then show ?thesis using "1.prems"(2)
      by (simp add: lipp_at.simps [of n] lipp_map_slot [OF wf] Let_def split: if_splits)
  next
    case (3 c)
    then have "lipp_at c key False = Inl RT_ASSERT" using "1.prems"(2)
      by (intro "1.hyps") (simp_all add: lipp_map_Sub [OF wf])
    with 3 show ?thesis by (simp add: lipp_at.simps [of n] Let_def)
  qed
qed

end
