(* ===== verification/Lipp_Scan.thy ===== *)
theory Lipp_Scan
  imports Lipp_Correct
begin

text \<open>
  Flattening and destroying trees. The scan works through a stack of subtrees, each with the
  offset where its entries belong; its invariant is that every cell of the arrays either holds
  its final content already or lies in the range of a subtree still on the stack.
\<close>

subsection \<open>Recycling nodes\<close>

lemma recycle_ok:
  assumes "hdr_ok n" "pool_ok pool"
  obtains pool' where "recycle n pool = Inr pool'" "pool_ok pool'"
proof (cases "is_two (hdr n)")
  case True
  then have h: "build_size (hdr n) = 2" "num_items (hdr n) = 8" "\<not> fixed (hdr n)"
    "length (none_bitmap (hdr n)) = 1" "length (child_bitmap (hdr n)) = 1" "length (items n) = 8"
    using assms(1) by (auto simp: hdr_ok_def BITMAP_SIZE_def)
  then have "none_bitmap (hdr (reset_two n)) = [0xff]" "child_bitmap (hdr (reset_two n)) = [0]"
    unfolding reset_two_def by (auto simp: length_Suc_conv)
  then have "recycled_ok (reset_two n)" using h True by (simp add: recycled_ok_def reset_two_def)
  then show thesis using that [of "reset_two n # pool"] True h(1,2) assms(2) by (simp add: recycle_def)
next
  case False
  then show thesis using that [of pool] assms(2) by (simp add: recycle_def)
qed

subsection \<open>Destroying a tree\<close>

lemma push_children_ok:
  assumes "\<forall>(i, it)\<in>set its. slot_of h i it \<noteq> Corrupt \<and> (\<forall>c. slot_of h i it = Sub c \<longrightarrow> lipp_wf c)"
    and "\<forall>c\<in>set s. lipp_wf c"
  shows "\<exists>s'. push_children (child_bitmap h) its s = Inr s' \<and> (\<forall>c\<in>set s'. lipp_wf c)"
  using assms
proof (induction its arbitrary: s)
  case (Cons x its)
  obtain i it where x: "x = (i, it)" by fastforce
  then have slot: "slot_of h i it \<noteq> Corrupt" "\<And>c. slot_of h i it = Sub c \<Longrightarrow> lipp_wf c"
    using Cons.prems(1) by auto
  show ?case
  proof (cases "BITMAP_GET (child_bitmap h) i")
    case False
    then show ?thesis using Cons x by simp
  next
    case True
    then obtain c where "it = Child c" "slot_of h i it = Sub c"
      using slot(1) by (auto simp: slot_of_def split: if_splits item.splits)
    then show ?thesis using Cons.IH [of "c # s"] Cons.prems slot(2) True x by auto
  qed
qed simp

lemma enumerate_slots: "(i, it) \<in> set (enumerate 0 (items n)) \<Longrightarrow> slot_of (hdr n) i it \<in> set (slots n)"
  by (force simp: slots_def)

lemma wf_enumerate:
  "lipp_wf n \<Longrightarrow> \<forall>(i, it)\<in>set (enumerate 0 (items n)). slot_of (hdr n) i it \<noteq> Corrupt
     \<and> (\<forall>c. slot_of (hdr n) i it = Sub c \<longrightarrow> lipp_wf c)"
  using enumerate_slots [of _ _ n] lipp_wfD(3,5) [of n] by fastforce

lemma destroy_loop_ok:
  "\<forall>c\<in>set s. lipp_wf c \<Longrightarrow> pool_ok pool \<Longrightarrow> \<exists>pool'. destroy_loop s pool = Inr pool' \<and> pool_ok pool'"
proof (induction s pool rule: destroy_loop.induct)
  case (2 n s pool)
  then have wf: "lipp_wf n" by simp
  obtain s' where s': "push_children (child_bitmap (hdr n)) (enumerate 0 (items n)) s = Inr s'"
    and wfs: "\<forall>c\<in>set s'. lipp_wf c"
    using push_children_ok [OF wf_enumerate [OF wf], of s] "2.prems"(1) by auto
  obtain pool' where p: "recycle n pool = Inr pool'" "pool_ok pool'"
    using recycle_ok [OF lipp_wfD(1) [OF wf] "2.prems"(2)] by blast
  show ?case using "2.IH" [OF s' p(1) wfs p(2)] s' p by simp
qed simp

lemma destroy_tree_ok:
  assumes "lipp_wf n" "pool_ok pool"
  obtains pool' where "destroy_tree n pool = Inr pool'" "pool_ok pool'"
  using destroy_loop_ok [of "[n]" pool] assms by (auto simp: destroy_tree_def)

subsection \<open>Flattening\<close>

definition inside :: "'v kvs \<Rightarrow> int \<Rightarrow> 'v node \<Rightarrow> bool" where
  "inside xs b n \<longleftrightarrow> lipp_wf n \<and> (\<exists>ys zs. xs = ys @ entries n @ zs \<and> int (length ys) = b)"

definition scan_inv :: "'v kvs \<Rightarrow> (u64 \<times> 'v) option list \<Rightarrow> (int \<times> 'v node) list \<Rightarrow> int \<Rightarrow> int \<Rightarrow> bool" where
  "scan_inv xs arr s lo hi \<longleftrightarrow> length arr = length xs \<and> (\<forall>(b, n)\<in>set s. inside xs b n)
     \<and> (\<forall>j<length xs. arr ! j = Some (xs ! j) \<or> lo \<le> int j \<and> int j < hi
          \<or> (\<exists>(b, n)\<in>set s. b \<le> int j \<and> int j < b + int (length (entries n))))"

lemma scan_inv_write:
  assumes "scan_inv xs arr s (int (length ys)) hi" "xs = ys @ x # zs"
  shows "scan_inv xs (arr[length ys := Some x]) s (int (length ys) + 1) hi"
proof -
  have "arr[length ys := Some x] ! j = Some (xs ! j)" if "j = length ys \<or> arr ! j = Some (xs ! j)" "j < length xs" for j
    using that assms by (auto simp: scan_inv_def nth_list_update)
  then show ?thesis using assms(1) unfolding scan_inv_def
    by (smt (verit, ccfv_SIG) length_list_update nth_list_update_neq of_nat_eq_iff)
qed

lemma scan_inv_push:
  assumes "scan_inv xs arr s (int (length ys)) hi" "xs = ys @ entries c @ zs" "lipp_wf c"
  shows "scan_inv xs arr ((int (length ys), c) # s) (int (length ys) + int (length (entries c))) hi"
proof -
  have "inside xs (int (length ys)) c" using assms(2,3) by (auto simp: inside_def)
  then show ?thesis using assms(1) unfolding scan_inv_def by (fastforce simp: not_le)
qed

lemma scan_items_ok:
  assumes "\<forall>(i, it)\<in>set its. slot_of h i it \<noteq> Corrupt \<and> (\<forall>c. slot_of h i it = Sub c \<longrightarrow> lipp_wf c)"
    and "es = concat (map (\<lambda>(i, it). slot_entries (slot_of h i it)) its)"
    and "xs = ys @ es @ zs" "scan_inv xs arr s (int (length ys)) (int (length ys) + int (length es))"
  shows "\<exists>arr' s'. scan_items h its (int (length ys)) arr s = Inr (int (length ys) + int (length es), arr', s')
     \<and> scan_inv xs arr' s' 0 0"
  using assms
proof (induction its arbitrary: es ys arr s)
  case Nil
  then show ?case by (auto simp: scan_inv_def)
next
  case (Cons x its)
  obtain i it where x: "x = (i, it)" by fastforce
  let ?slot = "slot_of h i it"
  define es' where "es' = concat (map (\<lambda>(i, it). slot_entries (slot_of h i it)) its)"
  have slot: "?slot \<noteq> Corrupt" "\<And>c. ?slot = Sub c \<Longrightarrow> lipp_wf c"
    and its: "\<forall>(i, it)\<in>set its. slot_of h i it \<noteq> Corrupt \<and> (\<forall>c. slot_of h i it = Sub c \<longrightarrow> lipp_wf c)"
    using Cons.prems(1) x by auto
  have es: "es = slot_entries ?slot @ es'" using Cons.prems(2) x by (simp add: es'_def)
  show ?case
  proof (cases ?slot)
    case Empty
    then have "es = es'" using es by simp
    then show ?thesis using Cons.IH [OF its es'_def, of ys arr s] Cons.prems(3,4) Empty x
      by (simp add: slot_of_cases)
  next
    case (Entry k v)
    let ?ys = "ys @ [(k, v)]"
    have xs: "xs = ?ys @ es' @ zs" "length ys < length arr"
      using Cons.prems(3,4) es Entry by (auto simp: scan_inv_def)
    have "scan_inv xs (arr[length ys := Some (k, v)]) s (int (length ?ys)) (int (length ?ys) + int (length es'))"
      using scan_inv_write [OF Cons.prems(4), of "(k, v)" "es' @ zs"] es Entry Cons.prems(3)
      by (simp add: ac_simps)
    from Cons.IH [OF its es'_def xs(1) this] show ?thesis
      using Entry x es [unfolded Entry] xs(2) by (simp add: slot_of_cases ac_simps)
  next
    case (Sub c)
    let ?ys = "ys @ entries c"
    have wf: "lipp_wf c" using slot(2) Sub by simp
    have xs: "xs = ?ys @ es' @ zs" using Cons.prems(3) es Sub by simp
    have "scan_inv xs arr ((int (length ys), c) # s) (int (length ?ys)) (int (length ?ys) + int (length es'))"
      using scan_inv_push [OF Cons.prems(4) _ wf, of "es' @ zs"] es Sub Cons.prems(3)
      by (simp add: ac_simps)
    from Cons.IH [OF its es'_def xs this] show ?thesis
      using Sub x es [unfolded Sub] lipp_wfD(2) [OF wf] by (simp add: slot_of_cases ac_simps)
  qed (use slot in simp)
qed

lemma scan_loop_ok:
  "scan_inv xs arr s 0 0 \<Longrightarrow> pool_ok pool
   \<Longrightarrow> \<exists>pool'. scan_loop d s arr pool = Inr (map Some xs, pool') \<and> pool_ok pool'"
proof (induction d s arr pool rule: scan_loop.induct)
  case (1 d arr pool)
  then have "arr = map Some xs" by (intro nth_equalityI) (auto simp: scan_inv_def)
  then show ?case using 1 by simp
next
  case (2 d b n s arr pool)
  obtain ys zs where wf: "lipp_wf n" and xs: "xs = ys @ entries n @ zs" and b: "b = int (length ys)"
    using "2.prems"(1) by (auto simp: scan_inv_def inside_def)
  let ?len = "int (length (entries n))"
  have e: "entries n = concat (map (\<lambda>(i, it). slot_entries (slot_of (hdr n) i it)) (enumerate 0 (items n)))"
    by (simp add: entries_slots slots_def o_def split_def)
  have "scan_inv xs arr s b (b + ?len)" using "2.prems"(1) b unfolding scan_inv_def by auto
  then obtain arr' s' where sc: "scan_items (hdr n) (enumerate 0 (items n)) b arr s = Inr (b + ?len, arr', s')"
    and inv: "scan_inv xs arr' s' 0 0"
    using scan_items_ok [OF wf_enumerate [OF wf] e xs, of arr s] b by auto
  have sz: "b + node_size (hdr n) = b + ?len" using lipp_wfD(2) [OF wf] by simp
  obtain pool' where p: "(if d then recycle n pool else Inr pool) = Inr pool'" "pool_ok pool'"
    using recycle_ok [OF lipp_wfD(1) [OF wf] "2.prems"(2)] "2.prems"(2) by (metis (full_types))
  have ch: "checkE RT_ASSERT (b + node_size (hdr n) = b + ?len) = Inr ()" using sz by simp
  have "\<exists>pool''. scan_loop d s' arr' pool' = Inr (map Some xs, pool'') \<and> pool_ok pool''"
    by (rule "2.IH" [OF sc _ _ ch p(1) inv p(2)]) (rule refl)+
  then show ?case using sc sz p(1) by simp
qed

lemma scan_and_destory_tree_ok:
  assumes "lipp_wf n" "pool_ok pool" "length arr = length (entries n)"
  obtains pool' where "scan_and_destory_tree n arr d pool = Inr (map Some (entries n), pool')" "pool_ok pool'"
proof -
  have "inside (entries n) 0 n" using assms(1) by (auto simp: inside_def intro: exI [of _ "[]"])
  then have "scan_inv (entries n) arr [(0, n)] 0 0" using assms(3) by (simp add: scan_inv_def)
  from scan_loop_ok [OF this assms(2), of d] show thesis
    using that by (auto simp: scan_and_destory_tree_def)
qed

end
