(* ===== verification/Lipp_Insert.thy ===== *)
theory Lipp_Insert
  imports Lipp_Scan
begin

text \<open>
  The insertion of \<open>LIPP\<close>: the descent adds one pair to the traversal, the counters and the
  rebuild of an overgrown node on the path leave the traversal alone.
\<close>

subsection \<open>Steps that do not touch the slots\<close>

lemma slots_hdr_cong:
  "none_bitmap h = none_bitmap (hdr n) \<Longrightarrow> child_bitmap h = child_bitmap (hdr n) \<Longrightarrow> slots (Node h (items n)) = slots n"
  by (intro nth_equalityI) (simp_all add: slots_nth slot_of_def)

lemma slots_count [simp]: "slots (count_insert n) = slots n" "slots (count_data d n) = slots n"
  by (simp_all add: count_insert_def count_data_def slots_hdr_cong)

lemma node_pos_count [simp]: "node_pos (count_insert n) = node_pos n" "node_pos (count_data d n) = node_pos n"
  by (simp_all add: count_insert_def count_data_def node_pos_def fun_eq_iff)

lemma entries_count [simp]: "entries (count_insert n) = entries n" "entries (count_data d n) = entries n"
  by (simp_all add: entries_slots)

lemma items_count [simp]: "items (count_insert n) = items n" "items (count_data d n) = items n"
  by (simp_all add: count_insert_def count_data_def)

lemma node_size_count [simp]:
  "node_size (hdr (count_insert n)) = node_size (hdr n) + 1" "node_size (hdr (count_data d n)) = node_size (hdr n)"
  "num_items (hdr (count_insert n)) = num_items (hdr n)" "num_items (hdr (count_data d n)) = num_items (hdr n)"
  by (simp_all add: count_insert_def count_data_def)

lemma slots_ok_count [simp]: "slots_ok (count_insert n) = slots_ok n" "slots_ok (count_data d n) = slots_ok n"
proof -
  have "hdr_ok (count_insert n) = hdr_ok n" "hdr_ok (count_data d n) = hdr_ok n"
    by (simp_all add: count_insert_def count_data_def hdr_ok_def padded_def)
  then show "slots_ok (count_insert n) = slots_ok n" "slots_ok (count_data d n) = slots_ok n"
    by (simp_all add: slots_ok_def slot_ok_def)
qed

lemma lipp_wf_count_data [simp]: "lipp_wf (count_data d n) = lipp_wf n"
  by (simp add: lipp_wf_iff)

lemma node_pos_replace_fun [simp]:
  "node_pos (set_child n pos c) = node_pos n" "node_pos (replace_child n pos c) = node_pos n"
  by (simp_all add: fun_eq_iff)

lemma replace_child_ok:
  assumes "slots_ok n" "p < length (items n)" "slots n ! p = Sub c"
    and "lipp_wf c'" "big c'" "\<forall>k\<in>fst ` set (entries c'). node_pos n k = p"
  shows "slots_ok (replace_child n p c')"
    and "mset (entries (replace_child n p c')) + mset (entries c) = mset (entries n) + mset (entries c')"
proof -
  note s = slots_replace_child [OF assms(2,3), of c']
  show "slots_ok (replace_child n p c')"
    by (rule slots_ok_update [OF assms(1) _ _ s])
      (use assms in \<open>simp_all add: slot_ok_def slots_ok_hdr_ok\<close>)
  show "mset (entries (replace_child n p c')) + mset (entries c) = mset (entries n) + mset (entries c')"
    using mset_entries_update [OF s assms(2)] assms(3) by simp
qed

lemma set_child_ok:
  assumes "slots_ok n" "p < length (items n)" "slots n ! p = Entry k v"
    and "lipp_wf c" "big c" "\<forall>k\<in>fst ` set (entries c). node_pos n k = p"
  shows "slots_ok (set_child n p c)"
    and "add_mset (k, v) (mset (entries (set_child n p c))) = mset (entries n) + mset (entries c)"
proof -
  note s = slots_set_child [OF slots_ok_hdr_ok [OF assms(1)] assms(2,3), of c]
  show "slots_ok (set_child n p c)"
    by (rule slots_ok_update [OF assms(1) _ _ s])
      (use assms in \<open>simp_all add: slot_ok_def slots_ok_hdr_ok\<close>)
  show "add_mset (k, v) (mset (entries (set_child n p c))) = mset (entries n) + mset (entries c)"
    using mset_entries_update [OF s assms(2)] assms(3) by simp
qed

lemma entries_at_slot:
  "slots_ok n \<Longrightarrow> p < length (items n) \<Longrightarrow> k \<in> fst ` set (slot_entries (slots n ! p)) \<Longrightarrow> node_pos n k = p"
  unfolding slots_ok_def slot_ok_def by blast

subsection \<open>The descent\<close>

text \<open>\<open>path_valid len n key\<close>: the path of \<open>key\<close> from \<open>n\<close> has at least \<open>len\<close> nodes.\<close>

fun path_valid :: "nat \<Rightarrow> 'v node \<Rightarrow> u64 \<Rightarrow> bool" where
  "path_valid 0 n key \<longleftrightarrow> True"
| "path_valid (Suc 0) n key \<longleftrightarrow> True"
| "path_valid (Suc (Suc len)) n key \<longleftrightarrow>
     (\<exists>c. slots n ! node_pos n key = Sub c \<and> path_valid (Suc len) c key)"

lemma mset_eq_lengthD: "mset xs = add_mset y (mset ys) \<Longrightarrow> length xs = Suc (length ys)"
  by (metis size_add_mset size_mset)

lemma insert_descend_ok:
  assumes "lipp_wf n" "pool_ok pool"
    and "insert_descend d n key v pool = Inr (n', path_size, itd, pool')"
  shows "lipp_wf n' \<and> mset (entries n') = add_mset (key, v) (mset (entries n)) \<and> pool_ok pool'
    \<and> node_pos n' = node_pos n \<and> num_items (hdr n') = num_items (hdr n) \<and> d < path_size \<and> path_valid (path_size - d) n' key"
  using assms
proof (induction d n key v pool arbitrary: n' path_size itd pool' rule: insert_descend.induct)
  case (1 d n key v pool)
  let ?p = "node_pos n key"
  let ?n = "count_insert n"
  note wf = "1.prems"(1)
  note ok = lipp_wf_slots_ok [OF wf]
  have ok': "slots_ok ?n" using ok by simp
  have p: "?p < length (items n)" using wf by (rule wf_pos)
  have d: "d < MAX_DEPTH" using "1.prems"(3) by (auto simp: insert_descend.simps [of d n] bindE_check)
  have sz: "node_size (hdr n) = int (length (entries n))" by (rule lipp_wfD(2) [OF wf])
  show ?case
  proof (cases rule: slot_cases_wf [OF ok p])
    case 1
    then have r: "n' = put_data ?n ?p key v" "path_size = d + 1" "pool' = pool"
      using "1.prems"(3) d by (simp_all add: insert_descend.simps [of d n] Let_def)
    have e: "slots ?n ! node_pos ?n key = Empty" using 1 by simp
    note put = put_data_slots_ok [OF ok' e, of v]
    have "length (entries n') = Suc (length (entries n))"
      using mset_eq_lengthD [OF put(2)] r(1) by simp
    then show ?thesis using put r sz "1.prems"(2) by (simp add: lipp_wf_iff)
  next
    case (2 k' v')
    then obtain c where two: "build_tree_two key v k' v' pool = Inr (c, pool')"
      and r: "n' = set_child ?n ?p c" "path_size = d + 1"
      using "1.prems"(3) d by (auto simp: insert_descend.simps [of d n] Let_def bindE_Inr)
    note c = build_tree_two_ok [OF two "1.prems"(2)]
    have keys: "fst ` set (entries c) = {key, k'}" using arg_cong [OF c(2), of set_mset] by auto
    have "node_pos n k' = ?p" using 2(1) by (intro entries_at_slot [OF ok p]) simp
    then have k': "\<forall>k\<in>fst ` set (entries c). node_pos ?n k = ?p" unfolding keys by simp
    have s: "slots ?n ! ?p = Entry k' v'" using 2 by simp
    have "?p < length (items ?n)" "big c" using p c(5) by simp_all
    note set = set_child_ok [OF ok' this(1) s c(1) this(2) k']
    then have ms: "mset (entries n') = add_mset (key, v) (mset (entries n))"
      using c(2) r(1) by simp
    then have "length (entries n') = Suc (length (entries n))" by (rule mset_eq_lengthD)
    then show ?thesis using set(1) ms r sz c(3) by (simp add: lipp_wf_iff)
  next
    case (3 c)
    then obtain c' where rec: "insert_descend (d + 1) c key v pool = Inr (c', path_size, itd, pool')"
      and r: "n' = replace_child ?n ?p c'"
      using "1.prems"(3) d by (auto simp: insert_descend.simps [of d n] Let_def bindE_Inr)
    have ch: "checkE RT_ASSERT (d < MAX_DEPTH) = Inr ()" using d by simp
    have IH: "lipp_wf c'" "mset (entries c') = add_mset (key, v) (mset (entries c))" "pool_ok pool'"
      "d + 1 < path_size" "path_valid (path_size - (d + 1)) c' key" "num_items (hdr c') = num_items (hdr c)"
      using "1.IH" [OF ch refl refl _ _ 3(4,5) "1.prems"(2) rec] 3 by auto
    have len: "length (entries c') = Suc (length (entries c))" by (rule mset_eq_lengthD [OF IH(2)])
    have keys: "fst ` set (entries c') = insert key (fst ` set (entries c))"
      using arg_cong [OF IH(2), of set_mset] by auto
    have "\<forall>k\<in>fst ` set (entries c). node_pos n k = ?p" using entries_at_slot [OF ok p] 3(1) by simp
    then have k': "\<forall>k\<in>fst ` set (entries c'). node_pos ?n k = ?p" unfolding keys by simp
    have s: "slots ?n ! ?p = Sub c" using 3 by simp
    have q: "?p < length (items ?n)" "big c'" using p len 3(6) IH(6) by (simp_all add: big_def)
    note set = replace_child_ok [OF ok' q(1) s IH(1) q(2) k']
    then have ms: "mset (entries n') = add_mset (key, v) (mset (entries n))"
      using IH(2) r(1) by simp
    then have "length (entries n') = Suc (length (entries n))" by (rule mset_eq_lengthD)
    then have wf': "lipp_wf n'" using set(1) r sz by (simp add: lipp_wf_iff)
    have "slots n' ! node_pos n' key = Sub c'"
      using slots_replace_child [OF q(1) s, of c'] r p by simp
    moreover obtain m where m: "path_size - d = Suc (Suc m)" using IH(4)
      by (metis Suc_diff_Suc Suc_eq_plus1 Suc_lessD)
    then have "path_size - (d + 1) = Suc m" by simp
    ultimately have "path_valid (path_size - d) n' key" using IH(5) m by auto
    then show ?thesis using wf' ms IH(3,4) r by simp
  qed
qed

subsection \<open>The loops over the path\<close>

lemma replace_child_same:
  assumes "lipp_wf n" "slots n ! node_pos n key = Sub c" "lipp_wf c'" "entries c' = entries c"
    and "num_items (hdr c) \<noteq> 1 \<longrightarrow> num_items (hdr c') \<noteq> 1" and "n' = replace_child n0 (node_pos n key) c'" "slots n0 = slots n" "slots_ok n0"
    and "node_pos n0 = node_pos n" "node_size (hdr n0) = node_size (hdr n)"
  shows "lipp_wf n' \<and> entries n' = entries n"
proof -
  let ?p = "node_pos n key"
  have p: "?p < length (items n0)" using wf_pos [OF assms(1)] assms(7) by (metis length_slots)
  have s: "slots n0 ! ?p = Sub c" using assms(2,7) by simp
  have "slot_ok n ?p (Sub c)"
    using assms(1,2) wf_pos [OF assms(1), of key] by (metis lipp_wf_slots_ok slots_ok_def)
  then have c': "big c'" "\<forall>k\<in>fst ` set (entries c'). node_pos n0 k = ?p"
    using assms(4,5,9) by (simp_all add: slot_ok_def big_def)
  note r = replace_child_ok [OF assms(8) p s assms(3) c']
  have "slots n' = (slots n)[?p := Sub c']"
    using slots_replace_child [OF p s, of c'] assms(6,7) by simp
  moreover have "map slot_entries ((slots n)[?p := Sub c']) = map slot_entries (slots n)"
    using wf_pos [OF assms(1), of key] assms(2,4)
    by (intro nth_equalityI) (auto simp: nth_list_update)
  ultimately have e: "entries n' = entries n" by (simp add: entries_slots [of n'] entries_slots [of n])
  then show ?thesis using r(1) assms(1,6,10) by (simp add: lipp_wf_iff)
qed

lemma path_child_Sub:
  assumes "lipp_wf n" "slots n ! node_pos n key = Sub c"
  shows "path_child n key = Inr c" "lipp_wf c"
proof -
  note p = wf_pos [OF assms(1), of key]
  show "path_child n key = Inr c" using slot_view(3) [OF p, of c] assms(2) by (simp add: path_child_def)
  show "lipp_wf c" using lipp_wfD(5) [OF assms(1), of c] nth_mem [of "node_pos n key" "slots n"] p assms(2)
    by simp
qed

lemma path_count_data_ok:
  assumes "lipp_wf n" "path_valid len n key"
  shows "\<exists>n'. path_count_data len n key d = Inr n' \<and> lipp_wf n' \<and> entries n' = entries n
     \<and> num_items (hdr n') = num_items (hdr n) \<and> node_pos n' = node_pos n \<and> path_valid len n' key"
  using assms
proof (induction len n key d rule: path_count_data.induct)
  case (3 len n key d)
  obtain c where c: "slots n ! node_pos n key = Sub c" "path_valid (Suc len) c key"
    using "3.prems"(2) by auto
  note pc = path_child_Sub [OF "3.prems"(1) c(1)]
  then obtain c' where c': "path_count_data (Suc len) c key d = Inr c'" "lipp_wf c'" "entries c' = entries c"
    "path_valid (Suc len) c' key" "num_items (hdr c') = num_items (hdr c)"
    using "3.IH" [of c] c(2) by auto
  let ?n = "replace_child (count_data d n) (node_pos n key) c'"
  have "lipp_wf ?n \<and> entries ?n = entries n"
    by (rule replace_child_same [OF "3.prems"(1) c(1) c'(2,3) _ refl])
      (use "3.prems"(1) c'(5) in \<open>simp_all add: lipp_wf_slots_ok\<close>)
  moreover have "slots ?n ! node_pos n key = Sub c'"
    using slots_replace_child [of "node_pos n key" "count_data d n" c c'] wf_pos [OF "3.prems"(1), of key] c(1)
    by simp
  ultimately show ?case using pc c' by simp
qed (auto simp: lipp_wf_count_data)

lemma rebuild_node_ok:
  assumes "lipp_wf n" "pool_ok pool" "0 \<le> BUILD_LR_REMAIN opts"
    and "rebuild_node opts n pool = Inr (n', pool')"
  shows "lipp_wf n' \<and> entries n' = entries n \<and> (num_items (hdr n) \<noteq> 1 \<longrightarrow> num_items (hdr n') \<noteq> 1) \<and> pool_ok pool'"
proof -
  have sz: "nat (node_size (hdr n)) = length (entries n)" using lipp_wfD(2) [OF assms(1)] by simp
  obtain pool1 where "scan_and_destory_tree n (replicate (length (entries n)) None) True pool
      = Inr (map Some (entries n), pool1)" "pool_ok pool1"
    using scan_and_destory_tree_ok [OF assms(1,2)] by (metis length_replicate)
  moreover from this have "build_tree_bulk opts (entries n) pool1 = Inr (n', pool')"
    using assms(4) sz by (auto simp: rebuild_node_def bindE_check o_def)
  ultimately show ?thesis
    using build_tree_bulk_ok [OF _ _ assms(3) entries_sorted [OF assms(1)]] by blast
qed

lemma path_rebuild_ok:
  assumes "lipp_wf n" "pool_ok pool" "0 \<le> BUILD_LR_REMAIN opts" "path_valid len n key"
    and "path_rebuild opts len n key pool = Inr (n', pool')"
  shows "lipp_wf n' \<and> entries n' = entries n \<and> (num_items (hdr n) \<noteq> 1 \<longrightarrow> num_items (hdr n') \<noteq> 1) \<and> pool_ok pool'"
  using assms
proof (induction len arbitrary: n n' pool')
  case (Suc len)
  consider "need_rebuild n" | "\<not> need_rebuild n" "len = 0" | m where "\<not> need_rebuild n" "len = Suc m"
    by (cases len) auto
  then show ?case
  proof cases
    case 1
    then show ?thesis using Suc.prems rebuild_node_ok [of n pool opts] by simp
  next
    case 2
    then show ?thesis using Suc.prems by simp
  next
    case 3
    obtain c where c: "slots n ! node_pos n key = Sub c" "path_valid len c key"
      using Suc.prems(4) 3(2) by auto
    note pc = path_child_Sub [OF Suc.prems(1) c(1)]
    then obtain c' where c': "path_rebuild opts len c key pool = Inr (c', pool')"
      and n': "n' = replace_child n (node_pos n key) c'"
      using Suc.prems(5) 3 by (auto simp: bindE_Inr)
    have IH: "lipp_wf c' \<and> entries c' = entries c \<and> (num_items (hdr c) \<noteq> 1 \<longrightarrow> num_items (hdr c') \<noteq> 1) \<and> pool_ok pool'"
      using Suc.IH [OF _ Suc.prems(2,3) c(2) c'] pc by simp
    have "lipp_wf n' \<and> entries n' = entries n"
      by (rule replace_child_same [OF Suc.prems(1) c(1) _ _ _ n'])
        (use IH Suc.prems(1) in \<open>simp_all add: lipp_wf_slots_ok\<close>)
    then show ?thesis using IH n' by simp
  qed
qed simp

lemma insert_tree_ok:
  assumes "lipp_wf n" "pool_ok pool" "0 \<le> BUILD_LR_REMAIN opts"
    and "insert_tree opts n key v pool = Inr (n', pool')"
  shows "lipp_wf n'" "mset (entries n') = add_mset (key, v) (mset (entries n))" "pool_ok pool'"
    "num_items (hdr n) \<noteq> 1 \<longrightarrow> num_items (hdr n') \<noteq> 1"
proof -
  obtain n1 ps itd p1 n2 where d: "insert_descend 0 n key v pool = Inr (n1, ps, itd, p1)"
    and c: "path_count_data ps n1 key itd = Inr n2" and r: "path_rebuild opts ps n2 key p1 = Inr (n', pool')"
    using assms(4) by (auto simp: insert_tree_def bindE_Inr)
  note 1 = insert_descend_ok [OF assms(1,2) d]
  then have 2: "lipp_wf n2" "entries n2 = entries n1" "path_valid ps n2 key" "num_items (hdr n2) = num_items (hdr n1)"
    using path_count_data_ok [of n1 ps key itd] c by auto
  have 3: "lipp_wf n' \<and> entries n' = entries n2 \<and> (num_items (hdr n2) \<noteq> 1 \<longrightarrow> num_items (hdr n') \<noteq> 1) \<and> pool_ok pool'"
    using path_rebuild_ok [OF 2(1) _ assms(3) 2(3) r] 1 by blast
  show "lipp_wf n'" "mset (entries n') = add_mset (key, v) (mset (entries n))" "pool_ok pool'"
    "num_items (hdr n) \<noteq> 1 \<longrightarrow> num_items (hdr n') \<noteq> 1"
    using 1 2 3 by simp_all
qed

end
