(* ===== verification/Lipp_Total.thy ===== *)
theory Lipp_Total
  imports Lipp_Insert
begin

text \<open>
  When the assertions of \<open>LIPP\<close> hold and when they stop the program. \<open>build_tree_two\<close>
  never fails on two different keys below \<open>2 ^ 60\<close>, by an error analysis of its floating-point
  model; inserting a key that is present always stops the program.
\<close>

subsection \<open>The model of a two-key node separates the keys\<close>

lemma fl_between:
  assumes "\<bar>x\<bar> \<le> B" "1 \<le> p"
  shows "x - B / 2 ^ p \<le> fl p x" "fl p x \<le> x + B / 2 ^ p"
proof -
  have "\<bar>fl p x - x\<bar> \<le> B / 2 ^ p"
    using fl_error [of p x] assms(1) by (meson divide_right_mono order_trans zero_le_numeral zero_le_power)
  then show "x - B / 2 ^ p \<le> fl p x" "fl p x \<le> x + B / 2 ^ p" by linarith+
qed

lemma PREDICT_POS_between:
  assumes "of_int l \<le> predict_double m k" "predict_double m k < of_int h + 1" "0 \<le> l" "h < n" "n \<le> 1000"
  shows "l \<le> PREDICT_POS m n k" "PREDICT_POS m n k \<le> h"
proof -
  have v: "\<not> predict_double m k > 1073741823" "\<not> predict_double m k < 0"
    using assms by (auto simp: not_less intro: order_trans [of _ "of_int h + 1"])
  moreover have "l \<le> \<lfloor>predict_double m k\<rfloor>" "\<lfloor>predict_double m k\<rfloor> \<le> h"
    using assms by linarith+
  ultimately show "l \<le> PREDICT_POS m n k" "PREDICT_POS m n k \<le> h"
    using assms by (auto simp: PREDICT_POS_def Let_def)
qed

lemma slope_times_gap:
  fixes d :: rat
  assumes "1 \<le> d"
  shows "299 / 100 \<le> dbl (3 / dbl d) * d" "dbl (3 / dbl d) * d \<le> 301 / 100"
proof -
  define D where "D = dbl d"
  define a where "a = dbl (3 / D)"
  have "d / 2 ^ 53 \<le> d / 1000" using assms by (intro divide_left_mono) simp_all
  then have D: "d * (999 / 1000) \<le> D" "D \<le> d * (1001 / 1000)"
    using fl_between [of d d 53] assms unfolding D_def by (simp_all add: field_simps)
  then have "0 < D" using assms by (auto intro: less_le_trans [of 0 "d * (999 / 1000)"])
  then have "3 / D / 2 ^ 53 \<le> 3 / D / 1000" by (intro divide_left_mono) simp_all
  then have a: "3 / D * (999 / 1000) \<le> a" "a \<le> 3 / D * (1001 / 1000)"
    using fl_between [of "3 / D" "3 / D" 53] \<open>0 < D\<close> unfolding a_def by (simp_all add: field_simps)
  have q: "d / D \<le> 1000 / 999" "1000 / 1001 \<le> d / D"
    using D \<open>0 < D\<close> by (simp_all add: field_simps)
  have "3 * (999 / 1000) * (d / D) \<le> a * d" "a * d \<le> 3 * (1001 / 1000) * (d / D)"
    using mult_right_mono [OF a(1), of d] mult_right_mono [OF a(2), of d] assms by (simp_all add: field_simps)
  with q have "299 / 100 \<le> a * d" "a * d \<le> 301 / 100" by linarith+
  then show "299 / 100 \<le> dbl (3 / dbl d) * d" "dbl (3 / dbl d) * d \<le> 301 / 100"
    by (simp_all add: a_def D_def)
qed

text \<open>\<open>x\<close> is the smaller key, \<open>y\<close> the larger one; both products are computed with an error below 3/16.\<close>

lemma two_values:
  fixes x y a :: rat
  assumes "0 \<le> x" "x + 1 \<le> y" "y \<le> 2 ^ 60" and ad: "299 / 100 \<le> a * (y - x)" "a * (y - x) \<le> 301 / 100"
    and b: "b = ldbl (2 - ldbl (a * x))"
  shows "1 \<le> dbl (ldbl (ldbl (a * x) + b))" "dbl (ldbl (ldbl (a * x) + b)) < 3"
    and "4 \<le> dbl (ldbl (ldbl (a * y) + b))" "dbl (ldbl (ldbl (a * y) + b)) < 6"
proof -
  have "0 < a" using ad(1) assms(2) zero_less_mult_pos2 [of a "y - x"] by linarith
  then have "a * 1 \<le> a * (y - x)" using assms(2) by (intro mult_left_mono) simp_all
  then have a: "0 \<le> a" "a \<le> 301 / 100" using ad(2) \<open>0 < a\<close> by linarith+
  let ?B = "301 / 100 * 2 ^ 60 :: rat"
  have bound: "0 \<le> a * z" "a * z \<le> ?B" if "0 \<le> z" "z \<le> y" for z
  proof -
    show "0 \<le> a * z" using a(1) that(1) by simp
    show "a * z \<le> ?B" using a that assms(3) by (intro mult_mono) simp_all
  qed
  define p where "p = ldbl (a * x)"
  define q where "q = ldbl (a * y)"
  have p': "a * x - 301 / 1600 \<le> p" "p \<le> a * x + 301 / 1600"
    using fl_between [of "a * x" ?B 64] bound [of x] assms(1,2) by (simp_all add: p_def)
  have q': "a * y - 301 / 1600 \<le> q" "q \<le> a * y + 301 / 1600"
    using fl_between [of "a * y" ?B 64] bound [of y] assms(1,2) by (simp_all add: q_def)
  have p: "\<bar>p - a * x\<bar> \<le> 301 / 1600" and q: "\<bar>q - a * y\<bar> \<le> 301 / 1600"
    using p' q' by linarith+
  have p0: "0 \<le> p" unfolding p_def using bound(1) [of x] assms(1,2) by (intro fl_nonneg) simp
  have p1: "p \<le> ?B + 1" using p' bound(2) [of x] assms(1,2) by linarith
  have "\<bar>2 - p\<bar> \<le> ?B + 4" using p0 p1 by linarith
  then have bp: "\<bar>b - (2 - p)\<bar> \<le> 302 / 1600"
    using fl_between [of "2 - p" "?B + 4" 64] unfolding b p_def [symmetric] abs_le_iff by simp
  have axy: "a * y - a * x = a * (y - x)" by (simp add: algebra_simps)
  have v1: "\<bar>p + b - 2\<bar> \<le> 1 / 5" using bp by linarith
  have v2: "\<bar>q + b - 5\<bar> \<le> 6 / 10" using p q bp axy ad by linarith
  have near: "\<bar>dbl (ldbl w) - w\<bar> \<le> 1 / 100" if "\<bar>w\<bar> \<le> 6" for w :: rat
  proof -
    have 1: "\<bar>ldbl w - w\<bar> \<le> 1 / 1000" using fl_between [OF that, of 64] unfolding abs_le_iff by simp
    then have "\<bar>ldbl w\<bar> \<le> 7" using that by linarith
    then have "\<bar>dbl (ldbl w) - ldbl w\<bar> \<le> 1 / 1000"
      using fl_between [of "ldbl w" 7 53] unfolding abs_le_iff by simp
    with 1 show ?thesis by linarith
  qed
  have "\<bar>p + b\<bar> \<le> 6" "\<bar>q + b\<bar> \<le> 6" using v1 v2 by linarith+
  note n = near [OF this(1)] near [OF this(2)]
  show "1 \<le> dbl (ldbl (ldbl (a * x) + b))" "dbl (ldbl (ldbl (a * x) + b)) < 3"
    using n(1) v1 unfolding p_def [symmetric] by linarith+
  show "4 \<le> dbl (ldbl (ldbl (a * y) + b))" "dbl (ldbl (ldbl (a * y) + b)) < 6"
    using n(2) v2 unfolding q_def [symmetric] by linarith+
qed

lemma two_model_positions:
  assumes "k1 < k2" "k2 < 2 ^ 60"
  shows "PREDICT_POS (two_model 8 k1 k2) 8 k1 \<noteq> PREDICT_POS (two_model 8 k1 k2) 8 k2"
proof -
  let ?x = "of_int (uint k1) :: rat" and ?y = "of_int (uint k2) :: rat"
  have u: "uint (k2 - k1) = uint k2 - uint k1"
    using assms(1) by (simp add: uint_sub_if' word_less_def)
  have le: "uint k1 + 1 \<le> uint k2" using assms(1) by (simp add: word_less_def)
  have k2: "uint k2 \<le> 2 ^ 60" using assms(2) by (simp add: word_less_def)
  have y: "?x + 1 \<le> ?y" using le by (metis of_int_1 of_int_add of_int_le_iff)
  have y60: "?y \<le> 2 ^ 60" using k2 by (metis of_int_le_iff of_int_numeral of_int_power)
  have c: "dbl 2 = 2" "dbl 5 = 5" "dbl 3 = 3"
    using fl_of_int [of 2 53] fl_of_int [of 5 53] fl_of_int [of 3 53] by simp_all
  define a where "a = dbl (3 / dbl (?y - ?x))"
  have m: "two_model 8 k1 k2 = \<lparr>slope = a, intercept = ldbl (2 - ldbl (a * ?x))\<rparr>"
    by (simp add: two_model_def Let_def c u a_def key_ld_exact)
  have ad: "299 / 100 \<le> a * (?y - ?x)" "a * (?y - ?x) \<le> 301 / 100"
    unfolding a_def using slope_times_gap [of "?y - ?x"] y by simp_all
  have x0: "0 \<le> ?x" by (simp only: of_int_0_le_iff uint_ge_0)
  note v = two_values [OF x0 y y60 ad refl]
  have "PREDICT_POS (two_model 8 k1 k2) 8 k1 \<le> 2"
    by (rule PREDICT_POS_between(2) [of 1]) (use v in \<open>simp_all add: m predict_double_def model_value_def key_ld_exact\<close>)
  moreover have "4 \<le> PREDICT_POS (two_model 8 k1 k2) 8 k2"
    by (rule PREDICT_POS_between(1) [of 4 _ _ 5]) (use v in \<open>simp_all add: m predict_double_def model_value_def key_ld_exact\<close>)
  ultimately show ?thesis by linarith
qed

lemma insert_new_Empty:
  "slots_ok n \<Longrightarrow> slots n ! node_pos n k = Empty \<Longrightarrow> insert_new n k v = Inr (put_data n (node_pos n k) k v)"
  using BITMAP_GET_Empty [of n "node_pos n k"] node_pos_less [OF slots_ok_hdr_ok, of n k]
  by (simp add: insert_new_def Let_def)

lemma build_tree_two_total_sorted:
  assumes "k1 < k2" "k2 < 2 ^ 60" "recycled_ok m"
  shows "\<exists>n1 n2. insert_new (set_model (two_model (num_items (hdr m)) k1 k2) m) k1 v1 = Inr n1
     \<and> insert_new n1 k2 v2 = Inr n2"
proof -
  let ?m = "set_model (two_model (num_items (hdr m)) k1 k2) m"
  have eight: "num_items (hdr m) = 8" using assms(3) by (simp add: recycled_ok_def)
  have "0 \<le> slope (two_model (num_items (hdr m)) k1 k2)" by (intro two_model_slope) (simp add: eight)
  note ok = recycled_slots_ok(1) [OF assms(3) this]
  note slots = recycled_slots [OF assms(3), of "two_model (num_items (hdr m)) k1 k2"]
  have p: "node_pos ?m k < 8" for k
    using node_pos_less [OF slots_ok_hdr_ok [OF ok], of k] assms(3) by (simp add: recycled_ok_def)
  have ne: "node_pos ?m k1 \<noteq> node_pos ?m k2"
    using two_model_positions [OF assms(1,2)] PREDICT_POS_range(1) [of 8 "two_model 8 k1 k2"]
    by (simp add: node_pos_def eight nat_eq_iff)
  have e: "slots ?m ! node_pos ?m k = Empty" for k using slots p by simp
  let ?n = "put_data ?m (node_pos ?m k1) k1 v1"
  have "slots ?n = (slots ?m)[node_pos ?m k1 := Entry k1 v1]"
    by (rule slots_put_data [OF slots_ok_hdr_ok [OF ok] _ e]) (use p in \<open>simp add: assms(3) [unfolded recycled_ok_def]\<close>)
  then have "slots ?n ! node_pos ?n k2 = Empty" using ne e by simp
  then show ?thesis using insert_new_Empty [OF ok e] insert_new_Empty [OF put_data_slots_ok(1) [OF ok e]] by blast
qed

lemma build_tree_two_total:
  assumes "k \<noteq> k'" "k < 2 ^ 60" "k' < 2 ^ 60" "pool_ok pool"
  shows "\<exists>n pool'. build_tree_two k v k' v' pool = Inr (n, pool')"
proof -
  obtain m p where pop: "pop_pending pool = (m, p)" by fastforce
  note m = pop_pending_ok [OF pop assms(4), THEN conjunct1]
  consider "k < k'" | "k' < k" using assms(1) by fastforce
  then show ?thesis
  proof cases
    case 1
    then show ?thesis using build_tree_two_total_sorted [OF 1 assms(3) m, of v v'] pop
      by (auto simp: build_tree_two_def Let_def)
  next
    case 2
    then show ?thesis using build_tree_two_total_sorted [OF 2 assms(2) m, of v' v] pop
      by (auto simp: build_tree_two_def Let_def)
  qed
qed

subsection \<open>Inserting a key that is present\<close>

lemma build_tree_two_same: "build_tree_two k v k v' pool = Inl RT_ASSERT"
  by (simp add: build_tree_two_def)

lemma insert_descend_existing:
  "lipp_wf n \<Longrightarrow> key \<in> lipp_keys n \<Longrightarrow> insert_descend d n key v pool = Inl RT_ASSERT"
proof (induction d n key v pool rule: insert_descend.induct)
  case (1 d n key v pool)
  let ?p = "node_pos n key"
  note wf = "1.prems"(1)
  have p: "?p < length (items n)" using wf by (rule wf_pos)
  show ?case
  proof (cases "d < MAX_DEPTH")
    case False
    then show ?thesis by (simp add: insert_descend.simps [of d n])
  next
    case True
    show ?thesis
    proof (cases rule: slot_cases_wf [OF lipp_wf_slots_ok [OF wf] p])
      case 1
      then show ?thesis using "1.prems"(2) by (simp add: lipp_keys_map lipp_map_slot [OF wf])
    next
      case (2 k' v')
      then have "k' = key"
        using "1.prems"(2) by (simp add: lipp_keys_map lipp_map_slot [OF wf] split: if_splits)
      then show ?thesis using 2 True by (simp add: insert_descend.simps [of d n] Let_def build_tree_two_same)
    next
      case (3 c)
      have ch: "checkE RT_ASSERT (d < MAX_DEPTH) = Inr ()" using True by simp
      have "insert_descend (d + 1) c key v pool = Inl RT_ASSERT"
        using "1.IH" [OF ch refl refl _ _ 3(4,5)] 3 "1.prems"(2) by (simp add: lipp_keys_map lipp_map_Sub [OF wf])
      then show ?thesis using 3 True by (simp add: insert_descend.simps [of d n] Let_def)
    qed
  qed
qed

subsection \<open>Inserting a new key\<close>

function path_depth :: "'v node \<Rightarrow> u64 \<Rightarrow> nat" where
  "path_depth n key =
     (let pos = node_pos n key in
      if BITMAP_GET (child_bitmap (hdr n)) pos
      then (case item_at n pos of Child c \<Rightarrow> Suc (path_depth c key) | _ \<Rightarrow> 1) else 1)"
  by pat_completeness auto
termination by (relation "measure (size \<circ> fst)") (auto simp: termination_simp)

declare path_depth.simps [simp del]

lemma insert_descend_total:
  "lipp_wf n \<Longrightarrow> pool_ok pool \<Longrightarrow> key \<notin> lipp_keys n \<Longrightarrow> \<forall>k\<in>insert key (lipp_keys n). k < 2 ^ 60
   \<Longrightarrow> d + path_depth n key \<le> MAX_DEPTH
   \<Longrightarrow> \<exists>r. insert_descend d n key v pool = Inr r"
proof (induction d n key v pool rule: insert_descend.induct)
  case (1 d n key v pool)
  let ?p = "node_pos n key"
  note wf = "1.prems"(1)
  have p: "?p < length (items n)" using wf by (rule wf_pos)
  have "1 \<le> path_depth n key" by (simp add: path_depth.simps [of n] Let_def split: item.split)
  then have d: "d < MAX_DEPTH" using "1.prems"(5) by simp
  show ?case
  proof (cases rule: slot_cases_wf [OF lipp_wf_slots_ok [OF wf] p])
    case 1
    then show ?thesis using d by (simp add: insert_descend.simps [of d n] Let_def)
  next
    case (2 k' v')
    have "lipp_map n k' = Some v'"
      using 2(1) p entries_at_slot [OF lipp_wf_slots_ok [OF wf] p, of k']
      by (simp add: lipp_map_slot [OF wf])
    then have k': "k' \<in> lipp_keys n" by (simp add: lipp_keys_map)
    then have "\<exists>n pool'. build_tree_two key v k' v' pool = Inr (n, pool')"
      using "1.prems"(2-4) by (intro build_tree_two_total) auto
    then show ?thesis using 2 d by (auto simp: insert_descend.simps [of d n] Let_def)
  next
    case (3 c)
    have ch: "checkE RT_ASSERT (d < MAX_DEPTH) = Inr ()" using d by simp
    have "lipp_keys c \<subseteq> lipp_keys n"
    proof
      fix k assume k: "k \<in> lipp_keys c"
      then have "node_pos n k = ?p" using 3(1) by (intro entries_at_slot [OF lipp_wf_slots_ok [OF wf] p]) (simp add: lipp_keys_def)
      with 3(1) k show "k \<in> lipp_keys n" by (simp add: lipp_keys_map lipp_map_Sub [OF wf])
    qed
    moreover have "key \<notin> lipp_keys c" using 3(1) "1.prems"(3) by (simp add: lipp_keys_map lipp_map_Sub [OF wf])
    moreover have "path_depth n key = Suc (path_depth c key)" using 3 by (simp add: path_depth.simps [of n] Let_def)
    ultimately have "\<exists>r. insert_descend (d + 1) c key v pool = Inr r"
      using 3 "1.prems"(4,5) by (intro "1.IH" [OF ch refl refl _ _ 3(4,5) "1.prems"(2)]) auto
    then show ?thesis using 3 d by (auto simp: insert_descend.simps [of d n] Let_def)
  qed
qed

end
