(* ===== verification/Index_Base.thy ===== *)
theory Index_Base
  imports Prelude
begin

text \<open>
  The contract of the index classes (\<open>competitors/base.h\<close>): an object with an invariant stands
  for a map from keys to values; a lookup reads the map and an insertion that returns updates it.
  \<open>admissible\<close> is the precondition on an inserted pair. What the benchmark relies on, lookups
  after a sequence of insertions, is proved once from the contract.
\<close>

fun insert_all :: "('k \<Rightarrow> 'v \<Rightarrow> 's \<Rightarrow> 'e + 's) \<Rightarrow> ('k \<times> 'v) list \<Rightarrow> 's \<Rightarrow> 'e + 's" where
  "insert_all ins [] s = Inr s"
| "insert_all ins ((k, v) # kvs) s = bindE (ins k v s) (insert_all ins kvs)"

locale index_class =
  fixes inv :: "'s \<Rightarrow> bool"
    and content :: "'s \<Rightarrow> 'k \<rightharpoonup> 'v"
    and admissible :: "'k \<Rightarrow> 'v \<Rightarrow> bool"
    and lookup :: "'k \<Rightarrow> 's \<Rightarrow> 'e + 'v option"
    and ins :: "'k \<Rightarrow> 'v \<Rightarrow> 's \<Rightarrow> 'e + 's"
  assumes lookup_ok: "inv s \<Longrightarrow> lookup k s = Inr (content s k)"
    and ins_ok: "inv s \<Longrightarrow> admissible k v \<Longrightarrow> ins k v s = Inr s' \<Longrightarrow> inv s' \<and> content s' = (content s)(k \<mapsto> v)"
begin

lemma insert_all_ok:
  "inv s \<Longrightarrow> \<forall>(k, v)\<in>set kvs. admissible k v \<Longrightarrow> insert_all ins kvs s = Inr s'
   \<Longrightarrow> inv s' \<and> content s' = content s ++ map_of (rev kvs)"
proof (induction kvs arbitrary: s)
  case (Cons kv kvs)
  obtain k v where kv: "kv = (k, v)" by fastforce
  obtain s1 where s1: "ins k v s = Inr s1" and r: "insert_all ins kvs s1 = Inr s'"
    using Cons.prems(3) kv by (auto simp: bindE_Inr)
  have 1: "inv s1 \<and> content s1 = (content s)(k \<mapsto> v)"
    using ins_ok [OF Cons.prems(1) _ s1] Cons.prems(2) kv by simp
  have "inv s' \<and> content s' = content s1 ++ map_of (rev kvs)"
    by (rule Cons.IH [OF conjunct1 [OF 1] _ r]) (use Cons.prems(2) in simp)
  moreover have "content s1 = content s ++ [k \<mapsto> v]" using 1 by simp
  moreover have "map_of (rev (kv # kvs)) = [k \<mapsto> v] ++ map_of (rev kvs)" using kv by simp
  ultimately show ?case by (metis map_add_assoc)
qed simp

lemma lookup_after_inserts:
  assumes "inv s" "\<forall>(k, v)\<in>set kvs. admissible k v" "insert_all ins kvs s = Inr s'"
  shows "lookup k s' = Inr (case map_of (rev kvs) k of Some v \<Rightarrow> Some v | None \<Rightarrow> content s k)"
  using insert_all_ok [OF assms] lookup_ok [of s' k] by (simp add: map_add_def)

end

text \<open>The contract of an index in which every insertion returns.\<close>

locale total_index = index_class inv content admissible lookup ins
  for inv :: "'s \<Rightarrow> bool" and content :: "'s \<Rightarrow> 'k \<rightharpoonup> 'v" and admissible :: "'k \<Rightarrow> 'v \<Rightarrow> bool"
    and lookup :: "'k \<Rightarrow> 's \<Rightarrow> 'e + 'v option" and ins :: "'k \<Rightarrow> 'v \<Rightarrow> 's \<Rightarrow> 'e + 's" +
  assumes ins_total: "inv s \<Longrightarrow> admissible k v \<Longrightarrow> \<exists>s'. ins k v s = Inr s'"
begin

lemma insert_all_total:
  "inv s \<Longrightarrow> \<forall>(k, v)\<in>set kvs. admissible k v \<Longrightarrow> \<exists>s'. insert_all ins kvs s = Inr s'"
proof (induction kvs arbitrary: s)
  case (Cons kv kvs)
  obtain k v where kv: "kv = (k, v)" by fastforce
  obtain s1 where s1: "ins k v s = Inr s1" using ins_total [OF Cons.prems(1), of k v] Cons.prems(2) kv by auto
  then have "inv s1" using ins_ok [OF Cons.prems(1) _ s1] Cons.prems(2) kv by simp
  then show ?case using Cons.IH Cons.prems(2) s1 kv by auto
qed simp

lemma lookup_after_all:
  assumes "inv s" "\<forall>(k, v)\<in>set kvs. admissible k v"
  shows "\<exists>s'. insert_all ins kvs s = Inr s' \<and> inv s'
    \<and> (\<forall>k. lookup k s' = Inr (case map_of (rev kvs) k of Some v \<Rightarrow> Some v | None \<Rightarrow> content s k))"
proof -
  obtain s' where s': "insert_all ins kvs s = Inr s'" using insert_all_total [OF assms] by blast
  then show ?thesis using insert_all_ok [OF assms s'] lookup_after_inserts [OF assms s'] by blast
qed

end

text \<open>
  The stronger contract of an index that never fails while its keys are new and it stays below a
  capacity: it then contains exactly the pairs that were inserted.
\<close>

locale bounded_insert =
  fixes inv :: "'s \<Rightarrow> bool"
    and content :: "'s \<Rightarrow> 'k \<rightharpoonup> 'v"
    and count :: "'s \<Rightarrow> nat"
    and cap :: nat
    and ins :: "'k \<Rightarrow> 'v \<Rightarrow> 's \<Rightarrow> 'e + 's"
  assumes ins_new: "inv s \<Longrightarrow> count s < cap \<Longrightarrow> content s k = None
       \<Longrightarrow> \<exists>s'. ins k v s = Inr s' \<and> inv s' \<and> content s' = (content s)(k \<mapsto> v) \<and> count s' = Suc (count s)"
begin

lemma insert_distinct:
  "inv s \<Longrightarrow> count s + length kvs \<le> cap \<Longrightarrow> distinct (map fst kvs) \<Longrightarrow> \<forall>k\<in>fst ` set kvs. content s k = None
   \<Longrightarrow> \<exists>s'. insert_all ins kvs s = Inr s' \<and> inv s' \<and> content s' = content s ++ map_of kvs \<and> count s' = count s + length kvs"
proof (induction kvs arbitrary: s)
  case (Cons kv kvs)
  obtain k v where kv: "kv = (k, v)" by fastforce
  obtain s1 where s1: "ins k v s = Inr s1" "inv s1" "content s1 = (content s)(k \<mapsto> v)" "count s1 = Suc (count s)"
    using ins_new [OF Cons.prems(1), of k v] Cons.prems(2,4) kv by auto
  have "\<forall>j\<in>fst ` set kvs. content s1 j = None" using s1(3) Cons.prems(3,4) kv by auto
  moreover have "count s1 + length kvs \<le> cap" "distinct (map fst kvs)" using s1(4) Cons.prems(2,3) by simp_all
  ultimately obtain s' where s': "insert_all ins kvs s1 = Inr s'" "inv s'" "content s' = content s1 ++ map_of kvs"
    "count s' = count s1 + length kvs" using Cons.IH [OF s1(2)] by blast
  have "map_of kvs k = None" using Cons.prems(3) kv by (simp add: map_of_eq_None_iff)
  then have "content s' = content s ++ map_of (kv # kvs)"
    by (intro ext) (auto simp: s'(3) s1(3) kv map_add_def split: option.splits)
  moreover have "insert_all ins (kv # kvs) s = Inr s'" "count s' = count s + length (kv # kvs)"
    using s'(1,4) s1(1,4) kv by simp_all
  ultimately show ?case using s'(2) by blast
qed simp

end

locale bounded_index = bounded_insert inv content count cap ins
  for inv :: "'s \<Rightarrow> bool" and content :: "'s \<Rightarrow> 'k \<rightharpoonup> 'v" and count :: "'s \<Rightarrow> nat" and cap :: nat
    and ins :: "'k \<Rightarrow> 'v \<Rightarrow> 's \<Rightarrow> 'e + 's" +
  fixes lookup :: "'k \<Rightarrow> 's \<Rightarrow> 'e + 'v option"
  assumes lookup_below: "inv s \<Longrightarrow> count s \<le> cap \<Longrightarrow> lookup k s = Inr (content s k)"
begin

lemma lookup_after_distinct:
  assumes "inv s" "count s + length kvs \<le> cap" "distinct (map fst kvs)" "\<forall>k\<in>fst ` set kvs. content s k = None"
  shows "\<exists>s'. insert_all ins kvs s = Inr s'
    \<and> (\<forall>k. lookup k s' = Inr (case map_of kvs k of Some v \<Rightarrow> Some v | None \<Rightarrow> content s k))"
  using insert_distinct [OF assms] lookup_below assms(2) by (fastforce simp: map_add_def)

end

end
