(* ===== verification/Lipp_Index.thy ===== *)
theory Lipp_Index
  imports Lipp_Total Index_Base
begin

text \<open>
  The index object: its invariant, the correctness of \<open>insert\<close> and \<open>bulk_load\<close>, and the
  proof that \<open>LIPP\<close> is an index in the sense of \<open>Index_Base\<close>.
\<close>

definition lipp_inv :: "'v lipp \<Rightarrow> bool" where
  "lipp_inv st \<longleftrightarrow> lipp_wf (root_node st) \<and> pool_ok (pending_two st)"

lemma lipp_new_inv: "lipp_inv lipp_new"
  by (simp add: lipp_inv_def lipp_new_def build_tree_none_wf)

lemma lipp_insert_ok:
  assumes "lipp_inv st" "0 \<le> BUILD_LR_REMAIN opts" "lipp_insert opts key v st = Inr st'"
  shows "lipp_inv st'" "mset (entries (root_node st')) = add_mset (key, v) (mset (entries (root_node st)))"
    "num_items (hdr (root_node st)) \<noteq> 1 \<longrightarrow> num_items (hdr (root_node st')) \<noteq> 1"
  using insert_tree_ok [OF _ _ assms(2), of "root_node st" "pending_two st" key v] assms(1,3)
  by (auto simp: lipp_insert_def bindE_Inr lipp_inv_def)

lemma lipp_insert_map:
  assumes "lipp_inv st" "0 \<le> BUILD_LR_REMAIN opts" "lipp_insert opts key v st = Inr st'"
  shows "lipp_inv st' \<and> lipp_map (root_node st') = (lipp_map (root_node st))(key \<mapsto> v)"
  using lipp_insert_ok(1,2) [OF assms] lipp_map_update(1) [of "root_node st'" key v "root_node st"] assms(1)
  by (simp add: lipp_inv_def)

text \<open>A subtree of fewer than 64 entries is never rebuilt, so the last loop leaves it alone.\<close>

lemma child_smaller:
  assumes "lipp_wf n" "slots n ! node_pos n key = Sub c"
  shows "length (entries c) \<le> length (entries n)"
proof -
  have "Sub c \<in> set (slots n)" using assms(2) wf_pos [OF assms(1), of key] by (metis length_slots nth_mem)
  then have "length (slot_entries (Sub c)) \<le> sum_list (map length (map slot_entries (slots n)))"
    by (intro member_le_sum_list) (auto intro: rev_image_eqI)
  then show ?thesis by (simp add: entries_slots [of n] length_concat)
qed

lemma path_rebuild_small:
  "lipp_wf n \<Longrightarrow> length (entries n) < 64 \<Longrightarrow> path_valid len n key
   \<Longrightarrow> \<exists>n'. path_rebuild opts len n key pool = Inr (n', pool)"
proof (induction len arbitrary: n)
  case (Suc len)
  have no: "\<not> need_rebuild n" using Suc.prems(2) lipp_wfD(2) [OF Suc.prems(1)] by (simp add: need_rebuild_def)
  show ?case
  proof (cases len)
    case (Suc m)
    then obtain c where c: "slots n ! node_pos n key = Sub c" "path_valid len c key"
      using Suc.prems(3) by auto
    note pc = path_child_Sub [OF Suc.prems(1) c(1)]
    then have "\<exists>n'. path_rebuild opts len c key pool = Inr (n', pool)"
      using Suc.IH [OF _ _ c(2)] child_smaller [OF Suc.prems(1) c(1)] Suc.prems(2) by simp
    then show ?thesis using no pc(1) Suc by auto
  qed (use no in simp)
qed simp

lemma lipp_insert_total:
  assumes "lipp_inv st" "lipp_map (root_node st) key = None" "\<forall>k\<in>insert key (lipp_keys (root_node st)). k < 2 ^ 60"
    and "path_depth (root_node st) key \<le> 128" "node_size (hdr (root_node st)) < 63"
  shows "\<exists>st'. lipp_insert opts key v st = Inr st'"
proof -
  have wf: "lipp_wf (root_node st)" "pool_ok (pending_two st)" using assms(1) by (simp_all add: lipp_inv_def)
  have "key \<notin> lipp_keys (root_node st)" using assms(2) by (simp add: lipp_keys_map)
  then obtain n1 ps itd p1 where d: "insert_descend 0 (root_node st) key v (pending_two st) = Inr (n1, ps, itd, p1)"
    using insert_descend_total [OF wf _ assms(3), of 0 v] assms(4) by (auto simp: MAX_DEPTH_def)
  note 1 = insert_descend_ok [OF wf d]
  then obtain n2 where n2: "path_count_data ps n1 key itd = Inr n2" "lipp_wf n2" "entries n2 = entries n1"
    "path_valid ps n2 key"
    using path_count_data_ok [of n1 ps key itd] by auto
  have "length (entries n1) = Suc (length (entries (root_node st)))" by (rule mset_eq_lengthD [of _ "(key, v)"]) (use 1 in simp)
  then have "length (entries n2) < 64" using n2(3) lipp_wfD(2) [OF wf(1)] assms(5) by simp
  from path_rebuild_small [OF n2(2) this n2(4), of opts p1] show ?thesis
    using d n2(1) by (auto simp: lipp_insert_def insert_tree_def)
qed

lemma build_tree_none_map: "lipp_map build_tree_none = Map.empty"
  by (simp add: lipp_map_def build_tree_none_entries)

lemma ascending_sorted: "ascending kvs \<longleftrightarrow> sorted_wrt (<) (map fst kvs)"
proof (induction kvs rule: ascending.induct)
  case (1 x y ys)
  then show ?case by (auto intro: less_trans)
qed simp_all

lemma lipp_bulk_load_ok:
  assumes "lipp_inv st" "0 \<le> BUILD_LR_REMAIN opts" "lipp_bulk_load opts vs st = Inr st'"
  shows "lipp_inv st' \<and> mset (entries (root_node st')) = mset vs
    \<and> (2 \<le> length vs \<longrightarrow> num_items (hdr (root_node st')) \<noteq> 1)"
proof -
  obtain pool where pool: "destroy_tree (root_node st) (pending_two st) = Inr pool" "pool_ok pool"
    using destroy_tree_ok [of "root_node st" "pending_two st"] assms(1) by (auto simp: lipp_inv_def)
  note b = lipp_bulk_load_def [of opts vs st, unfolded pool(1) bindE_simps]
  have none: "lipp_inv (st\<lparr>root_node := build_tree_none, pending_two := pool\<rparr>)"
    using pool by (simp add: lipp_inv_def build_tree_none_wf)
  show ?thesis
  proof (cases vs rule: list_cases3)
    case Nil
    then have "st' = st\<lparr>root_node := build_tree_none, pending_two := pool\<rparr>" using b assms(3) by simp
    then show ?thesis using Nil none by (simp add: build_tree_none_entries)
  next
    case (One x)
    then show ?thesis
      using b assms(3) lipp_insert_ok [OF none assms(2), of "fst x" "snd x" st']
      by (simp add: build_tree_none_entries split: prod.splits)
  next
    case (Two x y)
    then show ?thesis
      using b assms(3) build_tree_two_ok [OF _ pool(2), of "fst x" "snd x" "fst y" "snd y"]
      by (auto simp: bindE_Inr lipp_inv_def big_def split: prod.splits)
  next
    case (More x y z zs)
    then have "bindE (checkE RT_ASSERT (ascending vs)) (\<lambda>_. bindE (build_tree_bulk opts vs pool)
        (\<lambda>(node, pool). Inr (st\<lparr>root_node := node, pending_two := pool\<rparr>))) = Inr st'"
      using b assms(3) by (simp split: prod.splits)
    then obtain node pool' where "ascending vs" "build_tree_bulk opts vs pool = Inr (node, pool')"
      "st' = st\<lparr>root_node := node, pending_two := pool'\<rparr>"
      by (auto simp: bindE_check bindE_Inr)
    then show ?thesis using build_tree_bulk_ok [OF _ pool(2) assms(2)] ascending_sorted [of vs]
      by (simp add: lipp_inv_def)
  qed
qed

lemma lipp_bulk_load_map:
  assumes "lipp_inv st" "0 \<le> BUILD_LR_REMAIN opts" "lipp_bulk_load opts vs st = Inr st'"
  shows "lipp_map (root_node st') = map_of vs" "distinct (map fst vs)"
proof -
  note ok = lipp_bulk_load_ok [OF assms]
  then have wf: "lipp_wf (root_node st')" by (simp add: lipp_inv_def)
  have ms: "mset (map fst (entries (root_node st'))) = mset (map fst vs)" using ok by simp
  then show d: "distinct (map fst vs)" using entries_distinct [OF wf] mset_eq_imp_distinct_iff by blast
  show "lipp_map (root_node st') = map_of vs"
    unfolding lipp_map_def using ok d entries_distinct [OF wf]
    by (intro map_of_inject_set [THEN iffD2]) (auto dest: mset_eq_setD)
qed

definition lipp_lookup :: "u64 \<Rightarrow> 'v lipp \<Rightarrow> lipp_error + 'v option" where
  "lipp_lookup key st = lipp_find (root_node st) key"

text \<open>\<open>BUILD_LR_REMAIN\<close> is 0 in every use of the class in the repository.\<close>

definition std_opts :: lipp_opts where
  "std_opts = \<lparr>USE_FMCD = True, BUILD_LR_REMAIN = 0\<rparr>"

interpretation lipp: index_class lipp_inv "\<lambda>st. lipp_map (root_node st)" "\<lambda>k v. True" lipp_lookup
  "lipp_insert std_opts"
proof unfold_locales
  show "lipp_lookup k s = Inr (lipp_map (root_node s) k)" if "lipp_inv s" for s :: "'v lipp" and k
    using that by (simp add: lipp_lookup_def lipp_inv_def lipp_find_map)
  show "lipp_inv s' \<and> lipp_map (root_node s') = (lipp_map (root_node s))(k \<mapsto> v)"
    if "lipp_inv s" "lipp_insert std_opts k v s = Inr s'" for s s' :: "'v lipp" and k v
    using lipp_insert_map [OF that(1) _ that(2)] by (simp add: std_opts_def)
qed

text \<open>\<open>Lipp::EqualityLookup\<close> (\<open>competitors/lipp.h\<close>)\<close>

definition lipp_EqualityLookup :: "u64 lipp \<Rightarrow> u64 \<Rightarrow> lipp_error + u64" where
  "lipp_EqualityLookup lipp key =
     bindE (lipp_lookup key lipp) (\<lambda>r. Inr (case r of None \<Rightarrow> NOT_FOUND | Some v \<Rightarrow> v))"

end
