(* ===== verification/Lipp_Props.thy ===== *)
theory Lipp_Props
  imports Lipp_Index
begin

text \<open>The properties of \<open>LIPP\<close>, and the inputs on which its assertions stop the program.\<close>

subsection \<open>A sample index\<close>

definition sample_kvs :: "nat kvs" where
  "sample_kvs = [(5, 50), (17, 170), (9, 90)]"

definition sample_lipp :: "nat lipp" where
  "sample_lipp = (case insert_all (lipp_insert std_opts) sample_kvs lipp_new of Inr st \<Rightarrow> st | _ \<Rightarrow> lipp_new)"


definition looping_kvs :: "nat kvs" where
  "looping_kvs = [(11074999088583322465, 0), (11074999088583322466, 1), (11074999088583322467, 2)]"

lemma sample_lipp_built: "insert_all (lipp_insert std_opts) sample_kvs lipp_new = Inr sample_lipp"
proof -
  have "\<not> isl (insert_all (lipp_insert std_opts) sample_kvs (lipp_new :: nat lipp))" by code_simp
  then show ?thesis by (auto simp: sample_lipp_def split: sum.splits)
qed

lemma lipp_new_map: "lipp_map (root_node lipp_new) = Map.empty"
  by (simp add: lipp_new_def build_tree_none_map)

lemma sample_lipp_inv: "lipp_inv sample_lipp"
  using lipp.insert_all_ok [OF lipp_new_inv _ sample_lipp_built] by auto

lemma sample_lipp_map: "lipp_map (root_node sample_lipp) = [5 \<mapsto> 50, 17 \<mapsto> 170, 9 \<mapsto> 90]"
  using lipp.insert_all_ok [OF lipp_new_inv _ sample_lipp_built]
  by (auto simp: sample_kvs_def lipp_new_map fun_eq_iff)

lemma sample_root: "lipp_wf (root_node sample_lipp)" "pool_ok (pending_two sample_lipp)"
  using sample_lipp_inv by (simp_all add: lipp_inv_def)

subsection \<open>Lookups\<close>

text \<open>C17: On every well-formed tree \<open>find\<close> returns the value the tree maps the key to, or reports
  that there is none, and \<open>exists\<close> says whether there is one; neither reads a union member that was
  not written last.\<close>

lemma lipp_find_correct:
  assumes "lipp_wf n"
  shows "lipp_find n key = Inr (lipp_map n key) \<and> lipp_exists n key = Inr (lipp_map n key \<noteq> None)"
  using lipp_find_map [OF assms, of key] lipp_exists_map [OF assms, of key] by (simp add: lipp_keys_map)

lemma lipp_find_correct_witness:
  "lipp_find (root_node sample_lipp) 9 = Inr (Some 90) \<and> lipp_exists (root_node sample_lipp) 10 = Inr False"
  using lipp_find_correct [OF sample_root(1), of 9] lipp_find_correct [OF sample_root(1), of 10]
  by (simp add: sample_lipp_map)

text \<open>The traversal of a well-formed tree is strictly sorted by key, and the \<open>size\<close> field of
  the root is its length: no entry is duplicated, lost or out of order.\<close>

lemma lipp_traversal_sorted:
  assumes "lipp_wf n"
  shows "sorted_wrt (<) (map fst (entries n)) \<and> node_size (hdr n) = int (length (entries n))
    \<and> (\<forall>k v. (k, v) \<in> set (entries n) \<longleftrightarrow> lipp_map n k = Some v)"
  using entries_sorted [OF assms] lipp_wfD(2) [OF assms] lipp_map_in_entries [OF assms] by blast

lemma lipp_traversal_sorted_witness:
  "sorted_wrt (<) (map fst (entries (root_node sample_lipp))) \<and> (17, 170) \<in> set (entries (root_node sample_lipp))"
  using lipp_traversal_sorted [OF sample_root(1)] by (simp add: sample_lipp_map)

subsection \<open>Insertion\<close>




text \<open>Inserting a key that is present stops the program with a failed assertion, in every
  well-formed index: \<open>LIPP\<close> has no update, although the interface of the benchmark does not forbid
  one.\<close>

lemma lipp_insert_existing_exits:
  assumes "lipp_inv st" "lipp_map (root_node st) key = Some old"
  shows "lipp_insert opts key v st = Inl RT_ASSERT"
  using insert_descend_existing [of "root_node st" key 0 v "pending_two st"] assms
  by (simp add: lipp_insert_def insert_tree_def lipp_keys_map lipp_inv_def)

lemma lipp_insert_existing_exits_witness: "lipp_insert std_opts 17 171 sample_lipp = Inl RT_ASSERT"
  by (rule lipp_insert_existing_exits [OF sample_lipp_inv]) (simp add: sample_lipp_map)

text \<open>Inserting a new key always succeeds in an index of fewer than 63 entries whose keys and the
  new one are below \<open>2 ^ 60\<close>, as long as the path of the key has at most 128 nodes: none of the
  assertions on the way can fail.\<close>

lemma lipp_insert_succeeds:
  assumes "lipp_inv st" "lipp_map (root_node st) key = None" "\<forall>k\<in>insert key (lipp_keys (root_node st)). k < 2 ^ 60"
    and "path_depth (root_node st) key \<le> 128" "node_size (hdr (root_node st)) < 63"
  shows "\<exists>st'. lipp_insert opts key v st = Inr st'"
  using assms by (rule lipp_insert_total)

lemma lipp_insert_succeeds_witness: "\<exists>st'. lipp_insert std_opts 12 120 sample_lipp = Inr st'"
proof (rule lipp_insert_succeeds [OF sample_lipp_inv])
  show "lipp_map (root_node sample_lipp) 12 = None" by (simp add: sample_lipp_map)
  show "\<forall>k\<in>insert 12 (lipp_keys (root_node sample_lipp)). k < 2 ^ 60"
    by (auto simp: lipp_keys_map sample_lipp_map split: if_splits)
  show "path_depth (root_node sample_lipp) 12 \<le> 128" by code_simp
  show "node_size (hdr (root_node sample_lipp)) < 63" by code_simp
qed

text \<open>C20: A node for two different keys below \<open>2 ^ 60\<close> can always be built: the rounding errors of
  the slope, the intercept and the predictions add up to less than the distance of the two target
  slots, so that both assertions on a free slot hold. The node holds exactly the two pairs.\<close>

lemma build_tree_two_correct:
  assumes "k \<noteq> k'" "k < 2 ^ 60" "k' < 2 ^ 60" "pool_ok pool"
  shows "\<exists>n pool'. build_tree_two k v k' v' pool = Inr (n, pool') \<and> lipp_wf n
    \<and> mset (entries n) = {#(k, v), (k', v')#} \<and> pool_ok pool'"
proof -
  obtain n pool' where b: "build_tree_two k v k' v' pool = Inr (n, pool')"
    using build_tree_two_total [OF assms, of v v'] by blast
  then show ?thesis using build_tree_two_ok [OF b assms(4)] by blast
qed

lemma build_tree_two_correct_witness:
  "\<exists>n pool'. build_tree_two 17 (1::nat) 5 2 [] = Inr (n, pool') \<and> lipp_wf n
    \<and> mset (entries n) = {#(17, 1), (5, 2)#} \<and> pool_ok pool'"
  by (rule build_tree_two_correct) simp_all

text \<open>The bound of the previous property is needed: on the neighbouring keys
  15152661525362945786 and 15152661525362945787 the two predictions coincide, the second assertion
  fails, and \<open>build_tree_two\<close> stops the program.\<close>

lemma build_tree_two_large_keys_exit:
  "build_tree_two 15152661525362945786 (0::nat) 15152661525362945787 1 [] = Inl RT_ASSERT"
  by code_simp

subsection \<open>Bulk loading\<close>






text \<open>C18: On the three consecutive keys from 11074999088583322465 the FMCD build never returns: the
  fitted model sends all of them to one slot, so the child it builds for that slot has the same
  segment as its parent, at every depth.\<close>

lemma bulk_build_never_returns: "bulk_fuel std_opts fuel looping_kvs pool = Inl DIVERGES"
proof -
  have "case train std_opts looping_kvs of Inl _ \<Rightarrow> False
      | Inr n \<Rightarrow> map (\<lambda>(i, r). length r) (runs (node_pos n) looping_kvs) = [3]" by code_simp
  then obtain n where t: "train std_opts looping_kvs = Inr n"
    and r: "map (\<lambda>(i, r). length r) (runs (node_pos n) looping_kvs) = [3]"
    by (auto split: sum.splits)
  then obtain i r where "runs (node_pos n) looping_kvs = [(i, r)]" "length r = 3" by (auto simp: map_eq_Cons_conv)
  moreover have len: "length looping_kvs = 3" by (simp add: looping_kvs_def)
  ultimately have "runs (node_pos n) looping_kvs = [(i, looping_kvs)]"
    by (intro runs_full) simp_all
  from bulk_fuel_stuck [OF _ t this] len show ?thesis by simp
qed

end
