(* ===== verification/Lipp_Iter.thy ===== *)
theory Lipp_Iter
  imports Lipp_Index
begin

text \<open>
  Ordered access to \<open>LIPP\<close>: \<open>LIPPIterator\<close> and \<open>lower_bound\<close> of \<open>lipp.h\<close>, and the
  range query of the wrapper. An iterator is a stack of nodes, each with the byte of the bitmap it is
  in and the bits of that byte still to visit, and the item it stands on. The walk is a
  \<open>partial_function\<close> whose \<open>None\<close> would be a walk that never ends.
\<close>

subsection \<open>The iterator\<close>

type_synonym 'v lipp_stack = "('v node \<times> nat \<times> u8) list"

record 'v lipp_iterator =
  it_stack :: "'v lipp_stack"
  it_item :: "(u64 \<times> 'v) option"   \<comment> \<open>\<open>None\<close> is \<open>nullptr\<close>\<close>

definition BITMAP_NEXT_1 :: "u8 \<Rightarrow> nat" where
  "BITMAP_NEXT_1 b = length (takeWhile (\<lambda>i. \<not> bit b i) [0..<8])"

function bitmap_next_1 :: "'v node \<Rightarrow> nat \<Rightarrow> u8 \<Rightarrow> nat \<times> u8" where
  "bitmap_next_1 node index one_bitmap =
     (if one_bitmap = 0 \<and> int index + 1 < BITMAP_SIZE (num_items (hdr node))
      then bitmap_next_1 node (index + 1) (NOT (none_bitmap (hdr node) ! (index + 1)))
      else (index, one_bitmap))"
  by pat_completeness auto
termination by (relation "measure (\<lambda>(n, i, b). nat (BITMAP_SIZE (num_items (hdr n)) - int i))") auto

declare bitmap_next_1.simps [simp del]

partial_function (option) advance_stack :: "'v lipp_stack \<Rightarrow> (lipp_error + 'v lipp_iterator) option" where
  "advance_stack stk =
     (case stk of
        [] \<Rightarrow> Some (Inr \<lparr>it_stack = [], it_item = None\<rparr>)
      | (node, index0, bits0) # s \<Rightarrow>
         (let (index, bits) = bitmap_next_1 node index0 bits0 in
          if bits = 0 then advance_stack s
          else let next = BITMAP_NEXT_1 bits; new_i = index * 8 + next;
                   tuple = (node, index, bits - push_bit next 1) in
               if \<not> BITMAP_GET (child_bitmap (hdr node)) new_i
               then (case item_at node new_i of
                       Data k v \<Rightarrow> Some (Inr \<lparr>it_stack = tuple # s, it_item = Some (k, v)\<rparr>)
                     | _ \<Rightarrow> Some (Inl BAD_ACCESS))
               else (case item_at node new_i of
                       Child c \<Rightarrow> advance_stack ((c, 0, NOT (none_bitmap (hdr c) ! 0)) # tuple # s)
                     | _ \<Rightarrow> Some (Inl BAD_ACCESS))))"

definition next_iterator :: "'v lipp_iterator \<Rightarrow> (lipp_error + 'v lipp_iterator) option" where
  "next_iterator it = advance_stack (it_stack it)"

text \<open>The tuple that \<open>lower_bound\<close> pushes: the bits of the byte of \<open>pos\<close> after \<open>pos\<close>.\<close>

definition lower_tuple :: "'v node \<Rightarrow> nat \<Rightarrow> 'v node \<times> nat \<times> u8" where
  "lower_tuple node pos =
     (let index = pos div 8 in
      (node, index, NOT (none_bitmap (hdr node) ! index OR (push_bit (pos mod 8 + 1) 1 - 1))))"

function lower_bound_walk :: "'v lipp_stack \<Rightarrow> 'v node \<Rightarrow> u64 \<Rightarrow> (lipp_error + 'v lipp_iterator) option" where
  "lower_bound_walk s node key =
     (let pos = node_pos node key; s' = lower_tuple node pos # s in
      if BITMAP_GET (child_bitmap (hdr node)) pos
      then (case item_at node pos of Child c \<Rightarrow> lower_bound_walk s' c key | _ \<Rightarrow> Some (Inl BAD_ACCESS))
      else if \<not> BITMAP_GET (none_bitmap (hdr node)) pos
      then (case item_at node pos of
              Data k v \<Rightarrow> if k \<ge> key then Some (Inr \<lparr>it_stack = s', it_item = Some (k, v)\<rparr>)
                          else advance_stack s'
            | _ \<Rightarrow> Some (Inl BAD_ACCESS))
      else advance_stack s')"
  by pat_completeness auto
termination by (relation "measure (\<lambda>(s, n, k). size n)") (auto simp: termination_simp)

declare lower_bound_walk.simps [simp del]

definition lipp_lower_bound :: "'v lipp \<Rightarrow> u64 \<Rightarrow> (lipp_error + 'v lipp_iterator) option" where
  "lipp_lower_bound st key = lower_bound_walk [] (root_node st) key"

text \<open>\<open>Lipp::RangeQuery\<close>.\<close>

partial_function (option) range_loop ::
  "u64 \<Rightarrow> u64 lipp_iterator \<Rightarrow> u64 \<Rightarrow> (lipp_error + u64) option" where
  "range_loop upper_key it result =
     (case it_item it of
        None \<Rightarrow> Some (Inr result)
      | Some (k, v) \<Rightarrow>
          if \<not> k \<le> upper_key then Some (Inr result)
          else Option.bind (next_iterator it) (\<lambda>r. case r of
                 Inl e \<Rightarrow> Some (Inl e)
               | Inr it' \<Rightarrow> range_loop upper_key it' (result + v)))"

definition lipp_RangeQuery :: "u64 lipp \<Rightarrow> u64 \<Rightarrow> u64 \<Rightarrow> (lipp_error + u64) option" where
  "lipp_RangeQuery st lower_key upper_key =
     Option.bind (lipp_lower_bound st lower_key) (\<lambda>r. case r of
       Inl e \<Rightarrow> Some (Inl e)
     | Inr it \<Rightarrow> range_loop upper_key it 0)"

subsection \<open>The bits of a tuple\<close>

definition after :: "'v node \<Rightarrow> nat \<Rightarrow> 'v kvs" where
  "after n p = concat (map slot_entries (drop p (slots n)))"

text \<open>\<open>tuple_ok (n, idx, b) p\<close>: \<open>b\<close> has the occupied slots of byte \<open>idx\<close> from slot \<open>p\<close> on.\<close>

definition tuple_ok :: "'v node \<times> nat \<times> u8 \<Rightarrow> nat \<Rightarrow> bool" where
  "tuple_ok t p \<longleftrightarrow> (case t of (n, idx, b) \<Rightarrow>
     lipp_wf n \<and> num_items (hdr n) \<noteq> 1 \<and> int idx < BITMAP_SIZE (num_items (hdr n)) \<and> idx * 8 \<le> p \<and> p \<le> idx * 8 + 8
     \<and> (\<forall>j<8. bit b j \<longleftrightarrow> p \<le> idx * 8 + j \<and> \<not> BITMAP_GET (none_bitmap (hdr n)) (idx * 8 + j)))"

lemma u8_zero_iff: "(b :: u8) = 0 \<longleftrightarrow> (\<forall>j<8. \<not> bit b j)"
  by (auto simp: bit_eq_iff)

lemma BITMAP_NEXT_1:
  assumes "b \<noteq> 0"
  shows "BITMAP_NEXT_1 b < 8" "bit b (BITMAP_NEXT_1 b)" "\<And>j. j < BITMAP_NEXT_1 b \<Longrightarrow> \<not> bit b j"
proof -
  let ?P = "\<lambda>i. \<not> bit b i"
  obtain j where j: "j < 8" "bit b j" using assms u8_zero_iff by blast
  then have "\<exists>x\<in>set [0..<8]. \<not> ?P x" by auto
  then have "takeWhile ?P [0..<8] \<noteq> [0..<8]" by (metis takeWhile_eq_all_conv)
  then show l: "BITMAP_NEXT_1 b < 8"
    unfolding BITMAP_NEXT_1_def using length_takeWhile_le [of ?P "[0..<8]"]
    by (metis diff_zero le_neq_implies_less length_upt takeWhile_eq_take take_all_iff order_refl)
  then show "bit b (BITMAP_NEXT_1 b)"
    using nth_length_takeWhile [of ?P "[0..<8]"] by (simp add: BITMAP_NEXT_1_def)
  show "\<not> bit b j" if "j < BITMAP_NEXT_1 b" for j
    using that l set_takeWhileD [of j ?P "[0..<8]"] takeWhile_nth [of j ?P "[0..<8]"]
      nth_mem [of j "takeWhile ?P [0..<8]"] by (simp add: BITMAP_NEXT_1_def)
qed

lemma bit_clear_lowest:
  assumes "bit (b :: u8) m"
  shows "bit (b - push_bit m 1) j \<longleftrightarrow> bit b j \<and> j \<noteq> m"
proof -
  have "b - push_bit m 1 = unset_bit m b" using assms by (simp add: unset_bit_eq)
  then show ?thesis by (auto simp: bit_unset_bit_iff)
qed

lemma bit_mask_below: "j < 8 \<Longrightarrow> m < 8 \<Longrightarrow> bit (push_bit (m + 1) 1 - 1 :: u8) j \<longleftrightarrow> j \<le> m"
proof -
  assume j: "j < 8" "m < 8"
  have "push_bit (m + 1) 1 - 1 = (mask (m + 1) :: u8)" by (simp add: mask_eq_exp_minus_1)
  then show ?thesis using j by (simp only: bit_mask_iff) auto
qed

lemma none_bit_slot:
  assumes "lipp_wf n" "p < length (items n)" "BITMAP_GET (none_bitmap (hdr n)) p"
  shows "slots n ! p = Empty"
  using BITMAP_GET_Empty [OF lipp_wf_slots_ok [OF assms(1)] assms(2)] assms(3) by simp

lemma none_bit_end:
  assumes "lipp_wf n" "num_items (hdr n) \<noteq> 1" "\<not> BITMAP_GET (none_bitmap (hdr n)) p"
    "int (p div 8) < BITMAP_SIZE (num_items (hdr n))"
  shows "p < length (items n)"
proof -
  have h: "padded n" "num_items (hdr n) = int (length (items n))"
    "length (none_bitmap (hdr n)) = nat (BITMAP_SIZE (num_items (hdr n)))"
    using lipp_wfD(1) [OF assms(1)] assms(2) by (simp_all add: hdr_ok_def)
  have "p div 8 < length (none_bitmap (hdr n))" using assms(4) h(3) by simp
  then have "\<not> num_items (hdr n) \<le> int p" using h(1) assms(3) by (auto simp: padded_def)
  with h(2) show ?thesis by simp
qed

lemma after_skip:
  assumes "p \<le> q" "\<forall>i. p \<le> i \<and> i < q \<and> i < length (items n) \<longrightarrow> slots n ! i = Empty"
  shows "after n p = after n q"
  using assms
proof (induction "q - p" arbitrary: p)
  case (Suc d)
  show ?case
  proof (cases "p < length (items n)")
    case True
    then have "after n p = after n (Suc p)"
      using Suc.prems Suc.hyps(2) by (simp add: after_def flip: Cons_nth_drop_Suc)
    moreover have "after n (Suc p) = after n q" using Suc by (intro Suc.hyps(1)) auto
    ultimately show ?thesis by simp
  qed (use Suc.prems in \<open>simp add: after_def\<close>)
qed simp

lemma after_at: "p < length (items n) \<Longrightarrow> after n p = slot_entries (slots n ! p) @ after n (Suc p)"
  by (simp add: after_def flip: Cons_nth_drop_Suc)

subsection \<open>One step of the walk\<close>

lemma tuple_byte_empty:
  assumes "tuple_ok (n, idx, b) p" "b = 0" "p \<le> i" "i < idx * 8 + 8" "i < length (items n)"
  shows "slots n ! i = Empty"
proof -
  have "idx * 8 \<le> i" using assms(1,3) by (simp add: tuple_ok_def)
  then have i: "i = idx * 8 + (i - idx * 8)" "i - idx * 8 < 8" using assms(4) by simp_all
  have "\<not> bit b (i - idx * 8)" using assms(2) by simp
  then have "BITMAP_GET (none_bitmap (hdr n)) i"
    using assms(1,3) i unfolding tuple_ok_def prod.case by metis
  then show ?thesis using assms(1,5) none_bit_slot by (auto simp: tuple_ok_def)
qed

lemma bitmap_next_1_ok:
  assumes "tuple_ok (n, idx, b) p" "bitmap_next_1 n idx b = (idx', b')"
  shows "\<exists>p'. tuple_ok (n, idx', b') p' \<and> p \<le> p' \<and> after n p = after n p' \<and> (b' = 0 \<longrightarrow> after n p' = [])"
  using assms
proof (induction n idx b arbitrary: p rule: bitmap_next_1.induct)
  case (1 n idx b)
  show ?case
  proof (cases "b = 0 \<and> int idx + 1 < BITMAP_SIZE (num_items (hdr n))")
    case True
    let ?b = "NOT (none_bitmap (hdr n) ! (idx + 1))"
    have t: "tuple_ok (n, idx + 1, ?b) ((idx + 1) * 8)"
      using "1.prems"(1) True by (auto simp: tuple_ok_def bit_not_iff BITMAP_GET_bit)
    have "bitmap_next_1 n (idx + 1) ?b = (idx', b')" using "1.prems"(2) True by (simp add: bitmap_next_1.simps [of n idx])
    then obtain p' where p': "tuple_ok (n, idx', b') p'" "(idx + 1) * 8 \<le> p'" "after n ((idx + 1) * 8) = after n p'" "b' = 0 \<longrightarrow> after n p' = []"
      using "1.IH" [OF True t] by blast
    have "after n p = after n ((idx + 1) * 8)"
      using "1.prems"(1) tuple_byte_empty [OF "1.prems"(1)] True by (intro after_skip) (auto simp: tuple_ok_def)
    moreover have "p \<le> (idx + 1) * 8" using "1.prems"(1) by (simp add: tuple_ok_def)
    ultimately show ?thesis using p' by (metis le_trans)
  next
    case False
    then have r: "idx' = idx" "b' = b" using "1.prems"(2) by (auto simp: bitmap_next_1.simps [of n idx] split: if_splits)
    have "after n p = []" if "b = 0"
    proof -
      have "BITMAP_SIZE (num_items (hdr n)) \<le> int idx + 1" using False that by simp
      moreover have "num_items (hdr n) = int (length (items n))"
        using "1.prems"(1) lipp_wfD(1) by (auto simp: tuple_ok_def hdr_ok_def)
      ultimately have len: "length (items n) \<le> idx * 8 + 8" unfolding BITMAP_SIZE_def by linarith
      then have "after n p = after n (idx * 8 + 8)"
        using "1.prems"(1) tuple_byte_empty [OF "1.prems"(1) that] by (intro after_skip) (auto simp: tuple_ok_def)
      also have "\<dots> = []" using len by (simp add: after_def)
      finally show ?thesis .
    qed
    then show ?thesis using "1.prems"(1) r by blast
  qed
qed

lemma tuple_next:
  assumes "tuple_ok (n, idx, b) p" "b \<noteq> 0"
  defines "i \<equiv> idx * 8 + BITMAP_NEXT_1 b"
  shows "i < length (items n)" "p \<le> i" "slots n ! i \<noteq> Empty" "after n p = slot_entries (slots n ! i) @ after n (Suc i)"
    "tuple_ok (n, idx, b - push_bit (BITMAP_NEXT_1 b) 1) (Suc i)"
proof -
  note nx = BITMAP_NEXT_1 [OF assms(2)]
  note t = assms(1) [unfolded tuple_ok_def prod.case]
  have bits: "bit b j \<longleftrightarrow> p \<le> idx * 8 + j \<and> \<not> BITMAP_GET (none_bitmap (hdr n)) (idx * 8 + j)" if "j < 8" for j
    using t that by blast
  have i: "p \<le> i" "\<not> BITMAP_GET (none_bitmap (hdr n)) i" using bits [OF nx(1)] nx(2) by (simp_all add: i_def)
  then show "p \<le> i" by simp
  have "i div 8 = idx" using nx(1) by (simp add: i_def)
  then show len: "i < length (items n)" using none_bit_end [of n i] i(2) t by simp
  then show "slots n ! i \<noteq> Empty"
    using BITMAP_GET_Empty [OF lipp_wf_slots_ok, of n i] t i(2) by blast
  have "slots n ! q = Empty" if q: "p \<le> q \<and> q < i \<and> q < length (items n)" for q
  proof -
    have "idx * 8 \<le> q" using t q by simp
    then have j: "q = idx * 8 + (q - idx * 8)" "q - idx * 8 < BITMAP_NEXT_1 b" using q unfolding i_def by linarith+
    then have "\<not> bit b (q - idx * 8)" by (intro nx(3))
    then have "BITMAP_GET (none_bitmap (hdr n)) q"
      using bits [of "q - idx * 8"] j nx(1) q by (metis less_trans)
    then show ?thesis using none_bit_slot t q by blast
  qed
  then have "after n p = after n i" using i(1) by (intro after_skip) auto
  then show "after n p = slot_entries (slots n ! i) @ after n (Suc i)" using after_at [OF len] by simp
  have "bit (b - push_bit (BITMAP_NEXT_1 b) 1) j
      \<longleftrightarrow> Suc i \<le> idx * 8 + j \<and> \<not> BITMAP_GET (none_bitmap (hdr n)) (idx * 8 + j)" if j: "j < 8" for j
    using bit_clear_lowest [OF nx(2), of j] bits [OF j] nx(3) [of j] i(1) unfolding i_def
    by (cases "j < BITMAP_NEXT_1 b"; cases "j = BITMAP_NEXT_1 b") auto
  then show "tuple_ok (n, idx, b - push_bit (BITMAP_NEXT_1 b) 1) (Suc i)"
    using t i(1) nx(1) unfolding tuple_ok_def prod.case by (auto simp: i_def)
qed

subsection \<open>The walk visits the remaining entries in order\<close>

definition rest :: "(('v node \<times> nat \<times> u8) \<times> nat) list \<Rightarrow> 'v kvs" where
  "rest tps = concat (map (\<lambda>(t, p). after (fst t) p) tps)"

definition stack_ok :: "(('v node \<times> nat \<times> u8) \<times> nat) list \<Rightarrow> bool" where
  "stack_ok tps \<longleftrightarrow> (\<forall>(t, p)\<in>set tps. tuple_ok t p)"

definition node_weight :: "'v node \<Rightarrow> nat \<Rightarrow> nat" where
  "node_weight n p = sum_list (map size (drop p (items n)))"

definition weight :: "(('v node \<times> nat \<times> u8) \<times> nat) list \<Rightarrow> nat" where
  "weight tps = sum_list (map (\<lambda>(t, p). 2 * node_weight (fst t) p + 1) tps)"

lemma stack_ok_simps [simp]: "stack_ok []" "stack_ok ((t, p) # tps) \<longleftrightarrow> tuple_ok t p \<and> stack_ok tps"
  by (auto simp: stack_ok_def)

lemma rest_simps [simp]: "rest [] = []" "rest ((t, p) # tps) = after (fst t) p @ rest tps"
  by (simp_all add: rest_def)

lemma weight_simps [simp]: "weight ((t, p) # tps) = 2 * node_weight (fst t) p + 1 + weight tps"
  by (simp add: weight_def)

lemma node_weight_mono: "p \<le> q \<Longrightarrow> node_weight n q \<le> node_weight n p"
proof -
  assume "p \<le> q"
  then have "drop p (items n) = take (q - p) (drop p (items n)) @ drop q (items n)"
    by (metis append_take_drop_id drop_drop le_add_diff_inverse2)
  then have "node_weight n p = sum_list (map size (take (q - p) (drop p (items n)))) + node_weight n q"
    unfolding node_weight_def by (metis map_append sum_list_append)
  then show ?thesis by simp
qed

lemma node_weight_child:
  assumes "i < length (items n)" "item_at n i = Child c"
  shows "node_weight n (Suc i) + node_weight c 0 + 2 \<le> node_weight n i"
proof -
  have "sum_list (map size its) \<le> size_list size its" for its :: "'v item list"
    by (induction its) auto
  then have "node_weight c 0 + 1 \<le> size c" by (cases c) (simp add: node_weight_def)
  moreover have "node_weight n i = size (items n ! i) + node_weight n (Suc i)"
    using assms(1) by (simp add: node_weight_def flip: Cons_nth_drop_Suc)
  ultimately show ?thesis using assms by (simp add: item_at_def)
qed

lemma tuple_start:
  assumes "lipp_wf c" "num_items (hdr c) \<noteq> 1"
  shows "tuple_ok (c, 0, NOT (none_bitmap (hdr c) ! 0)) 0"
proof -
  have "1 \<le> num_items (hdr c)" using lipp_wfD(1) [OF assms(1)] by (cases "items c") (auto simp: hdr_ok_def)
  then show ?thesis using assms by (simp add: tuple_ok_def BITMAP_SIZE_def bit_not_iff BITMAP_GET_bit)
qed

lemma after_all: "after n 0 = entries n"
  by (simp add: after_def entries_slots)

lemma slot_ok_at: "lipp_wf n \<Longrightarrow> i < length (items n) \<Longrightarrow> slot_ok n i (slots n ! i)"
  using lipp_wf_slots_ok by (auto simp: slots_ok_def)

lemma advance_stack_ok:
  assumes "stack_ok tps"
  shows "\<exists>stk it. advance_stack (map fst tps) = Some (Inr \<lparr>it_stack = stk, it_item = it\<rparr>)
    \<and> (case rest tps of [] \<Rightarrow> it = None
       | x # xs \<Rightarrow> it = Some x \<and> (\<exists>tps'. stk = map fst tps' \<and> stack_ok tps' \<and> rest tps' = xs))"
  using assms
proof (induction tps rule: measure_induct_rule [of weight])
  case (less tps)
  show ?case
  proof (cases tps)
    case Nil
    then show ?thesis by (simp add: advance_stack.simps)
  next
    case (Cons tp tail)
    obtain n idx b p where tp: "tp = ((n, idx, b), p)" by (metis prod_cases4 surj_pair)
    have t: "tuple_ok (n, idx, b) p" and tail: "stack_ok tail" using less.prems Cons tp by auto
    obtain idx' b' where bn: "bitmap_next_1 n idx b = (idx', b')" by fastforce
    obtain p' where p': "tuple_ok (n, idx', b') p'" "p \<le> p'" "after n p = after n p'" "b' = 0 \<longrightarrow> after n p' = []"
      using bitmap_next_1_ok [OF t bn] by blast
    have wf: "lipp_wf n" using t by (simp add: tuple_ok_def)
    show ?thesis
    proof (cases "b' = 0")
      case True
      then have "advance_stack (map fst tps) = advance_stack (map fst tail)"
        using Cons tp bn by (simp add: advance_stack.simps [of "(n, idx, b) # map fst tail"])
      moreover have "rest tps = rest tail" using Cons tp p'(3,4) True by simp
      ultimately show ?thesis using less.IH [OF _ tail] Cons tp by simp
    next
      case False
      let ?i = "idx' * 8 + BITMAP_NEXT_1 b'"
      let ?t = "(n, idx', b' - push_bit (BITMAP_NEXT_1 b') 1)"
      note nx = tuple_next [OF p'(1) False]
      have r: "rest tps = slot_entries (slots n ! ?i) @ after n (Suc ?i) @ rest tail"
        using Cons tp p'(3) nx(4) by simp
      show ?thesis
      proof (cases rule: slot_cases_wf [OF lipp_wf_slots_ok [OF wf] nx(1)])
        case 1
        then show ?thesis using nx(3) by simp
      next
        case (2 k v)
        then have a: "advance_stack (map fst tps) = Some (Inr \<lparr>it_stack = ?t # map fst tail, it_item = Some (k, v)\<rparr>)"
          using Cons tp bn False by (simp add: advance_stack.simps [of "(n, idx, b) # map fst tail"] Let_def)
        have r2: "rest tps = (k, v) # rest ((?t, Suc ?i) # tail)" using r 2(1) by simp
        have "\<exists>tps'. ?t # map fst tail = map fst tps' \<and> stack_ok tps' \<and> rest tps' = rest ((?t, Suc ?i) # tail)"
          by (rule exI [of _ "(?t, Suc ?i) # tail"]) (use nx(5) tail in simp)
        then show ?thesis unfolding a r2 by simp
      next
        case (3 c)
        let ?c = "(c, 0, NOT (none_bitmap (hdr c) ! 0))"
        let ?tps = "(?c, 0) # (?t, Suc ?i) # tail"
        have "big c" using slot_ok_at [OF wf nx(1)] 3(1) by (simp add: slot_ok_def)
        then have c: "tuple_ok ?c 0" using 3(5) by (intro tuple_start) (simp_all add: big_def)
        have "advance_stack (map fst tps) = advance_stack (map fst ?tps)"
          using Cons tp bn False 3 by (simp add: advance_stack.simps [of "(n, idx, b) # map fst tail"] Let_def)
        moreover have "rest ?tps = rest tps" using r 3(1) by (simp add: after_all)
        moreover have "weight ?tps < weight tps"
          using node_weight_child [OF nx(1) 3(4)] node_weight_mono [OF le_trans [OF p'(2) nx(2)], of n] Cons tp by simp
        moreover have "stack_ok ?tps" using c nx(5) tail by simp
        ultimately show ?thesis using less.IH [of ?tps] by (simp only:)
      qed
    qed
  qed
qed

text \<open>\<open>iter_at it xs\<close>: the iterator stands on the first entry of \<open>xs\<close> and will visit \<open>xs\<close>.\<close>

definition iter_at :: "'v lipp_iterator \<Rightarrow> 'v kvs \<Rightarrow> bool" where
  "iter_at it xs \<longleftrightarrow> (case xs of [] \<Rightarrow> it_item it = None
     | x # xs \<Rightarrow> it_item it = Some x \<and> (\<exists>tps. it_stack it = map fst tps \<and> stack_ok tps \<and> rest tps = xs))"

lemma advance_stack_iter:
  "stack_ok tps \<Longrightarrow> \<exists>it. advance_stack (map fst tps) = Some (Inr it) \<and> iter_at it (rest tps)"
  using advance_stack_ok [of tps] by (cases "rest tps") (auto simp: iter_at_def)

lemma next_iterator_ok:
  "iter_at it (x # xs) \<Longrightarrow> \<exists>it'. next_iterator it = Some (Inr it') \<and> iter_at it' xs"
  using advance_stack_iter by (auto simp: iter_at_def next_iterator_def)

subsection \<open>\<open>lower_bound\<close> and \<open>RangeQuery\<close>\<close>

lemma lower_tuple_ok:
  assumes "lipp_wf n" "num_items (hdr n) \<noteq> 1" "pos < length (items n)"
  shows "tuple_ok (lower_tuple n pos) (Suc pos)"
proof -
  let ?i = "pos div 8"
  have "num_items (hdr n) = int (length (items n))" using lipp_wfD(1) [OF assms(1)] by (simp add: hdr_ok_def)
  then have "int ?i < BITMAP_SIZE (num_items (hdr n))"
    using BITMAP_SIZE_covers [of pos "num_items (hdr n)"] assms(3) by simp
  moreover have "bit (NOT (none_bitmap (hdr n) ! ?i OR (push_bit (pos mod 8 + 1) 1 - 1))) j
      \<longleftrightarrow> Suc pos \<le> ?i * 8 + j \<and> \<not> BITMAP_GET (none_bitmap (hdr n)) (?i * 8 + j)" if j: "j < 8" for j
  proof -
    have "Suc pos \<le> ?i * 8 + j \<longleftrightarrow> \<not> j \<le> pos mod 8"
      using div_mult_mod_eq [of pos 8] by linarith
    moreover have "bit (push_bit (pos mod 8 + 1) 1 - 1 :: u8) j \<longleftrightarrow> j \<le> pos mod 8"
      using j by (rule bit_mask_below) simp
    ultimately show ?thesis using j unfolding bit_not_iff bit_or_iff BITMAP_GET_bit by auto
  qed
  moreover have "?i * 8 \<le> Suc pos" "Suc pos \<le> ?i * 8 + 8"
    using div_mult_mod_eq [of pos 8] mod_less_divisor [of 8 pos] by linarith+
  ultimately show ?thesis using assms(1,2) by (simp add: tuple_ok_def lower_tuple_def Let_def)
qed

lemma entries_from:
  fixes key :: u64
  assumes "lipp_wf n"
  defines "p \<equiv> node_pos n key"
  shows "filter (\<lambda>e. key \<le> fst e) (entries n)
    = filter (\<lambda>e. key \<le> fst e) (slot_entries (slots n ! p)) @ after n (Suc p)"
proof -
  note hdr = lipp_wfD(1) [OF assms(1)]
  have p: "p < length (items n)" unfolding p_def by (rule wf_pos [OF assms(1)])
  have pos: "node_pos n (fst e) = i" if "i < length (items n)" "e \<in> set (slot_entries (slots n ! i))" for e i
    using lipp_wfD(4) [OF assms(1) that(1)] that(2) by blast
  have e: "entries n = concat (map slot_entries (take p (slots n))) @ slot_entries (slots n ! p) @ after n (Suc p)"
    using after_at [OF p] by (simp add: entries_slots after_def flip: concat_append map_append)
      (metis append_take_drop_id concat_append map_append)
  have "fst e < key" if e: "e \<in> set (concat (map slot_entries (take p (slots n))))" for e
  proof -
    obtain s where s: "s \<in> set (take p (slots n))" "e \<in> set (slot_entries s)" using e by auto
    then obtain i where "i < p" "slots n ! i = s" using p by (auto simp: in_set_conv_nth)
    with s(2) have "i < p" "e \<in> set (slot_entries (slots n ! i))" by simp_all
    then show ?thesis using pos [of i e] p unfolding p_def by (intro node_pos_less_key [OF hdr]) simp
  qed
  then have 1: "filter (\<lambda>e. key \<le> fst e) (concat (map slot_entries (take p (slots n)))) = []"
    by (simp add: filter_empty_conv not_le)
  have "key < fst e" if e: "e \<in> set (after n (Suc p))" for e
  proof -
    obtain s where s: "s \<in> set (drop (Suc p) (slots n))" "e \<in> set (slot_entries s)" using e by (auto simp: after_def)
    then obtain i where i: "i < length (items n) - Suc p" "slots n ! (Suc p + i) = s" by (auto simp: in_set_conv_nth)
    then have "Suc p + i < length (items n)" "e \<in> set (slot_entries (slots n ! (Suc p + i)))" using s(2) by simp_all
    then show ?thesis using pos [of "Suc p + i" e] unfolding p_def by (intro node_pos_less_key [OF hdr]) simp
  qed
  then have 2: "filter (\<lambda>e. key \<le> fst e) (after n (Suc p)) = after n (Suc p)"
    by (simp add: filter_id_conv order_less_imp_le)
  show ?thesis by (simp only: e filter_append 1 2 append_Nil)
qed

lemma lower_bound_walk_ok:
  "lipp_wf n \<Longrightarrow> num_items (hdr n) \<noteq> 1 \<Longrightarrow> stack_ok tps
   \<Longrightarrow> \<exists>it. lower_bound_walk (map fst tps) n key = Some (Inr it)
      \<and> iter_at it (filter (\<lambda>e. key \<le> fst e) (entries n) @ rest tps)"
proof (induction n arbitrary: tps rule: measure_induct_rule [of size])
  case (less n)
  let ?p = "node_pos n key"
  let ?tps = "(lower_tuple n ?p, Suc ?p) # tps"
  note wf = less.prems(1)
  have p: "?p < length (items n)" using wf by (rule wf_pos)
  have tp: "stack_ok ?tps" using lower_tuple_ok [OF wf less.prems(2) p] less.prems(3) by simp
  have fst_t: "fst (lower_tuple n ?p) = n" by (simp add: lower_tuple_def Let_def)
  note ef = entries_from [OF wf, of key]
  show ?case
  proof (cases rule: slot_cases_wf [OF lipp_wf_slots_ok [OF wf] p])
    case 1
    then have "lower_bound_walk (map fst tps) n key = advance_stack (map fst ?tps)"
      by (simp add: lower_bound_walk.simps [of _ n] Let_def)
    then show ?thesis using advance_stack_iter [OF tp] ef 1(1) fst_t by simp
  next
    case (2 k v)
    show ?thesis
    proof (cases "key \<le> k")
      case True
      then have "lower_bound_walk (map fst tps) n key
          = Some (Inr \<lparr>it_stack = map fst ?tps, it_item = Some (k, v)\<rparr>)"
        using 2 by (simp add: lower_bound_walk.simps [of _ n] Let_def)
      moreover have "iter_at \<lparr>it_stack = map fst ?tps, it_item = Some (k, v)\<rparr> ((k, v) # rest ?tps)"
        using tp by (auto simp: iter_at_def simp del: rest_simps list.map stack_ok_simps)
      ultimately show ?thesis using ef 2(1) True fst_t by simp
    next
      case False
      then have "lower_bound_walk (map fst tps) n key = advance_stack (map fst ?tps)"
        using 2 by (simp add: lower_bound_walk.simps [of _ n] Let_def)
      then show ?thesis using advance_stack_iter [OF tp] ef 2(1) False fst_t by simp
    qed
  next
    case (3 c)
    have "big c" using slot_ok_at [OF wf p] 3(1) by (simp add: slot_ok_def)
    then have "\<exists>it. lower_bound_walk (map fst ?tps) c key = Some (Inr it)
        \<and> iter_at it (filter (\<lambda>e. key \<le> fst e) (entries c) @ rest ?tps)"
      using item_at_child [OF 3(4)] 3(5) by (intro less.IH tp) (simp_all add: big_def)
    moreover have "lower_bound_walk (map fst tps) n key = lower_bound_walk (map fst ?tps) c key"
      using 3 by (simp add: lower_bound_walk.simps [of _ n] Let_def)
    ultimately show ?thesis using ef 3(1) fst_t by simp
  qed
qed

lemma range_loop_ok:
  "iter_at it xs \<Longrightarrow> range_loop hi it acc = Some (Inr (acc + sum_list (map snd (takeWhile (\<lambda>e. fst e \<le> hi) xs))))"
proof (induction xs arbitrary: it acc)
  case Nil
  then show ?case by (simp add: iter_at_def range_loop.simps)
next
  case (Cons x xs)
  obtain it' where it': "next_iterator it = Some (Inr it')" "iter_at it' xs"
    using next_iterator_ok [OF Cons.prems] by blast
  obtain k v where x: "x = (k, v)" by fastforce
  then have "it_item it = Some (k, v)" using Cons.prems by (simp add: iter_at_def)
  then show ?case using x it' Cons.IH [OF it'(2)] by (simp add: range_loop.simps [of _ it] ac_simps)
qed

lemma lipp_RangeQuery_ok:
  assumes "lipp_inv st" "num_items (hdr (root_node st)) \<noteq> 1"
  shows "lipp_RangeQuery st lo hi
    = Some (Inr (sum_list (map snd (filter (\<lambda>e. lo \<le> fst e \<and> fst e \<le> hi) (entries (root_node st))))))"
proof -
  let ?es = "filter (\<lambda>e. lo \<le> fst e) (entries (root_node st))"
  have wf: "lipp_wf (root_node st)" using assms(1) by (simp add: lipp_inv_def)
  obtain it where it: "lipp_lower_bound st lo = Some (Inr it)" "iter_at it ?es"
    using lower_bound_walk_ok [OF wf assms(2), of "[]" lo] by (auto simp: lipp_lower_bound_def)
  have "sorted_wrt (<) (map fst ?es)"
    using entries_sorted [OF wf] by (simp add: sorted_wrt_map sorted_wrt_filter)
  then have "sorted (map fst ?es)" by (rule strict_sorted_imp_sorted)
  then show ?thesis using it range_loop_ok [OF it(2), of hi 0]
    by (simp add: lipp_RangeQuery_def takeWhile_filter_sorted conj_commute)
qed

end
