(* ===== verification/Lipp_Iter_Props.thy ===== *)
theory Lipp_Iter_Props
  imports Lipp_Iter
begin

text \<open>
  The properties of ordered access: range queries on an index that was bulk loaded and extended,
  and the index on which the iterator reads outside the items of a node.
\<close>

declare advance_stack.simps [code] range_loop.simps [code]

lemma insert_all_entries:
  "lipp_inv st \<Longrightarrow> insert_all (lipp_insert std_opts) kvs st = Inr st'
   \<Longrightarrow> lipp_inv st' \<and> mset (entries (root_node st')) = mset (entries (root_node st)) + mset kvs
     \<and> (num_items (hdr (root_node st)) \<noteq> 1 \<longrightarrow> num_items (hdr (root_node st')) \<noteq> 1)"
proof (induction kvs arbitrary: st)
  case (Cons kv kvs)
  obtain k v where kv: "kv = (k, v)" by fastforce
  obtain s1 where s1: "lipp_insert std_opts k v st = Inr s1" and r: "insert_all (lipp_insert std_opts) kvs s1 = Inr st'"
    using Cons.prems(2) kv by (auto simp: bindE_Inr)
  note 1 = lipp_insert_ok [OF Cons.prems(1) _ s1]
  have 2: "lipp_inv s1" "mset (entries (root_node s1)) = add_mset kv (mset (entries (root_node st)))"
    "num_items (hdr (root_node st)) \<noteq> 1 \<longrightarrow> num_items (hdr (root_node s1)) \<noteq> 1"
    using 1 kv by (simp_all add: std_opts_def)
  show ?case using Cons.IH [OF 2(1) r] 2(2,3) by simp
qed simp


definition sample_loaded :: "u64 lipp" where
  "sample_loaded = (case lipp_bulk_load std_opts [(5, 50), (17, 170)] lipp_new of Inr st \<Rightarrow> st | _ \<Rightarrow> lipp_new)"

definition sample_grown :: "u64 lipp" where
  "sample_grown = (case insert_all (lipp_insert std_opts) [(9, 90), (6, 60)] sample_loaded of Inr st \<Rightarrow> st | _ \<Rightarrow> lipp_new)"

lemma sample_loaded: "lipp_bulk_load std_opts [(5, 50), (17, 170)] lipp_new = Inr sample_loaded"
proof -
  have "\<not> isl (lipp_bulk_load std_opts [(5, 50), (17, 170)] (lipp_new :: u64 lipp))" by code_simp
  then show ?thesis by (auto simp: sample_loaded_def split: sum.splits)
qed

lemma sample_grown: "insert_all (lipp_insert std_opts) [(9, 90), (6, 60)] sample_loaded = Inr sample_grown"
proof -
  have "\<not> isl (insert_all (lipp_insert std_opts) [(9, 90), (6, 60)] sample_loaded)" by code_simp
  then show ?thesis by (auto simp: sample_grown_def split: sum.splits)
qed



text \<open>\<open>lower_bound\<close> returns an iterator on the entry with the smallest key that is not below
  the given one, and \<open>end()\<close> when there is none; incrementing an iterator moves it to the next entry
  in key order.\<close>

lemma lipp_lower_bound_correct:
  assumes "lipp_inv st" "num_items (hdr (root_node st)) \<noteq> 1"
  shows "\<exists>it. lipp_lower_bound st key = Some (Inr it)
    \<and> (case filter (\<lambda>(k, v). key \<le> k) (entries (root_node st)) of
         [] \<Rightarrow> it_item it = None
       | x # xs \<Rightarrow> it_item it = Some x \<and> (\<exists>it'. next_iterator it = Some (Inr it')
           \<and> it_item it' = (case xs of [] \<Rightarrow> None | y # _ \<Rightarrow> Some y)))"
proof -
  have wf: "lipp_wf (root_node st)" using assms(1) by (simp add: lipp_inv_def)
  obtain it where it: "lipp_lower_bound st key = Some (Inr it)"
    "iter_at it (filter (\<lambda>e. key \<le> fst e) (entries (root_node st)))"
    using lower_bound_walk_ok [OF wf assms(2), of "[]" key] by (auto simp: lipp_lower_bound_def)
  have f: "(\<lambda>(k, v). key \<le> k) = (\<lambda>e. key \<le> fst (e :: u64 \<times> 'a))" by auto
  have item: "it_item i = (case zs of [] \<Rightarrow> None | z # _ \<Rightarrow> Some z)" if "iter_at i zs" for i and zs :: "'a kvs"
    using that by (cases zs) (auto simp: iter_at_def)
  show ?thesis
  proof (cases "filter (\<lambda>e. key \<le> fst e) (entries (root_node st))")
    case Nil
    then show ?thesis using it by (auto simp: f iter_at_def)
  next
    case (Cons x xs)
    then obtain it' where "next_iterator it = Some (Inr it')" "iter_at it' xs"
      using next_iterator_ok it(2) by metis
    then show ?thesis using it item [OF it(2)] item [of it' xs] Cons by (auto simp: f)
  qed
qed

lemma sample_grown_ok: "lipp_inv sample_grown" "num_items (hdr (root_node sample_grown)) \<noteq> 1"
proof -
  have "lipp_inv sample_loaded \<and> num_items (hdr (root_node sample_loaded)) \<noteq> 1"
    using lipp_bulk_load_ok [OF lipp_new_inv _ sample_loaded] by (simp add: std_opts_def)
  then show "lipp_inv sample_grown" "num_items (hdr (root_node sample_grown)) \<noteq> 1"
    using insert_all_entries [OF _ sample_grown] by auto
qed

lemma lipp_lower_bound_correct_witness: "\<exists>it. lipp_lower_bound sample_grown 7 = Some (Inr it)"
  using lipp_lower_bound_correct [OF sample_grown_ok, of 7] by blast

text \<open>The one-slot node of an index that was never loaded leaves the bits after its only slot
  unset, so the iterator takes them for occupied slots: \<open>lower_bound\<close> on a fresh index reads an item
  outside the node.\<close>

lemma lipp_lower_bound_fresh_index: "lipp_lower_bound (lipp_new :: u64 lipp) 6 = Some (Inl BAD_ACCESS)"
proof -
  have "case lipp_lower_bound (lipp_new :: u64 lipp) 6 of Some (Inl e) \<Rightarrow> e = BAD_ACCESS | _ \<Rightarrow> False"
    by code_simp
  then show ?thesis by (auto split: option.splits sum.splits)
qed

end
