(* ===== verification/Dpgm_Level.thy ===== *)
theory Dpgm_Level
  imports Prelude "HOL-Library.Multiset"
begin

text \<open>
  One level of the dynamic PGM index (\<open>PGM-index/include/pgm_index_dynamic.hpp\<close>): the
  \<open>Item\<close>, which compares by its key, the sorted vector of items, and the two merges. A lookup
  in a level finds the first item of the key, the one inserted last.
\<close>

record pgm_item =
  ikey :: u64
  ivalue :: u64
  deleted :: bool    \<comment> \<open>\<open>flag\<close> of \<open>BaseItemB\<close>\<close>

definition live_item :: "u64 \<Rightarrow> u64 \<Rightarrow> pgm_item" where
  "live_item k v = \<lparr>ikey = k, ivalue = v, deleted = False\<rparr>"

text \<open>The item of an erased key: its value is value-initialised, so it is 0.\<close>

definition tombstone :: "u64 \<Rightarrow> pgm_item" where
  "tombstone k = \<lparr>ikey = k, ivalue = 0, deleted = True\<rparr>"

type_synonym level = "pgm_item list"

text \<open>\<open>std::lower_bound\<close> on a level, as an offset.\<close>

definition std_lower_bound :: "level \<Rightarrow> u64 \<Rightarrow> nat" where
  "std_lower_bound xs key = length (takeWhile (\<lambda>x. ikey x < key) xs)"

fun merge :: "bool \<Rightarrow> level \<Rightarrow> level \<Rightarrow> level" where
  "merge SkipDeleted (x # xs) (y # ys) =
     (if ikey y < ikey x then y # merge SkipDeleted (x # xs) ys
      else if ikey x < ikey y then x # merge SkipDeleted xs (y # ys)
      else if SkipDeleted \<and> deleted x then merge SkipDeleted xs ys
      else x # merge SkipDeleted xs ys)"
| "merge SkipDeleted xs ys = xs @ ys"

definition level_sorted :: "level \<Rightarrow> bool" where
  "level_sorted xs \<longleftrightarrow> sorted (map ikey xs)"

definition level_find :: "level \<Rightarrow> u64 \<Rightarrow> pgm_item option" where
  "level_find xs k = find (\<lambda>x. ikey x = k) xs"

definition insert_at :: "level \<Rightarrow> nat \<Rightarrow> pgm_item \<Rightarrow> level" where
  "insert_at xs i x = take i xs @ x # drop i xs"

abbreviation keys_of :: "level \<Rightarrow> u64 set" where
  "keys_of xs \<equiv> ikey ` set xs"

lemma level_find_simps [simp]:
  "level_find [] k = None" "level_find (x # xs) k = (if ikey x = k then Some x else level_find xs k)"
  by (simp_all add: level_find_def)

lemma level_find_append:
  "level_find (xs @ ys) k = (case level_find xs k of Some x \<Rightarrow> Some x | None \<Rightarrow> level_find ys k)"
  by (induction xs) auto

lemma level_find_None: "level_find xs k = None \<longleftrightarrow> k \<notin> keys_of xs"
  by (auto simp: level_find_def find_None_iff)

lemma level_find_Some: "level_find xs k = Some x \<Longrightarrow> x \<in> set xs \<and> ikey x = k"
  by (auto simp: level_find_def find_Some_iff)

lemma level_sorted_simps [simp]:
  "level_sorted []" "level_sorted (x # xs) \<longleftrightarrow> (\<forall>y\<in>set xs. ikey x \<le> ikey y) \<and> level_sorted xs"
  by (auto simp: level_sorted_def)

subsection \<open>The position of a key in a sorted level\<close>

lemma std_lower_bound_le: "std_lower_bound xs key \<le> length xs"
  by (simp add: std_lower_bound_def length_takeWhile_le)

lemma std_lower_bound_take: "take (std_lower_bound xs key) xs = takeWhile (\<lambda>x. ikey x < key) xs"
  by (simp add: std_lower_bound_def takeWhile_eq_take [symmetric])

lemma std_lower_bound_drop: "drop (std_lower_bound xs key) xs = dropWhile (\<lambda>x. ikey x < key) xs"
  by (simp add: std_lower_bound_def dropWhile_eq_drop [symmetric])

lemma level_find_dropWhile: "level_find (dropWhile (\<lambda>x. ikey x < key) xs) key = level_find xs key"
  by (induction xs) auto

lemma sorted_dropWhile_head:
  "level_sorted xs \<Longrightarrow> level_find xs key =
    (case dropWhile (\<lambda>x. ikey x < key) xs of [] \<Rightarrow> None | x # _ \<Rightarrow> if ikey x = key then Some x else None)"
proof (induction xs)
  case (Cons x xs)
  have "level_find xs key = None" if "\<not> ikey x < key" "ikey x \<noteq> key"
    using Cons.prems that by (force simp: level_find_None)
  with Cons show ?case by auto
qed simp

lemma level_find_at:
  assumes "level_sorted xs"
  shows "level_find xs key = (let i = std_lower_bound xs key in
     if i < length xs \<and> ikey (xs ! i) = key then Some (xs ! i) else None)"
proof (cases "dropWhile (\<lambda>x. ikey x < key) xs")
  case Nil
  then have "length xs \<le> std_lower_bound xs key" using std_lower_bound_drop [of xs key] by (metis drop_eq_Nil)
  then show ?thesis using sorted_dropWhile_head [OF assms, of key] Nil by simp
next
  case (Cons y ys)
  then have d: "drop (std_lower_bound xs key) xs = y # ys" by (simp add: std_lower_bound_drop)
  then have "std_lower_bound xs key < length xs" by (metis drop_all list.distinct(1) not_le)
  moreover have "xs ! std_lower_bound xs key = y" using d calculation by (metis Cons_nth_drop_Suc list.inject)
  ultimately show ?thesis using sorted_dropWhile_head [OF assms, of key] Cons by simp
qed

lemma is_lower_bound_std:
  "level_sorted xs \<Longrightarrow> is_lower_bound (\<lambda>i. ikey (xs ! nat i)) 0 (int (length xs)) key (int (std_lower_bound xs key))"
  unfolding level_sorted_def std_lower_bound_def by (rule is_lower_bound_vec)

lemma insert_at_sorted:
  assumes "level_sorted xs"
  shows "level_sorted (insert_at xs (std_lower_bound xs (ikey x)) x)"
proof -
  have "level_sorted (takeWhile (\<lambda>y. ikey y < ikey x) xs)" "level_sorted (dropWhile (\<lambda>y. ikey y < ikey x) xs)"
    using assms by (simp_all add: level_sorted_def sorted_map sorted_wrt_takeWhile sorted_wrt_dropWhile)
  moreover have "ikey x \<le> ikey y" if "y \<in> set (dropWhile (\<lambda>y. ikey y < ikey x) xs)" for y
    using that assms by (induction xs) (auto split: if_splits intro: order_trans)
  moreover from this have "ikey z \<le> ikey y"
    if "z \<in> set (takeWhile (\<lambda>y. ikey y < ikey x) xs)" "y \<in> set (dropWhile (\<lambda>y. ikey y < ikey x) xs)" for y z
    using set_takeWhileD [OF that(1)] that(2) by (meson less_imp_le order_trans)
  ultimately show ?thesis
    unfolding insert_at_def std_lower_bound_take std_lower_bound_drop level_sorted_def
    by (auto simp: sorted_append dest: set_takeWhileD intro: less_imp_le)
qed

lemma insert_at_find:
  "level_sorted xs \<Longrightarrow> level_find (insert_at xs (std_lower_bound xs (ikey x)) x) k
    = (if k = ikey x then Some x else level_find xs k)"
proof -
  have "level_find (takeWhile (\<lambda>y. ikey y < ikey x) xs) (ikey x) = None"
    by (auto simp: level_find_None dest: set_takeWhileD)
  moreover have "level_find xs k = (case level_find (takeWhile (\<lambda>y. ikey y < ikey x) xs) k of Some z \<Rightarrow> Some z
      | None \<Rightarrow> level_find (dropWhile (\<lambda>y. ikey y < ikey x) xs) k)"
    by (metis level_find_append takeWhile_dropWhile_id)
  ultimately show ?thesis
    unfolding insert_at_def std_lower_bound_take std_lower_bound_drop
    by (auto simp: level_find_append split: option.split)
qed

lemma mset_insert_at: "mset (insert_at xs i x) = add_mset x (mset xs)"
  unfolding insert_at_def by (metis (no_types) append_take_drop_id mset.simps(2) mset_append union_mset_add_mset_right)

lemma length_insert_at: "length (insert_at xs i x) = Suc (length xs)"
  using arg_cong [OF mset_insert_at [of xs i x], of size] by simp

subsection \<open>Merging\<close>

lemma merge_set: "set (merge s xs ys) \<subseteq> set xs \<union> set ys"
  by (induction s xs ys rule: merge.induct) auto

lemma merge_length: "length (merge s xs ys) \<le> length xs + length ys"
  by (induction s xs ys rule: merge.induct) auto

lemma merge_sorted: "level_sorted xs \<Longrightarrow> level_sorted ys \<Longrightarrow> level_sorted (merge s xs ys)"
proof (induction s xs ys rule: merge.induct)
  case (1 s x xs y ys)
  have "\<forall>z\<in>set (merge s xs (y # ys)). ikey x \<le> ikey z" if "ikey x < ikey y"
    using merge_set [of s xs "y # ys"] "1.prems" that by fastforce
  moreover have "\<forall>z\<in>set (merge s (x # xs) ys). ikey y \<le> ikey z" if "ikey y < ikey x"
    using merge_set [of s "x # xs" ys] "1.prems" that by fastforce
  moreover have "\<forall>z\<in>set (merge s xs ys). ikey x \<le> ikey z" if "ikey x = ikey y"
    using merge_set [of s xs ys] "1.prems" that by fastforce
  ultimately show ?case using 1 by (auto simp: not_less)
qed (auto simp: level_sorted_def)

text \<open>Without deletions the first item of a key in the newer level hides the older level.\<close>

lemma merge_find:
  assumes "level_sorted xs" "level_sorted ys" "s \<Longrightarrow> \<forall>x\<in>set xs. \<not> deleted x"
  shows "level_find (merge s xs ys) k = (case level_find xs k of Some x \<Rightarrow> Some x | None \<Rightarrow> level_find ys k)"
  using assms
proof (induction s xs ys rule: merge.induct)
  case (1 s x xs y ys)
  have sx: "level_sorted xs" and sy: "level_sorted ys" using "1.prems" by simp_all
  consider "ikey y < ikey x" | "ikey x < ikey y" | "ikey x = ikey y" by fastforce
  then show ?case
  proof cases
    case 1
    then have "level_find (x # xs) k = None" if "ikey y = k" for k
      using "1.prems"(1) that by (force simp: level_find_None)
    then show ?thesis using 1 "1.IH"(1) [OF 1 "1.prems"(1) sy "1.prems"(3)]
      by (auto split: option.splits)
  next
    case 2
    then have "\<not> ikey y < ikey x" by simp
    then show ?thesis using 2 "1.IH"(2) [OF _ 2 sx "1.prems"(2)] "1.prems"(3) by auto
  next
    case 3
    then have ne: "\<not> ikey y < ikey x" "\<not> ikey x < ikey y" "\<not> (s \<and> deleted x)" using "1.prems"(3) by auto
    then show ?thesis using 3 "1.IH"(4) [OF ne sx sy] "1.prems"(3) by (auto split: option.splits)
  qed
qed (auto simp: level_find_append split: option.splits)

text \<open>Levels with different keys merge without loss.\<close>

lemma merge_mset:
  "keys_of xs \<inter> keys_of ys = {} \<Longrightarrow> mset (merge s xs ys) = mset xs + mset ys"
  by (induction s xs ys rule: merge.induct) (auto simp: not_less)

end
