(* ===== verification/Dpgm_Ops.thy ===== *)
theory Dpgm_Ops
  imports Dpgm_Level Search_Base
begin

text \<open>
  The dynamic PGM index: its state, the insertion with the choice of the level to merge into and the
  pairwise merge through two temporary buffers, the erasure, the construction from sorted data, and
  the equality lookup. The static index kept for a big level is the parameter \<open>pgm_class\<close> (the
  template argument \<open>PGMType\<close>), the search inside its window the parameter \<open>SearchClass\<close>.
\<close>

datatype dpgm_error = OUT_OF_BOUNDS | UNINITIALISED | ASSERTION

record 'p pgm_class =
  pgm_empty :: 'p
  pgm_build :: "level \<Rightarrow> 'p"
  find_approximate_position :: "'p \<Rightarrow> u64 \<Rightarrow> nat \<times> nat \<times> nat"   \<comment> \<open>\<open>pos\<close>, \<open>lo\<close>, \<open>hi\<close>\<close>

record 'p dpgm =
  used_levels :: nat
  data :: "level list"
  pgm :: "'p list"

definition min_level :: nat where "min_level = 6"
definition init_levels :: nat where "init_levels = 15"
definition max_fully_allocated_level :: nat where "max_fully_allocated_level = 15"
definition MinIndexedLevel :: nat where "MinIndexedLevel = 18"

lemmas dpgm_consts = min_level_def init_levels_def max_fully_allocated_level_def MinIndexedLevel_def

definition get_level :: "'p dpgm \<Rightarrow> nat \<Rightarrow> dpgm_error + level" where
  "get_level st l =
     (if min_level \<le> l \<and> l - min_level < length (data st) then Inr (data st ! (l - min_level)) else Inl OUT_OF_BOUNDS)"

definition get_pgm :: "'p dpgm \<Rightarrow> nat \<Rightarrow> dpgm_error + 'p" where
  "get_pgm st l =
     (if MinIndexedLevel \<le> l \<and> l - MinIndexedLevel < length (pgm st) then Inr (pgm st ! (l - MinIndexedLevel))
      else Inl OUT_OF_BOUNDS)"

definition set_level :: "nat \<Rightarrow> level \<Rightarrow> 'p dpgm \<Rightarrow> 'p dpgm" where
  "set_level l xs st = st\<lparr>data := (data st)[l - min_level := xs]\<rparr>"

definition set_pgm :: "nat \<Rightarrow> 'p \<Rightarrow> 'p dpgm \<Rightarrow> dpgm_error + 'p dpgm" where
  "set_pgm l p st =
     (if l < MinIndexedLevel then Inr st
      else bindE (get_pgm st l) (\<lambda>_. Inr (st\<lparr>pgm := (pgm st)[l - MinIndexedLevel := p]\<rparr>)))"

subsection \<open>The temporary buffers\<close>

text \<open>A buffer is a vector allocated without initialisation; \<open>None\<close> is a cell not yet written.\<close>

type_synonym buffer = "pgm_item option list"

definition write_out :: "buffer \<Rightarrow> level \<Rightarrow> dpgm_error + buffer" where
  "write_out buf xs =
     bindE (checkE OUT_OF_BOUNDS (length xs \<le> length buf)) (\<lambda>_. Inr (map Some xs @ drop (length xs) buf))"

definition read_range :: "buffer \<Rightarrow> nat \<Rightarrow> dpgm_error + level" where
  "read_range buf n =
     (if length buf < n then Inl OUT_OF_BOUNDS
      else if None \<in> set (take n buf) then Inl UNINITIALISED else Inr (map the (take n buf)))"

definition resize :: "buffer \<Rightarrow> nat \<Rightarrow> buffer" where
  "resize buf n = take n buf @ replicate (n - length buf) None"

function merge_loop ::
  "'p pgm_class \<Rightarrow> nat \<Rightarrow> nat \<Rightarrow> nat \<Rightarrow> 'p dpgm \<Rightarrow> buffer \<times> buffer \<Rightarrow> nat
   \<Rightarrow> dpgm_error + ('p dpgm \<times> (buffer \<times> buffer) \<times> nat)" where
  "merge_loop C parity limit i st tmps actual_size =
     (if i \<le> limit then
        bindE (get_level st i) (\<lambda>level_data.
        let alternate = ((i - min_level) mod 2 = parity);
            (tmp_a, tmp_b) = tmps;
            can_delete_permanently = (i = used_levels st - 1) in
        bindE (read_range (if alternate then tmp_a else tmp_b) actual_size) (\<lambda>xs.
        let out = merge can_delete_permanently xs level_data in
        bindE (write_out (if alternate then tmp_b else tmp_a) out) (\<lambda>buf.
        bindE (set_pgm i (pgm_empty C) (set_level i [] st)) (\<lambda>st'.
        merge_loop C parity limit (i + 1) st' (if alternate then (tmp_a, buf) else (buf, tmp_b)) (length out)))))
      else Inr (st, tmps, actual_size))"
  by pat_completeness auto
termination by (relation "measure (\<lambda>(C, parity, limit, i, st, tmps, n). Suc limit - i)") auto

declare merge_loop.simps [simp del]

definition pairwise_logarithmic_merge ::
  "'p pgm_class \<Rightarrow> pgm_item \<Rightarrow> nat \<Rightarrow> nat \<Rightarrow> nat \<Rightarrow> 'p dpgm \<Rightarrow> dpgm_error + 'p dpgm" where
  "pairwise_logarithmic_merge C new_item up_to_level size_hint insertion_point st =
     (let target_level = up_to_level + 1 in
      bindE (get_level st target_level) (\<lambda>target_level_data.
      bindE (checkE ASSERTION (2 ^ (1 + min_level) + length target_level_data \<le> 2 ^ target_level)) (\<lambda>_.
      bindE (get_level st min_level) (\<lambda>first_level.
      let tmp_a = replicate size_hint None;
          tmp_b = replicate (size_hint + length target_level_data) None;
          parity = (up_to_level - min_level) mod 2;
          first = insert_at first_level insertion_point new_item;
          limit = (if target_level_data = [] then up_to_level else up_to_level + 1) in
      bindE (write_out (if parity \<noteq> 0 then tmp_a else tmp_b) first) (\<lambda>buf.
      bindE (merge_loop C parity limit (1 + min_level) st
               (if parity \<noteq> 0 then (buf, tmp_b) else (tmp_a, buf)) (2 ^ (1 + min_level))) (\<lambda>(st, (_, tmp_b), actual_size).
      bindE (read_range (resize tmp_b actual_size) actual_size) (\<lambda>new_target_data.
      bindE (set_pgm target_level (pgm_build C new_target_data)
               (set_level target_level new_target_data (set_level min_level [] st))) (\<lambda>st.
      bindE (checkE ASSERTION (level_sorted new_target_data)) (\<lambda>_. Inr st)))))))))"

subsection \<open>Insertion and erasure\<close>

text \<open>The sizes are \<open>size_t\<close>, so the free slots of an overfull level would wrap around.\<close>

definition slots_left :: "nat \<Rightarrow> level \<Rightarrow> nat" where
  "slots_left i xs = nat ((2 ^ i - int (length xs)) mod 2 ^ 64)"

function choose_level :: "'p dpgm \<Rightarrow> nat \<Rightarrow> nat \<Rightarrow> dpgm_error + (nat \<times> nat)" where
  "choose_level st i slots_required =
     (if i < used_levels st then
        bindE (get_level st i) (\<lambda>xs.
        if slots_required \<le> slots_left i xs then Inr (i, slots_required)
        else choose_level st (i + 1) (slots_required + length xs))
      else Inr (i, slots_required))"
  by pat_completeness auto
termination by (relation "measure (\<lambda>(st, i, n). used_levels st - i)") auto

declare choose_level.simps [simp del]

definition first_level_max_size :: nat where
  "first_level_max_size = 2 ^ (min_level + 1) - 1"

definition insert_item :: "'p pgm_class \<Rightarrow> pgm_item \<Rightarrow> 'p dpgm \<Rightarrow> dpgm_error + 'p dpgm" where
  "insert_item C new_item st =
     bindE (get_level st min_level) (\<lambda>first_level.
     let insertion_point = std_lower_bound first_level (ikey new_item) in
     if insertion_point < length first_level \<and> ikey (first_level ! insertion_point) = ikey new_item
        \<and> ivalue (first_level ! insertion_point) = ivalue new_item
     then Inr st
     else if length first_level < first_level_max_size
     then Inr (set_level min_level (insert_at first_level insertion_point new_item) st
                 \<lparr>used_levels := (if used_levels st = min_level then min_level + 1 else used_levels st)\<rparr>)
     else bindE (choose_level st (min_level + 1) (first_level_max_size + 1)) (\<lambda>(i, slots_required).
          let need_new_level = (i = used_levels st);
              st = (if need_new_level
                    then st\<lparr>used_levels := used_levels st + 1, data := data st @ [[]],
                            pgm := (if int i - int MinIndexedLevel \<ge> int (length (pgm st))
                                    then pgm st @ [pgm_empty C] else pgm st)\<rparr>
                    else st) in
          pairwise_logarithmic_merge C new_item (i - 1) slots_required insertion_point st))"

definition dpgm_insert :: "'p pgm_class \<Rightarrow> u64 \<Rightarrow> u64 \<Rightarrow> 'p dpgm \<Rightarrow> dpgm_error + 'p dpgm" where
  "dpgm_insert C key v st = insert_item C (live_item key v) st"

definition dpgm_erase :: "'p pgm_class \<Rightarrow> u64 \<Rightarrow> 'p dpgm \<Rightarrow> dpgm_error + 'p dpgm" where
  "dpgm_erase C key st = insert_item C (tombstone key) st"

subsection \<open>Construction\<close>

text \<open>
  The member initialisers of the default constructor, and the constructor with its body: it reserves
  space in every level up to \<open>max_fully_allocated_level\<close>, which indexes \<open>data\<close>.
\<close>

definition dpgm_initial :: "'p dpgm" where
  "dpgm_initial = \<lparr>used_levels = min_level, data = replicate (init_levels - min_level) [], pgm = []\<rparr>"

definition reserve_levels :: "'p dpgm \<Rightarrow> dpgm_error + 'p dpgm" where
  "reserve_levels st = foldr (\<lambda>i r. bindE (get_level st i) (\<lambda>_. r)) [min_level..<max_fully_allocated_level + 1] (Inr st)"

definition dpgm_new :: "dpgm_error + 'p dpgm" where
  "dpgm_new = reserve_levels dpgm_initial"

text \<open>\<open>ceil(log2(n))\<close> for a positive \<open>n\<close>; the code computes it in \<open>double\<close>.\<close>

fun ceil_log2 :: "nat \<Rightarrow> nat" where
  "ceil_log2 n = (if n \<le> 1 then 0 else Suc (ceil_log2 ((n + 1) div 2)))"

declare ceil_log2.simps [simp del]

definition dpgm_construct :: "'p pgm_class \<Rightarrow> (u64 \<times> u64) list \<Rightarrow> dpgm_error + 'p dpgm" where
  "dpgm_construct C kvs =
     (let n = length kvs; used = ceil_log2 n + 1; target = map (\<lambda>(k, v). live_item k v) kvs in
      bindE (checkE ASSERTION (sorted (map fst kvs))) (\<lambda>_.
      bindE (reserve_levels \<lparr>used_levels = used, data = replicate (used - min_level) [], pgm = []\<rparr>) (\<lambda>st.
      let st = set_level (used - 1) target st
                 \<lparr>pgm := (if used - 1 \<ge> MinIndexedLevel then replicate (used - MinIndexedLevel) (pgm_empty C) else [])\<rparr> in
      set_pgm (used - 1) (pgm_build C target) st)))"

subsection \<open>Lookup\<close>

text \<open>A position in the index: the level and the offset in it; \<open>None\<close> is \<open>end()\<close>.\<close>

type_synonym position = "(nat \<times> nat) option"

definition level_position :: "'p pgm_class \<Rightarrow> u64 search_fn \<Rightarrow> 'p dpgm \<Rightarrow> nat \<Rightarrow> level \<Rightarrow> u64 \<Rightarrow> dpgm_error + nat" where
  "level_position C SearchClass st i xs key =
     (if i < MinIndexedLevel then Inr (std_lower_bound xs key)
      else bindE (get_pgm st i) (\<lambda>p.
           let (pos, lo, hi) = find_approximate_position C p key in
           case SearchClass (int lo) (int hi) key (int pos) (vec_at ikey xs) (<) of
             None \<Rightarrow> Inl OUT_OF_BOUNDS | Some r \<Rightarrow> Inr (nat r)))"

function find_from :: "'p pgm_class \<Rightarrow> u64 search_fn \<Rightarrow> 'p dpgm \<Rightarrow> u64 \<Rightarrow> nat \<Rightarrow> dpgm_error + position" where
  "find_from C SearchClass st key i =
     (if i < used_levels st then
        bindE (get_level st i) (\<lambda>xs.
        if xs = [] then find_from C SearchClass st key (i + 1)
        else bindE (level_position C SearchClass st i xs key) (\<lambda>it.
             if it < length xs \<and> ikey (xs ! it) = key
             then Inr (if deleted (xs ! it) then None else Some (i, it))
             else find_from C SearchClass st key (i + 1)))
      else Inr None)"
  by pat_completeness auto
termination by (relation "measure (\<lambda>(C, S, st, k, i). used_levels st - i)") auto

declare find_from.simps [simp del]

definition dpgm_find :: "'p pgm_class \<Rightarrow> u64 search_fn \<Rightarrow> 'p dpgm \<Rightarrow> u64 \<Rightarrow> dpgm_error + position" where
  "dpgm_find C SearchClass st key = find_from C SearchClass st key min_level"

text \<open>\<open>DynamicPGM::EqualityLookup\<close>\<close>

definition dpgm_EqualityLookup :: "'p pgm_class \<Rightarrow> u64 search_fn \<Rightarrow> 'p dpgm \<Rightarrow> u64 \<Rightarrow> dpgm_error + u64" where
  "dpgm_EqualityLookup C SearchClass st lookup_key =
     bindE (dpgm_find C SearchClass st lookup_key) (\<lambda>it.
     Inr (case it of None \<Rightarrow> OVERFLOW | Some (i, j) \<Rightarrow> ivalue (data st ! (i - min_level) ! j)))"

end
