(* ===== verification/Dpgm_Merge.thy ===== *)
theory Dpgm_Merge
  imports Dpgm_Ops
begin

text \<open>
  The pairwise merge through the two buffers computes the merge of the levels, newest first, as long
  as the target level is empty: the parity of the number of levels then leaves the result in the
  buffer that becomes the target.
\<close>

lemma get_level_data:
  "data st = pre @ xs # post \<Longrightarrow> length pre = l - min_level \<Longrightarrow> min_level \<le> l \<Longrightarrow> get_level st l = Inr xs"
  by (simp add: get_level_def nth_append)

lemma write_out_ok: "length xs \<le> length buf \<Longrightarrow> write_out buf xs = Inr (map Some xs @ drop (length xs) buf)"
  by (simp add: write_out_def)

lemma read_range_ok:
  "n = length xs \<Longrightarrow> length xs \<le> length buf \<Longrightarrow> take (length xs) buf = map Some xs \<Longrightarrow> read_range buf n = Inr xs"
  by (simp add: read_range_def o_def)

lemma set_pgm_ok:
  assumes "18 \<le> l \<Longrightarrow> l - 18 < length (pgm st)"
  obtains st' where "set_pgm l p st = Inr st'" "used_levels st' = used_levels st" "data st' = data st"
    "length (pgm st') = length (pgm st)" "\<And>j. j + 18 \<noteq> l \<Longrightarrow> pgm st' ! j = pgm st ! j"
    "18 \<le> l \<Longrightarrow> pgm st' ! (l - 18) = p"
proof (cases "l < 18")
  case True
  then show ?thesis using that [of st] by (simp add: set_pgm_def dpgm_consts)
next
  case False
  then show ?thesis
    using that [of "st\<lparr>pgm := (pgm st)[l - 18 := p]\<rparr>"] assms by (simp add: set_pgm_def get_pgm_def dpgm_consts)
qed

fun merge_from :: "nat \<Rightarrow> nat \<Rightarrow> level list \<Rightarrow> level \<Rightarrow> level" where
  "merge_from used i [] xs = xs"
| "merge_from used i (L # Ls) xs = merge_from used (Suc i) Ls (merge (i = used - 1) xs L)"

definition undeleted :: "level \<Rightarrow> bool" where
  "undeleted xs \<longleftrightarrow> (\<forall>x\<in>set xs. \<not> deleted x)"

lemma undeleted_simps [simp]:
  "undeleted []" "undeleted (x # xs) \<longleftrightarrow> \<not> deleted x \<and> undeleted xs"
  "undeleted (xs @ ys) \<longleftrightarrow> undeleted xs \<and> undeleted ys"
  by (auto simp: undeleted_def)

lemma undeleted_merge: "undeleted xs \<Longrightarrow> undeleted ys \<Longrightarrow> undeleted (merge s xs ys)"
  using merge_set [of s xs ys] by (auto simp: undeleted_def)

lemma merge_from_ok:
  "level_sorted xs \<Longrightarrow> undeleted xs \<Longrightarrow> \<forall>L\<in>set Ls. level_sorted L \<and> undeleted L
   \<Longrightarrow> level_sorted (merge_from used i Ls xs) \<and> undeleted (merge_from used i Ls xs)
     \<and> length (merge_from used i Ls xs) \<le> length xs + sum_list (map length Ls)
     \<and> (\<forall>k. level_find (merge_from used i Ls xs) k = level_find (xs @ concat Ls) k)"
proof (induction used i Ls xs rule: merge_from.induct)
  case (2 used i L Ls xs)
  let ?m = "merge (i = used - 1) xs L"
  have L: "level_sorted L" "undeleted L" using "2.prems"(3) by simp_all
  have m: "level_sorted ?m" "undeleted ?m" using merge_sorted "2.prems"(1,2) L undeleted_merge by blast+
  have f: "level_find ?m k = level_find (xs @ L) k" for k
    using merge_find [OF "2.prems"(1) L(1), of "i = used - 1" k] "2.prems"(2)
    by (simp add: level_find_append undeleted_def)
  have IH: "level_sorted (merge_from used (Suc i) Ls ?m) \<and> undeleted (merge_from used (Suc i) Ls ?m)
     \<and> length (merge_from used (Suc i) Ls ?m) \<le> length ?m + sum_list (map length Ls)
     \<and> (\<forall>k. level_find (merge_from used (Suc i) Ls ?m) k = level_find (?m @ concat Ls) k)"
    using "2.IH" m "2.prems"(3) by simp
  then show ?case
    using merge_length [of "i = used - 1" xs L] f by (simp add: level_find_append split: option.splits)
qed simp_all

lemma merge_from_mset:
  "distinct (map ikey (xs @ concat Ls)) \<Longrightarrow> mset (merge_from used i Ls xs) = mset (xs @ concat Ls)"
proof (induction used i Ls xs rule: merge_from.induct)
  case (2 used i L Ls xs)
  let ?m = "merge (i = used - 1) xs L"
  have "keys_of xs \<inter> keys_of L = {}" using "2.prems" by auto
  then have m: "mset ?m = mset xs + mset L" by (rule merge_mset)
  then have "mset (map ikey (?m @ concat Ls)) = mset (map ikey (xs @ concat (L # Ls)))" by simp
  then have "distinct (map ikey (?m @ concat Ls))" using "2.prems" mset_eq_imp_distinct_iff by blast
  from "2.IH" [OF this] m show ?case by simp
qed simp

lemma parity_step: "(((Suc n) - 6) mod 2 = p) \<noteq> ((n - 6) mod 2 = p)" if "6 \<le> n" "p < 2" for n p :: nat
proof -
  have "Suc n - 6 = Suc (n - 6)" using that by simp
  then show ?thesis using that(2) by (cases "(n - 6) mod 2 = 0") (auto simp: mod_Suc)
qed

lemma merge_loop_ok:
  assumes "data st = pre @ Ls @ post" "length pre = i - 6" "7 \<le> i" "t = i + length Ls"
    and "\<And>l. 18 \<le> l \<Longrightarrow> l < t \<Longrightarrow> l - 18 < length (pgm st)"
    and "parity = (t - 1 - 6) mod 2"
    and "buf = (if (i - 6) mod 2 = parity then a else b)"
    and "take (length xs) buf = map Some xs" "length xs \<le> length buf"
    and "length xs + sum_list (map length Ls) \<le> length a" "length xs + sum_list (map length Ls) \<le> length b"
  shows "\<exists>st' a' b'. merge_loop C parity (t - 1) i st (a, b) (length xs)
      = Inr (st', (a', b'), length (merge_from (used_levels st) i Ls xs))
    \<and> take (length (merge_from (used_levels st) i Ls xs)) b' = map Some (merge_from (used_levels st) i Ls xs)
    \<and> length (merge_from (used_levels st) i Ls xs) \<le> length b'
    \<and> data st' = pre @ replicate (length Ls) [] @ post \<and> used_levels st' = used_levels st
    \<and> length (pgm st') = length (pgm st) \<and> (\<forall>j. t \<le> j + 18 \<longrightarrow> pgm st' ! j = pgm st ! j)"
  using assms
proof (induction Ls arbitrary: st pre i a b xs buf)
  case Nil
  have "Suc (t - 1) = t" using Nil.prems(3,4) by simp
  then have "((t - 6) mod 2 = parity) \<noteq> ((t - 1 - 6) mod 2 = parity)"
    using parity_step [of "t - 1" parity] Nil.prems(3,4,6) by simp
  then have "buf = b" using Nil.prems(4,6,7) by simp
  moreover have "\<not> i \<le> t - 1" using Nil.prems(3,4) by simp
  then have "merge_loop C parity (t - 1) i st (a, b) (length xs) = Inr (st, (a, b), length xs)"
    by (subst merge_loop.simps) simp
  ultimately show ?case using Nil.prems(1,8,9) by simp
next
  case (Cons L Ls)
  let ?m = "merge (i = used_levels st - 1) xs L"
  let ?alt = "(i - 6) mod 2 = parity"
  have lim: "i \<le> t - 1" using Cons.prems(3,4) by simp
  have gl: "get_level st i = Inr L"
    using get_level_data [of st pre L "Ls @ post" i] Cons.prems(1-3) by (simp add: dpgm_consts)
  have rr: "read_range (if ?alt then a else b) (length xs) = Inr xs"
    by (rule read_range_ok) (use Cons.prems(7,8,9) in simp_all)
  have ml: "length ?m \<le> length xs + length L" by (rule merge_length)
  let ?out = "if ?alt then b else a"
  have out: "length ?m + sum_list (map length Ls) \<le> length ?out"
    using ml Cons.prems(10,11) by simp
  then have wo: "write_out ?out ?m = Inr (map Some ?m @ drop (length ?m) ?out)"
    by (intro write_out_ok) simp
  let ?buf = "map Some ?m @ drop (length ?m) ?out"
  have "18 \<le> i \<Longrightarrow> i - 18 < length (pgm (set_level i [] st))"
    using Cons.prems(4,5) by (simp add: set_level_def)
  then obtain st1 where st1: "set_pgm i (pgm_empty C) (set_level i [] st) = Inr st1"
    "used_levels st1 = used_levels st" "data st1 = data (set_level i [] st)"
    "length (pgm st1) = length (pgm st)" "\<And>j. j + 18 \<noteq> i \<Longrightarrow> pgm st1 ! j = pgm st ! j"
    by (rule set_pgm_ok) (auto simp: set_level_def)
  have d1: "data st1 = (pre @ [[]]) @ Ls @ post"
    using st1(3) Cons.prems(1,2) by (simp add: set_level_def dpgm_consts list_update_append)
  let ?a = "if ?alt then a else ?buf" and ?b = "if ?alt then ?buf else b"
  have step: "merge_loop C parity (t - 1) i st (a, b) (length xs)
      = merge_loop C parity (t - 1) (Suc i) st1 (?a, ?b) (length ?m)"
    using lim gl rr wo st1(1)
    by (subst merge_loop.simps) (simp add: Let_def min_level_def split: if_splits)
  have lb: "length ?buf = length ?out" using out by simp
  have p2: "parity < 2" using Cons.prems(6) by simp
  have alt': "((Suc i - 6) mod 2 = parity) = (\<not> ?alt)"
    using parity_step [of i parity] Cons.prems(3) p2 by auto
  have "\<exists>st' a' b'. merge_loop C parity (t - 1) (Suc i) st1 (?a, ?b) (length ?m)
      = Inr (st', (a', b'), length (merge_from (used_levels st1) (Suc i) Ls ?m))
    \<and> take (length (merge_from (used_levels st1) (Suc i) Ls ?m)) b' = map Some (merge_from (used_levels st1) (Suc i) Ls ?m)
    \<and> length (merge_from (used_levels st1) (Suc i) Ls ?m) \<le> length b'
    \<and> data st' = (pre @ [[]]) @ replicate (length Ls) [] @ post \<and> used_levels st' = used_levels st1
    \<and> length (pgm st') = length (pgm st1) \<and> (\<forall>j. t \<le> j + 18 \<longrightarrow> pgm st' ! j = pgm st1 ! j)"
  proof (rule Cons.IH [where buf = ?buf])
    show "data st1 = (pre @ [[]]) @ Ls @ post" by (rule d1)
    show "length (pre @ [[]]) = Suc i - 6" using Cons.prems(2,3) by simp
    show "7 \<le> Suc i" "t = Suc i + length Ls" "parity = (t - 1 - 6) mod 2" using Cons.prems(3,4,6) by simp_all
    show "l - 18 < length (pgm st1)" if "18 \<le> l" "l < t" for l using Cons.prems(5) [OF that] st1(4) by simp
    show "?buf = (if (Suc i - 6) mod 2 = parity then ?a else ?b)" using alt' by auto
    show "take (length ?m) ?buf = map Some ?m" "length ?m \<le> length ?buf" by simp_all
    show "length ?m + sum_list (map length Ls) \<le> length ?a" "length ?m + sum_list (map length Ls) \<le> length ?b"
      using out lb ml Cons.prems(10,11) by (cases ?alt; simp)+
  qed
  moreover have "pgm st1 ! j = pgm st ! j" if "t \<le> j + 18" for j
    using that Cons.prems(4) by (intro st1(5)) simp
  ultimately show ?case unfolding step using st1(2,4) by (auto simp del: replicate_Suc simp add: replicate_Suc)
qed

end
