(* ===== verification/Dpgm_Insert.thy ===== *)
theory Dpgm_Insert
  imports Dpgm_Merge
begin

text \<open>
  The invariant of the dynamic PGM index and its insertion. As long as the merge goes into an empty
  level the insertion refines the update of the map; with keys that were never inserted before, the
  levels behave like the digits of a binary counter and the target is always empty.
\<close>

definition dpgm_wf :: "'p pgm_class \<Rightarrow> 'p dpgm \<Rightarrow> bool" where
  "dpgm_wf C st \<longleftrightarrow> 6 \<le> used_levels st \<and> used_levels st \<le> 6 + length (data st) \<and> data st \<noteq> []
     \<and> (\<forall>xs\<in>set (data st). level_sorted xs \<and> undeleted xs)
     \<and> (\<forall>j. used_levels st - 6 \<le> j \<and> j < length (data st) \<longrightarrow> data st ! j = [])
     \<and> length (data st ! 0) \<le> 127 \<and> used_levels st - 18 \<le> length (pgm st)
     \<and> (\<forall>l. 18 \<le> l \<and> l < used_levels st \<and> data st ! (l - 6) \<noteq> []
          \<longrightarrow> pgm st ! (l - 18) = pgm_build C (data st ! (l - 6)))"

definition dpgm_items :: "'p dpgm \<Rightarrow> pgm_item list" where
  "dpgm_items st = concat (data st)"

definition live_value :: "pgm_item option \<Rightarrow> u64 option" where
  "live_value r = (case r of Some x \<Rightarrow> if deleted x then None else Some (ivalue x) | None \<Rightarrow> None)"

text \<open>The value of a key is that of its newest item: levels are searched in order.\<close>

definition dpgm_map :: "'p dpgm \<Rightarrow> u64 \<rightharpoonup> u64" where
  "dpgm_map st k = live_value (level_find (dpgm_items st) k)"

lemmas dpgm_wfD = dpgm_wf_def [THEN iffD1]

lemma get_level_wf:
  "dpgm_wf C st \<Longrightarrow> 6 \<le> l \<Longrightarrow> l < used_levels st \<or> l = 6 \<Longrightarrow> get_level st l = Inr (data st ! (l - 6))"
  by (auto simp: dpgm_wf_def get_level_def dpgm_consts)

subsection \<open>The choice of the target level\<close>

text \<open>The levels between the buffer and level \<open>t\<close>.\<close>

definition between :: "'p dpgm \<Rightarrow> nat \<Rightarrow> nat \<Rightarrow> level list" where
  "between st i t = take (t - i) (drop (i - 6) (data st))"

lemma between_empty [simp]: "between st i i = []"
  by (simp add: between_def)

lemma between_Cons:
  "6 \<le> i \<Longrightarrow> i < t \<Longrightarrow> i - 6 < length (data st) \<Longrightarrow> between st i t = data st ! (i - 6) # between st (Suc i) t"
proof -
  assume a: "6 \<le> i" "i < t" "i - 6 < length (data st)"
  have "drop (i - 6) (data st) = data st ! (i - 6) # drop (Suc (i - 6)) (data st)"
    using a(3) by (simp add: Cons_nth_drop_Suc)
  moreover have "Suc (i - 6) = Suc i - 6" "t - i = Suc (t - Suc i)" using a(1,2) by simp_all
  ultimately show ?thesis unfolding between_def by (metis take_Suc_Cons)
qed

lemma choose_level_ok:
  assumes "dpgm_wf C st" "7 \<le> i" "i \<le> used_levels st"
  shows "\<exists>t. choose_level st i req = Inr (t, req + sum_list (map length (between st i t))) \<and> i \<le> t \<and> t \<le> used_levels st"
  using assms(2,3)
proof (induction "used_levels st - i" arbitrary: i req)
  case 0
  then have "choose_level st i req = Inr (i, req)" by (subst choose_level.simps) simp
  then show ?case using 0 by (intro exI [of _ i]) simp
next
  case (Suc d)
  then have i: "i < used_levels st" by simp
  have gl: "get_level st i = Inr (data st ! (i - 6))" using get_level_wf [OF assms(1), of i] Suc.prems(1) i by simp
  show ?case
  proof (cases "req \<le> slots_left i (data st ! (i - 6))")
    case True
    then have "choose_level st i req = Inr (i, req)" using i gl by (subst choose_level.simps) simp
    then show ?thesis using i by (intro exI [of _ i]) simp
  next
    case False
    then have s: "choose_level st i req = choose_level st (Suc i) (req + length (data st ! (i - 6)))"
      using i gl by (subst choose_level.simps) simp
    have "d = used_levels st - Suc i" "7 \<le> Suc i" "Suc i \<le> used_levels st" using Suc.hyps(2) Suc.prems(1) i by simp_all
    from Suc.hyps(1) [OF this, of "req + length (data st ! (i - 6))"] obtain t where
      t: "choose_level st (Suc i) (req + length (data st ! (i - 6)))
        = Inr (t, req + length (data st ! (i - 6)) + sum_list (map length (between st (Suc i) t)))"
      "Suc i \<le> t" "t \<le> used_levels st" by auto
    have "i - 6 < length (data st)" using dpgm_wfD [OF assms(1)] i Suc.prems(1) by auto
    then have "between st i t = data st ! (i - 6) # between st (Suc i) t"
      using Suc.prems(1) t(2) by (intro between_Cons) auto
    then show ?thesis using s t by (intro exI [of _ t]) simp
  qed
qed

subsection \<open>A merge into an empty level\<close>

lemma level_find_concat_replicate [simp]: "concat (replicate n []) = []"
  by (induction n) auto

text \<open>The buffer, the levels to merge, the empty target and the levels above it.\<close>

lemma data_split:
  assumes wf: "dpgm_wf C st" and t: "7 \<le> t" "t < used_levels st" and empty: "data st ! (t - 6) = []"
  shows "data st = (data st ! 0) # between st 7 t @ [] # drop (t - 5) (data st)" "length (between st 7 t) = t - 7"
    "t - 6 < length (data st)"
proof -
  note w = dpgm_wfD [OF wf]
  show len: "t - 6 < length (data st)" using w t by auto
  have t67: "t - 6 = Suc (t - 7)" and t56: "t - 5 = Suc (t - 6)" using t(1) by arith+
  show "length (between st 7 t) = t - 7" using len t by (simp add: between_def)
  have "data st = data st ! 0 # drop 1 (data st)" using w by (simp add: Cons_nth_drop_Suc [of 0, simplified])
  moreover have "drop 1 (data st) = between st 7 t @ drop (t - 7) (drop 1 (data st))"
    by (simp add: between_def del: drop_drop)
  moreover have "drop (t - 7) (drop 1 (data st)) = drop (t - 6) (data st)" using t67 by simp
  moreover have "drop (t - 6) (data st) = [] # drop (t - 5) (data st)"
    using Cons_nth_drop_Suc [OF len] empty t56 by simp
  ultimately show "data st = (data st ! 0) # between st 7 t @ [] # drop (t - 5) (data st)" by metis
qed

text \<open>The item of an overflowing buffer goes into level \<open>t\<close>, with everything below it.\<close>

definition merged :: "'p dpgm \<Rightarrow> nat \<Rightarrow> pgm_item \<Rightarrow> level" where
  "merged st t x = merge_from (used_levels st) 7 (between st 7 t)
     (insert_at (data st ! 0) (std_lower_bound (data st ! 0) (ikey x)) x)"

definition merges_to :: "'p pgm_class \<Rightarrow> 'p dpgm \<Rightarrow> nat \<Rightarrow> pgm_item \<Rightarrow> 'p dpgm \<Rightarrow> bool" where
  "merges_to C st t x st' \<longleftrightarrow> used_levels st' = used_levels st \<and> length (pgm st') = length (pgm st)
     \<and> data st' = [] # replicate (t - 7) [] @ merged st t x # drop (t - 5) (data st)
     \<and> (18 \<le> t \<longrightarrow> pgm st' ! (t - 18) = pgm_build C (merged st t x))
     \<and> (\<forall>j. t < j + 18 \<longrightarrow> pgm st' ! j = pgm st ! j)"

lemma merged_ok:
  assumes wf: "dpgm_wf C st" and t: "7 \<le> t" "t < used_levels st" and empty: "data st ! (t - 6) = []"
    and new: "\<not> deleted x"
  shows "level_sorted (merged st t x)" "undeleted (merged st t x)"
    "level_find (merged st t x) k = level_find (insert_at (data st ! 0) (std_lower_bound (data st ! 0) (ikey x)) x
       @ concat (between st 7 t)) k"
proof -
  let ?B = "data st ! 0"
  let ?first = "insert_at ?B (std_lower_bound ?B (ikey x)) x"
  have sorted: "level_sorted L \<and> undeleted L" if "L \<in> set (?B # between st 7 t)" for L
  proof -
    have "L \<in> set (data st)"
      by (subst arg_cong [OF data_split(1) [OF assms(1-4)], of set]) (use that in auto)
    then show ?thesis using dpgm_wfD [OF wf] by blast
  qed
  have "level_sorted ?first" "undeleted ?first"
    using insert_at_sorted [of ?B x] sorted [of ?B] new
      arg_cong [OF mset_insert_at [of ?B "std_lower_bound ?B (ikey x)" x], of set_mset]
    by (auto simp: undeleted_def)
  from merge_from_ok [OF this, of "between st 7 t" "used_levels st" 7] sorted
  show "level_sorted (merged st t x)" "undeleted (merged st t x)"
    "level_find (merged st t x) k = level_find (?first @ concat (between st 7 t)) k"
    by (auto simp: merged_def)
qed

lemma merge_run:
  assumes wf: "dpgm_wf C st" and t: "7 \<le> t" "t < used_levels st" and empty: "data st ! (t - 6) = []"
    and full: "length (data st ! 0) = 127" and hint: "hint = 128 + sum_list (map length (between st 7 t))"
    and x: "x = insert_at (data st ! 0) i y" and a: "a = map Some x @ drop 128 (replicate hint None)"
    and b: "b = replicate hint None" and ab: "ab = (if (t - 1 - 6) mod 2 \<noteq> 0 then (a, b) else (b, a))"
    and m: "m = merge_from (used_levels st) 7 (between st 7 t) x"
  obtains st1 a' b' where "merge_loop C ((t - 1 - 6) mod 2) (t - 1) 7 st ab 128 = Inr (st1, (a', b'), length m)"
    "take (length m) b' = map Some m" "length m \<le> length b'" "used_levels st1 = used_levels st"
    "data st1 = (data st ! 0) # replicate (t - 7) [] @ [] # drop (t - 5) (data st)"
    "length (pgm st1) = length (pgm st)" "\<And>j. t \<le> j + 18 \<Longrightarrow> pgm st1 ! j = pgm st ! j"
proof -
  note w = dpgm_wfD [OF wf] and d = data_split [OF wf t empty]
  have lf: "length x = 128" using full x by (simp add: length_insert_at)
  let ?par = "(t - 1 - 6) mod 2"
  have "\<exists>st' a' b'. merge_loop C ?par (t - 1) 7 st (fst ab, snd ab) (length x) = Inr (st', (a', b'), length m)
      \<and> take (length m) b' = map Some m \<and> length m \<le> length b'
      \<and> data st' = [data st ! 0] @ replicate (length (between st 7 t)) [] @ ([] # drop (t - 5) (data st))
      \<and> used_levels st' = used_levels st
      \<and> length (pgm st') = length (pgm st) \<and> (\<forall>j. t \<le> j + 18 \<longrightarrow> pgm st' ! j = pgm st ! j)"
    unfolding m
  proof (rule merge_loop_ok [where buf = a])
    show "data st = [data st ! 0] @ between st 7 t @ [] # drop (t - 5) (data st)" using d(1) by simp
    show "length [data st ! 0] = 7 - 6" "(7::nat) \<le> 7" "?par = ?par" by simp_all
    show "t = 7 + length (between st 7 t)" using d(2) t(1) by simp
    show "l - 18 < length (pgm st)" if "18 \<le> l" "l < t" for l using w t(2) that by linarith
    show "a = (if (7 - 6) mod 2 = ?par then fst ab else snd ab)"
    proof -
      have "?par = 0 \<or> ?par = 1" by linarith
      then show ?thesis by (elim disjE) (simp_all only: ab, simp_all)
    qed
    show "take (length x) a = map Some x" "length x \<le> length a" using a by simp_all
    show "length x + sum_list (map length (between st 7 t)) \<le> length (fst ab)"
      "length x + sum_list (map length (between st 7 t)) \<le> length (snd ab)"
      using hint lf a b by (auto simp: ab)
  qed
  with that show ?thesis unfolding lf prod.collapse append_Cons append_Nil d(2) by blast
qed

lemma pairwise_run:
  assumes wf: "dpgm_wf C st" and t: "7 \<le> t" "t < used_levels st" and empty: "data st ! (t - 6) = []"
    and full: "length (data st ! 0) = 127" and new: "\<not> deleted x"
    and hint: "hint = 128 + sum_list (map length (between st 7 t))"
  shows "\<exists>st'. pairwise_logarithmic_merge C x (t - 1) hint (std_lower_bound (data st ! 0) (ikey x)) st = Inr st'
    \<and> merges_to C st t x st'"
proof -
  note w = dpgm_wfD [OF wf] and d = data_split [OF wf t empty]
  have t67: "t - 6 = Suc (t - 7)" using t(1) by arith
  let ?B = "data st ! 0" and ?m = "merged st t x"
  define first where "first = insert_at ?B (std_lower_bound ?B (ikey x)) x"
  have lf: "length first = 128" using full by (simp add: first_def length_insert_at)
  let ?par = "(t - 1 - 6) mod 2"
  let ?a = "replicate hint None :: buffer"
  let ?buf = "map Some first @ drop 128 ?a"
  define ab where "ab = (if ?par \<noteq> 0 then (?buf, ?a) else (?a, ?buf))"
  obtain st1 a' b' where m: "merge_loop C ?par (t - 1) 7 st ab 128 = Inr (st1, (a', b'), length ?m)"
    "take (length ?m) b' = map Some ?m" "length ?m \<le> length b'" "used_levels st1 = used_levels st"
    "data st1 = ?B # replicate (t - 7) [] @ [] # drop (t - 5) (data st)"
    "length (pgm st1) = length (pgm st)" "\<And>j. t \<le> j + 18 \<Longrightarrow> pgm st1 ! j = pgm st ! j"
    by (rule merge_run [OF wf t empty full hint first_def refl refl ab_def merged_def [of st t x, folded first_def]]) blast
  let ?st2 = "set_level t ?m (set_level 6 [] st1)"
  have d2: "data ?st2 = [] # replicate (t - 7) [] @ ?m # drop (t - 5) (data st)"
    using m(5) by (simp add: set_level_def dpgm_consts t67 list_update_append)
  have "used_levels st - 18 \<le> length (pgm st)" using w by simp
  then have "t - 18 < length (pgm ?st2)" if "18 \<le> t" using that t(2) m(6) by (simp add: set_level_def)
  then obtain st3 where st3: "set_pgm t (pgm_build C ?m) ?st2 = Inr st3" "used_levels st3 = used_levels ?st2"
    "data st3 = data ?st2" "length (pgm st3) = length (pgm ?st2)" "\<And>j. j + 18 \<noteq> t \<Longrightarrow> pgm st3 ! j = pgm ?st2 ! j"
    "18 \<le> t \<Longrightarrow> pgm st3 ! (t - 18) = pgm_build C ?m"
    by (rule set_pgm_ok) auto
  have t1: "t - 1 + 1 = t" using t(1) by simp
  have gl: "get_level st t = Inr []" "get_level st 6 = Inr ?B"
    using get_level_wf [OF wf, of t] get_level_wf [OF wf, of 6] t empty by simp_all
  have "(2::nat) ^ 7 \<le> 2 ^ t" using t(1) by (intro power_increasing) simp_all
  then have as: "checkE ASSERTION (128 \<le> (2::nat) ^ t) = Inr ()" by simp
  have wr: "write_out ?a first = Inr ?buf" using hint lf by (simp add: write_out_def)
  have rr: "read_range (resize b' (length ?m)) (length ?m) = Inr ?m"
    by (rule read_range_ok) (use m(2,3) in \<open>simp_all add: resize_def\<close>)
  have "pairwise_logarithmic_merge C x (t - 1) hint (std_lower_bound ?B (ikey x)) st = Inr st3"
    unfolding pairwise_logarithmic_merge_def Let_def t1 gl bindE_simps min_level_def first_def [symmetric]
    using wr m(1) rr st3(1) merged_ok(1) [OF wf t empty new]
    by (simp add: ab_def gl as flip: One_nat_def split: if_splits)
  moreover have "merges_to C st t x st3"
    using st3(2-6) d2 m(4,6,7) by (auto simp: merges_to_def set_level_def)
  ultimately show ?thesis by blast
qed

lemma merges_to_wf:
  assumes wf: "dpgm_wf C st" and t: "7 \<le> t" "t < used_levels st" and empty: "data st ! (t - 6) = []"
    and new: "\<not> deleted x" and m: "merges_to C st t x st'"
  shows "dpgm_wf C st'" "length (data st') = length (data st)" "data st' ! (t - 6) = merged st t x"
    "\<And>j. j < t - 6 \<Longrightarrow> data st' ! j = []" "\<And>j. t - 6 < j \<Longrightarrow> j < length (data st) \<Longrightarrow> data st' ! j = data st ! j"
proof -
  note w = dpgm_wfD [OF wf] and d = data_split [OF wf t empty]
  have d3: "data st' = [] # replicate (t - 7) [] @ merged st t x # drop (t - 5) (data st)"
    using m by (simp add: merges_to_def)
  have t67: "t - 6 = Suc (t - 7)" and t56: "t - 5 = Suc (t - 6)" using t(1) by arith+
  show len: "length (data st') = length (data st)" using d3 d(3) t56 t67 by simp
  show ntht: "data st' ! (t - 6) = merged st t x" using d3 by (simp add: nth_append t67)
  show low: "data st' ! j = []" if "j < t - 6" for j
    using d3 that t67 by (cases j) (simp_all add: nth_append)
  show high: "data st' ! j = data st ! j" if "t - 6 < j" "j < length (data st)" for j
  proof -
    define i where "i = j - (t - 5)"
    have i: "j = Suc (t - 7 + Suc i)" using that(1) t(1) by (simp add: i_def)
    have "t - 5 + i = j" using i t(1) by simp
    then show ?thesis unfolding d3 by (subst i) (use that(2) in \<open>simp add: nth_append\<close>)
  qed
  have "level_sorted L \<and> undeleted L" if "L \<in> set (data st')" for L
    using that merged_ok(1,2) [OF wf t empty new] w by (auto simp: d3 dest!: in_set_dropD)
  moreover have "data st' ! j = []" if "used_levels st - 6 \<le> j" "j < length (data st)" for j
    using high [of j] that t w by auto
  moreover have "pgm st' ! (l - 18) = pgm_build C (data st' ! (l - 6))"
    if l: "18 \<le> l" "l < used_levels st" "data st' ! (l - 6) \<noteq> []" for l
  proof -
    consider "l < t" | "l = t" | "t < l" by linarith
    then show ?thesis
    proof cases
      case 1
      then have "l - 6 < t - 6" using l(1) by arith
      then show ?thesis using low [of "l - 6"] l(3) by simp
    next
      case 2
      then show ?thesis using m ntht l by (simp add: merges_to_def)
    next
      case 3
      have "l - 6 < length (data st)" using l w by auto
      then have e: "data st' ! (l - 6) = data st ! (l - 6)" using high [of "l - 6"] 3 l(1) by simp
      have "pgm st' ! (l - 18) = pgm st ! (l - 18)" using m 3 l(1) by (simp add: merges_to_def)
      then show ?thesis using e l w by auto
    qed
  qed
  moreover have "data st' \<noteq> []" "data st' ! 0 = []" using d3 by simp_all
  moreover have "used_levels st' = used_levels st" "length (pgm st') = length (pgm st)"
    using m by (simp_all add: merges_to_def)
  ultimately show "dpgm_wf C st'" using w len unfolding dpgm_wf_def by simp
qed

lemma merges_to_find:
  assumes wf: "dpgm_wf C st" and t: "7 \<le> t" "t < used_levels st" and empty: "data st ! (t - 6) = []"
    and new: "\<not> deleted x" and m: "merges_to C st t x st'"
  shows "level_find (dpgm_items st') k = (if k = ikey x then Some x else level_find (dpgm_items st) k)"
proof -
  note d = data_split [OF wf t empty]
  have "data st ! 0 \<in> set (data st)" using dpgm_wfD [OF wf] by simp
  then have "level_sorted (data st ! 0)" using dpgm_wfD [OF wf] by blast
  then have i: "level_find (insert_at (data st ! 0) (std_lower_bound (data st ! 0) (ikey x)) x) k
      = (if k = ikey x then Some x else level_find (data st ! 0) k)" by (rule insert_at_find)
  have "dpgm_items st = data st ! 0 @ concat (between st 7 t) @ concat (drop (t - 5) (data st))"
    by (simp add: dpgm_items_def arg_cong [OF d(1), of concat])
  moreover have "dpgm_items st' = merged st t x @ concat (drop (t - 5) (data st))"
    using m by (simp add: merges_to_def dpgm_items_def)
  ultimately show ?thesis
    using merged_ok(3) [OF wf t empty new, of k] i by (simp add: level_find_append split: option.splits)
qed

lemma merges_to_mset:
  assumes wf: "dpgm_wf C st" and t: "7 \<le> t" "t < used_levels st" and empty: "data st ! (t - 6) = []"
    and full: "length (data st ! 0) = 127" and m: "merges_to C st t x st'"
    and dist: "distinct (map ikey (x # dpgm_items st))"
  shows "mset (dpgm_items st') = add_mset x (mset (dpgm_items st))"
    "length (merged st t x) = 128 + sum_list (map length (between st 7 t))"
proof -
  note d = data_split [OF wf t empty]
  let ?first = "insert_at (data st ! 0) (std_lower_bound (data st ! 0) (ikey x)) x"
  have i: "dpgm_items st = data st ! 0 @ concat (between st 7 t) @ concat (drop (t - 5) (data st))"
    by (simp add: dpgm_items_def arg_cong [OF d(1), of concat])
  have "mset (map ikey (?first @ concat (between st 7 t) @ concat (drop (t - 5) (data st)))) = mset (map ikey (x # dpgm_items st))"
    by (simp add: i mset_insert_at)
  then have "distinct (map ikey (?first @ concat (between st 7 t) @ concat (drop (t - 5) (data st))))"
    using dist mset_eq_imp_distinct_iff by blast
  then have "distinct (map ikey (?first @ concat (between st 7 t)))"
    unfolding map_append distinct_append set_append by blast
  then have ms: "mset (merged st t x) = mset (?first @ concat (between st 7 t))"
    unfolding merged_def by (rule merge_from_mset)
  then show "mset (dpgm_items st') = add_mset x (mset (dpgm_items st))"
    using m by (simp add: merges_to_def dpgm_items_def [of st'] i mset_insert_at)
  show "length (merged st t x) = 128 + sum_list (map length (between st 7 t))"
    using arg_cong [OF ms, of size] full by (simp add: length_insert_at length_concat)
qed

end
