(* ===== verification/Dpgm_Index.thy ===== *)
theory Dpgm_Index
  imports Dpgm_Insert
begin

text \<open>
  Insertion into the dynamic PGM index. A merge into an empty or a new level refines the update of
  the map. While every inserted key is new, the sizes of the levels are the digits of a binary
  counter, so that the level chosen is always empty or new and the insertion never fails.
\<close>

subsection \<open>A new level\<close>

definition add_level :: "'p pgm_class \<Rightarrow> 'p dpgm \<Rightarrow> 'p dpgm" where
  "add_level C st = st\<lparr>used_levels := used_levels st + 1, data := data st @ [[]],
     pgm := (if int (used_levels st) - int MinIndexedLevel \<ge> int (length (pgm st)) then pgm st @ [pgm_empty C] else pgm st)\<rparr>"

lemma data_top: "dpgm_wf C st \<Longrightarrow> (data st @ [[]]) ! (used_levels st - 6) = []"
  by (cases "used_levels st - 6 < length (data st)") (auto simp: dpgm_wf_def nth_append)

lemma add_level_wf:
  assumes wf: "dpgm_wf C st"
  shows "dpgm_wf C (add_level C st)"
proof -
  note w = dpgm_wfD [OF wf]
  have "pgm (add_level C st) ! (l - 18) = pgm_build C (data (add_level C st) ! (l - 6))"
    if l: "18 \<le> l" "l < Suc (used_levels st)" "data (add_level C st) ! (l - 6) \<noteq> []" for l
  proof -
    have "l \<noteq> used_levels st" using l(3) data_top [OF wf] by (auto simp: add_level_def)
    with l w have "l < used_levels st" "l - 6 < length (data st)" by auto
    moreover have "l - 18 < length (pgm st)" using w l(1) \<open>l < used_levels st\<close> by linarith
    ultimately show ?thesis using w l by (simp add: add_level_def nth_append)
  qed
  moreover have "(data st @ [[]]) ! j = []" if "Suc (used_levels st) - 6 \<le> j" "j < Suc (length (data st))" for j
    using that w by (auto simp: nth_append)
  moreover have "Suc (used_levels st) - 18 \<le> length (pgm (add_level C st))"
    using w by (auto simp: add_level_def dpgm_consts)
  moreover have "(data st @ [[]]) ! 0 = data st ! 0" using w by (simp add: nth_append)
  ultimately show ?thesis using w by (simp add: dpgm_wf_def [of C "add_level C st"]) (simp add: add_level_def)
qed

lemma add_level_simps [simp]:
  "dpgm_items (add_level C st) = dpgm_items st" "used_levels (add_level C st) = Suc (used_levels st)"
  "data (add_level C st) = data st @ [[]]"
  by (simp_all add: add_level_def dpgm_items_def)

lemma between_add_level: "t - 6 \<le> length (data st) \<Longrightarrow> 6 \<le> i \<Longrightarrow> between (add_level C st) i t = between st i t"
  by (simp add: between_def)

subsection \<open>The buffer\<close>

lemma buffer_insert:
  assumes wf: "dpgm_wf C st" and new: "\<not> deleted x" and room: "length (data st ! 0) < 127"
  defines "st' \<equiv> set_level 6 (insert_at (data st ! 0) (std_lower_bound (data st ! 0) (ikey x)) x) st
      \<lparr>used_levels := (if used_levels st = 6 then 7 else used_levels st)\<rparr>"
  shows "dpgm_wf C st'"
    "level_find (dpgm_items st') k = (if k = ikey x then Some x else level_find (dpgm_items st) k)"
    "mset (dpgm_items st') = add_mset x (mset (dpgm_items st))"
proof -
  note w = dpgm_wfD [OF wf]
  obtain B R where d: "data st = B # R" using w by (cases "data st") auto
  let ?B = "insert_at B (std_lower_bound B (ikey x)) x"
  have B: "level_sorted B" "undeleted B" using w d by simp_all
  have d': "data st' = ?B # R" "pgm st' = pgm st" by (simp_all add: st'_def set_level_def dpgm_consts d)
  have "level_sorted ?B" "undeleted ?B"
    using insert_at_sorted [OF B(1), of x] B(2) new
      arg_cong [OF mset_insert_at [of B "std_lower_bound B (ikey x)" x], of set_mset] by (auto simp: undeleted_def)
  moreover have nth: "data st' ! j = data st ! j" if "0 < j" for j using that by (cases j) (simp_all add: d d')
  moreover have "data st' ! j = []" if "used_levels st' - 6 \<le> j" "j < length (data st)" for j
    using that w nth [of j] by (cases "used_levels st = 6") (auto simp: st'_def)
  moreover have "pgm st' ! (l - 18) = pgm_build C (data st' ! (l - 6))"
    if "18 \<le> l" "l < used_levels st'" "data st' ! (l - 6) \<noteq> []" for l
    using that w nth [of "l - 6"] d'(2) by (auto simp: st'_def split: if_splits)
  moreover have "6 \<le> used_levels st'" "used_levels st' \<le> 6 + length (data st)" "used_levels st' - 18 \<le> length (pgm st)"
    using w by (auto simp: st'_def d)
  ultimately show "dpgm_wf C st'" using w d d' room by (auto simp: dpgm_wf_def [of C st'] length_insert_at)
  show "level_find (dpgm_items st') k = (if k = ikey x then Some x else level_find (dpgm_items st) k)"
    using insert_at_find [OF B(1), of x k] by (simp add: dpgm_items_def d d' level_find_append split: option.splits)
  show "mset (dpgm_items st') = add_mset x (mset (dpgm_items st))"
    by (simp add: dpgm_items_def d d' mset_insert_at)
qed

subsection \<open>Insertion\<close>

text \<open>The level the item of a full buffer goes to.\<close>

definition target_empty :: "'p dpgm \<Rightarrow> bool" where
  "target_empty st \<longleftrightarrow> (case choose_level st 7 128 of
     Inl e \<Rightarrow> False | Inr (t, n) \<Rightarrow> t = used_levels st \<or> data st ! (t - 6) = [])"

lemma same_item:
  assumes wf: "dpgm_wf C st" and new: "\<not> deleted x"
    and i: "i < length (data st ! 0)" "ikey (data st ! 0 ! i) = ikey x" "ivalue (data st ! 0 ! i) = ivalue x"
  shows "data st ! 0 ! i = x"
proof -
  have "data st ! 0 \<in> set (data st)" using dpgm_wfD [OF wf] by simp
  then have "undeleted (data st ! 0)" using dpgm_wfD [OF wf] by blast
  then have "\<not> deleted (data st ! 0 ! i)" using i(1) by (simp add: undeleted_def)
  with i new show ?thesis by (cases x; cases "data st ! 0 ! i") simp
qed

lemma found_in_buffer:
  assumes wf: "dpgm_wf C st" and i: "i = std_lower_bound (data st ! 0) k" "i < length (data st ! 0)" "ikey (data st ! 0 ! i) = k"
  shows "level_find (dpgm_items st) k = Some (data st ! 0 ! i)"
proof -
  obtain B R where d: "data st = B # R" using dpgm_wfD [OF wf] by (cases "data st") auto
  then have "level_sorted B" using dpgm_wfD [OF wf] by simp
  from level_find_at [OF this, of k] i show ?thesis by (simp add: dpgm_items_def d level_find_append Let_def)
qed

text \<open>The state in which the merge runs.\<close>

definition prepared :: "'p pgm_class \<Rightarrow> 'p dpgm \<Rightarrow> nat \<Rightarrow> 'p dpgm" where
  "prepared C st t = (if t = used_levels st then add_level C st else st)"

lemma wf_data: "dpgm_wf C st \<Longrightarrow> data st \<noteq> []"
  by (simp add: dpgm_wf_def)

lemma insert_item_eq:
  assumes "data st \<noteq> []"
  shows "insert_item C x st = (let B = data st ! 0; i = std_lower_bound B (ikey x) in
     if i < length B \<and> ikey (B ! i) = ikey x \<and> ivalue (B ! i) = ivalue x then Inr st
     else if length B < 127
     then Inr (set_level 6 (insert_at B i x) st\<lparr>used_levels := (if used_levels st = 6 then 7 else used_levels st)\<rparr>)
     else bindE (choose_level st 7 128) (\<lambda>(t, n). pairwise_logarithmic_merge C x (t - 1) n i (prepared C st t)))"
proof -
  have "get_level st 6 = Inr (data st ! 0)" using assms by (simp add: get_level_def dpgm_consts)
  then show ?thesis
    by (simp add: insert_item_def first_level_max_size_def Let_def min_level_def prepared_def add_level_def
        cong: if_cong)
qed

lemma insert_overflow:
  assumes wf: "dpgm_wf C st" and new: "\<not> deleted x" and full: "length (data st ! 0) = 127"
    and miss: "\<not> (let i = std_lower_bound (data st ! 0) (ikey x) in i < length (data st ! 0)
        \<and> ikey (data st ! 0 ! i) = ikey x \<and> ivalue (data st ! 0 ! i) = ivalue x)"
    and ch: "choose_level st 7 128 = Inr (t, n)" and t: "t = used_levels st \<or> data st ! (t - 6) = []"
  shows "\<exists>st'. insert_item C x st = Inr st' \<and> merges_to C (prepared C st t) t x st'
    \<and> dpgm_wf C (prepared C st t) \<and> 7 \<le> t \<and> t < used_levels (prepared C st t) \<and> data (prepared C st t) ! (t - 6) = []
    \<and> data (prepared C st t) ! 0 = data st ! 0 \<and> n = 128 + sum_list (map length (between st 7 t))
    \<and> between (prepared C st t) 7 t = between st 7 t"
proof -
  note w = dpgm_wfD [OF wf]
  have used: "7 \<le> used_levels st" using w full by (cases "used_levels st = 6") (auto simp: nth_Cons')
  from choose_level_ok [OF wf _ used, of 128] ch
  have n: "n = 128 + sum_list (map length (between st 7 t))" "7 \<le> t" "t \<le> used_levels st" by auto
  let ?p = "prepared C st t"
  have p: "dpgm_wf C ?p" using wf add_level_wf by (auto simp: prepared_def)
  have l: "t < used_levels ?p" "data ?p ! (t - 6) = []" "data ?p ! 0 = data st ! 0"
    using n(3) t data_top [OF wf] w by (auto simp: prepared_def nth_append)
  have b: "between ?p 7 t = between st 7 t"
    using n(3) w by (auto simp: prepared_def intro!: between_add_level)
  obtain st' where st': "pairwise_logarithmic_merge C x (t - 1) n (std_lower_bound (data st ! 0) (ikey x)) ?p = Inr st'"
    "merges_to C ?p t x st'"
    using pairwise_run [OF p n(2) l(1,2) _ new, of n] full l(3) b n(1) by auto
  have "insert_item C x st = Inr st'"
    unfolding insert_item_eq [OF wf_data [OF wf]] Let_def using miss full ch st'(1) by (simp only: Let_def) simp
  with st' p l b n show ?thesis by blast
qed

lemma insert_refines:
  assumes wf: "dpgm_wf C st" and new: "\<not> deleted x" and room: "length (data st ! 0) < 127 \<or> target_empty st"
  shows "\<exists>st'. insert_item C x st = Inr st' \<and> dpgm_wf C st'
    \<and> (\<forall>k. level_find (dpgm_items st') k = (if k = ikey x then Some x else level_find (dpgm_items st) k))"
proof -
  let ?B = "data st ! 0"
  let ?i = "std_lower_bound ?B (ikey x)"
  let ?dup = "?i < length ?B \<and> ikey (?B ! ?i) = ikey x \<and> ivalue (?B ! ?i) = ivalue x"
  consider (dup) ?dup | (buf) "\<not> ?dup" "length ?B < 127" | (full) "\<not> ?dup" "length ?B = 127" "target_empty st"
    using room dpgm_wfD [OF wf] by linarith
  then show ?thesis
  proof cases
    case dup
    then have "level_find (dpgm_items st) (ikey x) = Some x"
      using found_in_buffer [OF wf refl, of "ikey x"] same_item [OF wf new, of ?i] by simp
    moreover have "insert_item C x st = Inr st" using dup by (simp add: insert_item_eq [OF wf_data [OF wf]] Let_def)
    ultimately show ?thesis using wf by auto
  next
    case buf
    then have "insert_item C x st = Inr (set_level 6 (insert_at ?B ?i x) st
        \<lparr>used_levels := (if used_levels st = 6 then 7 else used_levels st)\<rparr>)"
      unfolding insert_item_eq [OF wf_data [OF wf]] Let_def by (simp only: if_False if_True)
    then show ?thesis using buffer_insert(1,2) [OF wf new buf(2)] by blast
  next
    case full
    then obtain t n where ch: "choose_level st 7 128 = Inr (t, n)" "t = used_levels st \<or> data st ! (t - 6) = []"
      by (auto simp: target_empty_def split: sum.splits)
    have "\<not> (let i = ?i in i < length ?B \<and> ikey (?B ! i) = ikey x \<and> ivalue (?B ! i) = ivalue x)"
      using full(1) by (simp add: Let_def)
    from insert_overflow [OF wf new full(2) this ch] obtain st' where
      st': "insert_item C x st = Inr st'" "merges_to C (prepared C st t) t x st'" "dpgm_wf C (prepared C st t)"
        "7 \<le> t" "t < used_levels (prepared C st t)" "data (prepared C st t) ! (t - 6) = []" by blast
    have "dpgm_items (prepared C st t) = dpgm_items st" by (simp add: prepared_def)
    then show ?thesis
      using st'(1) merges_to_wf(1) [OF st'(3-6) new st'(2)] merges_to_find [OF st'(3-6) new st'(2)] by auto
  qed
qed

subsection \<open>The binary counter\<close>

definition dpgm_counter :: "'p dpgm \<Rightarrow> bool" where
  "dpgm_counter st \<longleftrightarrow>
     (\<forall>l \<in> {7..<used_levels st - 1}. data st ! (l - 6) = [] \<or> length (data st ! (l - 6)) = 2 ^ l)
     \<and> (8 \<le> used_levels st \<longrightarrow> 2 ^ (used_levels st - 2) \<le> length (data st ! (used_levels st - 7))
          \<and> length (data st ! (used_levels st - 7)) \<le> 2 ^ (used_levels st - 1))"

definition dpgm_inv :: "'p pgm_class \<Rightarrow> 'p dpgm \<Rightarrow> bool" where
  "dpgm_inv C st \<longleftrightarrow> dpgm_wf C st \<and> dpgm_counter st \<and> distinct (map ikey (dpgm_items st))"

lemma slots_left_le: "length xs \<le> 2 ^ i \<Longrightarrow> i < 64 \<Longrightarrow> slots_left i xs = 2 ^ i - length xs"
proof -
  assume a: "length xs \<le> 2 ^ i" "i < 64"
  have "(2::int) ^ i < 2 ^ 64" using a(2) by (intro power_strict_increasing) simp_all
  moreover have "int (length xs) \<le> 2 ^ i" using a(1) by (metis of_nat_le_iff of_nat_numeral of_nat_power)
  ultimately have "(2 ^ i - int (length xs)) mod 2 ^ 64 = 2 ^ i - int (length xs)"
    by (intro mod_pos_pos_trivial) linarith+
  then show ?thesis using a(1) by (simp add: slots_left_def nat_diff_distrib nat_power_eq)
qed

lemma choose_counter:
  assumes wf: "dpgm_wf C st" and c: "dpgm_counter st" and u: "used_levels st \<le> 63" and i: "7 \<le> i" "i \<le> used_levels st"
  shows "\<exists>t n. choose_level st i (2 ^ i) = Inr (t, n) \<and> (t < used_levels st \<longrightarrow> data st ! (t - 6) = [] \<and> t + 1 < used_levels st \<and> n = 2 ^ t)
     \<and> (t = used_levels st \<longrightarrow> 2 ^ (used_levels st - 1) \<le> n \<and> n \<le> 2 ^ used_levels st)"
  using i
proof (induction "used_levels st - i" arbitrary: i)
  case 0
  then have "choose_level st i (2 ^ i) = Inr (used_levels st, 2 ^ used_levels st)" by (subst choose_level.simps) simp
  then show ?case by simp
next
  case (Suc d)
  then have i: "i < used_levels st" by simp
  let ?L = "data st ! (i - 6)"
  have gl: "get_level st i = Inr ?L" using get_level_wf [OF wf, of i] Suc.prems(1) i by simp
  have step: "choose_level st i (2 ^ i) = (if 2 ^ i \<le> slots_left i ?L then Inr (i, 2 ^ i)
      else choose_level st (Suc i) (2 ^ i + length ?L))"
    using i gl by (subst choose_level.simps) simp
  consider "i + 1 < used_levels st" "?L = []" | "i + 1 < used_levels st" "length ?L = 2 ^ i" | "i + 1 = used_levels st"
    using c i Suc.prems(1) by (force simp: dpgm_counter_def)
  then show ?case
  proof cases
    case 1
    then have "slots_left i ?L = 2 ^ i" using slots_left_le [of ?L i] u by simp
    then show ?thesis using step 1 by auto
  next
    case 2
    then have "slots_left i ?L = 0" using slots_left_le [of ?L i] u by simp
    then have "choose_level st i (2 ^ i) = choose_level st (Suc i) (2 ^ Suc i)" using step 2 by (simp add: mult_2)
    moreover have "d = used_levels st - Suc i" "7 \<le> Suc i" "Suc i \<le> used_levels st" using Suc.hyps(2) Suc.prems(1) i by simp_all
    ultimately show ?thesis using Suc.hyps(1) [of "Suc i"] by presburger
  next
    case 3
    then have u': "used_levels st = Suc i" by simp
    then have L: "2 ^ (i - 1) \<le> length ?L" "length ?L \<le> 2 ^ i" using c Suc.prems(1) by (auto simp: dpgm_counter_def)
    then have "0 < length ?L" by (metis gr0I less_le_trans not_less0 zero_less_numeral zero_less_power)
    then have "slots_left i ?L < 2 ^ i" using slots_left_le [OF L(2)] u u' by simp
    then have "choose_level st i (2 ^ i) = choose_level st (Suc i) (2 ^ i + length ?L)" using step by simp
    also have "\<dots> = Inr (used_levels st, 2 ^ i + length ?L)" using u' by (subst choose_level.simps) simp
    finally show ?thesis using L(2) u' by simp
  qed
qed

lemma level_length: "dpgm_wf C st \<Longrightarrow> j < length (data st) \<Longrightarrow> length (data st ! j) \<le> length (dpgm_items st)"
proof -
  assume a: "j < length (data st)"
  have "length (data st ! j) \<le> sum_list (map length (data st))"
    using a by (intro member_le_sum_list) simp_all
  then show ?thesis by (simp add: dpgm_items_def length_concat)
qed

lemma counter_levels:
  assumes wf: "dpgm_wf C st" and c: "dpgm_counter st" and small: "length (dpgm_items st) < 2 ^ 60"
  shows "used_levels st \<le> 61"
proof (rule ccontr)
  assume "\<not> ?thesis"
  then have u: "62 \<le> used_levels st" by simp
  then have "2 ^ (used_levels st - 2) \<le> length (data st ! (used_levels st - 7))" using c by (simp add: dpgm_counter_def)
  moreover have "used_levels st - 7 < length (data st)" using dpgm_wfD [OF wf] u by linarith
  then have "length (data st ! (used_levels st - 7)) \<le> length (dpgm_items st)" by (rule level_length [OF wf])
  moreover have "(2::nat) ^ 60 \<le> 2 ^ (used_levels st - 2)" using u by (intro power_increasing) simp_all
  ultimately show False using small by linarith
qed

lemma counterI:
  assumes "\<And>l. 7 \<le> l \<Longrightarrow> l + 1 < used_levels st \<Longrightarrow> data st ! (l - 6) = [] \<or> length (data st ! (l - 6)) = 2 ^ l"
    and "8 \<le> used_levels st \<Longrightarrow> 2 ^ (used_levels st - 2) \<le> length (data st ! (used_levels st - 7))
          \<and> length (data st ! (used_levels st - 7)) \<le> 2 ^ (used_levels st - 1)"
  shows "dpgm_counter st"
  unfolding dpgm_counter_def
proof (intro conjI ballI)
  show "data st ! (l - 6) = [] \<or> length (data st ! (l - 6)) = 2 ^ l" if "l \<in> {7..<used_levels st - 1}" for l
    using that by (intro assms(1)) auto
qed (use assms(2) in simp)

text \<open>After a merge into level \<open>t\<close> the levels are again the digits of a counter.\<close>

lemma counter_merged:
  assumes wf: "dpgm_wf C st" and c: "dpgm_counter st" and p: "p = prepared C st t" "dpgm_wf C p"
    and t: "7 \<le> t" "t < used_levels p" "data p ! (t - 6) = []" and new: "\<not> deleted x" and m: "merges_to C p t x st'"
    and n: "length (merged p t x) = n"
    and inner: "t < used_levels st \<longrightarrow> t + 1 < used_levels st \<and> n = 2 ^ t"
    and top: "t = used_levels st \<longrightarrow> 2 ^ (used_levels st - 1) \<le> n \<and> n \<le> 2 ^ used_levels st"
  shows "dpgm_counter st'"
proof (rule counterI)
  note frame = merges_to_wf(2-5) [OF p(2) t new m]
  have u: "used_levels st' = used_levels p" using m by (simp add: merges_to_def)
  have lenp: "used_levels p \<le> 6 + length (data p)" using dpgm_wfD [OF p(2)] by simp
  have nth_p: "data p ! j = data st ! j" if "j < length (data st)" for j
    using that p(1) by (simp add: prepared_def nth_append)
  have len: "used_levels st \<le> 6 + length (data st)" using dpgm_wfD [OF wf] by simp
  show "data st' ! (l - 6) = [] \<or> length (data st' ! (l - 6)) = 2 ^ l" if l: "7 \<le> l" "l + 1 < used_levels st'" for l
  proof -
    consider "l < t" | "l = t" | "t < l" by linarith
    then show ?thesis
    proof cases
      case 1
      then have "l - 6 < t - 6" using l(1) by simp
      then show ?thesis using frame(3) by simp
    next
      case 2
      then have "t < used_levels st" using l(2) u p(1) by (auto simp: prepared_def split: if_splits)
      then show ?thesis using inner n frame(2) 2 by simp
    next
      case 3
      then have ts: "t < used_levels st" "p = st" using l(2) u p(1) by (auto simp: prepared_def split: if_splits)
      have "data st' ! (l - 6) = data st ! (l - 6)"
        using frame(4) [of "l - 6"] 3 l t(1) u len ts(2) by simp
      then show ?thesis using c l u ts(2) by (simp add: dpgm_counter_def)
    qed
  qed
  show "2 ^ (used_levels st' - 2) \<le> length (data st' ! (used_levels st' - 7))
      \<and> length (data st' ! (used_levels st' - 7)) \<le> 2 ^ (used_levels st' - 1)" if "8 \<le> used_levels st'"
  proof (cases "t = used_levels st")
    case True
    then have "used_levels st' = Suc t" using u p(1) by (simp add: prepared_def)
    moreover from this have "used_levels st' - 7 = t - 6" using t(1) by simp
    ultimately show ?thesis using frame(2) n top True by simp
  next
    case False
    then have ts: "p = st" "t < used_levels st" using t(2) p(1) by (auto simp: prepared_def)
    have "t - 6 < used_levels st - 7" using inner ts(2) t(1) by linarith
    moreover have "used_levels st - 7 < length (data st)" using len that u unfolding ts(1) by linarith
    ultimately have "data st' ! (used_levels st' - 7) = data st ! (used_levels st - 7)"
      using frame(4) [of "used_levels st - 7"] u ts(1) by simp
    then show ?thesis using c that u ts(1) by (simp add: dpgm_counter_def)
  qed
qed

lemma counter_buffer:
  assumes wf: "dpgm_wf C st" and c: "dpgm_counter st"
  shows "dpgm_counter (set_level 6 xs st\<lparr>used_levels := (if used_levels st = 6 then 7 else used_levels st)\<rparr>)"
    (is "dpgm_counter ?st")
proof (rule counterI)
  have nth: "data ?st ! j = data st ! j" if "0 < j" for j using that by (simp add: set_level_def dpgm_consts)
  show "data ?st ! (l - 6) = [] \<or> length (data ?st ! (l - 6)) = 2 ^ l" if "7 \<le> l" "l + 1 < used_levels ?st" for l
    using that c nth [of "l - 6"] by (auto simp: dpgm_counter_def split: if_splits)
  show "2 ^ (used_levels ?st - 2) \<le> length (data ?st ! (used_levels ?st - 7))
      \<and> length (data ?st ! (used_levels ?st - 7)) \<le> 2 ^ (used_levels ?st - 1)" if "8 \<le> used_levels ?st"
    using that c nth [of "used_levels ?st - 7"] by (auto simp: dpgm_counter_def split: if_splits)
qed

text \<open>A key that is not in the index is inserted without failure.\<close>

lemma insert_fresh:
  assumes inv: "dpgm_inv C st" and new: "\<not> deleted x" "ikey x \<notin> keys_of (dpgm_items st)"
    and small: "length (dpgm_items st) < 2 ^ 60"
  shows "\<exists>st'. insert_item C x st = Inr st' \<and> dpgm_inv C st' \<and> mset (dpgm_items st') = add_mset x (mset (dpgm_items st))
    \<and> (\<forall>k. level_find (dpgm_items st') k = (if k = ikey x then Some x else level_find (dpgm_items st) k))"
proof -
  have wf: "dpgm_wf C st" and c: "dpgm_counter st" and dist: "distinct (map ikey (x # dpgm_items st))"
    using inv new(2) by (auto simp: dpgm_inv_def)
  have dist': "distinct (map ikey (dpgm_items st'))" if "mset (dpgm_items st') = add_mset x (mset (dpgm_items st))" for st' :: "'a dpgm"
  proof -
    have "mset (map ikey (dpgm_items st')) = mset (map ikey (x # dpgm_items st))" using that by simp
    then show ?thesis using dist mset_eq_imp_distinct_iff by blast
  qed
  let ?B = "data st ! 0"
  let ?i = "std_lower_bound ?B (ikey x)"
  have miss: "\<not> (?i < length ?B \<and> ikey (?B ! ?i) = ikey x \<and> ivalue (?B ! ?i) = ivalue x)"
    using found_in_buffer [OF wf refl, of "ikey x"] new(2) level_find_None [of "dpgm_items st" "ikey x"] by auto
  show ?thesis
  proof (cases "length ?B < 127")
    case True
    let ?st' = "set_level 6 (insert_at ?B ?i x) st\<lparr>used_levels := (if used_levels st = 6 then 7 else used_levels st)\<rparr>"
    have "insert_item C x st = Inr ?st'"
      unfolding insert_item_eq [OF wf_data [OF wf]] Let_def using miss True by (simp only: if_False if_True)
    moreover note buffer_insert [OF wf new(1) True] counter_buffer [OF wf c, of "insert_at ?B ?i x"]
    ultimately show ?thesis using dist' [of ?st'] unfolding dpgm_inv_def by blast
  next
    case False
    then have full: "length ?B = 127" using dpgm_wfD [OF wf] by simp
    then have used: "7 \<le> used_levels st" using dpgm_wfD [OF wf] by (cases "used_levels st = 6") (auto simp: nth_Cons')
    have u63: "used_levels st \<le> 63" using counter_levels [OF wf c small] by simp
    from choose_counter [OF wf c u63 _ used] obtain t n where ch: "choose_level st 7 128 = Inr (t, n)"
      and t: "t < used_levels st \<longrightarrow> data st ! (t - 6) = [] \<and> t + 1 < used_levels st \<and> n = 2 ^ t"
        "t = used_levels st \<longrightarrow> 2 ^ (used_levels st - 1) \<le> n \<and> n \<le> 2 ^ used_levels st" by auto
    have "t \<le> used_levels st" using choose_level_ok [OF wf _ used, of 128] ch by auto
    then have te: "t = used_levels st \<or> data st ! (t - 6) = []" using t(1) by linarith
    define p where "p = prepared C st t"
    have miss': "\<not> (let i = ?i in i < length ?B \<and> ikey (?B ! i) = ikey x \<and> ivalue (?B ! i) = ivalue x)"
      using miss unfolding Let_def .
    from insert_overflow [OF wf new(1) full miss' ch te, folded p_def] obtain st' where
      st': "insert_item C x st = Inr st'" "merges_to C p t x st'" "dpgm_wf C p" "7 \<le> t" "t < used_levels p"
        "data p ! (t - 6) = []" "data p ! 0 = ?B" "n = 128 + sum_list (map length (between p 7 t))" by auto
    have it: "dpgm_items p = dpgm_items st" by (simp add: p_def prepared_def)
    have "length (data p ! 0) = 127" "distinct (map ikey (x # dpgm_items p))" using st'(7) full it dist by simp_all
    note ms = merges_to_mset [OF st'(3-6) this(1) st'(2) this(2)]
    have "dpgm_counter st'"
      using counter_merged [OF wf c p_def st'(3-6) new(1) st'(2)] ms(2) st'(8) t by simp
    with st'(1) merges_to_wf(1) [OF st'(3-6) new(1) st'(2)] merges_to_find [OF st'(3-6) new(1) st'(2)]
      ms(1) dist' [of st'] it show ?thesis by (auto simp: dpgm_inv_def)
  qed
qed

end
