(* ===== verification/Dpgm_Find.thy ===== *)
theory Dpgm_Find
  imports Dpgm_Index
begin

text \<open>
  The lookup of the dynamic PGM index returns the newest item of the key, if it is not a tombstone.
  The windows of the static indexes are a hypothesis on the parameter \<open>pgm_class\<close>: the
  position returned for a key of the level lies between \<open>lo\<close> and \<open>hi\<close>.
\<close>

definition window_ok :: "'p pgm_class \<Rightarrow> level \<Rightarrow> u64 \<Rightarrow> bool" where
  "window_ok C xs key = (case find_approximate_position C (pgm_build C xs) key of (pos, lo, hi) \<Rightarrow>
     lo \<le> pos \<and> pos \<le> hi \<and> hi \<le> length xs
     \<and> (key \<in> keys_of xs \<longrightarrow> lo \<le> std_lower_bound xs key \<and> std_lower_bound xs key \<le> hi))"

text \<open>The part of the invariant that reading needs; it allows tombstones.\<close>

definition dpgm_readable :: "'p pgm_class \<Rightarrow> 'p dpgm \<Rightarrow> bool" where
  "dpgm_readable C st \<longleftrightarrow> used_levels st \<le> 6 + length (data st) \<and> (\<forall>xs\<in>set (data st). level_sorted xs)
     \<and> (\<forall>j. used_levels st - 6 \<le> j \<and> j < length (data st) \<longrightarrow> data st ! j = [])
     \<and> used_levels st - 18 \<le> length (pgm st)
     \<and> (\<forall>l. 18 \<le> l \<and> l < used_levels st \<and> data st ! (l - 6) \<noteq> []
          \<longrightarrow> pgm st ! (l - 18) = pgm_build C (data st ! (l - 6)))"

lemma dpgm_wf_readable: "dpgm_wf C st \<Longrightarrow> dpgm_readable C st"
  by (auto simp: dpgm_wf_def dpgm_readable_def)

definition windows_ok :: "'p pgm_class \<Rightarrow> 'p dpgm \<Rightarrow> u64 \<Rightarrow> bool" where
  "windows_ok C st key \<longleftrightarrow> (\<forall>l\<in>{18..<used_levels st}. data st ! (l - 6) \<noteq> [] \<longrightarrow> window_ok C (data st ! (l - 6)) key)"

definition item_at :: "'p dpgm \<Rightarrow> position \<Rightarrow> pgm_item option" where
  "item_at st pos = map_option (\<lambda>(i, j). data st ! (i - 6) ! j) pos"

definition valid_position :: "'p dpgm \<Rightarrow> position \<Rightarrow> bool" where
  "valid_position st pos = (case pos of None \<Rightarrow> True
     | Some (i, j) \<Rightarrow> 6 \<le> i \<and> i < used_levels st \<and> j < length (data st ! (i - 6)))"

definition if_live :: "pgm_item option \<Rightarrow> pgm_item option" where
  "if_live r = (case r of None \<Rightarrow> None | Some x \<Rightarrow> if deleted x then None else Some x)"

lemma if_live_simps [simp]: "if_live None = None" "if_live (Some x) = (if deleted x then None else Some x)"
  by (simp_all add: if_live_def)

text \<open>The search in one level: a position that holds the key exactly when the level does, and then the first one.\<close>

lemma level_position_ok:
  assumes r: "dpgm_readable C st" and S: "search_class S U" and i: "6 \<le> i" "i < used_levels st"
    and ne: "data st ! (i - 6) \<noteq> []" and w: "windows_ok C st key" and small: "length (data st ! (i - 6)) < 2 ^ 53"
  shows "\<exists>it. level_position C S st i (data st ! (i - 6)) key = Inr it \<and>
    (if it < length (data st ! (i - 6)) \<and> ikey (data st ! (i - 6) ! it) = key
     then Some (data st ! (i - 6) ! it) else None) = level_find (data st ! (i - 6)) key"
proof -
  let ?xs = "data st ! (i - 6)"
  let ?f = "\<lambda>j. ikey (?xs ! nat j)"
  have "i - 6 < length (data st)" using r i by (auto simp: dpgm_readable_def)
  then have s: "level_sorted ?xs" using r by (simp add: dpgm_readable_def)
  note find = level_find_at [OF s, of key]
  show ?thesis
  proof (cases "i < 18")
    case True
    then show ?thesis using find by (simp add: level_position_def dpgm_consts Let_def)
  next
    case False
    have p: "get_pgm st i = Inr (pgm_build C ?xs)" using r i False ne by (auto simp: dpgm_readable_def get_pgm_def dpgm_consts)
    obtain pos lo hi where fa: "find_approximate_position C (pgm_build C ?xs) key = (pos, lo, hi)" by (metis prod_cases3)
    have "window_ok C ?xs key" using w ne False i by (simp add: windows_ok_def)
    then have wk: "lo \<le> pos" "pos \<le> hi" "hi \<le> length ?xs"
      "key \<in> keys_of ?xs \<Longrightarrow> lo \<le> std_lower_bound ?xs key \<and> std_lower_bound ?xs key \<le> hi"
      by (simp_all add: window_ok_def fa)
    have readable: "readable (vec_at ikey ?xs) ?f (int lo) (int hi)"
      using readable_mono [OF readable_vec_at [of ikey ?xs], of "int lo" "int hi"] wk by simp
    have sorted: "sorted_range ?f 0 (int (length ?xs))"
      using s by (intro sorted_range_vec) (simp add: level_sorted_def)
    then have sorted': "sorted_range ?f (int lo) (int hi)" using wk by (auto intro: sorted_range_mono)
    have small': "int hi - int lo < 2 ^ 53" using small wk(3) by simp
    obtain j where j: "S (int lo) (int hi) key (int pos) (vec_at ikey ?xs) (<) = Some j" "is_lower_bound ?f (int lo) (int hi) key j"
      using search_class.lower_spec [OF S _ _ small' readable sorted', of "int pos" key] wk by auto
    have lp: "level_position C S st i ?xs key = Inr (nat j)"
      using False p fa j(1) by (simp add: level_position_def dpgm_consts)
    show ?thesis
    proof (cases "key \<in> keys_of ?xs")
      case True
      have "S (int lo) (int hi) key (int pos) (vec_at ikey ?xs) (<) = Some (int (std_lower_bound ?xs key))"
        using search_class.lower_window [OF S _ _ _ _ small' readable_vec_at sorted is_lower_bound_std [OF s]] wk True by simp
      then show ?thesis using lp j(1) find by (simp add: Let_def)
    next
      case False
      then have "level_find ?xs key = None" by (simp add: level_find_None)
      moreover have "\<not> (nat j < length ?xs \<and> ikey (?xs ! nat j) = key)" using False by force
      ultimately show ?thesis using lp by simp
    qed
  qed
qed

lemma find_from_ok:
  assumes r: "dpgm_readable C st" and S: "search_class S U" and w: "windows_ok C st key"
    and small: "length (dpgm_items st) < 2 ^ 53" and i: "6 \<le> i"
  shows "\<exists>pos. find_from C S st key i = Inr pos \<and> valid_position st pos
    \<and> item_at st pos = if_live (level_find (concat (drop (i - 6) (take (used_levels st - 6) (data st)))) key)"
  using i
proof (induction "used_levels st - i" arbitrary: i)
  case 0
  then show ?case by (subst find_from.simps) (simp add: valid_position_def item_at_def)
next
  case (Suc d)
  then have i: "i < used_levels st" by simp
  let ?xs = "data st ! (i - 6)"
  have len: "i - 6 < length (data st)" using r i Suc.prems by (auto simp: dpgm_readable_def)
  have gl: "get_level st i = Inr ?xs" using Suc.prems len by (simp add: get_level_def dpgm_consts)
  have "length ?xs \<le> sum_list (map length (data st))" using len by (intro member_le_sum_list) simp_all
  then have small': "length ?xs < 2 ^ 53" using small by (simp add: dpgm_items_def length_concat)
  define rest where "rest = concat (drop (Suc i - 6) (take (used_levels st - 6) (data st)))"
  have "d = used_levels st - Suc i" "6 \<le> Suc i" using Suc.hyps(2) Suc.prems by simp_all
  from Suc.hyps(1) [OF this] obtain pos where pos: "find_from C S st key (Suc i) = Inr pos" "valid_position st pos"
    "item_at st pos = if_live (level_find rest key)" by (auto simp: rest_def)
  have "Suc (i - 6) = Suc i - 6" "i - 6 < length (take (used_levels st - 6) (data st))" using len i Suc.prems by auto
  then have "drop (i - 6) (take (used_levels st - 6) (data st)) = ?xs # drop (Suc i - 6) (take (used_levels st - 6) (data st))"
    by (metis Cons_nth_drop_Suc nth_take length_take min_less_iff_conj)
  then have split: "level_find (concat (drop (i - 6) (take (used_levels st - 6) (data st)))) key
      = (case level_find ?xs key of Some x \<Rightarrow> Some x | None \<Rightarrow> level_find rest key)"
    by (simp only: concat.simps level_find_append rest_def)
  show ?case
  proof (cases "?xs = []")
    case True
    then have "find_from C S st key i = Inr pos" using pos i gl by (subst find_from.simps) simp
    then show ?thesis using pos split True by simp
  next
    case False
    obtain it where it: "level_position C S st i ?xs key = Inr it"
      "(if it < length ?xs \<and> ikey (?xs ! it) = key then Some (?xs ! it) else None) = level_find ?xs key"
      using level_position_ok [OF r S Suc.prems i False w small'] by blast
    show ?thesis
    proof (cases "it < length ?xs \<and> ikey (?xs ! it) = key")
      case True
      then have "find_from C S st key i = Inr (if deleted (?xs ! it) then None else Some (i, it))"
        using gl False it(1) i by (subst find_from.simps) simp
      moreover have "level_find ?xs key = Some (?xs ! it)" using it(2) True by simp
      ultimately show ?thesis using split i Suc.prems True by (simp add: item_at_def valid_position_def)
    next
      case neq: False
      then have "level_find ?xs key = None" using it(2) by (metis (full_types))
      moreover have "find_from C S st key i = Inr pos"
        using gl False it(1) i neq pos(1) by (subst find_from.simps) auto
      ultimately show ?thesis using split pos by simp
    qed
  qed
qed

lemma used_items:
  assumes "dpgm_readable C st"
  shows "concat (take (used_levels st - 6) (data st)) = dpgm_items st"
proof -
  have "\<forall>xs\<in>set (drop (used_levels st - 6) (data st)). xs = []"
    using assms by (auto simp: dpgm_readable_def in_set_conv_nth)
  then have "concat (drop (used_levels st - 6) (data st)) = []" by simp
  then show ?thesis unfolding dpgm_items_def by (metis append_take_drop_id append_Nil2 concat_append)
qed

lemma dpgm_find_ok:
  assumes "dpgm_readable C st" "search_class S U" "windows_ok C st key" "length (dpgm_items st) < 2 ^ 53"
  shows "\<exists>pos. dpgm_find C S st key = Inr pos \<and> valid_position st pos
    \<and> item_at st pos = if_live (level_find (dpgm_items st) key)"
  using find_from_ok [OF assms, of 6] used_items [OF assms(1)] by (simp add: dpgm_find_def min_level_def)

lemma dpgm_EqualityLookup_ok:
  assumes "dpgm_readable C st" "search_class S U" "windows_ok C st key" "length (dpgm_items st) < 2 ^ 53"
  shows "dpgm_EqualityLookup C S st key = Inr (case dpgm_map st key of None \<Rightarrow> OVERFLOW | Some v \<Rightarrow> v)"
proof -
  obtain pos where "dpgm_find C S st key = Inr pos" "item_at st pos = if_live (level_find (dpgm_items st) key)"
    using dpgm_find_ok [OF assms] by blast
  then show ?thesis
    by (auto simp: dpgm_EqualityLookup_def dpgm_map_def live_value_def item_at_def if_live_def min_level_def
        split: option.splits if_splits prod.splits)
qed

subsection \<open>Erasing\<close>

text \<open>An item that goes into the buffer hides the older items of its key, a tombstone too.\<close>

lemma buffer_insert_readable:
  assumes wf: "dpgm_readable C st" "6 \<le> used_levels st" "data st \<noteq> []" and room: "length (data st ! 0) < 127"
    and miss: "\<not> (let i = std_lower_bound (data st ! 0) (ikey x) in i < length (data st ! 0)
        \<and> ikey (data st ! 0 ! i) = ikey x \<and> ivalue (data st ! 0 ! i) = ivalue x)"
  shows "\<exists>st'. insert_item C x st = Inr st' \<and> dpgm_readable C st' \<and> 6 \<le> used_levels st' \<and> data st' \<noteq> []
    \<and> (\<forall>k. level_find (dpgm_items st') k = (if k = ikey x then Some x else level_find (dpgm_items st) k))
    \<and> mset (dpgm_items st') = add_mset x (mset (dpgm_items st))
    \<and> (\<forall>l>6. data st' ! (l - 6) = data st ! (l - 6)) \<and> used_levels st' = max 7 (used_levels st)"
proof -
  obtain B R where d: "data st = B # R" using wf(3) by (cases "data st") auto
  let ?i = "std_lower_bound B (ikey x)"
  define st' where "st' = set_level 6 (insert_at B ?i x) st\<lparr>used_levels := (if used_levels st = 6 then 7 else used_levels st)\<rparr>"
  have B: "level_sorted B" using wf(1) d by (simp add: dpgm_readable_def)
  have d': "data st' = insert_at B ?i x # R" "pgm st' = pgm st" by (simp_all add: st'_def set_level_def dpgm_consts d)
  have nth: "data st' ! j = data st ! j" if "0 < j" for j using that by (cases j) (simp_all add: d d')
  have u: "used_levels st' = max 7 (used_levels st)" using wf(2) by (auto simp: st'_def)
  have "insert_item C x st = Inr st'"
    unfolding insert_item_eq [OF wf(3)] using room miss unfolding Let_def st'_def
    by (simp only: d nth_Cons_0 if_True if_False)
  moreover have "dpgm_readable C st'"
  proof -
    have "data st' ! j = []" if "used_levels st' - 6 \<le> j" "j < length (data st)" for j
    proof -
      have "0 < j" "used_levels st - 6 \<le> j" using that(1) u wf(2) by linarith+
      then show ?thesis using nth [of j] that(2) wf(1) by (simp add: dpgm_readable_def)
    qed
    moreover have "pgm st' ! (l - 18) = pgm_build C (data st' ! (l - 6))"
      if "18 \<le> l" "l < used_levels st'" "data st' ! (l - 6) \<noteq> []" for l
      using that wf(1) nth [of "l - 6"] d'(2) u by (auto simp: dpgm_readable_def max_def split: if_splits)
    moreover have "used_levels st' \<le> 6 + length (data st)" "used_levels st' - 18 \<le> length (pgm st)"
      using wf(1) u by (auto simp: dpgm_readable_def d)
    moreover have "\<forall>xs\<in>set R. level_sorted xs" using wf(1) by (simp add: dpgm_readable_def d)
    ultimately show ?thesis using wf d d' insert_at_sorted [OF B, of x] by (auto simp: dpgm_readable_def [of C st'])
  qed
  moreover have "level_find (dpgm_items st') k = (if k = ikey x then Some x else level_find (dpgm_items st) k)" for k
    using insert_at_find [OF B, of x k] by (simp add: dpgm_items_def d d' level_find_append split: option.splits)
  moreover have "mset (dpgm_items st') = add_mset x (mset (dpgm_items st))"
    by (simp add: dpgm_items_def d d' mset_insert_at)
  moreover have "\<forall>l>6. data st' ! (l - 6) = data st ! (l - 6)" using nth by simp
  ultimately show ?thesis using u d' by auto
qed

end
