(* ===== verification/Dpgm_Iter.thy ===== *)
theory Dpgm_Iter
  imports Dpgm_Find
begin

text \<open>
  Ordered access to the dynamic PGM index: \<open>lower_bound\<close>, the iterator that merges the levels
  through a priority queue, and \<open>DynamicPGM::RangeQuery\<close>. A range query returns the sum over all
  items of the range, whichever levels they are in.
\<close>

subsection \<open>The iterator\<close>

type_synonym queue_pair = "nat \<times> nat"    \<comment> \<open>the level and the offset of an internal iterator\<close>

record dpgm_iterator =
  it_pos :: position
  it_level :: nat
  initial_pairs :: "queue_pair list"
  it_queue :: "queue_pair list"

definition deref :: "'p dpgm \<Rightarrow> queue_pair \<Rightarrow> pgm_item" where
  "deref st e = (case e of (l, off) \<Rightarrow> data st ! (l - min_level) ! off)"

definition end_iterator :: dpgm_iterator where
  "end_iterator = \<lparr>it_pos = None, it_level = 255, initial_pairs = [], it_queue = []\<rparr>"

definition queue_cmp :: "'p dpgm \<Rightarrow> queue_pair \<Rightarrow> queue_pair \<Rightarrow> bool" where
  "queue_cmp st e1 e2 \<longleftrightarrow> ikey (deref st e1) > ikey (deref st e2)
     \<or> (ikey (deref st e1) = ikey (deref st e2) \<and> fst e1 > fst e2)"

text \<open>
  \<open>std::priority_queue\<close> as the list of its elements from the top on: an element goes before
  those that \<open>queue_cmp\<close> puts after it.
\<close>

fun emplace :: "'p dpgm \<Rightarrow> queue_pair \<Rightarrow> queue_pair list \<Rightarrow> queue_pair list" where
  "emplace st e [] = [e]"
| "emplace st e (f # q) = (if queue_cmp st f e then e # f # q else f # emplace st e q)"

definition make_queue :: "'p dpgm \<Rightarrow> queue_pair list \<Rightarrow> queue_pair list" where
  "make_queue st ps = foldr (emplace st) ps []"

definition advance_queue :: "'p dpgm \<Rightarrow> dpgm_iterator \<Rightarrow> dpgm_error + dpgm_iterator" where
  "advance_queue st it = (case it_queue it of
       [] \<Rightarrow> Inr end_iterator
     | (from_level, off) # q \<Rightarrow>
         bindE (get_level st from_level) (\<lambda>xs.
         let q' = (if off + 1 \<noteq> length xs then emplace st (from_level, off + 1) q else q) in
         Inr (it\<lparr>it_pos := Some (from_level, off), it_queue := q'\<rparr>)))"

text \<open>The loops that step an internal iterator over items that are too small, or deleted.\<close>

definition skip_less :: "level \<Rightarrow> u64 \<Rightarrow> nat \<Rightarrow> nat" where
  "skip_less xs key off = off + length (takeWhile (\<lambda>x. ikey x < key) (drop off xs))"

definition skip_deleted :: "level \<Rightarrow> nat \<Rightarrow> nat" where
  "skip_deleted xs off = off + length (takeWhile deleted (drop off xs))"

function position_levels ::
  "'p pgm_class \<Rightarrow> u64 search_fn \<Rightarrow> 'p dpgm \<Rightarrow> u64 \<Rightarrow> nat \<Rightarrow> queue_pair list \<Rightarrow> dpgm_error + queue_pair list" where
  "position_levels C SearchClass st key i pairs =
     (if i < used_levels st then
        bindE (get_level st i) (\<lambda>xs.
        if xs = [] then position_levels C SearchClass st key (i + 1) pairs
        else bindE (level_position C SearchClass st i xs key) (\<lambda>pos.
             let pos = skip_less xs key pos in
             position_levels C SearchClass st key (i + 1) (if pos \<noteq> length xs then pairs @ [(i, pos)] else pairs)))
      else Inr pairs)"
  by pat_completeness auto
termination by (relation "measure (\<lambda>(C, S, st, k, i, ps). used_levels st - i)") auto

declare position_levels.simps [simp del]

definition lazy_initialize_queue :: "'p pgm_class \<Rightarrow> u64 search_fn \<Rightarrow> 'p dpgm \<Rightarrow> dpgm_iterator \<Rightarrow> dpgm_error + dpgm_iterator" where
  "lazy_initialize_queue C SearchClass st it =
     (if it_level it = 255 then Inr it
      else case it_pos it of
        None \<Rightarrow> Inl OUT_OF_BOUNDS
      | Some e \<Rightarrow>
          bindE (position_levels C SearchClass st (ikey (deref st e)) (it_level it) (initial_pairs it)) (\<lambda>pairs.
          bindE (advance_queue st (it\<lparr>initial_pairs := pairs, it_queue := make_queue st pairs\<rparr>)) (\<lambda>it.
          Inr (it\<lparr>it_level := 255\<rparr>))))"

definition dpgm_next :: "'p pgm_class \<Rightarrow> u64 search_fn \<Rightarrow> 'p dpgm \<Rightarrow> dpgm_iterator \<Rightarrow> dpgm_error + dpgm_iterator" where
  "dpgm_next C SearchClass st it = bindE (lazy_initialize_queue C SearchClass st it) (advance_queue st)"

text \<open>The iterator that \<open>find\<close> returns.\<close>

definition find_iterator :: "position \<Rightarrow> dpgm_iterator" where
  "find_iterator pos = (case pos of None \<Rightarrow> end_iterator
     | Some e \<Rightarrow> \<lparr>it_pos = Some e, it_level = 0, initial_pairs = [], it_queue = []\<rparr>)"

subsection \<open>\<open>lower_bound\<close> and the range query\<close>

function lower_bound_from ::
  "'p pgm_class \<Rightarrow> u64 search_fn \<Rightarrow> 'p dpgm \<Rightarrow> u64 \<Rightarrow> nat \<Rightarrow> queue_pair list \<Rightarrow> position
   \<Rightarrow> dpgm_error + (queue_pair list \<times> position)" where
  "lower_bound_from C SearchClass st key i pairs lo =
     (if i < used_levels st then
        bindE (get_level st i) (\<lambda>xs.
        if xs = [] then lower_bound_from C SearchClass st key (i + 1) pairs lo
        else bindE (level_position C SearchClass st i xs key) (\<lambda>pos.
             let it = (if i < MinIndexedLevel then skip_deleted xs pos else skip_less xs key pos) in
             if it \<noteq> length xs
             then lower_bound_from C SearchClass st key (i + 1) (pairs @ [(i, it)])
                    (case lo of None \<Rightarrow> Some (i, it)
                     | Some e \<Rightarrow> if ikey (xs ! it) < ikey (deref st e) then Some (i, it) else lo)
             else lower_bound_from C SearchClass st key (i + 1) pairs lo))
      else Inr (pairs, lo))"
  by pat_completeness auto
termination by (relation "measure (\<lambda>(C, S, st, k, i, ps, lo). used_levels st - i)") auto

declare lower_bound_from.simps [simp del]

definition dpgm_lower_bound :: "'p pgm_class \<Rightarrow> u64 search_fn \<Rightarrow> 'p dpgm \<Rightarrow> u64 \<Rightarrow> dpgm_error + dpgm_iterator" where
  "dpgm_lower_bound C SearchClass st key =
     bindE (lower_bound_from C SearchClass st key min_level [] None) (\<lambda>(pairs, lo).
     Inr (case lo of None \<Rightarrow> end_iterator
          | Some e \<Rightarrow> \<lparr>it_pos = Some e, it_level = used_levels st, initial_pairs = pairs, it_queue = []\<rparr>))"

partial_function (option) dpgm_range_loop ::
  "'p pgm_class \<Rightarrow> u64 search_fn \<Rightarrow> 'p dpgm \<Rightarrow> u64 \<Rightarrow> dpgm_iterator \<Rightarrow> u64 \<Rightarrow> (dpgm_error + u64) option" where
  "dpgm_range_loop C SearchClass st upper_key it result =
     (case it_pos it of
        None \<Rightarrow> Some (Inr result)
      | Some e \<Rightarrow>
          if \<not> ikey (deref st e) \<le> upper_key then Some (Inr result)
          else case dpgm_next C SearchClass st it of
                 Inl err \<Rightarrow> Some (Inl err)
               | Inr it' \<Rightarrow> dpgm_range_loop C SearchClass st upper_key it' (result + ivalue (deref st e)))"

definition dpgm_RangeQuery :: "'p pgm_class \<Rightarrow> u64 search_fn \<Rightarrow> 'p dpgm \<Rightarrow> u64 \<Rightarrow> u64 \<Rightarrow> (dpgm_error + u64) option" where
  "dpgm_RangeQuery C SearchClass st lower_key upper_key =
     (case dpgm_lower_bound C SearchClass st lower_key of
        Inl err \<Rightarrow> Some (Inl err)
      | Inr it \<Rightarrow> dpgm_range_loop C SearchClass st upper_key it 0)"

end
