(* ===== verification/Dpgm_Range.thy ===== *)
theory Dpgm_Range
  imports Dpgm_Iter
begin

text \<open>
  The priority queue of the iterator keeps its elements ordered, so that an advance yields the
  smallest remaining item; a range query is the sum over the items of the range.
\<close>

subsection \<open>The queue\<close>

definition in_level :: "'p dpgm \<Rightarrow> queue_pair \<Rightarrow> bool" where
  "in_level st e \<longleftrightarrow> (case e of (l, off) \<Rightarrow> 6 \<le> l \<and> l - 6 < length (data st) \<and> off < length (data st ! (l - 6)))"

definition queue_ok :: "'p dpgm \<Rightarrow> queue_pair list \<Rightarrow> bool" where
  "queue_ok st q \<longleftrightarrow> sorted_wrt (\<lambda>e f. \<not> queue_cmp st e f) q \<and> (\<forall>e\<in>set q. in_level st e)"

text \<open>The items an internal iterator still has to yield.\<close>

definition suffix_at :: "'p dpgm \<Rightarrow> queue_pair \<Rightarrow> level" where
  "suffix_at st e = (case e of (l, off) \<Rightarrow> drop off (data st ! (l - 6)))"

definition remaining :: "'p dpgm \<Rightarrow> queue_pair list \<Rightarrow> pgm_item multiset" where
  "remaining st q = sum_list (map (\<lambda>e. mset (suffix_at st e)) q)"

lemma remaining_simps [simp]:
  "remaining st [] = {#}" "remaining st (e # q) = mset (suffix_at st e) + remaining st q"
  "remaining st (p @ q) = remaining st p + remaining st q"
  by (simp_all add: remaining_def)

lemma queue_cmp_trans: "\<not> queue_cmp st e f \<Longrightarrow> \<not> queue_cmp st f g \<Longrightarrow> \<not> queue_cmp st e g"
  unfolding queue_cmp_def by force

lemma queue_cmp_asym: "queue_cmp st e f \<Longrightarrow> \<not> queue_cmp st f e"
  unfolding queue_cmp_def by force

lemma set_emplace [simp]: "set (emplace st e q) = insert e (set q)"
  by (induction q) auto

lemma mset_emplace [simp]: "mset (emplace st e q) = add_mset e (mset q)"
  by (induction q) auto

lemma remaining_mset: "mset p = mset q \<Longrightarrow> remaining st p = remaining st q"
proof -
  have "remaining st r = sum_mset (image_mset (\<lambda>e. mset (suffix_at st e)) (mset r))" for r
    by (induction r) simp_all
  then show "mset p = mset q \<Longrightarrow> remaining st p = remaining st q" by (simp only:)
qed

lemma remaining_emplace [simp]: "remaining st (emplace st e q) = mset (suffix_at st e) + remaining st q"
  using remaining_mset [of "emplace st e q" "e # q" st] by simp

lemma emplace_ok: "queue_ok st q \<Longrightarrow> in_level st e \<Longrightarrow> queue_ok st (emplace st e q)"
proof (induction q)
  case (Cons f q)
  show ?case
  proof (cases "queue_cmp st f e")
    case True
    then have "\<not> queue_cmp st e g" if "g \<in> set (f # q)" for g
      using Cons.prems that queue_cmp_asym [OF True] queue_cmp_trans [of st e f g] by (auto simp: queue_ok_def)
    then show ?thesis using True Cons.prems by (simp add: queue_ok_def)
  next
    case False
    then show ?thesis using Cons by (auto simp: queue_ok_def)
  qed
qed (simp add: queue_ok_def)

lemma make_queue_ok: "\<forall>e\<in>set ps. in_level st e \<Longrightarrow> queue_ok st (make_queue st ps) \<and> mset (make_queue st ps) = mset ps"
  by (induction ps) (simp_all add: make_queue_def queue_ok_def emplace_ok [unfolded queue_ok_def])

definition levels_sorted :: "'p dpgm \<Rightarrow> bool" where
  "levels_sorted st \<longleftrightarrow> (\<forall>xs\<in>set (data st). level_sorted xs)"

lemma level_suffix:
  assumes "levels_sorted st" "in_level st e"
  shows "suffix_at st e = deref st e # (case e of (l, off) \<Rightarrow> suffix_at st (l, Suc off))"
    and "\<forall>x\<in>set (suffix_at st e). ikey (deref st e) \<le> ikey x"
proof -
  obtain l off where e: "e = (l, off)" by fastforce
  then have l: "l - 6 < length (data st)" "off < length (data st ! (l - 6))" using assms(2) by (auto simp: in_level_def)
  then have d: "drop off (data st ! (l - 6)) = data st ! (l - 6) ! off # drop (Suc off) (data st ! (l - 6))"
    by (simp add: Cons_nth_drop_Suc)
  then show "suffix_at st e = deref st e # (case e of (l, off) \<Rightarrow> suffix_at st (l, Suc off))"
    by (simp add: suffix_at_def deref_def e min_level_def)
  have "level_sorted (data st ! (l - 6))" using assms(1) l(1) by (simp add: levels_sorted_def)
  then have "sorted (map ikey (drop off (data st ! (l - 6))))"
    unfolding level_sorted_def drop_map [symmetric] by (rule sorted_wrt_drop)
  then show "\<forall>x\<in>set (suffix_at st e). ikey (deref st e) \<le> ikey x"
    unfolding d suffix_at_def deref_def e by (auto simp: d min_level_def)
qed

lemma remaining_elem: "x \<in># remaining st q \<Longrightarrow> \<exists>e\<in>set q. x \<in> set (suffix_at st e)"
  by (induction q) auto

lemma queue_head_least:
  assumes "levels_sorted st" "queue_ok st (e # q)" "x \<in># remaining st (e # q)"
  shows "ikey (deref st e) \<le> ikey x"
proof -
  obtain f where f: "f \<in> set (e # q)" "x \<in> set (suffix_at st f)"
    using assms(3) remaining_elem [of x st "e # q"] by blast
  have "\<not> queue_cmp st e f \<or> e = f" using assms(2) f(1) by (auto simp: queue_ok_def)
  then have "ikey (deref st e) \<le> ikey (deref st f)" by (auto simp: queue_cmp_def)
  also have "\<dots> \<le> ikey x" using level_suffix(2) [OF assms(1), of f] assms(2) f by (auto simp: queue_ok_def)
  finally show ?thesis .
qed

subsection \<open>Advancing\<close>

text \<open>An iterator over the items \<open>M\<close>: it stands on the smallest one and its queue holds the others.\<close>

definition iterates :: "'p dpgm \<Rightarrow> dpgm_iterator \<Rightarrow> pgm_item multiset \<Rightarrow> bool" where
  "iterates st it M \<longleftrightarrow> it_level it = 255 \<and> (case it_pos it of None \<Rightarrow> M = {#}
     | Some e \<Rightarrow> queue_ok st (it_queue it) \<and> M = add_mset (deref st e) (remaining st (it_queue it))
         \<and> (\<forall>x\<in>#M. ikey (deref st e) \<le> ikey x))"

lemma advance_queue_ok:
  assumes s: "levels_sorted st" and q: "queue_ok st (it_queue it)"
  shows "\<exists>it'. advance_queue st it = Inr it' \<and> iterates st (it'\<lparr>it_level := 255\<rparr>) (remaining st (it_queue it))
    \<and> it_level it' \<in> {255, it_level it} \<and> it_pos it' = (case it_queue it of [] \<Rightarrow> None | e # _ \<Rightarrow> Some e)"
proof (cases "it_queue it")
  case Nil
  then show ?thesis by (simp add: advance_queue_def iterates_def end_iterator_def)
next
  case (Cons e q')
  obtain lv off where e: "e = (lv, off)" by fastforce
  let ?xs = "data st ! (lv - 6)"
  have in_e: "in_level st (lv, off)" and q'_ok: "queue_ok st q'" using q Cons e by (auto simp: queue_ok_def)
  then have gl: "get_level st lv = Inr ?xs" by (simp add: in_level_def get_level_def dpgm_consts)
  define nq where "nq = (if off + 1 \<noteq> length ?xs then emplace st (lv, off + 1) q' else q')"
  have "queue_ok st nq" using q'_ok in_e by (auto simp: nq_def in_level_def intro!: emplace_ok)
  moreover have rem: "remaining st (it_queue it) = add_mset (deref st e) (remaining st nq)"
    using level_suffix(1) [OF s in_e] Cons e by (auto simp: nq_def) (simp add: suffix_at_def)
  moreover have "\<forall>x\<in>#remaining st (it_queue it). ikey (deref st e) \<le> ikey x"
    using queue_head_least [OF s, of e q'] q Cons by auto
  ultimately show ?thesis using gl Cons e by (simp add: advance_queue_def iterates_def nq_def Let_def)
qed

lemma set_level_255: "it_level it = 255 \<Longrightarrow> it\<lparr>it_level := 255\<rparr> = it"
  by (cases it) simp

lemma dpgm_next_ok:
  assumes "levels_sorted st" "iterates st it M" "it_pos it = Some e"
  shows "\<exists>it'. dpgm_next C S st it = Inr it' \<and> iterates st it' (M - {#deref st e#})"
proof -
  have it: "it_level it = 255" "queue_ok st (it_queue it)" "M = add_mset (deref st e) (remaining st (it_queue it))"
    using assms(2,3) by (auto simp: iterates_def)
  obtain it' where "advance_queue st it = Inr it'" "iterates st (it'\<lparr>it_level := 255\<rparr>) (remaining st (it_queue it))"
    "it_level it' = 255" using advance_queue_ok [OF assms(1) it(2)] it(1) by auto
  then show ?thesis using it by (simp add: dpgm_next_def lazy_initialize_queue_def set_level_255)
qed

definition sum_upto :: "u64 \<Rightarrow> pgm_item multiset \<Rightarrow> u64" where
  "sum_upto hi M = sum_mset (image_mset ivalue (filter_mset (\<lambda>x. ikey x \<le> hi) M))"

lemma sum_upto_none: "\<forall>x\<in>#M. hi < ikey x \<Longrightarrow> sum_upto hi M = 0"
proof -
  assume "\<forall>x\<in>#M. hi < ikey x"
  then have "filter_mset (\<lambda>x. ikey x \<le> hi) M = {#}" by (induction M) auto
  then show ?thesis unfolding sum_upto_def by (simp only: image_mset_empty sum_mset.empty)
qed

lemma range_loop_step:
  assumes "it_pos it = Some e" "ikey (deref st e) \<le> hi" "dpgm_next C S st it = Inr it'"
  shows "dpgm_range_loop C S st hi it acc = dpgm_range_loop C S st hi it' (acc + ivalue (deref st e))"
  using assms by (subst dpgm_range_loop.simps) simp

lemma dpgm_range_loop_ok:
  assumes "levels_sorted st" "iterates st it M"
  shows "dpgm_range_loop C S st hi it acc = Some (Inr (acc + sum_upto hi M))"
  using assms(2)
proof (induction "size M" arbitrary: it M acc)
  case 0
  then have "it_pos it = None" by (auto simp: iterates_def split: option.splits)
  then show ?case using 0 by (subst dpgm_range_loop.simps) (simp add: sum_upto_def)
next
  case (Suc n)
  then obtain e where e: "it_pos it = Some e" by (cases "it_pos it") (auto simp: iterates_def)
  have M: "deref st e \<in># M" "\<forall>x\<in>#M. ikey (deref st e) \<le> ikey x" using Suc.prems e by (auto simp: iterates_def)
  show ?case
  proof (cases "ikey (deref st e) \<le> hi")
    case True
    obtain it' where it': "dpgm_next C S st it = Inr it'" "iterates st it' (M - {#deref st e#})"
      using dpgm_next_ok [OF assms(1) Suc.prems e] by blast
    have "n = size (M - {#deref st e#})" using Suc.hyps(2) M(1) by (simp add: size_Diff_singleton)
    note IH = Suc.hyps(1) [OF this it'(2)]
    obtain N where N: "M = add_mset (deref st e) N" using M(1) by (metis insert_DiffM)
    show ?thesis using range_loop_step [OF e True it'(1)] IH True by (simp add: N sum_upto_def ac_simps)
  next
    case False
    then have "\<forall>x\<in>#M. hi < ikey x" using M(2) by force
    then show ?thesis using False e by (subst dpgm_range_loop.simps) (simp add: sum_upto_none)
  qed
qed

subsection \<open>\<open>lower_bound\<close>\<close>

text \<open>
  What the static index promises of a window: it never begins behind the first item that is not
  smaller than the key, and the window of a key of the level has this item, at its end at the latest.
  It may end before the place of a key that is absent; the loops that skip smaller items step over the
  rest.
\<close>

definition window_encloses :: "'p pgm_class \<Rightarrow> level \<Rightarrow> u64 \<Rightarrow> bool" where
  "window_encloses C xs key = (case find_approximate_position C (pgm_build C xs) key of (pos, lo, hi) \<Rightarrow>
     lo \<le> pos \<and> pos \<le> hi \<and> hi \<le> length xs \<and> lo \<le> std_lower_bound xs key
     \<and> (key \<in> keys_of xs \<longrightarrow> std_lower_bound xs key \<le> hi))"

definition windows_enclose :: "'p pgm_class \<Rightarrow> 'p dpgm \<Rightarrow> u64 \<Rightarrow> bool" where
  "windows_enclose C st key \<longleftrightarrow>
     (\<forall>l\<in>{18..<used_levels st}. data st ! (l - 6) \<noteq> [] \<longrightarrow> window_encloses C (data st ! (l - 6)) key)"

lemma windows_enclose_ok: "windows_enclose C st key \<Longrightarrow> windows_ok C st key"
  by (auto simp: windows_enclose_def windows_ok_def window_encloses_def window_ok_def)

text \<open>A search in a window that ends early stops at its end.\<close>

lemma lower_bound_clipped:
  assumes S: "search_class S U" and s: "level_sorted xs" and w: "lo \<le> pos" "pos \<le> hi" "hi \<le> length xs" "lo \<le> std_lower_bound xs key"
    and small: "length xs < 2 ^ 53"
  shows "S (int lo) (int hi) key (int pos) (vec_at ikey xs) (<) = Some (int (min (std_lower_bound xs key) hi))"
proof -
  have "sorted_range (\<lambda>j. ikey (xs ! nat j)) 0 (int (length xs))" using s by (intro sorted_range_vec) (simp add: level_sorted_def)
  from search_class.lower_clipped [OF S _ _ _ _ _ readable_vec_at this is_lower_bound_std [OF s]] w small show ?thesis by simp
qed

lemma skip_none:
  assumes "level_sorted xs" "undeleted xs"
  shows "skip_deleted xs (std_lower_bound xs key) = std_lower_bound xs key"
    "skip_less xs key (std_lower_bound xs key) = std_lower_bound xs key"
proof -
  have "takeWhile deleted (drop j xs) = []" for j
  proof -
    have "\<forall>x\<in>set (drop j xs). \<not> deleted x" using assms(2) by (auto simp: undeleted_def dest: in_set_dropD)
    then show ?thesis by (cases "drop j xs") auto
  qed
  then show "skip_deleted xs (std_lower_bound xs key) = std_lower_bound xs key" by (simp add: skip_deleted_def)
  have "takeWhile (\<lambda>x. ikey x < key) (dropWhile (\<lambda>x. ikey x < key) xs) = []" by (induction xs) auto
  then show "skip_less xs key (std_lower_bound xs key) = std_lower_bound xs key"
    by (simp add: skip_less_def std_lower_bound_drop)
qed

lemma skip_less_min:
  "j \<le> std_lower_bound xs key \<Longrightarrow> skip_less xs key j = std_lower_bound xs key"
proof (induction xs arbitrary: j)
  case (Cons x xs)
  show ?case
  proof (cases j)
    case (Suc i)
    then show ?thesis using Cons.prems Cons.IH [of i] by (auto simp: skip_less_def std_lower_bound_def split: if_splits)
  qed (simp add: skip_less_def std_lower_bound_def)
qed (simp add: skip_less_def std_lower_bound_def)

text \<open>The search in a level and the loop behind it: the first item that is not smaller than the key.\<close>

lemma level_position_skipped:
  assumes r: "dpgm_readable C st" and S: "search_class S U" and i: "6 \<le> i" "i < used_levels st"
    and ne: "data st ! (i - 6) \<noteq> []" and w: "windows_enclose C st key" and small: "length (data st ! (i - 6)) < 2 ^ 53"
    and u: "undeleted (data st ! (i - 6))"
  obtains j where "level_position C S st i (data st ! (i - 6)) key = Inr j"
    "(if i < MinIndexedLevel then skip_deleted (data st ! (i - 6)) j else skip_less (data st ! (i - 6)) key j)
      = std_lower_bound (data st ! (i - 6)) key"
proof -
  let ?xs = "data st ! (i - 6)"
  have "i - 6 < length (data st)" using r i by (auto simp: dpgm_readable_def)
  then have s: "level_sorted ?xs" using r by (simp add: dpgm_readable_def)
  show thesis
  proof (cases "i < 18")
    case True
    then show ?thesis using skip_none(1) [OF s u, of key] by (intro that) (simp_all add: level_position_def dpgm_consts)
  next
    case False
    have p: "get_pgm st i = Inr (pgm_build C ?xs)" using r i False ne by (auto simp: dpgm_readable_def get_pgm_def dpgm_consts)
    obtain pos lo hi where fa: "find_approximate_position C (pgm_build C ?xs) key = (pos, lo, hi)" by (metis prod_cases3)
    have "window_encloses C ?xs key" using w ne False i by (simp add: windows_enclose_def)
    then have wk: "lo \<le> pos" "pos \<le> hi" "hi \<le> length ?xs" "lo \<le> std_lower_bound ?xs key"
      by (simp_all add: window_encloses_def fa)
    have "level_position C S st i ?xs key = Inr (min (std_lower_bound ?xs key) hi)"
      using lower_bound_clipped [OF S s wk small] False p fa by (simp add: level_position_def dpgm_consts)
    then show ?thesis by (rule that) (use False in \<open>simp add: dpgm_consts skip_less_min\<close>)
  qed
qed

lemma suffix_lower_bound:
  "level_sorted xs \<Longrightarrow> drop (std_lower_bound xs key) xs = filter (\<lambda>x. key \<le> ikey x) xs"
proof (induction xs)
  case (Cons x xs)
  have "filter (\<lambda>x. key \<le> ikey x) (x # xs) = x # xs" if "key \<le> ikey x"
    using that Cons.prems by (auto simp: filter_id_conv intro: order_trans)
  with Cons show ?case by (auto simp: std_lower_bound_drop not_less)
qed simp

definition pairs_ok :: "'p dpgm \<Rightarrow> nat \<Rightarrow> queue_pair list \<Rightarrow> position \<Rightarrow> bool" where
  "pairs_ok st i pairs lo \<longleftrightarrow> (\<forall>e\<in>set pairs. in_level st e \<and> fst e < i) \<and> distinct (map fst pairs)
     \<and> (case lo of None \<Rightarrow> pairs = [] | Some e \<Rightarrow> e \<in> set pairs \<and> (\<forall>f\<in>set pairs. \<not> queue_cmp st e f))"

lemma pairs_ok_snoc:
  assumes "pairs_ok st i pairs lo" "in_level st (i, j)"
  shows "pairs_ok st (Suc i) (pairs @ [(i, j)])
    (case lo of None \<Rightarrow> Some (i, j) | Some e \<Rightarrow> if ikey (deref st (i, j)) < ikey (deref st e) then Some (i, j) else lo)"
proof (cases lo)
  case None
  then show ?thesis using assms by (auto simp: pairs_ok_def queue_cmp_def)
next
  case (Some e)
  then have e: "e \<in> set pairs" "\<forall>f\<in>set pairs. \<not> queue_cmp st e f" "fst e < i" using assms(1) by (auto simp: pairs_ok_def)
  have "\<not> queue_cmp st (i, j) f" if "ikey (deref st (i, j)) < ikey (deref st e)" "f \<in> set pairs" for f
    using e(2) that by (auto simp: queue_cmp_def)
  moreover have "\<not> queue_cmp st e (i, j)" if "\<not> ikey (deref st (i, j)) < ikey (deref st e)"
    using that e(3) by (auto simp: queue_cmp_def)
  moreover have "\<not> queue_cmp st (i, j) (i, j)" by (simp add: queue_cmp_def)
  ultimately show ?thesis using assms Some e by (auto simp: pairs_ok_def less_Suc_eq)
qed

lemma pairs_ok_mono: "pairs_ok st i pairs lo \<Longrightarrow> pairs_ok st (Suc i) pairs lo"
  by (auto simp: pairs_ok_def less_Suc_eq)

lemma lower_bound_from_ok:
  assumes wf: "dpgm_wf C st" and S: "search_class S U" and w: "windows_enclose C st key"
    and small: "length (dpgm_items st) < 2 ^ 53" and "6 \<le> i" "pairs_ok st i pairs lo"
  shows "\<exists>pairs' lo'. lower_bound_from C S st key i pairs lo = Inr (pairs', lo') \<and> pairs_ok st (max i (used_levels st)) pairs' lo'
    \<and> remaining st pairs' = remaining st pairs
        + mset (filter (\<lambda>x. key \<le> ikey x) (concat (drop (i - 6) (take (used_levels st - 6) (data st)))))"
  using assms(5,6)
proof (induction "used_levels st - i" arbitrary: i pairs lo)
  case 0
  then show ?case by (subst lower_bound_from.simps) (simp add: max_absorb1)
next
  case (Suc d)
  note r = dpgm_wf_readable [OF wf]
  have i: "i < used_levels st" using Suc.hyps(2) by simp
  let ?xs = "data st ! (i - 6)"
  let ?lb = "std_lower_bound ?xs key"
  have len: "i - 6 < length (data st)" using r i Suc.prems by (auto simp: dpgm_readable_def)
  have gl: "get_level st i = Inr ?xs" using Suc.prems len by (simp add: get_level_def dpgm_consts)
  have sorted: "level_sorted ?xs" "undeleted ?xs" using dpgm_wfD [OF wf] len by auto
  have "length ?xs < 2 ^ 53" using level_length [OF wf len] small by simp
  note lp = level_position_skipped [OF r S Suc.prems(1) i _ w this sorted(2)]
  have hyp: "d = used_levels st - Suc i" "6 \<le> Suc i" using Suc.hyps(2) Suc.prems by simp_all
  note IH = Suc.hyps(1) [OF hyp]
  have mx: "max (Suc i) (used_levels st) = max i (used_levels st)" using i by simp
  define rest where "rest = filter (\<lambda>x. key \<le> ikey x) (concat (drop (Suc i - 6) (take (used_levels st - 6) (data st))))"
  have "Suc (i - 6) = Suc i - 6" "i - 6 < length (take (used_levels st - 6) (data st))" using len i Suc.prems by auto
  then have "drop (i - 6) (take (used_levels st - 6) (data st)) = ?xs # drop (Suc i - 6) (take (used_levels st - 6) (data st))"
    by (metis Cons_nth_drop_Suc nth_take length_take min_less_iff_conj)
  then have split: "filter (\<lambda>x. key \<le> ikey x) (concat (drop (i - 6) (take (used_levels st - 6) (data st)))) = drop ?lb ?xs @ rest"
    by (simp only: concat.simps filter_append rest_def suffix_lower_bound [OF sorted(1)])
  show ?case
  proof (cases "?lb < length ?xs")
    case True
    then have ne: "?xs \<noteq> []" "(?lb \<noteq> length ?xs) = True" by auto
    let ?lo = "case lo of None \<Rightarrow> Some (i, ?lb) | Some e \<Rightarrow> if ikey (deref st (i, ?lb)) < ikey (deref st e) then Some (i, ?lb) else lo"
    have d: "deref st (i, ?lb) = ?xs ! ?lb" by (simp add: deref_def min_level_def)
    obtain j where j: "level_position C S st i ?xs key = Inr j"
      "(if i < MinIndexedLevel then skip_deleted ?xs j else skip_less ?xs key j) = ?lb" by (rule lp [OF ne(1)])
    have "lower_bound_from C S st key i pairs lo = lower_bound_from C S st key (i + 1) (pairs @ [(i, ?lb)]) ?lo"
      by (subst lower_bound_from.simps) (simp only: i gl ne j d bindE_simps Let_def if_True if_False)
    moreover have "in_level st (i, ?lb)" using True len Suc.prems(1) by (simp add: in_level_def)
    note IH [OF pairs_ok_snoc [OF Suc.prems(2) this], unfolded rest_def [symmetric] mx]
    moreover have "suffix_at st (i, ?lb) = drop ?lb ?xs" by (simp add: suffix_at_def)
    ultimately show ?thesis unfolding split by (simp add: ac_simps)
  next
    case False
    then have lb: "(?lb \<noteq> length ?xs) = False" "drop ?lb ?xs = []" using std_lower_bound_le [of ?xs key] by simp_all
    have "lower_bound_from C S st key i pairs lo = lower_bound_from C S st key (i + 1) pairs lo"
    proof (cases "?xs = []")
      case True
      then show ?thesis by (subst lower_bound_from.simps) (simp only: i gl bindE_simps if_True simp_thms)
    next
      case ne: False
      obtain j where j: "level_position C S st i ?xs key = Inr j"
        "(if i < MinIndexedLevel then skip_deleted ?xs j else skip_less ?xs key j) = ?lb" by (rule lp [OF ne])
      then show ?thesis
        by (subst lower_bound_from.simps) (simp only: i gl ne j lb bindE_simps Let_def if_True if_False)
    qed
    with IH [OF pairs_ok_mono [OF Suc.prems(2)], unfolded rest_def [symmetric] mx] show ?thesis
      unfolding split lb(2) by simp
  qed
qed

subsection \<open>The range query\<close>

lemma queue_least_unique:
  assumes "queue_ok st q" "e \<in> set q" "\<forall>f\<in>set q. \<not> queue_cmp st e f" "distinct (map fst q)"
  shows "\<exists>q'. q = e # q'"
proof (cases q)
  case (Cons f q')
  have "f = e"
  proof (rule ccontr)
    assume "f \<noteq> e"
    then have "e \<in> set q'" using assms(2) Cons by simp
    then have "\<not> queue_cmp st f e" "fst f \<noteq> fst e" using assms(1,4) Cons by (auto simp: queue_ok_def image_iff)
    moreover have "\<not> queue_cmp st e f" using assms(3) Cons by simp
    ultimately show False by (auto simp: queue_cmp_def)
  qed
  with Cons show ?thesis by simp
qed (use assms(2) in simp)

text \<open>The first increment of an iterator from \<open>lower_bound\<close> pops the item it stands on.\<close>

lemma first_next:
  assumes s: "levels_sorted st" and p: "pairs_ok st (used_levels st) pairs (Some e)" and u: "used_levels st \<noteq> 255"
  shows "\<exists>it'. dpgm_next C S st \<lparr>it_pos = Some e, it_level = used_levels st, initial_pairs = pairs, it_queue = []\<rparr> = Inr it'
    \<and> iterates st it' (remaining st pairs - {#deref st e#}) \<and> deref st e \<in># remaining st pairs
    \<and> (\<forall>x\<in>#remaining st pairs. ikey (deref st e) \<le> ikey x)"
proof -
  let ?it = "\<lparr>it_pos = Some e, it_level = used_levels st, initial_pairs = pairs, it_queue = make_queue st pairs\<rparr>"
  have q: "queue_ok st (make_queue st pairs)" "mset (make_queue st pairs) = mset pairs"
    using make_queue_ok [of pairs st] p by (auto simp: pairs_ok_def)
  have "distinct (map fst (make_queue st pairs))"
    using p q(2) by (metis distinct_map mset_eq_imp_distinct_iff mset_eq_setD pairs_ok_def)
  moreover have "e \<in> set (make_queue st pairs)" "\<forall>f\<in>set (make_queue st pairs). \<not> queue_cmp st e f"
    using p mset_eq_setD [OF q(2)] by (auto simp: pairs_ok_def)
  ultimately obtain q' where q': "make_queue st pairs = e # q'" using queue_least_unique [OF q(1)] by blast
  have rem: "remaining st pairs = remaining st (e # q')" using remaining_mset [OF q(2), of st] unfolding q' by (rule sym)
  have "\<exists>it'. advance_queue st ?it = Inr it' \<and> iterates st (it'\<lparr>it_level := 255\<rparr>) (remaining st (it_queue ?it))
    \<and> it_level it' \<in> {255, it_level ?it} \<and> it_pos it' = (case it_queue ?it of [] \<Rightarrow> None | e # _ \<Rightarrow> Some e)"
    by (rule advance_queue_ok [OF s]) (use q in simp)
  then obtain it1 where it1: "advance_queue st ?it = Inr it1" "iterates st (it1\<lparr>it_level := 255\<rparr>) (remaining st pairs)"
    "it_pos it1 = Some e" using q' rem by auto
  have "queue_ok st (it_queue (it1\<lparr>it_level := 255\<rparr>))" using it1 by (simp add: iterates_def)
  from advance_queue_ok [OF s this] obtain it2 where
    it2: "advance_queue st (it1\<lparr>it_level := 255\<rparr>) = Inr it2" "iterates st (it2\<lparr>it_level := 255\<rparr>) (remaining st (it_queue it1))"
      "it_level it2 = 255" by auto
  have "position_levels C S st (ikey (deref st e)) (used_levels st) pairs = Inr pairs" by (subst position_levels.simps) simp
  then have "dpgm_next C S st \<lparr>it_pos = Some e, it_level = used_levels st, initial_pairs = pairs, it_queue = []\<rparr> = Inr it2"
    using it1(1) it2(1) u by (simp add: dpgm_next_def lazy_initialize_queue_def)
  moreover have "remaining st pairs = add_mset (deref st e) (remaining st (it_queue it1))"
    "\<forall>x\<in>#remaining st pairs. ikey (deref st e) \<le> ikey x" using it1(2,3) by (simp_all add: iterates_def)
  ultimately show ?thesis using it2(2,3) by (simp add: set_level_255)
qed

lemma sum_upto_add: "ikey x \<le> hi \<Longrightarrow> sum_upto hi (add_mset x M) = ivalue x + sum_upto hi M"
  by (simp add: sum_upto_def)

lemma dpgm_RangeQuery_ok:
  assumes wf: "dpgm_wf C st" and S: "search_class S U" and w: "windows_enclose C st lo"
    and small: "length (dpgm_items st) < 2 ^ 53" and u: "used_levels st \<noteq> 255"
  shows "dpgm_RangeQuery C S st lo hi
    = Some (Inr (sum_list (map ivalue (filter (\<lambda>x. lo \<le> ikey x \<and> ikey x \<le> hi) (dpgm_items st)))))"
proof -
  have s: "levels_sorted st" using dpgm_wfD [OF wf] by (simp add: levels_sorted_def)
  have u6: "max 6 (used_levels st) = used_levels st" using dpgm_wfD [OF wf] by simp
  have "pairs_ok st 6 [] None" by (simp add: pairs_ok_def)
  from lower_bound_from_ok [OF wf S w small _ this] used_items [OF dpgm_wf_readable [OF wf]]
  obtain pairs p where lb: "lower_bound_from C S st lo min_level [] None = Inr (pairs, p)" "pairs_ok st (used_levels st) pairs p"
    and rem: "remaining st pairs = mset (filter (\<lambda>x. lo \<le> ikey x) (dpgm_items st))" by (auto simp: u6 min_level_def)
  have total: "sum_upto hi (remaining st pairs) = sum_list (map ivalue (filter (\<lambda>x. lo \<le> ikey x \<and> ikey x \<le> hi) (dpgm_items st)))"
    unfolding rem sum_upto_def by (simp flip: mset_filter sum_mset_sum_list mset_map add: conj_commute)
  show ?thesis
  proof (cases p)
    case None
    then have "remaining st pairs = {#}" using lb(2) by (simp add: pairs_ok_def)
    then have "dpgm_RangeQuery C S st lo hi = Some (Inr (sum_upto hi (remaining st pairs)))"
      using lb(1) None by (simp add: dpgm_RangeQuery_def dpgm_lower_bound_def end_iterator_def dpgm_range_loop.simps sum_upto_def)
    then show ?thesis by (simp only: total)
  next
    case (Some e)
    let ?it = "\<lparr>it_pos = Some e, it_level = used_levels st, initial_pairs = pairs, it_queue = []\<rparr>"
    have rq: "dpgm_RangeQuery C S st lo hi = dpgm_range_loop C S st hi ?it 0"
      using lb(1) Some by (simp add: dpgm_RangeQuery_def dpgm_lower_bound_def)
    obtain it' where it': "dpgm_next C S st ?it = Inr it'" "iterates st it' (remaining st pairs - {#deref st e#})"
      "deref st e \<in># remaining st pairs" "\<forall>x\<in>#remaining st pairs. ikey (deref st e) \<le> ikey x"
      using first_next [OF s lb(2) [unfolded Some] u] by blast
    have "dpgm_range_loop C S st hi ?it 0 = Some (Inr (sum_upto hi (remaining st pairs)))"
    proof (cases "ikey (deref st e) \<le> hi")
      case True
      obtain N where N: "remaining st pairs = add_mset (deref st e) N" using it'(3) by (metis insert_DiffM)
      show ?thesis
        using range_loop_step [of ?it e st hi C S it' 0] it'(1,2) True dpgm_range_loop_ok [OF s, of it' N C S hi]
        by (simp add: N sum_upto_add)
    next
      case False
      then have "\<forall>x\<in>#remaining st pairs. hi < ikey x" using it'(4) by force
      then show ?thesis using False by (subst dpgm_range_loop.simps) (simp add: sum_upto_none)
    qed
    then show ?thesis using rq total by simp
  qed
qed

end
