(* ===== verification/Dpgm_Props.thy ===== *)
theory Dpgm_Props
  imports Dpgm_Range Index_Base Linear_Search Binary_Search Exponential_Search Interpolation_Search
begin

text \<open>
  The properties of the dynamic PGM index: construction, insertion, lookup and range query, on the
  interpretation of the contract of a bounded index, and the inputs on which the code fails.
\<close>

subsection \<open>The contract\<close>

definition dpgm_lookup :: "'p pgm_class \<Rightarrow> u64 search_fn \<Rightarrow> u64 \<Rightarrow> 'p dpgm \<Rightarrow> dpgm_error + u64 option" where
  "dpgm_lookup C S k st = bindE (dpgm_find C S st k) (\<lambda>pos. Inr (map_option ivalue (item_at st pos)))"

definition windows_sound :: "'p pgm_class \<Rightarrow> bool" where
  "windows_sound C \<longleftrightarrow> (\<forall>xs key. level_sorted xs \<longrightarrow> xs \<noteq> [] \<longrightarrow> window_encloses C xs key)"

definition dpgm_good :: "'p pgm_class \<Rightarrow> 'p dpgm \<Rightarrow> bool" where
  "dpgm_good C st \<longleftrightarrow> dpgm_inv C st \<and> windows_sound C"

lemma windows_sound_enclose:
  assumes "windows_sound C" "dpgm_wf C st"
  shows "windows_enclose C st key"
proof -
  have "level_sorted (data st ! (l - 6))" if "18 \<le> l" "l < used_levels st" for l
    using dpgm_wfD [OF assms(2)] that by auto
  then show ?thesis using assms(1) by (simp add: windows_enclose_def windows_sound_def)
qed

lemma dpgm_map_None:
  assumes "dpgm_wf C st" "dpgm_map st k = None"
  shows "k \<notin> keys_of (dpgm_items st)"
proof -
  have "undeleted (dpgm_items st)" using dpgm_wfD [OF assms(1)] by (auto simp: dpgm_items_def undeleted_def)
  then have "level_find (dpgm_items st) k = None"
    using assms(2) level_find_Some [of "dpgm_items st" k] by (auto simp: dpgm_map_def live_value_def undeleted_def split: option.splits if_splits)
  then show ?thesis by (simp add: level_find_None)
qed

lemma dpgm_lookup_ok:
  assumes "dpgm_readable C st" "search_class S U" "windows_ok C st key" "length (dpgm_items st) < 2 ^ 53"
  shows "dpgm_lookup C S key st = Inr (dpgm_map st key)"
proof -
  obtain pos where "dpgm_find C S st key = Inr pos" "item_at st pos = if_live (level_find (dpgm_items st) key)"
    using dpgm_find_ok [OF assms] by blast
  then show ?thesis
    by (auto simp: dpgm_lookup_def dpgm_map_def live_value_def if_live_def split: option.splits if_splits)
qed

lemma dpgm_map_find:
  assumes "\<forall>k. level_find (dpgm_items st') k = (if k = ikey x then Some x else level_find (dpgm_items st) k)" "\<not> deleted x"
  shows "dpgm_map st' = (dpgm_map st)(ikey x \<mapsto> ivalue x)"
  using assms by (auto simp: dpgm_map_def live_value_def)

definition dpgm_cap :: nat where "dpgm_cap = 2 ^ 53 - 1"

interpretation dpgm_ins: bounded_insert "dpgm_inv C" dpgm_map "\<lambda>st. length (dpgm_items st)" dpgm_cap "dpgm_insert C"
  for C :: "'p pgm_class"
proof unfold_locales
  fix s :: "'p dpgm" and k v :: u64
  assume inv: "dpgm_inv C s" and small: "length (dpgm_items s) < dpgm_cap" and new: "dpgm_map s k = None"
  then have wf: "dpgm_wf C s" by (simp add: dpgm_inv_def)
  have "\<exists>st'. insert_item C (live_item k v) s = Inr st' \<and> dpgm_inv C st'
    \<and> mset (dpgm_items st') = add_mset (live_item k v) (mset (dpgm_items s))
    \<and> (\<forall>j. level_find (dpgm_items st') j = (if j = ikey (live_item k v) then Some (live_item k v) else level_find (dpgm_items s) j))"
    by (rule insert_fresh) (use inv small dpgm_map_None [OF wf new] in \<open>simp_all add: live_item_def dpgm_cap_def\<close>)
  then obtain st' where st': "insert_item C (live_item k v) s = Inr st'" "dpgm_inv C st'"
    "mset (dpgm_items st') = add_mset (live_item k v) (mset (dpgm_items s))"
    "dpgm_map st' = (dpgm_map s)(k \<mapsto> v)" using dpgm_map_find [of _ "live_item k v" s] by (auto simp: live_item_def)
  have "length (dpgm_items st') = Suc (length (dpgm_items s))" using arg_cong [OF st'(3), of size] by simp
  then show "\<exists>s'. dpgm_insert C k v s = Inr s' \<and> dpgm_inv C s' \<and> dpgm_map s' = (dpgm_map s)(k \<mapsto> v)
      \<and> length (dpgm_items s') = Suc (length (dpgm_items s))"
    using st' by (auto simp: dpgm_insert_def)
qed

interpretation dpgm: bounded_index "dpgm_good C" dpgm_map "\<lambda>st. length (dpgm_items st)" dpgm_cap "dpgm_insert C"
  "dpgm_lookup C binary_lower_bound" for C :: "'p pgm_class"
proof unfold_locales
  fix s :: "'p dpgm" and k v :: u64
  assume g: "dpgm_good C s"
  then have wf: "dpgm_wf C s" by (simp add: dpgm_good_def dpgm_inv_def)
  show "dpgm_lookup C binary_lower_bound k s = Inr (dpgm_map s k)" if "length (dpgm_items s) \<le> dpgm_cap"
  proof (rule dpgm_lookup_ok [OF dpgm_wf_readable [OF wf] binary.search_class_axioms])
    show "windows_ok C s k"
      using g windows_sound_enclose [OF _ wf] by (auto simp: dpgm_good_def intro: windows_enclose_ok)
    show "length (dpgm_items s) < 2 ^ 53" using that by (simp add: dpgm_cap_def)
  qed
  show "\<exists>s'. dpgm_insert C k v s = Inr s' \<and> dpgm_good C s' \<and> dpgm_map s' = (dpgm_map s)(k \<mapsto> v)
      \<and> length (dpgm_items s') = Suc (length (dpgm_items s))"
    if "length (dpgm_items s) < dpgm_cap" "dpgm_map s k = None"
    using dpgm_ins.ins_new [of C s k v] g that by (auto simp: dpgm_good_def)
qed

lemma EqualityLookup_lookup:
  "dpgm_EqualityLookup C S st k = bindE (dpgm_lookup C S k st) (\<lambda>r. Inr (case r of None \<Rightarrow> OVERFLOW | Some v \<Rightarrow> v))"
  by (cases "dpgm_find C S st k")
    (auto simp: dpgm_EqualityLookup_def dpgm_lookup_def item_at_def min_level_def split: option.splits)

subsection \<open>A static index for the examples\<close>

text \<open>The window of the whole level, which is sound for every key.\<close>

definition whole_level :: "nat pgm_class" where
  "whole_level = \<lparr>pgm_empty = 0, pgm_build = length, find_approximate_position = (\<lambda>n key. (0, 0, n))\<rparr>"

lemma whole_level_sound: "windows_sound whole_level"
  by (simp add: windows_sound_def window_encloses_def whole_level_def std_lower_bound_le)

lemma initial_good: "windows_sound C \<Longrightarrow> dpgm_good C dpgm_initial"
  by (auto simp: dpgm_good_def dpgm_inv_def dpgm_wf_def dpgm_initial_def dpgm_consts dpgm_counter_def dpgm_items_def)

lemma initial_map: "dpgm_map dpgm_initial = Map.empty"
  by (auto simp: dpgm_map_def dpgm_items_def dpgm_initial_def live_value_def)

lemma initial_items: "dpgm_items dpgm_initial = []"
  by (simp add: dpgm_items_def dpgm_initial_def)

subsection \<open>Construction\<close>

lemma reserve_ok: "16 \<le> used_levels st \<Longrightarrow> length (data st) = used_levels st - 6 \<Longrightarrow> reserve_levels st = Inr st"
  by (simp add: reserve_levels_def get_level_def dpgm_consts upt_rec)


lemma ceil_log2_bounds: "1 \<le> n \<Longrightarrow> n \<le> 2 ^ ceil_log2 n \<and> (2 \<le> n \<longrightarrow> 2 ^ (ceil_log2 n - 1) < n \<and> 1 \<le> ceil_log2 n)"
proof (induction n rule: ceil_log2.induct)
  case (1 n)
  show ?case
  proof (cases "n \<le> 1")
    case True
    then show ?thesis by (simp add: ceil_log2.simps)
  next
    case False
    let ?h = "(n + 1) div 2"
    have e: "ceil_log2 n = Suc (ceil_log2 ?h)" using False by (subst ceil_log2.simps) simp
    have IH: "?h \<le> 2 ^ ceil_log2 ?h" "2 \<le> ?h \<Longrightarrow> 2 ^ (ceil_log2 ?h - 1) < ?h \<and> 1 \<le> ceil_log2 ?h"
      using 1 False by auto
    have "n \<le> 2 * ?h" by simp
    then have "n \<le> 2 ^ ceil_log2 n" using IH(1) e by simp
    moreover have "2 ^ ceil_log2 ?h < n"
    proof (cases "2 \<le> ?h")
      case True
      then obtain m where m: "ceil_log2 ?h = Suc m" "2 ^ m < ?h" using IH(2) by (cases "ceil_log2 ?h") auto
      then have "2 * (2 ^ m) + 2 \<le> 2 * ?h" by simp
      moreover have "2 * ?h \<le> n + 1" by simp
      ultimately show ?thesis using m(1) by simp
    next
      case False
      then have "?h = 1" using \<open>\<not> n \<le> 1\<close> by simp
      then show ?thesis using \<open>\<not> n \<le> 1\<close> by (simp add: ceil_log2.simps)
    qed
    ultimately show ?thesis using e by simp
  qed
qed

lemma construct_ok:
  assumes srt: "sorted (map fst kvs)" and big: "2 ^ 14 < length kvs"
  shows "\<exists>st. dpgm_construct C kvs = Inr st \<and> dpgm_wf C st \<and> dpgm_counter st
    \<and> dpgm_items st = map (\<lambda>(k, v). live_item k v) kvs"
proof -
  let ?n = "length kvs" and ?t = "map (\<lambda>(k, v). live_item k v) kvs"
  define u where "u = ceil_log2 ?n"
  have ub: "?n \<le> 2 ^ u" "2 ^ (u - 1) < ?n" using ceil_log2_bounds [of ?n] big by (simp_all add: u_def)
  have u15: "15 \<le> u"
  proof (rule ccontr)
    assume "\<not> 15 \<le> u"
    then have "(2::nat) ^ u \<le> 2 ^ 14" by (intro power_increasing) simp_all
    then show False using ub(1) big by linarith
  qed
  let ?d = "(replicate (u - 5) [])[u - 6 := ?t]"
  have r: "reserve_levels \<lparr>used_levels = u + 1, data = replicate (u + 1 - 6) [], pgm = []\<rparr>
      = Inr \<lparr>used_levels = u + 1, data = replicate (u - 5) [], pgm = ([] :: 'a list)\<rparr>"
    using u15 by (subst reserve_ok) simp_all
  let ?st = "\<lparr>used_levels = u + 1, data = ?d, pgm = (if u \<ge> 18 then (replicate (u - 17) (pgm_empty C))[u - 18 := pgm_build C ?t] else [])\<rparr>"
  have t: "set_level (u + 1 - 1) ?t \<lparr>used_levels = u + 1, data = replicate (u - 5) [], pgm = ([] :: 'a list)\<rparr>
      = \<lparr>used_levels = u + 1, data = ?d, pgm = []\<rparr>" by (simp add: set_level_def dpgm_consts)
  have eq: "dpgm_construct C kvs = Inr ?st"
  proof (cases "18 \<le> u")
    case True
    then have "u + 1 - MinIndexedLevel = u - 17" "u - 18 < u - 17" by (simp_all add: dpgm_consts)
    then show ?thesis
      using srt True unfolding dpgm_construct_def Let_def u_def [symmetric] min_level_def r bindE_simps t
      by (simp add: set_pgm_def get_pgm_def dpgm_consts)
  next
    case False
    then show ?thesis
      using srt unfolding dpgm_construct_def Let_def u_def [symmetric] min_level_def r bindE_simps t
      by (simp add: set_pgm_def get_pgm_def dpgm_consts)
  qed
  obtain m where m: "u - 6 = Suc m" "u - 5 = Suc (Suc m)" "u = m + 7" using u15 by (intro that [of "u - 7"]) simp_all
  have split: "?d = replicate (u - 6) [] @ [?t]"
    unfolding m(1,2) replicate_Suc [of "Suc m"] replicate_append_same [symmetric]
    by (simp add: list_update_append del: replicate_Suc)
  have nth: "?d ! j = []" if "j \<noteq> u - 6" "j < u - 5" for j using that by simp
  have top: "?d ! (u - 6) = ?t" by (subst nth_list_update_eq) (use u15 in simp_all)
  have srt_t: "level_sorted ?t" using srt by (simp add: level_sorted_def o_def case_prod_beta live_item_def)
  have und: "undeleted ?t" by (auto simp: undeleted_def live_item_def)
  have "dpgm_items ?st = ?t" unfolding dpgm_items_def by (simp add: split)
  moreover have "dpgm_counter ?st"
  proof (rule counterI)
    show "data ?st ! (l - 6) = [] \<or> length (data ?st ! (l - 6)) = 2 ^ l" if "7 \<le> l" "l + 1 < used_levels ?st" for l
    proof -
      have "l - 6 \<noteq> u - 6" "l - 6 < u - 5" using that u15 by auto
      then show ?thesis using nth by simp
    qed
    have "used_levels ?st - 7 = u - 6" "used_levels ?st - 2 = u - 1" by simp_all
    then show "2 ^ (used_levels ?st - 2) \<le> length (data ?st ! (used_levels ?st - 7))
      \<and> length (data ?st ! (used_levels ?st - 7)) \<le> 2 ^ (used_levels ?st - 1)" using top ub by simp
  qed
  moreover have "dpgm_wf C ?st"
  proof -
    have 1: "\<forall>xs\<in>set ?d. level_sorted xs \<and> undeleted xs" unfolding split using srt_t und by auto
    have 2: "pgm ?st ! (l - 18) = pgm_build C (?d ! (l - 6))" if "18 \<le> l" "l < u + 1" "?d ! (l - 6) \<noteq> []" for l
    proof -
      have "l - 6 = u - 6" using nth [of "l - 6"] that by (cases "l - 6 = u - 6") auto
      then have "l = u" using that u15 by simp
      then show ?thesis using that top by simp
    qed
    have 3: "?d ! 0 = []" "?d \<noteq> []" using nth [of 0] u15 by simp_all
    show ?thesis unfolding dpgm_wf_def using 1 2 3 u15 by (auto simp: nth)
  qed
  ultimately show ?thesis using eq by blast
qed

subsection \<open>Properties\<close>

lemma dpgm_good_wf: "dpgm_good C st \<Longrightarrow> dpgm_wf C st"
  by (simp add: dpgm_good_def dpgm_inv_def)

definition sample_kvs :: "(u64 \<times> u64) list" where
  "sample_kvs = [(5, 50), (17, 170), (9, 90)]"

lemma sample_kvs: "length sample_kvs = 3" "distinct (map fst sample_kvs)" "map_of sample_kvs 17 = Some 170"
  by (simp_all add: sample_kvs_def)

text \<open>Inserting pairs with new and different keys into a dynamic PGM index never fails below
  its capacity, and a lookup afterwards returns the value inserted for the key, the old value, or
  the overflow value for a key that is absent.\<close>

lemma dpgm_insert_then_lookup:
  assumes "dpgm_good C st" "length (dpgm_items st) + length kvs \<le> dpgm_cap" "distinct (map fst kvs)"
    and "\<forall>k\<in>fst ` set kvs. dpgm_map st k = None"
  shows "\<exists>st'. insert_all (dpgm_insert C) kvs st = Inr st'
    \<and> (\<forall>k. dpgm_EqualityLookup C binary_lower_bound st' k
          = Inr (case map_of kvs k of Some v \<Rightarrow> v | None \<Rightarrow> (case dpgm_map st k of Some v \<Rightarrow> v | None \<Rightarrow> OVERFLOW)))"
proof -
  obtain st' where "insert_all (dpgm_insert C) kvs st = Inr st'"
    "\<And>k. dpgm_lookup C binary_lower_bound k st' = Inr (case map_of kvs k of Some v \<Rightarrow> Some v | None \<Rightarrow> dpgm_map st k)"
    using dpgm.lookup_after_distinct [OF assms] by blast
  then show ?thesis by (auto simp: EqualityLookup_lookup split: option.splits)
qed

lemma dpgm_insert_then_lookup_witness:
  "\<exists>st'. insert_all (dpgm_insert whole_level) sample_kvs dpgm_initial = Inr st'
    \<and> dpgm_EqualityLookup whole_level binary_lower_bound st' 17 = Inr 170
    \<and> dpgm_EqualityLookup whole_level binary_lower_bound st' 4 = Inr OVERFLOW"
proof -
  have "length (dpgm_items (dpgm_initial :: nat dpgm)) + length sample_kvs \<le> dpgm_cap"
    by (simp add: initial_items sample_kvs dpgm_cap_def)
  from dpgm_insert_then_lookup [OF initial_good [OF whole_level_sound] this sample_kvs(2)] obtain st' where
    st': "insert_all (dpgm_insert whole_level) sample_kvs dpgm_initial = Inr st'"
      "\<And>k. dpgm_EqualityLookup whole_level binary_lower_bound st' k
          = Inr (case map_of sample_kvs k of Some v \<Rightarrow> v | None \<Rightarrow> OVERFLOW)"
    by (auto simp: initial_map cong: option.case_cong)
  then show ?thesis by (intro exI [of _ st']) (simp add: sample_kvs_def)
qed

text \<open>An insertion whose buffer has room, or whose overflow goes to an empty or new level,
  refines the update of the map: the value of the key is replaced, also when the key is present.\<close>

lemma dpgm_insert_refines_update:
  assumes "dpgm_wf C st" "length (data st ! 0) < 127 \<or> target_empty st"
  shows "\<exists>st'. dpgm_insert C k v st = Inr st' \<and> dpgm_wf C st' \<and> dpgm_map st' = (dpgm_map st)(k \<mapsto> v)"
proof -
  obtain st' where "insert_item C (live_item k v) st = Inr st'" "dpgm_wf C st'"
    "\<forall>j. level_find (dpgm_items st') j = (if j = ikey (live_item k v) then Some (live_item k v) else level_find (dpgm_items st) j)"
    using insert_refines [OF assms(1) _ assms(2), of "live_item k v"] by (auto simp: live_item_def)
  then show ?thesis using dpgm_map_find [of st' "live_item k v" st] by (auto simp: dpgm_insert_def live_item_def)
qed

definition full_buffer :: "nat dpgm" where
  "full_buffer = dpgm_initial\<lparr>used_levels := 7, data := (data (dpgm_initial :: nat dpgm))[0 := map (\<lambda>i. live_item 5 (of_nat i)) [0..<127]]\<rparr>"

lemma full_buffer_data: "data full_buffer = map (\<lambda>i. live_item 5 (of_nat i)) [0..<127] # replicate 8 []"
  by (simp add: full_buffer_def dpgm_initial_def dpgm_consts numeral_eq_Suc)

lemma full_buffer: "dpgm_wf whole_level full_buffer" "length (data full_buffer ! 0) = 127" "target_empty full_buffer"
    "dpgm_map full_buffer = [5 \<mapsto> 0]"
proof -
  note d = full_buffer_data
  have s: "level_sorted (map (\<lambda>i. live_item 5 (of_nat i)) xs)" "undeleted (map (\<lambda>i. live_item 5 (of_nat i)) xs)" for xs
    by (simp_all add: level_sorted_def o_def live_item_def undeleted_def sorted_map)
  show "dpgm_wf whole_level full_buffer"
    unfolding dpgm_wf_def d using s by (auto simp: full_buffer_def nth_Cons' dpgm_initial_def)
  show "length (data full_buffer ! 0) = 127" by (simp add: d)
  have "used_levels full_buffer = 7" by (simp add: full_buffer_def)
  then show "target_empty full_buffer" by (simp add: target_empty_def choose_level.simps)
  have "level_find (map (\<lambda>i. live_item 5 (of_nat i)) [0..<127]) k = (if k = 5 then Some (live_item 5 0) else None)" for k
    by (simp add: upt_rec [of 0] level_find_None image_iff) (simp add: live_item_def)
  then show "dpgm_map full_buffer = [5 \<mapsto> 0]"
    by (intro ext) (simp add: dpgm_map_def dpgm_items_def d live_value_def level_find_append live_item_def)
qed

lemma dpgm_insert_refines_update_witness:
  "\<exists>st'. dpgm_insert whole_level 5 99 full_buffer = Inr st' \<and> dpgm_map st' = [5 \<mapsto> 99]"
  using dpgm_insert_refines_update [OF full_buffer(1), of 5 99] full_buffer(3,4) by auto



lemma find_live: "level_find (map (\<lambda>(k, v). live_item k v) kvs) k = map_option (live_item k) (map_of kvs k)"
  by (induction kvs) (auto simp: live_item_def)

text \<open>The bulk constructor on more than \<open>2 ^ 14\<close> pairs with ascending keys builds an index that
  satisfies the invariant and contains exactly the pairs.\<close>

lemma dpgm_construct_correct:
  assumes "sorted (map fst kvs)" "distinct (map fst kvs)" "2 ^ 14 < length kvs" "windows_sound C"
  shows "\<exists>st. dpgm_construct C kvs = Inr st \<and> dpgm_good C st \<and> dpgm_map st = map_of kvs
    \<and> length (dpgm_items st) = length kvs"
proof -
  obtain st where st: "dpgm_construct C kvs = Inr st" "dpgm_wf C st" "dpgm_counter st"
    "dpgm_items st = map (\<lambda>(k, v). live_item k v) kvs" using construct_ok [OF assms(1,3)] by blast
  have k: "map ikey (dpgm_items st) = map fst kvs" by (simp add: st(4) live_item_def case_prod_beta)
  have "dpgm_map st = map_of kvs"
    unfolding dpgm_map_def live_value_def st(4) find_live by (intro ext) (simp add: live_item_def split: option.split)
  moreover have "dpgm_inv C st" unfolding dpgm_inv_def k using st(2,3) assms(2) by simp
  ultimately show ?thesis using st(1) assms(4) arg_cong [OF k, of length] by (auto simp: dpgm_good_def)
qed

definition many_kvs :: "(u64 \<times> u64) list" where
  "many_kvs = map (\<lambda>i. (of_nat i, 1)) [0..<20000]"

lemma many_kvs: "sorted (map fst many_kvs)" "distinct (map fst many_kvs)" "length many_kvs = 20000"
proof -
  have o: "(of_nat i :: u64) \<le> of_nat j \<longleftrightarrow> i \<le> j" "(of_nat i :: u64) = of_nat j \<longleftrightarrow> i = j" if "i < 20000" "j < 20000" for i j
    using that by (simp_all add: word_le_nat_alt word_unat_eq_iff unsigned_of_nat take_bit_nat_eq_self)
  show "sorted (map fst many_kvs)"
    by (simp add: many_kvs_def o_def sorted_wrt_map) (rule sorted_wrt_mono_rel [OF _ sorted_wrt_upt], simp add: o)
  show "distinct (map fst many_kvs)" by (simp add: many_kvs_def o_def distinct_map inj_on_def o)
qed (simp add: many_kvs_def)

lemma dpgm_construct_correct_witness:
  "\<exists>st. dpgm_construct whole_level many_kvs = Inr st \<and> dpgm_good whole_level st \<and> length (dpgm_items st) = 20000"
proof -
  have "2 ^ 14 < length many_kvs" by (simp add: many_kvs)
  from dpgm_construct_correct [OF many_kvs(1,2) this whole_level_sound] show ?thesis by (auto simp: many_kvs(3))
qed



text \<open>C37: \<open>RangeQuery\<close> always returns, and returns the sum (in 64 bits) of the values of all items
  whose key lies between the bounds, in whichever levels they are.\<close>

lemma dpgm_range_query_correct:
  assumes "dpgm_wf C st" "search_class S U" "windows_enclose C st lo" "length (dpgm_items st) < 2 ^ 53" "used_levels st \<noteq> 255"
  shows "dpgm_RangeQuery C S st lo hi
    = Some (Inr (sum_list (map ivalue (filter (\<lambda>x. lo \<le> ikey x \<and> ikey x \<le> hi) (dpgm_items st)))))"
  by (rule dpgm_RangeQuery_ok [OF assms])

definition two_levels :: "nat dpgm" where
  "two_levels = dpgm_initial\<lparr>used_levels := 8,
     data := [live_item 3 30, live_item 7 70] # [live_item 3 33, live_item 5 50] # replicate 7 []\<rparr>"

lemma two_levels: "dpgm_wf whole_level two_levels" "used_levels two_levels = 8"
    "dpgm_items two_levels = [live_item 3 30, live_item 7 70, live_item 3 33, live_item 5 50]"
  unfolding dpgm_wf_def dpgm_items_def by (auto simp: two_levels_def live_item_def nth_Cons' undeleted_def)

lemma dpgm_range_query_correct_witness:
  "dpgm_RangeQuery whole_level binary_lower_bound two_levels 4 100 = Some (Inr 120)"
proof -
  have "windows_enclose whole_level two_levels 4"
    using windows_sound_enclose [OF whole_level_sound two_levels(1)] .
  moreover have "length (dpgm_items two_levels) < 2 ^ 53" "used_levels two_levels \<noteq> 255" by (simp_all add: two_levels)
  ultimately have "dpgm_RangeQuery whole_level binary_lower_bound two_levels 4 100
    = Some (Inr (sum_list (map ivalue (filter (\<lambda>x. 4 \<le> ikey x \<and> ikey x \<le> 100) (dpgm_items two_levels)))))"
    by (rule dpgm_range_query_correct [OF two_levels(1) binary.search_class_axioms])
  then show ?thesis by (simp add: two_levels live_item_def)
qed

lemma initial_enclose: "windows_enclose C dpgm_initial key"
  by (simp add: windows_enclose_def dpgm_initial_def dpgm_consts)

text \<open>After two insertions of one key with different values a lookup sees the last value only, but
  a range query adds up both: an update does not replace the item.\<close>

lemma dpgm_range_counts_shadowed:
  assumes "v \<noteq> w"
  shows "\<exists>st. insert_all (dpgm_insert C) [(k, v), (k, w)] dpgm_initial = Inr st
    \<and> dpgm_EqualityLookup C binary_lower_bound st k = Inr w
    \<and> dpgm_RangeQuery C binary_lower_bound st k k = Some (Inr (v + w))"
proof -
  let ?B = "[live_item k w, live_item k v]"
  define st :: "'a dpgm" where "st = dpgm_initial\<lparr>used_levels := 7, data := ?B # replicate 8 []\<rparr>"
  have ins: "insert_all (dpgm_insert C) [(k, v), (k, w)] dpgm_initial = Inr st"
    using assms by (simp add: dpgm_insert_def insert_item_def get_level_def set_level_def dpgm_initial_def dpgm_consts
        first_level_max_size_def Let_def std_lower_bound_def insert_at_def live_item_def numeral_eq_Suc st_def)
  have wf: "dpgm_wf C st" unfolding dpgm_wf_def by (auto simp: nth_Cons' live_item_def st_def)
  have items: "dpgm_items st = ?B" by (simp add: dpgm_items_def st_def)
  have we: "windows_enclose C st k" by (simp add: windows_enclose_def st_def)
  have small: "length (dpgm_items st) < 2 ^ 53" "used_levels st \<noteq> 255" by (simp_all add: items) (simp add: st_def)
  have "dpgm_EqualityLookup C binary_lower_bound st k = Inr w"
    using dpgm_EqualityLookup_ok [OF dpgm_wf_readable [OF wf] binary.search_class_axioms windows_enclose_ok [OF we] small(1)]
    by (simp add: dpgm_map_def items live_value_def live_item_def)
  moreover have "dpgm_RangeQuery C binary_lower_bound st k k = Some (Inr (v + w))"
    using dpgm_RangeQuery_ok [OF wf binary.search_class_axioms we small, of k]
    by (simp add: items live_item_def add.commute)
  ultimately show ?thesis using ins by blast
qed

lemma dpgm_range_counts_shadowed_witness:
  "\<exists>st. insert_all (dpgm_insert whole_level) [(5, 50), (5, 60)] dpgm_initial = Inr st
    \<and> dpgm_RangeQuery whole_level binary_lower_bound st 5 5 = Some (Inr 110)"
  using dpgm_range_counts_shadowed [of 50 60 whole_level 5] by auto

text \<open>The iterator returned by a successful \<open>find\<close> cannot be incremented: it starts to collect
  the levels from level 0, which is before the first level.\<close>

lemma find_iterator_cannot_advance:
  assumes "dpgm_find C S st key = Inr (Some e)" "dpgm_readable C st" "search_class S U" "windows_ok C st key"
    "length (dpgm_items st) < 2 ^ 53"
  shows "dpgm_next C S st (find_iterator (Some e)) = Inl OUT_OF_BOUNDS"
proof -
  have "valid_position st (Some e)" using dpgm_find_ok [OF assms(2-5)] assms(1) by auto
  then have "0 < used_levels st" by (cases e) (simp add: valid_position_def)
  then have "position_levels C S st k 0 [] = Inl OUT_OF_BOUNDS" for k
    by (subst position_levels.simps) (simp add: get_level_def min_level_def)
  then show ?thesis by (simp add: dpgm_next_def lazy_initialize_queue_def find_iterator_def)
qed

lemma two_levels_find: "dpgm_find whole_level binary_lower_bound two_levels 5 = Inr (Some (7, 1))"
  by (simp add: dpgm_find_def find_from.simps get_level_def two_levels_def dpgm_consts level_position_def
      std_lower_bound_def live_item_def)

lemma find_iterator_cannot_advance_witness:
  "dpgm_next whole_level binary_lower_bound two_levels (find_iterator (Some (7, 1))) = Inl OUT_OF_BOUNDS"
  using find_iterator_cannot_advance [OF two_levels_find dpgm_wf_readable [OF two_levels(1)] binary.search_class_axioms
      windows_enclose_ok [OF windows_sound_enclose [OF whole_level_sound two_levels(1)]]]
  by (simp add: two_levels(3))

text \<open>Erasing a key while the buffer has room hides it: afterwards the map has no value for it and
  all other keys keep theirs. Excepted is a key whose first item in the buffer has the value 0.\<close>

lemma dpgm_erase_correct:
  assumes "dpgm_readable C st" "6 \<le> used_levels st" "data st \<noteq> []" "length (data st ! 0) < 127"
    and "\<forall>x. level_find (data st ! 0) k = Some x \<longrightarrow> ivalue x \<noteq> 0"
  shows "\<exists>st'. dpgm_erase C k st = Inr st' \<and> dpgm_readable C st' \<and> dpgm_map st' = (dpgm_map st)(k := None)"
proof -
  have s: "level_sorted (data st ! 0)" using assms(1,3) by (simp add: dpgm_readable_def)
  have "\<not> (let i = std_lower_bound (data st ! 0) (ikey (tombstone k)) in i < length (data st ! 0)
        \<and> ikey (data st ! 0 ! i) = ikey (tombstone k) \<and> ivalue (data st ! 0 ! i) = ivalue (tombstone k))"
    using level_find_at [OF s, of k] assms(5) by (auto simp: Let_def tombstone_def)
  from buffer_insert_readable [OF assms(1-4) this] obtain st' where
    "insert_item C (tombstone k) st = Inr st'" "dpgm_readable C st'"
    "\<forall>j. level_find (dpgm_items st') j = (if j = ikey (tombstone k) then Some (tombstone k) else level_find (dpgm_items st) j)"
    by blast
  then show ?thesis by (auto simp: dpgm_erase_def dpgm_map_def live_value_def tombstone_def)
qed

lemma dpgm_erase_correct_witness:
  "\<exists>st'. dpgm_erase whole_level 5 two_levels = Inr st' \<and> dpgm_map st' 5 = None \<and> dpgm_map st' 3 = Some 30"
proof -
  have "\<forall>x. level_find (data two_levels ! 0) 5 = Some x \<longrightarrow> ivalue x \<noteq> 0" "length (data two_levels ! 0) < 127"
    "6 \<le> used_levels two_levels" "data two_levels \<noteq> []" by (simp_all add: two_levels_def live_item_def)
  note e = dpgm_erase_correct [OF dpgm_wf_readable [OF two_levels(1)] this(3,4,2,1)]
  have "dpgm_map two_levels 3 = Some 30" by (simp add: dpgm_map_def two_levels(3) live_item_def live_value_def)
  with e show ?thesis by auto
qed

text \<open>Erasing a key whose first item in the buffer has the value 0 does nothing: the tombstone
  carries the value 0 too, and is taken for a duplicate of the item.\<close>

lemma dpgm_erase_ignored:
  assumes "dpgm_readable C st" "data st \<noteq> []" "level_find (data st ! 0) k = Some x" "ivalue x = 0"
  shows "dpgm_erase C k st = Inr st"
proof -
  have "level_sorted (data st ! 0)" using assms(1,2) by (simp add: dpgm_readable_def)
  from level_find_at [OF this, of k] assms(3,4) show ?thesis
    unfolding dpgm_erase_def insert_item_eq [OF assms(2)] by (auto simp: Let_def tombstone_def split: if_splits)
qed

lemma dpgm_erase_ignored_witness:
  "dpgm_erase whole_level 5 full_buffer = Inr full_buffer \<and> dpgm_map full_buffer 5 = Some 0"
proof -
  have "level_find (data full_buffer ! 0) 5 = Some (live_item 5 0)" "data full_buffer \<noteq> []"
    by (simp_all add: full_buffer_data upt_rec [of 0] live_item_def)
  from dpgm_erase_ignored [OF dpgm_wf_readable [OF full_buffer(1)] this(2,1)] show ?thesis
    by (simp add: full_buffer(4) live_item_def)
qed

lemma initial_inv: "dpgm_inv C dpgm_initial"
  by (auto simp: dpgm_inv_def dpgm_wf_def dpgm_initial_def dpgm_consts dpgm_counter_def dpgm_items_def)

text \<open>C38: However many different keys are inserted, every level below the top one is empty or completely
  full and the top one is at least a quarter full: the levels are the digits of a binary counter.
  In particular no level ever exceeds its capacity.\<close>

lemma dpgm_levels_binary_counter:
  assumes "insert_all (dpgm_insert C) kvs dpgm_initial = Inr st" "distinct (map fst kvs)" "length kvs \<le> dpgm_cap"
  shows "length (data st ! 0) \<le> 127 \<and> length (dpgm_items st) = length kvs
    \<and> (\<forall>l\<in>{7..<used_levels st - 1}. length (data st ! (l - 6)) \<in> {0, 2 ^ l})
    \<and> (8 \<le> used_levels st \<longrightarrow> 2 ^ (used_levels st - 2) \<le> length (data st ! (used_levels st - 7))
          \<and> length (data st ! (used_levels st - 7)) \<le> 2 ^ (used_levels st - 1))"
proof -
  note dpgm_ins.insert_distinct [OF initial_inv [of C], of kvs]
  then have "dpgm_inv C st" "length (dpgm_items st) = length kvs" using assms by (auto simp: initial_items initial_map)
  then show ?thesis by (auto simp: dpgm_inv_def dpgm_wf_def dpgm_counter_def)
qed

lemma sample_inserted:
  "\<exists>st. insert_all (dpgm_insert whole_level) sample_kvs dpgm_initial = Inr st"
  using dpgm_ins.insert_distinct [OF initial_inv [of whole_level], of sample_kvs]
  by (auto simp: initial_items initial_map sample_kvs dpgm_cap_def)

lemma dpgm_levels_binary_counter_witness:
  "\<exists>st. insert_all (dpgm_insert whole_level) sample_kvs dpgm_initial = Inr st
    \<and> length (data st ! 0) \<le> 127 \<and> length (dpgm_items st) = 3"
proof -
  obtain st where st: "insert_all (dpgm_insert whole_level) sample_kvs dpgm_initial = Inr st" using sample_inserted by blast
  have "length sample_kvs \<le> dpgm_cap" by (simp add: sample_kvs dpgm_cap_def)
  from dpgm_levels_binary_counter [OF st sample_kvs(2) this] st show ?thesis by (auto simp: sample_kvs)
qed

end
