(* ===== verification/Hybrid.thy ===== *)
theory Hybrid
  imports Dpgm_Iter Lipp_Index
begin

text \<open>
  The hybrid index of \<open>competitors/hybrid_pgm_lipp.h\<close>: a dynamic PGM index that takes the
  insertions, a \<open>LIPP\<close> that holds the loaded data, and a buffer whose items a background thread
  moves into the \<open>LIPP\<close>. The operations are functions on the shared state; the threads are a step
  relation whose steps are the pieces of code between two points where another thread can act: the
  calls of the two indexes and the critical sections of \<open>buffer_mutex\<close>.
\<close>

datatype hybrid_error = DEADLOCK | PGM_ERROR dpgm_error | LIPP_ERROR lipp_error

definition liftE :: "('e \<Rightarrow> 'f) \<Rightarrow> 'e + 'a \<Rightarrow> 'f + 'a" where
  "liftE f m = (case m of Inl e \<Rightarrow> Inl (f e) | Inr x \<Rightarrow> Inr x)"

lemma liftE_simps [simp]: "liftE f (Inl e) = Inl (f e)" "liftE f (Inr x) = Inr x"
  by (simp_all add: liftE_def)

lemma liftE_Inr [simp]: "liftE f m = Inr x \<longleftrightarrow> m = Inr x"
  by (cases m) simp_all

subsection \<open>Configuration and state\<close>

record hybrid_config =
  min_flush_size :: u64
  max_flush_size :: u64
  async_flush :: bool

definition default_config :: hybrid_config where
  "default_config = \<lparr>min_flush_size = 1000, max_flush_size = 10000, async_flush = True\<rparr>"

text \<open>
  The constructor reads the parameters from the third on; the second sets \<open>buffer_ratio\<close>, which no
  code reads. An \<open>int\<close> becomes a \<open>size_t\<close>.
\<close>

definition config_of :: "int list \<Rightarrow> hybrid_config" where
  "config_of params =
     \<lparr>min_flush_size = (if length params > 2 then word_of_int (params ! 2) else min_flush_size default_config),
      max_flush_size = (if length params > 3 then word_of_int (params ! 3) else max_flush_size default_config),
      async_flush = (if length params > 4 then params ! 4 \<noteq> 0 else async_flush default_config)\<rparr>"

record 'p hybrid =
  h_pgm :: "'p dpgm"
  h_lipp :: "u64 lipp"
  hbuffer :: "(u64 \<times> u64) list"
  pgm_size :: u64
  total_size :: u64
  buffer_mutex :: bool    \<comment> \<open>whether it is held\<close>
  should_stop :: bool

definition hybrid_new :: "'p hybrid" where
  "hybrid_new = \<lparr>h_pgm = dpgm_initial, h_lipp = lipp_new, hbuffer = [], pgm_size = 0, total_size = 0,
     buffer_mutex = False, should_stop = False\<rparr>"

definition hybrid_Build :: "(u64 \<times> u64) list \<Rightarrow> 'p hybrid \<Rightarrow> hybrid_error + 'p hybrid" where
  "hybrid_Build kvs st =
     bindE (liftE LIPP_ERROR (lipp_bulk_load std_opts kvs (h_lipp st))) (\<lambda>lipp.
     Inr (st\<lparr>total_size := of_nat (length kvs), hbuffer := [], h_pgm := dpgm_initial, h_lipp := lipp\<rparr>))"

subsection \<open>Lookups\<close>

text \<open>\<open>EqualityLookup\<close> in its two reads\<close>

definition lookup_lipp :: "u64 \<Rightarrow> 'p hybrid \<Rightarrow> hybrid_error + u64" where
  "lookup_lipp key st = liftE LIPP_ERROR (lipp_EqualityLookup (h_lipp st) key)"

definition lookup_pgm :: "'p pgm_class \<Rightarrow> u64 search_fn \<Rightarrow> u64 \<Rightarrow> 'p hybrid \<Rightarrow> hybrid_error + u64" where
  "lookup_pgm C S key st = liftE PGM_ERROR (dpgm_EqualityLookup C S (h_pgm st) key)"

definition hybrid_EqualityLookup :: "'p pgm_class \<Rightarrow> u64 search_fn \<Rightarrow> u64 \<Rightarrow> 'p hybrid \<Rightarrow> hybrid_error + u64" where
  "hybrid_EqualityLookup C S key st =
     bindE (lookup_lipp key st) (\<lambda>value. if value = NOT_FOUND then lookup_pgm C S key st else Inr value)"

definition hybrid_RangeQuery ::
  "'p pgm_class \<Rightarrow> u64 search_fn \<Rightarrow> u64 \<Rightarrow> u64 \<Rightarrow> 'p hybrid \<Rightarrow> (hybrid_error + u64) option" where
  "hybrid_RangeQuery C S lower_key upper_key st =
     map_option (liftE PGM_ERROR) (dpgm_RangeQuery C S (h_pgm st) lower_key upper_key)"

subsection \<open>Flushing\<close>

text \<open>\<open>std::lock_guard\<close> on the mutex, by the thread that holds it already: it never returns.\<close>

definition lock :: "'p hybrid \<Rightarrow> hybrid_error + 'p hybrid" where
  "lock st = (if buffer_mutex st then Inl DEADLOCK else Inr (st\<lparr>buffer_mutex := True\<rparr>))"

definition unlock :: "'p hybrid \<Rightarrow> 'p hybrid" where
  "unlock st = st\<lparr>buffer_mutex := False\<rparr>"

text \<open>The critical section of \<open>flush_buffer\<close>.\<close>

definition flush_take :: "hybrid_config \<Rightarrow> 'p hybrid \<Rightarrow> hybrid_error + ((u64 \<times> u64) list \<times> 'p hybrid)" where
  "flush_take cfg st =
     bindE (lock st) (\<lambda>st.
     if hbuffer st = [] then Inr ([], unlock st)
     else let flush_size = min (length (hbuffer st)) (unat (max_flush_size cfg)) in
          Inr (take flush_size (hbuffer st),
               unlock (st\<lparr>hbuffer := drop flush_size (hbuffer st), pgm_size := pgm_size st - of_nat flush_size\<rparr>)))"

definition flush_item :: "u64 \<times> u64 \<Rightarrow> 'p hybrid \<Rightarrow> hybrid_error + 'p hybrid" where
  "flush_item kv st = (case kv of (k, v) \<Rightarrow>
     bindE (liftE LIPP_ERROR (lipp_insert std_opts k v (h_lipp st))) (\<lambda>lipp. Inr (st\<lparr>h_lipp := lipp\<rparr>)))"

fun flush_items :: "(u64 \<times> u64) list \<Rightarrow> 'p hybrid \<Rightarrow> hybrid_error + 'p hybrid" where
  "flush_items [] st = Inr st"
| "flush_items (kv # kvs) st = bindE (flush_item kv st) (flush_items kvs)"

definition flush_buffer :: "hybrid_config \<Rightarrow> 'p hybrid \<Rightarrow> hybrid_error + 'p hybrid" where
  "flush_buffer cfg st = bindE (flush_take cfg st) (\<lambda>(items_to_flush, st). flush_items items_to_flush st)"

subsection \<open>Insertion\<close>

definition insert_pgm :: "'p pgm_class \<Rightarrow> u64 \<times> u64 \<Rightarrow> 'p hybrid \<Rightarrow> hybrid_error + 'p hybrid" where
  "insert_pgm C kv st = (case kv of (k, v) \<Rightarrow>
     bindE (liftE PGM_ERROR (dpgm_insert C k v (h_pgm st))) (\<lambda>pgm. Inr (st\<lparr>h_pgm := pgm\<rparr>)))"

text \<open>The critical section of \<open>Insert\<close>; without a thread it flushes while it holds the mutex.\<close>

definition insert_buffer :: "hybrid_config \<Rightarrow> u64 \<times> u64 \<Rightarrow> 'p hybrid \<Rightarrow> hybrid_error + 'p hybrid" where
  "insert_buffer cfg kv st =
     bindE (lock st) (\<lambda>st.
     let st = st\<lparr>hbuffer := hbuffer st @ [kv], pgm_size := pgm_size st + 1, total_size := total_size st + 1\<rparr> in
     bindE (if pgm_size st \<ge> min_flush_size cfg
            then (if async_flush cfg then Inr st else flush_buffer cfg st)
            else Inr st) (\<lambda>st.
     Inr (unlock st)))"

definition hybrid_Insert :: "hybrid_config \<Rightarrow> 'p pgm_class \<Rightarrow> u64 \<times> u64 \<Rightarrow> 'p hybrid \<Rightarrow> hybrid_error + 'p hybrid" where
  "hybrid_Insert cfg C kv st = bindE (insert_pgm C kv st) (insert_buffer cfg kv)"

subsection \<open>The background thread\<close>

text \<open>
  \<open>flush_worker\<close> after \<open>should_stop\<close> was set, when no other thread inserts: it flushes until the
  buffer is empty. \<open>None\<close> is a thread that never ends, so that the destructor never returns.
\<close>

partial_function (option) worker_shutdown :: "hybrid_config \<Rightarrow> 'p hybrid \<Rightarrow> (hybrid_error + 'p hybrid) option" where
  "worker_shutdown cfg st =
     (if should_stop st \<and> hbuffer st = [] then Some (Inr st)
      else case flush_buffer cfg st of
             Inl e \<Rightarrow> Some (Inl e)
           | Inr st' \<Rightarrow> worker_shutdown cfg st')"

datatype worker_pc = Waiting | Flushing | Inserting "(u64 \<times> u64) list" | Stopped

datatype main_pc = Idle | Buffering "u64 \<times> u64" | Looking u64 | Joining

record 'p config =
  shared :: "'p hybrid"
  main_at :: main_pc
  worker_at :: worker_pc

datatype event = Inserted "u64 \<times> u64" | Answered u64 u64 | Internal | Crashed hybrid_error

text \<open>
  One step of the main thread or of the background thread. A waiting thread may wake up whenever its
  condition holds, notified or not.
\<close>

inductive hstep :: "hybrid_config \<Rightarrow> 'p pgm_class \<Rightarrow> u64 search_fn \<Rightarrow> 'p config \<Rightarrow> event \<Rightarrow> 'p config \<Rightarrow> bool"
  for cfg C S where
  main_insert: "main_at c = Idle \<Longrightarrow> insert_pgm C kv (shared c) = Inr st
     \<Longrightarrow> hstep cfg C S c (Inserted kv) (c\<lparr>shared := st, main_at := Buffering kv\<rparr>)"
| main_insert_crash: "main_at c = Idle \<Longrightarrow> insert_pgm C kv (shared c) = Inl e \<Longrightarrow> hstep cfg C S c (Crashed e) c"
| main_buffer: "main_at c = Buffering kv \<Longrightarrow> insert_buffer cfg kv (shared c) = Inr st
     \<Longrightarrow> hstep cfg C S c Internal (c\<lparr>shared := st, main_at := Idle\<rparr>)"
| main_buffer_crash: "main_at c = Buffering kv \<Longrightarrow> insert_buffer cfg kv (shared c) = Inl e \<Longrightarrow> hstep cfg C S c (Crashed e) c"
| main_lookup_lipp: "main_at c = Idle \<Longrightarrow> lookup_lipp key (shared c) = Inr v \<Longrightarrow> v \<noteq> NOT_FOUND
     \<Longrightarrow> hstep cfg C S c (Answered key v) c"
| main_lookup_miss: "main_at c = Idle \<Longrightarrow> lookup_lipp key (shared c) = Inr NOT_FOUND
     \<Longrightarrow> hstep cfg C S c Internal (c\<lparr>main_at := Looking key\<rparr>)"
| main_lookup_pgm: "main_at c = Looking key \<Longrightarrow> lookup_pgm C S key (shared c) = Inr v
     \<Longrightarrow> hstep cfg C S c (Answered key v) (c\<lparr>main_at := Idle\<rparr>)"
| main_stop: "main_at c = Idle
     \<Longrightarrow> hstep cfg C S c Internal (c\<lparr>shared := (shared c)\<lparr>should_stop := True\<rparr>, main_at := Joining\<rparr>)"
| worker_wake: "worker_at c = Waiting \<Longrightarrow> should_stop (shared c) \<or> pgm_size (shared c) \<ge> min_flush_size cfg
     \<Longrightarrow> \<not> (should_stop (shared c) \<and> hbuffer (shared c) = [])
     \<Longrightarrow> hstep cfg C S c Internal (c\<lparr>worker_at := Flushing\<rparr>)"
| worker_stop: "worker_at c = Waiting \<Longrightarrow> should_stop (shared c) \<Longrightarrow> hbuffer (shared c) = []
     \<Longrightarrow> hstep cfg C S c Internal (c\<lparr>worker_at := Stopped\<rparr>)"
| worker_take: "worker_at c = Flushing \<Longrightarrow> flush_take cfg (shared c) = Inr (kvs, st)
     \<Longrightarrow> hstep cfg C S c Internal (c\<lparr>shared := st, worker_at := Inserting kvs\<rparr>)"
| worker_item: "worker_at c = Inserting (kv # kvs) \<Longrightarrow> flush_item kv (shared c) = Inr st
     \<Longrightarrow> hstep cfg C S c Internal (c\<lparr>shared := st, worker_at := Inserting kvs\<rparr>)"
| worker_crash: "worker_at c = Inserting (kv # kvs) \<Longrightarrow> flush_item kv (shared c) = Inl e \<Longrightarrow> hstep cfg C S c (Crashed e) c"
| worker_done: "worker_at c = Inserting [] \<Longrightarrow> hstep cfg C S c Internal (c\<lparr>worker_at := Waiting\<rparr>)"

text \<open>A run: the program has not crashed before its last step.\<close>

inductive hrun :: "hybrid_config \<Rightarrow> 'p pgm_class \<Rightarrow> u64 search_fn \<Rightarrow> 'p config \<Rightarrow> event list \<Rightarrow> 'p config \<Rightarrow> bool"
  for cfg C S c where
  start: "hrun cfg C S c [] c"
| step: "hrun cfg C S c evs c' \<Longrightarrow> hstep cfg C S c' ev c'' \<Longrightarrow> (\<forall>e. Crashed e \<notin> set evs) \<Longrightarrow> hrun cfg C S c (evs @ [ev]) c''"

end
