(* ===== verification/Pla.thy ===== *)
theory Pla
  imports Prelude
begin

text \<open>
  The piecewise linear model of the PGM index
  (\<open>PGM-index/include/piecewise_linear_model.hpp\<close>): points are fed in by ascending key, and a segment
  grows as long as some line passes every point within the error. The two hulls keep the points
  that can still limit the slope, the rectangle the two extreme lines. Coordinates are integers:
  for 64-bit keys and positions below 2 to the 62 the products of the code fit its 128 bits.
\<close>

subsection \<open>Points and slopes\<close>

record slope =
  dx :: int
  dy :: int

record point =
  px :: int
  py :: int

definition slope_less :: "slope \<Rightarrow> slope \<Rightarrow> bool" where
  "slope_less s p \<longleftrightarrow> dy s * dx p < dx s * dy p"

definition slope_greater :: "slope \<Rightarrow> slope \<Rightarrow> bool" where
  "slope_greater s p \<longleftrightarrow> dy s * dx p > dx s * dy p"

definition slope_eq :: "slope \<Rightarrow> slope \<Rightarrow> bool" where
  "slope_eq s p \<longleftrightarrow> dy s * dx p = dx s * dy p"

definition point_minus :: "point \<Rightarrow> point \<Rightarrow> slope" where
  "point_minus a b = \<lparr>dx = px a - px b, dy = py a - py b\<rparr>"

definition cross :: "point \<Rightarrow> point \<Rightarrow> point \<Rightarrow> int" where
  "cross O' A B = (let OA = point_minus A O'; OB = point_minus B O' in dx OA * dy OB - dy OA * dx OB)"

subsection \<open>The hulls\<close>

text \<open>A hull stores the points without the error and adds it on access.\<close>

type_synonym hull_points = "point list"

definition hull_at :: "int \<Rightarrow> hull_points \<Rightarrow> nat \<Rightarrow> point" where
  "hull_at err h i = (h ! i)\<lparr>py := py (h ! i) + err\<rparr>"

text \<open>The search for the extreme slope, which stops at the first slope that is worse\<close>

fun extreme_from :: "(slope \<Rightarrow> slope \<Rightarrow> bool) \<Rightarrow> (nat \<Rightarrow> point) \<Rightarrow> point \<Rightarrow> nat \<Rightarrow> nat \<Rightarrow> slope \<Rightarrow> nat \<Rightarrow> nat" where
  "extreme_from worse h p i 0 best best_i = best_i"
| "extreme_from worse h p i (Suc left) best best_i =
     (let val = point_minus (h i) p in
      if worse val best then best_i else extreme_from worse h p (i + 1) left val i)"

definition extreme :: "(slope \<Rightarrow> slope \<Rightarrow> bool) \<Rightarrow> (nat \<Rightarrow> point) \<Rightarrow> nat \<Rightarrow> point \<Rightarrow> nat \<Rightarrow> nat option" where
  "extreme worse h n p start =
     (if n \<le> start then None
      else Some (extreme_from worse h p (start + 1) (n - (start + 1)) (point_minus (h start) p) start))"

text \<open>\<open>for (; end >= start + 2 && ...; --end);\<close>\<close>

fun hull_end :: "(int \<Rightarrow> bool) \<Rightarrow> (nat \<Rightarrow> point) \<Rightarrow> point \<Rightarrow> nat \<Rightarrow> nat \<Rightarrow> nat" where
  "hull_end pop h p start 0 = 0"
| "hull_end pop h p start (Suc e) =
     (if start + 2 \<le> Suc e \<and> pop (cross (h (e - 1)) (h e) p) then hull_end pop h p start e else Suc e)"

subsection \<open>Adding a point\<close>

record pla =
  lower :: hull_points
  upper :: hull_points
  first_x :: int
  last_x :: int
  lower_start :: nat
  upper_start :: nat
  points_in_hull :: nat
  r0 :: point
  r1 :: point
  r2 :: point
  r3 :: point

definition origin :: point where "origin = \<lparr>px = 0, py = 0\<rparr>"

definition pla_new :: pla where
  "pla_new = \<lparr>lower = [], upper = [], first_x = 0, last_x = 0, lower_start = 0, upper_start = 0, points_in_hull = 0,
     r0 = origin, r1 = origin, r2 = origin, r3 = origin\<rparr>"

text \<open>The new point lies below the line of the greatest slope.\<close>

definition update_max :: "int \<Rightarrow> point \<Rightarrow> point \<Rightarrow> pla \<Rightarrow> pla option" where
  "update_max error pt p1 M = do {
     min_i \<leftarrow> extreme slope_greater (hull_at (- error) (lower M)) (length (lower M)) p1 (lower_start M);
     let e = hull_end (\<lambda>c. c \<le> 0) (hull_at error (upper M)) p1 (upper_start M) (length (upper M));
     Some (M\<lparr>r1 := hull_at (- error) (lower M) min_i, r3 := p1, lower_start := min_i, upper := take e (upper M) @ [pt]\<rparr>) }"

text \<open>The new point lies above the line of the least slope.\<close>

definition update_min :: "int \<Rightarrow> point \<Rightarrow> point \<Rightarrow> pla \<Rightarrow> pla option" where
  "update_min error pt p2 M = do {
     max_i \<leftarrow> extreme slope_less (hull_at error (upper M)) (length (upper M)) p2 (upper_start M);
     let e = hull_end (\<lambda>c. 0 \<le> c) (hull_at (- error) (lower M)) p2 (lower_start M) (length (lower M));
     Some (M\<lparr>r0 := hull_at error (upper M) max_i, r2 := p2, upper_start := max_i, lower := take e (lower M) @ [pt]\<rparr>) }"

text \<open>\<open>None\<close> is the exception for points that are not ascending.\<close>

definition add_point :: "int \<Rightarrow> int \<Rightarrow> int \<Rightarrow> pla \<Rightarrow> (bool \<times> pla) option" where
  "add_point error x y M =
     (if points_in_hull M > 0 \<and> x \<le> last_x M then None
      else let pt = \<lparr>px = x, py = y\<rparr>; p1 = \<lparr>px = x, py = y + error\<rparr>; p2 = \<lparr>px = x, py = y - error\<rparr>; M = M\<lparr>last_x := x\<rparr> in
        if points_in_hull M = 0 then
          Some (True, M\<lparr>first_x := x, r0 := p1, r1 := p2, upper := [pt], lower := [pt], upper_start := 0, lower_start := 0, points_in_hull := 1\<rparr>)
        else if points_in_hull M = 1 then
          Some (True, M\<lparr>r2 := p2, r3 := p1, upper := upper M @ [pt], lower := lower M @ [pt], points_in_hull := 2\<rparr>)
        else let slope1 = point_minus (r2 M) (r0 M); slope2 = point_minus (r3 M) (r1 M) in
          if slope_less (point_minus p1 (r2 M)) slope1 \<or> slope_greater (point_minus p2 (r3 M)) slope2 then
            Some (False, M\<lparr>points_in_hull := 0\<rparr>)
          else do {
            M1 \<leftarrow> (if slope_less (point_minus p1 (r1 M)) slope2 then update_max error pt p1 M else Some M);
            M2 \<leftarrow> (if slope_greater (point_minus p2 (r0 M1)) slope1 then update_min error pt p2 M1 else Some M1);
            Some (True, M2\<lparr>points_in_hull := points_in_hull M2 + 1\<rparr>) })"

subsection \<open>Segments\<close>

record canonical =
  c0 :: point
  c1 :: point
  c2 :: point
  c3 :: point
  c_first :: int

definition get_segment :: "pla \<Rightarrow> canonical" where
  "get_segment M = (if points_in_hull M = 1 then \<lparr>c0 = r0 M, c1 = r1 M, c2 = r0 M, c3 = r1 M, c_first = first_x M\<rparr>
     else \<lparr>c0 = r0 M, c1 = r1 M, c2 = r2 M, c3 = r3 M, c_first = first_x M\<rparr>)"

definition one_point :: "canonical \<Rightarrow> bool" where
  "one_point s \<longleftrightarrow> c0 s = c2 s \<and> c1 s = c3 s"

text \<open>\<open>make_segmentation\<close>: the segments with the positions they cover; a point that does not fit
  ends the segment and is added again to the next one.\<close>

lemma add_point_False: "add_point error x y M = Some (False, M') \<Longrightarrow> points_in_hull M' = 0 \<and> 0 < points_in_hull M"
  by (auto simp: add_point_def Let_def split: if_splits Option.bind_splits)

function seg_loop :: "int \<Rightarrow> nat \<Rightarrow> (nat \<Rightarrow> int \<times> int) \<Rightarrow> nat \<Rightarrow> nat \<Rightarrow> int \<Rightarrow> pla \<Rightarrow> (nat \<times> nat \<times> canonical) list
    \<Rightarrow> (nat \<times> nat \<times> canonical) list option" where
  "seg_loop error n inp i start p opt out =
     (if i < n then
        let next_p = inp i in
        if i \<noteq> start \<and> fst next_p = p then seg_loop error n inp (i + 1) start p opt out
        else case add_point error (fst next_p) (snd next_p) opt of
          None \<Rightarrow> None
        | Some (ok, opt) \<Rightarrow>
            if ok then seg_loop error n inp (i + 1) start (fst next_p) opt out
            else seg_loop error n inp i i (fst next_p) opt (out @ [(start, i, get_segment opt)])
      else Some (out @ [(start, n, get_segment opt)]))"
  by pat_completeness auto
termination
  by (relation "measures [\<lambda>(error, n, inp, i, start, p, opt, out). n - i, \<lambda>(error, n, inp, i, start, p, opt, out). points_in_hull opt]")
    (auto dest: add_point_False)

declare seg_loop.simps [simp del]

definition make_segmentation :: "nat \<Rightarrow> int \<Rightarrow> (nat \<Rightarrow> int \<times> int) \<Rightarrow> (nat \<times> nat \<times> canonical) list option" where
  "make_segmentation n error inp =
     (if n = 0 then Some []
      else do { (ok, opt) \<leftarrow> add_point error (fst (inp 0)) (snd (inp 0)) pla_new; seg_loop error n inp 1 0 (fst (inp 0)) opt [] })"

end
