(* ===== verification/Pgm_Index.thy ===== *)
theory Pgm_Index
  imports Pla Floats Search_Base "HOL-Library.Signed_Division"
begin

text \<open>
  The static PGM index (\<open>PGM-index/include/pgm_index.hpp\<close>): the segments of the keys, the segments of
  the first keys of these segments, and so on to a level of one segment. Each level ends in a segment
  with the greatest key, whose intercept is the size of the level below. A segment stores its slope
  as \<open>double\<close> and its intercept as \<open>int32_t\<close>, both computed in \<open>long double\<close>. \<open>None\<close> is an exception, a
  conversion of a number that does not fit, a read outside the segments, or a loop that does not end.
\<close>

subsection \<open>The line of a segment\<close>

text \<open>\<open>CanonicalSegment\<close>: the crossing of the two extreme lines, and the line through it with their
  mean slope\<close>

definition get_intersection :: "canonical \<Rightarrow> rat \<times> rat" where
  "get_intersection s =
     (let p0 = c0 s; slope1 = point_minus (c2 s) p0; slope2 = point_minus (c3 s) (c1 s) in
      if one_point s \<or> slope_eq slope1 slope2 then (ldbl (of_int (px p0)), ldbl (of_int (py p0)))
      else let p0p1 = point_minus (c1 s) p0;
             a = dx slope1 * dy slope2 - dy slope1 * dx slope2;
             b = ldbl (ldbl (of_int (dx p0p1 * dy slope2 - dy p0p1 * dx slope2)) / ldbl (of_int a));
             i_x = ldbl (ldbl (of_int (px p0)) + ldbl (b * ldbl (of_int (dx slope1))));
             i_y = ldbl (ldbl (of_int (py p0)) + ldbl (b * ldbl (of_int (dy slope1)))) in
        (i_x, i_y))"

definition slope_value :: "slope \<Rightarrow> rat" where
  "slope_value s = ldbl (ldbl (of_int (dy s)) / ldbl (of_int (dx s)))"

definition get_slope_range :: "canonical \<Rightarrow> rat \<times> rat" where
  "get_slope_range s = (slope_value (point_minus (c2 s) (c0 s)), slope_value (point_minus (c3 s) (c1 s)))"

definition get_floating_point_segment :: "canonical \<Rightarrow> u64 \<Rightarrow> rat \<times> rat" where
  "get_floating_point_segment s org =
     (if one_point s then (0, ldbl (of_int ((py (c0 s) + py (c1 s)) sdiv 2)))
      else let (i_x, i_y) = get_intersection s; (min_slope, max_slope) = get_slope_range s;
             slope = ldbl (ldbl (min_slope + max_slope) / 2);
             intercept = ldbl (i_y - ldbl (ldbl (i_x - ldbl (of_int (uint org))) * slope)) in
        (slope, intercept))"

subsection \<open>Segments\<close>

record seg =
  seg_key :: u64
  seg_slope :: rat
  seg_intercept :: int

text \<open>Conversions to \<open>int32_t\<close> and \<open>int64_t\<close>; a number that does not fit has no defined result.\<close>

definition to_int :: "nat \<Rightarrow> int \<Rightarrow> int option" where
  "to_int w i = (if - (2 ^ (w - 1)) \<le> i \<and> i < 2 ^ (w - 1) then Some i else None)"

definition last_segment :: "nat \<Rightarrow> seg" where
  "last_segment n = \<lparr>seg_key = - 1, seg_slope = 0, seg_intercept = sint (of_nat n :: 32 word)\<rparr>"

definition flat_segment :: "u64 \<Rightarrow> nat \<Rightarrow> seg option" where
  "flat_segment key n = do {
     intercept \<leftarrow> to_int 32 (trunc (dbl (of_nat n)));
     Some \<lparr>seg_key = key, seg_slope = 0, seg_intercept = intercept\<rparr> }"

definition new_segment :: "canonical \<Rightarrow> seg option" where
  "new_segment cs =
     (let key = word_of_int (c_first cs); (cs_slope, cs_intercept) = get_floating_point_segment cs key in
      if cs_intercept > 2147483647 then None
      else do {
        intercept \<leftarrow> to_int 32 (round_away cs_intercept);
        Some \<lparr>seg_key = key, seg_slope = dbl cs_slope, seg_intercept = intercept\<rparr> })"

text \<open>\<open>operator()\<close>\<close>

definition seg_pos :: "seg \<Rightarrow> u64 \<Rightarrow> nat option" where
  "seg_pos s k = do {
     p \<leftarrow> to_int 64 (trunc (dbl (seg_slope s * dbl (of_int (uint (k - seg_key s))))));
     pos \<leftarrow> to_int 64 (p + seg_intercept s);
     Some (if pos > 0 then nat pos else 0) }"

subsection \<open>Construction\<close>

record pgm_index =
  pgm_n :: nat
  first_key :: u64
  segments :: "seg list"
  levels_sizes :: "nat list"
  levels_offsets :: "nat list"

text \<open>The last of a run of equal keys is given the next key, if that is not in use.\<close>

definition in_fun :: "u64 list \<Rightarrow> nat \<Rightarrow> int \<times> int" where
  "in_fun ks i =
     (let x = ks ! i in
      if i > 0 \<and> i + 1 < length ks \<and> x = ks ! (i - 1) \<and> x \<noteq> ks ! (i + 1) \<and> x + 1 \<noteq> ks ! (i + 1)
      then (uint (x + 1), int i) else (uint x, int i))"

definition in_fun_rec :: "seg list \<Rightarrow> nat \<Rightarrow> nat \<Rightarrow> int \<times> int" where
  "in_fun_rec segs offset i = (uint (seg_key (segs ! (offset + i))), int i)"

text \<open>\<open>make_segmentation_par\<close> with its parallelism of 1: one chunk, whose segments are renumbered\<close>

fun renumber :: "nat \<Rightarrow> (nat \<times> nat \<times> canonical) list \<Rightarrow> (nat \<times> nat \<times> canonical) list" where
  "renumber start [] = []"
| "renumber start ((_, end', cs) # r) = (start, end', cs) # renumber end' r"

definition make_segmentation_par :: "nat \<Rightarrow> int \<Rightarrow> (nat \<Rightarrow> int \<times> int) \<Rightarrow> (nat \<times> nat \<times> canonical) list option" where
  "make_segmentation_par n error inp =
     (if n < 2 ^ 20 then make_segmentation n error inp
      else map_option (renumber 0) (make_segmentation n error inp))"

text \<open>\<open>out_fun\<close> on every segment, then \<open>back_check\<close>: the segments of one level and their number\<close>

definition back_check :: "u64 \<Rightarrow> nat \<Rightarrow> seg list \<Rightarrow> nat \<Rightarrow> (seg list \<times> nat) option" where
  "back_check last_key last_n segs n_segments =
     (if segs = [] then None
      else do {
        (segs, n_segments) \<leftarrow> (if seg_slope (last segs) = 0 then do { s \<leftarrow> flat_segment (last_key + 1) last_n; Some (segs @ [s], n_segments + 1) }
          else Some (segs, n_segments));
        Some (segs @ [last_segment last_n], n_segments) })"

definition new_level :: "u64 \<Rightarrow> nat \<Rightarrow> seg list \<Rightarrow> (nat \<times> nat \<times> canonical) list \<Rightarrow> (seg list \<times> nat) option" where
  "new_level last_key last_n segs out = do {
     new \<leftarrow> those (map (\<lambda>(start, end', cs). new_segment cs) out);
     back_check last_key last_n (segs @ new) (length out) }"

partial_function (option) upper_levels :: "nat \<Rightarrow> u64 \<Rightarrow> nat \<Rightarrow> seg list \<Rightarrow> nat list \<Rightarrow> nat list \<Rightarrow> (seg list \<times> nat list \<times> nat list) option" where
  "upper_levels RecursiveError last_key last_n segs offsets sizes =
     (if RecursiveError \<noteq> 0 \<and> last_n > 1 then do {
        let offset = offsets ! (length offsets - 2);
        out \<leftarrow> make_segmentation last_n (int RecursiveError) (in_fun_rec segs offset);
        (segs, n_segments) \<leftarrow> new_level last_key last_n segs out;
        upper_levels RecursiveError last_key n_segments segs (offsets @ [last offsets + n_segments + 1]) (sizes @ [n_segments]) }
      else Some (segs, offsets, sizes))"

declare upper_levels.simps [code]

text \<open>The greatest key is reserved for the end of a level.\<close>

definition pgm_construct :: "nat \<Rightarrow> nat \<Rightarrow> u64 list \<Rightarrow> pgm_index option" where
  "pgm_construct Error RecursiveError ks =
     (if ks = [] then None
      else let n = length ks; last_n = n - (if last ks = - 1 then 1 else 0); last_key = ks ! (last_n - 1) in
        if last_n = 0 then None
        else do {
          out \<leftarrow> make_segmentation_par last_n (int Error) (in_fun ks);
          (segs, n_segments) \<leftarrow> new_level last_key last_n [] out;
          (segs, offsets, sizes) \<leftarrow> upper_levels RecursiveError last_key n_segments segs [0, n_segments + 1] [n_segments];
          Some \<lparr>pgm_n = n, first_key = hd ks, segments = segs, levels_sizes = sizes, levels_offsets = butlast offsets\<rparr> })"

subsection \<open>Search\<close>

definition SUB_ERR :: "nat \<Rightarrow> nat \<Rightarrow> nat" where
  "SUB_ERR x error = (if x \<le> error then 0 else x - error)"

definition ADD_ERR :: "nat \<Rightarrow> nat \<Rightarrow> nat \<Rightarrow> nat" where
  "ADD_ERR x error n = (if x + error \<ge> n then n else x + error)"

definition seg_at :: "seg list \<Rightarrow> nat \<Rightarrow> seg option" where
  "seg_at segs i = (if i < length segs then Some (segs ! i) else None)"

text \<open>\<open>std::min<size_t>((*it)(key), std::next(it)->intercept)\<close>\<close>

definition capped_pos :: "seg list \<Rightarrow> nat \<Rightarrow> u64 \<Rightarrow> nat option" where
  "capped_pos segs it key = do {
     s \<leftarrow> seg_at segs it;
     s' \<leftarrow> seg_at segs (it + 1);
     pos \<leftarrow> seg_pos s key;
     Some (min pos (nat (seg_intercept s' mod 2 ^ 64))) }"

definition level_step :: "nat \<Rightarrow> u64 search_fn \<Rightarrow> seg list \<Rightarrow> nat \<Rightarrow> nat \<Rightarrow> u64 \<Rightarrow> nat \<Rightarrow> nat option" where
  "level_step RecursiveError SearchClass segs level_begin level_size key it = do {
     pos \<leftarrow> capped_pos segs it key;
     let lo = level_begin + SUB_ERR pos (RecursiveError + 1);
     let hi = level_begin + ADD_ERR pos (RecursiveError + 2) level_size;
     it \<leftarrow> SearchClass (int lo) (int hi) key (int lo) (vec_at seg_key segs) (<);
     Some (if nat it = level_begin then nat it else nat it - 1) }"

text \<open>The levels \<open>l - 1\<close> down to 0\<close>

fun descend_levels :: "nat \<Rightarrow> u64 search_fn \<Rightarrow> pgm_index \<Rightarrow> u64 \<Rightarrow> nat \<Rightarrow> nat \<Rightarrow> nat option" where
  "descend_levels RecursiveError SearchClass p key 0 it = Some it"
| "descend_levels RecursiveError SearchClass p key (Suc l) it = do {
     it \<leftarrow> level_step RecursiveError SearchClass (segments p) (levels_offsets p ! l) (levels_sizes p ! l) key it;
     descend_levels RecursiveError SearchClass p key l it }"

definition segment_for_key :: "nat \<Rightarrow> u64 search_fn \<Rightarrow> pgm_index \<Rightarrow> u64 \<Rightarrow> nat option" where
  "segment_for_key RecursiveError SearchClass p key =
     (if RecursiveError = 0 then
        let it = length (takeWhile (\<lambda>s. \<not> key < seg_key s) (take (levels_sizes p ! 0) (segments p))) in
        Some (if it = 0 then it else it - 1)
      else descend_levels RecursiveError SearchClass p key (length (levels_sizes p) - 1) (last (levels_offsets p)))"

definition find_approximate :: "nat \<Rightarrow> nat \<Rightarrow> u64 search_fn \<Rightarrow> pgm_index \<Rightarrow> u64 \<Rightarrow> (nat \<times> nat \<times> nat) option" where
  "find_approximate Error RecursiveError SearchClass p key = do {
     let k = max (first_key p) key;
     it \<leftarrow> segment_for_key RecursiveError SearchClass p k;
     pos \<leftarrow> capped_pos (segments p) it k;
     Some (pos, SUB_ERR pos Error, ADD_ERR pos (Error + 1) (pgm_n p)) }"

end
