(* ===== verification/Pla_Ok.thy ===== *)
theory Pla_Ok
  imports Pla
begin

text \<open>
  The two extreme lines of the piecewise linear model pass every point it accepted within the error,
  and a point is refused only if no line does.
\<close>

subsection \<open>Lines\<close>

definition line :: "rat \<Rightarrow> rat \<Rightarrow> int \<Rightarrow> rat" where
  "line a b z = a * of_int z + b"

definition sl :: "point \<Rightarrow> point \<Rightarrow> rat" where
  "sl p q = of_int (py q - py p) / of_int (px q - px p)"

definition lin :: "point \<Rightarrow> point \<Rightarrow> int \<Rightarrow> rat" where
  "lin p q z = of_int (py p) + sl p q * of_int (z - px p)"

lemma lin_line: "lin p q = line (sl p q) (of_int (py p) - sl p q * of_int (px p))"
  by (rule ext) (simp add: lin_def line_def algebra_simps)

lemma lin_ends: "lin p q (px p) = of_int (py p)" "px p \<noteq> px q \<Longrightarrow> lin p q (px q) = of_int (py q)"
  by (simp_all add: lin_def sl_def)

lemma line_diff: "line a b z - line c d z = (line a b u - line c d u) + (a - c) * of_int (z - u)"
  by (simp add: line_def algebra_simps)

text \<open>Two lines that cross between \<open>u\<close> and \<open>v\<close>\<close>

lemma lines_cross:
  assumes "line a b u \<le> line c d u" "line c d v \<le> line a b v" "u < v"
  shows "c \<le> a" "z \<le> u \<Longrightarrow> line a b z \<le> line c d z" "v \<le> z \<Longrightarrow> line c d z \<le> line a b z"
proof -
  have "0 \<le> (a - c) * of_int (v - u)" using line_diff [of a b v c d u] assms(1,2) by linarith
  then show ac: "c \<le> a" using assms(3) by (simp add: zero_le_mult_iff)
  show "line a b z \<le> line c d z" if "z \<le> u"
  proof -
    have "(a - c) * of_int (z - u) \<le> 0" using ac that by (simp add: mult_le_0_iff)
    then show ?thesis using line_diff [of a b z c d u] assms(1) by linarith
  qed
  show "line c d z \<le> line a b z" if "v \<le> z"
  proof -
    have "0 \<le> (a - c) * of_int (z - v)" using ac that by simp
    then show ?thesis using line_diff [of a b z c d v] assms(2) by linarith
  qed
qed

lemma line_between:
  assumes "line a b u \<le> line c d u" "line a b v \<le> line c d v" "u \<le> z" "z \<le> v"
  shows "line a b z \<le> line c d z"
proof (cases "c \<le> a")
  case True
  then have "(a - c) * of_int (z - v) \<le> 0" using assms(4) by (simp add: mult_le_0_iff)
  then show ?thesis using line_diff [of a b z c d v] assms(2) by linarith
next
  case False
  then have "(a - c) * of_int (z - u) \<le> 0" using assms(3) by (simp add: mult_le_0_iff)
  then show ?thesis using line_diff [of a b z c d u] assms(1) by linarith
qed

text \<open>The slope of a chord lies between the slopes of its parts.\<close>

lemma sl_split:
  assumes "px a < px b" "px b < px c"
  shows "sl a c * of_int (px c - px a) = sl a b * of_int (px b - px a) + sl b c * of_int (px c - px b)"
  using assms by (simp add: sl_def)

lemma sl_chord:
  assumes "px a < px b" "px b < px c"
  shows "sl a b < sl a c \<longleftrightarrow> sl a b < sl b c" "sl a b < sl a c \<longleftrightarrow> sl a c < sl b c"
    "sl a c < sl a b \<longleftrightarrow> sl b c < sl a b" "sl a c < sl a b \<longleftrightarrow> sl b c < sl a c"
proof -
  define u v where "u = (of_int (px b - px a) :: rat)" and "v = (of_int (px c - px b) :: rat)"
  have pos: "0 < u" "0 < v" using assms by (simp_all add: u_def v_def)
  have e: "sl a c * (u + v) = sl a b * u + sl b c * v" using sl_split [OF assms] by (simp add: u_def v_def)
  have 1: "(sl a c - sl a b) * (u + v) = (sl b c - sl a b) * v" "(sl a c - sl a b) * u = (sl b c - sl a c) * v"
    using e by (simp_all add: algebra_simps)
  have "0 < (sl a c - sl a b) * (u + v) \<longleftrightarrow> 0 < (sl b c - sl a b) * v" "0 < (sl a c - sl a b) * u \<longleftrightarrow> 0 < (sl b c - sl a c) * v"
    "(sl a c - sl a b) * (u + v) < 0 \<longleftrightarrow> (sl b c - sl a b) * v < 0" "(sl a c - sl a b) * u < 0 \<longleftrightarrow> (sl b c - sl a c) * v < 0"
    by (simp_all add: 1)
  then show "sl a b < sl a c \<longleftrightarrow> sl a b < sl b c" "sl a b < sl a c \<longleftrightarrow> sl a c < sl b c"
    "sl a c < sl a b \<longleftrightarrow> sl b c < sl a b" "sl a c < sl a b \<longleftrightarrow> sl b c < sl a c"
    using pos by (simp_all add: zero_less_mult_iff mult_less_0_iff not_less_iff_gr_or_eq)
qed

subsection \<open>The tests of the code\<close>

lemma cross_sl:
  assumes "px a < px b" "px a < px c"
  shows "cross a b c < 0 \<longleftrightarrow> sl a c < sl a b" "0 < cross a b c \<longleftrightarrow> sl a b < sl a c"
proof -
  have "sl a c < sl a b \<longleftrightarrow> of_int (py c - py a) * of_int (px b - px a) < (of_int (py b - py a) * of_int (px c - px a) :: rat)"
    "sl a b < sl a c \<longleftrightarrow> of_int (py b - py a) * of_int (px c - px a) < (of_int (py c - py a) * of_int (px b - px a) :: rat)"
    using assms by (simp_all add: sl_def divide_less_eq less_divide_eq field_simps)
  then show "cross a b c < 0 \<longleftrightarrow> sl a c < sl a b" "0 < cross a b c \<longleftrightarrow> sl a b < sl a c"
    unfolding of_int_mult [symmetric] of_int_less_iff by (auto simp: cross_def Let_def point_minus_def algebra_simps)
qed

lemma slope_less_right:
  assumes "px a < px b" "px c < px d"
  shows "slope_less (point_minus b a) (point_minus d c) \<longleftrightarrow> sl a b < sl c d"
    "slope_greater (point_minus b a) (point_minus d c) \<longleftrightarrow> sl c d < sl a b"
proof -
  have "sl a b < sl c d \<longleftrightarrow> of_int (py b - py a) * of_int (px d - px c) < (of_int (py d - py c) * of_int (px b - px a) :: rat)"
    "sl c d < sl a b \<longleftrightarrow> of_int (py d - py c) * of_int (px b - px a) < (of_int (py b - py a) * of_int (px d - px c) :: rat)"
    using assms by (simp_all add: sl_def divide_less_eq less_divide_eq field_simps)
  then show "slope_less (point_minus b a) (point_minus d c) \<longleftrightarrow> sl a b < sl c d"
    "slope_greater (point_minus b a) (point_minus d c) \<longleftrightarrow> sl c d < sl a b"
    unfolding of_int_mult [symmetric] of_int_less_iff by (auto simp: slope_less_def slope_greater_def point_minus_def algebra_simps)
qed

lemma sl_sym: "sl a b = sl b a"
proof -
  have "(of_int (py b - py a) :: rat) = - of_int (py a - py b)" "(of_int (px b - px a) :: rat) = - of_int (px a - px b)" by simp_all
  then show ?thesis unfolding sl_def by (metis minus_divide_divide)
qed

text \<open>Both differences point to the left in the search for the extreme slope.\<close>

lemma slope_greater_left:
  assumes "px a < px p" "px b < px p"
  shows "slope_greater (point_minus b p) (point_minus a p) \<longleftrightarrow> sl a p < sl b p"
  using slope_less_right(2) [OF assms(2,1)]
  by (simp add: slope_greater_def point_minus_def algebra_simps)

text \<open>A point to the right of a line\<close>

lemma sl_lin:
  assumes "px a < px q"
  shows "sl a q < sl a b \<longleftrightarrow> of_int (py q) < lin a b (px q)" "sl a b < sl a q \<longleftrightarrow> lin a b (px q) < of_int (py q)"
proof -
  have "of_int (py q) = of_int (py a) + sl a q * of_int (px q - px a)" using assms by (simp add: sl_def)
  then have e: "of_int (py q) - lin a b (px q) = (sl a q - sl a b) * of_int (px q - px a)" by (simp add: lin_def algebra_simps)
  have w: "0 < (of_int (px q - px a) :: rat)" using assms by simp
  have "of_int (py q) - lin a b (px q) < 0 \<longleftrightarrow> sl a q - sl a b < 0" "0 < of_int (py q) - lin a b (px q) \<longleftrightarrow> 0 < sl a q - sl a b"
    unfolding e using w by (simp_all add: mult_less_0_iff zero_less_mult_iff)
  then show "sl a q < sl a b \<longleftrightarrow> of_int (py q) < lin a b (px q)" "sl a b < sl a q \<longleftrightarrow> lin a b (px q) < of_int (py q)"
    by simp_all
qed

subsection \<open>The search for the extreme slope\<close>

text \<open>A chain of points that turns to the right at every point\<close>

definition right_turns :: "point list \<Rightarrow> bool" where
  "right_turns qs \<longleftrightarrow> sorted_wrt (\<lambda>a b. px a < px b) qs
     \<and> (\<forall>i. i + 2 < length qs \<longrightarrow> cross (qs ! i) (qs ! (i + 1)) (qs ! (i + 2)) < 0)"

lemma right_turns_drop: "right_turns qs \<Longrightarrow> right_turns (drop k qs)"
  by (auto simp: right_turns_def sorted_wrt_drop add.assoc)

lemma right_turns_take: "right_turns qs \<Longrightarrow> right_turns (take k qs)"
  by (auto simp: right_turns_def sorted_wrt_take)

text \<open>Seen from the right, the slopes to the points of the chain fall and then rise.\<close>

lemma right_turns_unimodal:
  assumes c: "right_turns qs" "\<forall>q\<in>set qs. px q < px p" and i: "i + 2 < length qs"
    and s: "sl (qs ! i) p \<le> sl (qs ! (i + 1)) p"
  shows "sl (qs ! (i + 1)) p < sl (qs ! (i + 2)) p"
proof -
  let ?a = "qs ! i" and ?b = "qs ! (i + 1)" and ?c = "qs ! (i + 2)"
  have "sorted_wrt (\<lambda>a b. px a < px b) qs" using c(1) by (simp add: right_turns_def)
  from sorted_wrt_nth_less [OF this] have x: "px ?a < px ?b" "px ?b < px ?c" "px ?c < px p" using c(2) i by simp_all
  have "cross ?a ?b ?c < 0" using c(1) i by (simp add: right_turns_def)
  then have "sl ?b ?c < sl ?a ?b" using cross_sl(1) [of ?a ?b ?c] sl_chord(3) [of ?a ?b ?c] x by simp
  moreover have "sl ?a ?b \<le> sl ?b p" using s sl_chord(4) [of ?a ?b p] sl_chord(3) [of ?a ?b p] x by (metis less_trans not_less)
  ultimately have "sl ?b ?c < sl ?b p" by (rule less_le_trans)
  then show ?thesis using sl_chord(2) [of ?b ?c p] x by simp
qed

lemma unimodal_rises:
  fixes s :: "nat \<Rightarrow> rat"
  assumes u: "\<And>i. i + 2 < n \<Longrightarrow> s i \<le> s (i + 1) \<Longrightarrow> s (i + 1) < s (i + 2)" and r: "s i \<le> s (i + 1)"
  shows "i + 1 \<le> j \<Longrightarrow> j < n \<Longrightarrow> s (i + 1) \<le> s j \<and> (j + 1 < n \<longrightarrow> s j \<le> s (j + 1))"
proof (induction j rule: dec_induct)
  case base
  then show ?case using u [of i] r by fastforce
next
  case (step j)
  then show ?case using u [of j] by fastforce
qed

text \<open>The scan finds the least slope, of the points before a last one that is worse than all.\<close>

lemma extreme_from_least:
  fixes s :: "nat \<Rightarrow> rat"
  assumes u: "\<And>i. i + 2 < n \<Longrightarrow> s i \<le> s (i + 1) \<Longrightarrow> s (i + 1) < s (i + 2)"
    and w: "\<And>i j. i < n \<Longrightarrow> j < n \<Longrightarrow> worse (point_minus (h (start + j)) p) (point_minus (h (start + i)) p) \<longleftrightarrow> s i < s j"
    and l: "\<And>i j. i < n \<Longrightarrow> n \<le> j \<Longrightarrow> j < m \<Longrightarrow> worse (point_minus (h (start + j)) p) (point_minus (h (start + i)) p)"
    and n: "n \<le> m"
  shows "i + left = m \<Longrightarrow> 0 < i \<Longrightarrow> i \<le> n \<Longrightarrow> \<forall>j<i. s (i - 1) \<le> s j \<Longrightarrow>
    \<exists>k<n. extreme_from worse h p (start + i) left (point_minus (h (start + (i - 1))) p) (start + (i - 1)) = start + k \<and> (\<forall>j<n. s k \<le> s j)"
proof (induction left arbitrary: i)
  case 0
  then show ?case using n by (intro exI [of _ "i - 1"]) auto
next
  case (Suc left)
  have i: "i - 1 < n" "i - 1 + 1 = i" using Suc.prems by auto
  show ?case
  proof (cases "i < n \<and> s i \<le> s (i - 1)")
    case True
    then have nw: "\<not> worse (point_minus (h (start + i)) p) (point_minus (h (start + (i - 1))) p)" using w [OF i(1), of i] by auto
    have "\<forall>j<i + 1. s i \<le> s j" using Suc.prems(4) True by (auto simp: less_Suc_eq intro: order_trans)
    then have "\<exists>k<n. extreme_from worse h p (start + (i + 1)) left (point_minus (h (start + (i + 1 - 1))) p) (start + (i + 1 - 1)) = start + k \<and> (\<forall>j<n. s k \<le> s j)"
      using Suc.IH [of "i + 1"] Suc.prems(1) True by simp
    then show ?thesis using nw by (simp add: Let_def)
  next
    case False
    have wr: "worse (point_minus (h (start + i)) p) (point_minus (h (start + (i - 1))) p)"
    proof (cases "i < n")
      case True
      then show ?thesis using w [OF i(1), of i] False by auto
    next
      case False
      then show ?thesis using l [OF i(1), of i] Suc.prems(1) by simp
    qed
    have "s (i - 1) \<le> s j" if "j < n" for j
    proof (cases "j < i")
      case True
      then show ?thesis using Suc.prems(4) by simp
    next
      case F: False
      then have "s (i - 1) \<le> s i" using False that by auto
      then show ?thesis using unimodal_rises [OF u, where i = "i - 1" and j = j] F i(2) that by fastforce
    qed
    then show ?thesis using wr i(1) by (intro exI [of _ "i - 1"]) (simp add: Let_def)
  qed
qed

lemma extreme_least:
  assumes c: "right_turns qs" "\<forall>q\<in>set qs. px q < px p" "qs \<noteq> []"
    and h: "\<And>i. i < length qs \<Longrightarrow> h (start + i) = qs ! i"
    and l: "\<And>j. start + length qs \<le> j \<Longrightarrow> j < n \<Longrightarrow> px (h j) = px p \<and> py p > py (h j)"
    and n: "start + length qs \<le> n"
  shows "\<exists>k<length qs. extreme slope_greater h n p start = Some (start + k) \<and> (\<forall>q\<in>set qs. sl (qs ! k) p \<le> sl q p)"
proof -
  let ?s = "\<lambda>i. sl (qs ! i) p" and ?m = "n - start"
  have w: "slope_greater (point_minus (h (start + j)) p) (point_minus (h (start + i)) p) \<longleftrightarrow> ?s i < ?s j"
    if "i < length qs" "j < length qs" for i j
    using slope_greater_left [of "qs ! i" p "qs ! j"] c(2) that by (simp add: h)
  have l': "slope_greater (point_minus (h (start + j)) p) (point_minus (h (start + i)) p)"
    if "i < length qs" "length qs \<le> j" "j < ?m" for i j
  proof -
    have "px (h (start + j)) = px p" "py (h (start + j)) < py p" using l [of "start + j"] that by auto
    moreover have "px (h (start + i)) < px p" using c(2) that(1) by (simp add: h)
    ultimately show ?thesis by (simp add: slope_greater_def point_minus_def mult_neg_neg)
  qed
  have "1 + (n - (start + 1)) = ?m" using n c(3) by (cases qs) auto
  from extreme_from_least [where s = ?s and n = "length qs" and m = ?m and h = h and p = p and start = start and worse = slope_greater, OF _ w l' _ this]
  have "\<exists>k<length qs. extreme_from slope_greater h p (start + 1) (n - (start + 1)) (point_minus (h start) p) start = start + k
      \<and> (\<forall>j<length qs. ?s k \<le> ?s j)"
    using right_turns_unimodal [OF c(1,2)] n c(3) by (auto simp: Suc_le_eq)
  moreover have "\<not> n \<le> start" using n c(3) by (cases qs) auto
  ultimately show ?thesis by (auto simp: extreme_def in_set_conv_nth)
qed

lemma hull_end_ok:
  "start < n \<Longrightarrow> start + 1 \<le> hull_end pop h p start n \<and> hull_end pop h p start n \<le> n
    \<and> (start + 2 \<le> hull_end pop h p start n \<longrightarrow> \<not> pop (cross (h (hull_end pop h p start n - 2)) (h (hull_end pop h p start n - 1)) p))
    \<and> (\<forall>k. hull_end pop h p start n \<le> k \<and> k < n \<longrightarrow> pop (cross (h (k - 1)) (h k) p))"
proof (induction n)
  case (Suc n)
  show ?case
  proof (cases "start + 2 \<le> Suc n \<and> pop (cross (h (n - 1)) (h n) p)")
    case True
    then have "start < n" by simp
    then show ?thesis using Suc.IH True by (auto simp: less_Suc_eq)
  next
    case False
    then show ?thesis using Suc.prems by (auto simp: numeral_2_eq_2)
  qed
qed simp

subsection \<open>The invariant\<close>

definition below :: "(int \<Rightarrow> rat) \<Rightarrow> point list \<Rightarrow> bool" where
  "below f ps \<longleftrightarrow> (\<forall>p\<in>set ps. f (px p) \<le> of_int (py p))"

definition above :: "(int \<Rightarrow> rat) \<Rightarrow> point list \<Rightarrow> bool" where
  "above f ps \<longleftrightarrow> (\<forall>p\<in>set ps. of_int (py p) \<le> f (px p))"

definition raised :: "int \<Rightarrow> point \<Rightarrow> point" where
  "raised e p = p\<lparr>py := py p + e\<rparr>"

lemma px_raised [simp]: "px (raised e p) = px p" "py (raised e p) = py p + e"
  by (simp_all add: raised_def)

definition upts :: "int \<Rightarrow> pla \<Rightarrow> point list" where
  "upts e M = map (raised e) (drop (upper_start M) (upper M))"

definition lpts :: "int \<Rightarrow> pla \<Rightarrow> point list" where
  "lpts e M = map (raised (- e)) (drop (lower_start M) (lower M))"

definition mirror :: "point \<Rightarrow> point" where
  "mirror p = p\<lparr>py := - py p\<rparr>"

lemma px_mirror [simp]: "px (mirror p) = px p" "py (mirror p) = - py p" "mirror (mirror p) = p"
  by (simp_all add: mirror_def)

text \<open>The points of \<open>PU\<close> bound the lines from above, the points of \<open>PL\<close> from below: both extreme lines
  keep all bounds, and the bounds of the two hulls imply all others.\<close>

definition extreme_inv :: "int \<Rightarrow> point list \<Rightarrow> point list \<Rightarrow> pla \<Rightarrow> bool" where
  "extreme_inv e PU PL M \<longleftrightarrow> {r0 M, r3 M} \<subseteq> set PU \<and> {r1 M, r2 M} \<subseteq> set PL \<and> px (r0 M) < px (r2 M) \<and> px (r1 M) < px (r3 M)
     \<and> below (lin (r0 M) (r2 M)) PU \<and> above (lin (r0 M) (r2 M)) PL \<and> below (lin (r1 M) (r3 M)) PU \<and> above (lin (r1 M) (r3 M)) PL
     \<and> upts e M \<noteq> [] \<and> lpts e M \<noteq> [] \<and> set (upts e M) \<subseteq> set PU \<and> set (lpts e M) \<subseteq> set PL
     \<and> right_turns (map mirror (upts e M)) \<and> right_turns (lpts e M)
     \<and> (\<forall>a b. below (line a b) (upts e M) \<and> above (line a b) (lpts e M) \<longrightarrow> below (line a b) PU \<and> above (line a b) PL)"

lemma extreme_invD:
  assumes "extreme_inv e PU PL M"
  shows "r0 M \<in> set PU" "r3 M \<in> set PU" "r1 M \<in> set PL" "r2 M \<in> set PL" "px (r0 M) < px (r2 M)" "px (r1 M) < px (r3 M)"
    "below (lin (r0 M) (r2 M)) PU" "above (lin (r0 M) (r2 M)) PL" "below (lin (r1 M) (r3 M)) PU" "above (lin (r1 M) (r3 M)) PL"
    "upts e M \<noteq> []" "lpts e M \<noteq> []" "set (upts e M) \<subseteq> set PU" "set (lpts e M) \<subseteq> set PL"
    "right_turns (map mirror (upts e M))" "right_turns (lpts e M)"
    "\<And>a b. below (line a b) (upts e M) \<Longrightarrow> above (line a b) (lpts e M) \<Longrightarrow> below (line a b) PU \<and> above (line a b) PL"
  using assms by (auto simp: extreme_inv_def)

text \<open>Every line that keeps all bounds lies between the two extreme lines to the right of the rectangle.\<close>

lemma feasible_between:
  assumes inv: "extreme_inv e PU PL M" and f: "below (line a b) PU" "above (line a b) PL"
  shows "px (r2 M) \<le> z \<Longrightarrow> lin (r0 M) (r2 M) z \<le> line a b z" "px (r3 M) \<le> z \<Longrightarrow> line a b z \<le> lin (r1 M) (r3 M) z"
    "sl (r0 M) (r2 M) \<le> a" "a \<le> sl (r1 M) (r3 M)"
proof -
  note i = extreme_invD [OF inv]
  have 1: "line a b (px (r0 M)) \<le> lin (r0 M) (r2 M) (px (r0 M))" "lin (r0 M) (r2 M) (px (r2 M)) \<le> line a b (px (r2 M))"
    using f i(1,4,5) lin_ends [of "r0 M" "r2 M"] by (auto simp: below_def above_def)
  have 2: "lin (r1 M) (r3 M) (px (r1 M)) \<le> line a b (px (r1 M))" "line a b (px (r3 M)) \<le> lin (r1 M) (r3 M) (px (r3 M))"
    using f i(2,3,6) lin_ends [of "r1 M" "r3 M"] by (auto simp: below_def above_def)
  show "sl (r0 M) (r2 M) \<le> a" "px (r2 M) \<le> z \<Longrightarrow> lin (r0 M) (r2 M) z \<le> line a b z"
    using lines_cross(1,3) [OF 1 [unfolded lin_line] i(5)] by (simp_all add: lin_line)
  show "a \<le> sl (r1 M) (r3 M)" "px (r3 M) \<le> z \<Longrightarrow> line a b z \<le> lin (r1 M) (r3 M) z"
    using lines_cross(1,3) [OF 2 [unfolded lin_line] i(6)] by (simp_all add: lin_line)
qed

text \<open>A new bound from above that the line of the greatest slope keeps\<close>

lemma extreme_inv_keep:
  assumes inv: "extreme_inv e PU PL M" and x: "px (r3 M) \<le> px p1"
    and lo: "lin (r0 M) (r2 M) (px p1) \<le> of_int (py p1)" and hi: "lin (r1 M) (r3 M) (px p1) \<le> of_int (py p1)"
  shows "extreme_inv e (p1 # PU) PL M"
proof -
  note i = extreme_invD [OF inv]
  have "below (line a b) (p1 # PU)" if "below (line a b) PU" "above (line a b) PL" for a b
    using feasible_between(2) [OF inv that x] hi that by (auto simp: below_def)
  then show ?thesis using i lo hi unfolding extreme_inv_def by (auto simp: below_def)
qed

subsection \<open>Moving the line of the greatest slope\<close>

lemma right_turns_snoc:
  assumes "right_turns qs" "\<forall>q\<in>set qs. px q < px p"
    and "2 \<le> length qs \<Longrightarrow> cross (qs ! (length qs - 2)) (qs ! (length qs - 1)) p < 0"
  shows "right_turns (qs @ [p])"
proof -
  have "cross ((qs @ [p]) ! i) ((qs @ [p]) ! (i + 1)) ((qs @ [p]) ! (i + 2)) < 0" if "i + 2 < length (qs @ [p])" for i
  proof (cases "i + 2 < length qs")
    case True
    then show ?thesis using assms(1) by (simp add: right_turns_def nth_append)
  next
    case False
    then have "length qs = i + 2" using that by simp
    then show ?thesis using assms(3) by (simp add: nth_append)
  qed
  then show ?thesis using assms(1,2) by (simp add: right_turns_def sorted_wrt_append)
qed

lemma cross_mirror: "cross (mirror a) (mirror b) (mirror c) = - cross a b c"
  by (simp add: cross_def Let_def point_minus_def algebra_simps)

lemma hull_at_raised: "hull_at e h i = raised e (h ! i)"
  by (simp add: hull_at_def raised_def)

text \<open>The points the new one makes superfluous are bounds that follow from the rest.\<close>

lemma hull_popped:
  fixes h :: "nat \<Rightarrow> point" and H :: "point list"
  assumes H: "\<And>i. i < length H \<Longrightarrow> h (start + i) = H ! i" and n: "n = start + length H" and ne: "H \<noteq> []"
    and t: "right_turns (map mirror H)" and x: "\<forall>q\<in>set H. px q < px p1"
  defines "e \<equiv> hull_end (\<lambda>c. c \<le> 0) h p1 start n"
  shows "start < e" "e \<le> n" "right_turns (map mirror (take (e - start) H @ [p1]))"
    "below (line a b) (take (e - start) H @ [p1]) \<Longrightarrow> below (line a b) H"
proof -
  have "start < n" using n ne by simp
  note ok = hull_end_ok [OF this, of "\<lambda>c. c \<le> 0" h p1, folded e_def]
  show e: "start < e" "e \<le> n" using ok by simp_all
  have px: "px (H ! i) < px (H ! j)" if "i < j" "j < length H" for i j
  proof -
    have "sorted_wrt (\<lambda>a b. px a < px b) (map mirror H)" using t by (simp add: right_turns_def)
    from sorted_wrt_nth_less [OF this that(1)] show ?thesis using that by simp
  qed
  let ?T = "take (e - start) H"
  have len: "length ?T = e - start" using e n by simp
  have "right_turns (map mirror ?T @ [mirror p1])"
  proof (rule right_turns_snoc)
    show "right_turns (map mirror ?T)" using right_turns_take [OF t] by (simp add: take_map)
    show "\<forall>q\<in>set (map mirror ?T). px q < px (mirror p1)" using x by (auto dest: in_set_takeD)
    assume "2 \<le> length (map mirror ?T)"
    then have "2 \<le> e - start" using len by simp
    then have 2: "start + 2 \<le> e" by arith
    then have "0 < cross (h (e - 2)) (h (e - 1)) p1" using ok by simp
    moreover have "h (e - 2) = H ! (e - start - 2)" "h (e - 1) = H ! (e - start - 1)"
      using H [of "e - start - 2"] H [of "e - start - 1"] 2 e n by simp_all
    ultimately show "cross (map mirror ?T ! (length (map mirror ?T) - 2)) (map mirror ?T ! (length (map mirror ?T) - 1)) (mirror p1) < 0"
      using 2 len e n by (simp add: cross_mirror)
  qed
  then show "right_turns (map mirror (take (e - start) H @ [p1]))" by simp
  assume b: "below (line a b) (?T @ [p1])"
  have "line a b (px (H ! i)) \<le> of_int (py (H ! i))" if "i < length H" for i
    using that
  proof (induction i)
    case 0
    have "H ! 0 \<in> set ?T" using e(1) ne len by (auto simp: in_set_conv_nth intro!: exI [of _ 0])
    then show ?case using b by (simp add: below_def)
  next
    case (Suc i)
    show ?case
    proof (cases "Suc i < e - start")
      case True
      then have "H ! Suc i \<in> set ?T" using Suc.prems by (auto simp: in_set_conv_nth intro!: exI [of _ "Suc i"])
      then show ?thesis using b by (simp add: below_def)
    next
      case False
      let ?A = "H ! i" and ?B = "H ! Suc i"
      have xs: "px ?A < px ?B" "px ?B < px p1" using px [of i "Suc i"] x Suc.prems by simp_all
      have "e \<le> start + Suc i" "start + Suc i < n" using False Suc.prems n by simp_all
      then have "cross ?A ?B p1 \<le> 0" using ok H [of i] H [of "Suc i"] Suc.prems by fastforce
      then have "lin ?A p1 (px ?B) \<le> of_int (py ?B)"
        using cross_sl(2) [of ?A ?B p1] sl_lin(1) [of ?A ?B p1] xs by (simp add: not_less)
      moreover have "line a b (px ?A) \<le> lin ?A p1 (px ?A)" "line a b (px p1) \<le> lin ?A p1 (px p1)"
        using Suc b xs lin_ends [of ?A p1] by (auto simp: below_def)
      ultimately show ?thesis using line_between [of a b "px ?A" "sl ?A p1" _ "px p1" "px ?B"] xs unfolding lin_line by fastforce
    qed
  qed
  then show "below (line a b) H" by (auto simp: below_def in_set_conv_nth)
qed

lemma lin_left:
  assumes "px a < px p" "px b < px p" "sl a p \<le> sl b p"
  shows "of_int (py b) \<le> lin a p (px b)"
proof -
  have "of_int (py b) = of_int (py p) - sl b p * of_int (px p - px b)" using assms(2) by (simp add: sl_def)
  moreover have "lin a p (px b) = lin a p (px p) - sl a p * of_int (px p - px b)" by (simp add: lin_def algebra_simps)
  moreover have "lin a p (px p) = of_int (py p)" using assms(1) lin_ends(2) by simp
  moreover have "sl a p * of_int (px p - px b) \<le> sl b p * of_int (px p - px b)" using assms(2,3) by (intro mult_right_mono) simp_all
  ultimately show ?thesis by linarith
qed

lemma nth_hull_points:
  "i < length (upts e M) \<Longrightarrow> hull_at e (upper M) (upper_start M + i) = upts e M ! i"
  "i < length (lpts e M) \<Longrightarrow> hull_at (- e) (lower M) (lower_start M + i) = lpts e M ! i"
  by (simp_all add: upts_def lpts_def hull_at_raised)

text \<open>The new line touches the lower hull.\<close>

lemma tangent:
  assumes inv: "extreme_inv e PU PL M"
    and xL: "\<forall>l\<in>set PL. px l < px p1 \<or> px l = px p1 \<and> py l < py p1" and first: "px (hd (lpts e M)) < px p1"
  shows "\<exists>k<length (lpts e M). extreme slope_greater (hull_at (- e) (lower M)) (length (lower M)) p1 (lower_start M) = Some (lower_start M + k)
    \<and> px (lpts e M ! k) < px p1 \<and> above (lin (lpts e M ! k) p1) (lpts e M)"
proof -
  let ?G = "lpts e M" and ?P = "\<lambda>q. px q < px p1"
  note i = extreme_invD [OF inv]
  let ?qs = "takeWhile ?P ?G"
  have le: "length ?qs \<le> length ?G" by (rule length_takeWhile_le)
  have G: "px g < px p1 \<or> px g = px p1 \<and> py g < py p1" if "g \<in> set ?G" for g using xL i(14) that by blast
  have srt: "sorted_wrt (\<lambda>a b. px a < px b) ?G" using i(16) by (simp add: right_turns_def)
  have rest: "px (?G ! j) = px p1 \<and> py (?G ! j) < py p1" if "length ?qs \<le> j" "j < length ?G" for j
  proof -
    have n: "length ?qs < length ?G" using that by simp
    have "\<not> ?P (?G ! length ?qs)" using nth_length_takeWhile [OF n] .
    moreover have "px (?G ! length ?qs) \<le> px (?G ! j)"
      using sorted_wrt_nth_less [OF srt, of "length ?qs" j] that by (cases "j = length ?qs") auto
    ultimately show ?thesis using G [of "?G ! j"] that by auto
  qed
  have ne: "?qs \<noteq> []" using first i(12) by (cases ?G) auto
  have len: "length (lower M) = lower_start M + length ?G" using i(12) by (simp add: lpts_def)
  have "\<exists>k<length ?qs. extreme slope_greater (hull_at (- e) (lower M)) (length (lower M)) p1 (lower_start M) = Some (lower_start M + k)
      \<and> (\<forall>q\<in>set ?qs. sl (?qs ! k) p1 \<le> sl q p1)"
  proof (rule extreme_least [OF _ _ ne])
    show "right_turns ?qs" by (subst takeWhile_eq_take) (rule right_turns_take [OF i(16)])
    show "\<forall>q\<in>set ?qs. px q < px p1" by (auto dest: set_takeWhileD)
    show "hull_at (- e) (lower M) (lower_start M + j) = ?qs ! j" if "j < length ?qs" for j
      using nth_hull_points(2) [of j e M] that le takeWhile_nth [of j ?P ?G] by simp
    show "px (hull_at (- e) (lower M) j) = px p1 \<and> py (hull_at (- e) (lower M) j) < py p1"
      if "lower_start M + length ?qs \<le> j" "j < length (lower M)" for j
      using rest [of "j - lower_start M"] nth_hull_points(2) [of "j - lower_start M" e M] that len by simp
    show "lower_start M + length ?qs \<le> length (lower M)" using le len by simp
  qed
  then obtain k where k: "k < length ?qs" "extreme slope_greater (hull_at (- e) (lower M)) (length (lower M)) p1 (lower_start M) = Some (lower_start M + k)"
    "\<forall>q\<in>set ?qs. sl (?qs ! k) p1 \<le> sl q p1" by blast
  have q: "?qs ! k = ?G ! k" using takeWhile_nth [OF k(1)] .
  have x: "px (?G ! k) < px p1" using nth_mem [OF k(1)] q by (auto dest: set_takeWhileD)
  have "of_int (py g) \<le> lin (?G ! k) p1 (px g)" if g: "g \<in> set ?G" for g
  proof (cases "g \<in> set ?qs")
    case True
    then have "sl (?G ! k) p1 \<le> sl g p1" "px g < px p1" using k(3) q set_takeWhileD [OF True] by simp_all
    then show ?thesis using lin_left [OF x] by blast
  next
    case False
    obtain j where j: "j < length ?G" "g = ?G ! j" using g by (auto simp: in_set_conv_nth)
    have "length ?qs \<le> j"
    proof (rule ccontr)
      assume "\<not> length ?qs \<le> j"
      then have "g = ?qs ! j" "j < length ?qs" using j takeWhile_nth [of j ?P ?G] by simp_all
      then show False using False nth_mem by blast
    qed
    then show ?thesis using rest [of j] j lin_ends(2) [of "?G ! k" p1] x by simp
  qed
  then have "above (lin (?G ! k) p1) ?G" by (simp add: above_def)
  moreover have "k < length ?G" using k(1) le by (rule less_le_trans)
  ultimately show ?thesis using k(2) x by blast
qed

lemma update_max_ok:
  assumes inv: "extreme_inv e PU PL M" and p1: "p1 = raised e pt"
    and xU: "\<forall>u\<in>set PU. px u < px p1" and xL: "\<forall>l\<in>set PL. px l < px p1 \<or> px l = px p1 \<and> py l < py p1"
    and first: "px (hd (lpts e M)) < px p1"
    and lo: "lin (r0 M) (r2 M) (px p1) \<le> of_int (py p1)" and hi: "of_int (py p1) < lin (r1 M) (r3 M) (px p1)"
  shows "\<exists>k E. update_max e pt p1 M = Some (M\<lparr>r1 := lpts e M ! k, r3 := p1, lower_start := lower_start M + k, upper := take E (upper M) @ [pt]\<rparr>)
    \<and> upper_start M < E \<and> E \<le> length (upper M)
    \<and> extreme_inv e (p1 # PU) PL (M\<lparr>r1 := lpts e M ! k, r3 := p1, lower_start := lower_start M + k, upper := take E (upper M) @ [pt]\<rparr>)"
proof -
  note i = extreme_invD [OF inv]
  let ?H = "upts e M" and ?G = "lpts e M"
  obtain k where k: "k < length ?G" "extreme slope_greater (hull_at (- e) (lower M)) (length (lower M)) p1 (lower_start M) = Some (lower_start M + k)"
    "px (?G ! k) < px p1" "above (lin (?G ! k) p1) ?G" using tangent [OF inv xL first] by blast
  define q where "q = ?G ! k"
  define E where "E = hull_end (\<lambda>c. c \<le> 0) (hull_at e (upper M)) p1 (upper_start M) (length (upper M))"
  have lenU: "length (upper M) = upper_start M + length ?H" using i(11) by (simp add: upts_def)
  have xH: "\<forall>q\<in>set ?H. px q < px p1" using xU i(13) by blast
  note pop = hull_popped [OF nth_hull_points(1) lenU i(11,15) xH, folded E_def]
  define M' where "M' = M\<lparr>r1 := q, r3 := p1, lower_start := lower_start M + k, upper := take E (upper M) @ [pt]\<rparr>"
  have upd: "update_max e pt p1 M = Some M'"
    using k nth_hull_points(2) [of k e M] by (simp add: update_max_def E_def M'_def q_def Let_def)
  have H': "upts e M' = take (E - upper_start M) ?H @ [p1]"
    using pop(1,2) p1 by (simp add: upts_def M'_def take_map drop_take)
  have G': "lpts e M' = drop k ?G" by (simp add: lpts_def M'_def drop_map add.commute)
  have qL: "q \<in> set PL" "q \<in> set ?G" using k(1) i(14) nth_mem [of k ?G] by (auto simp: q_def)
  have L': "lin q p1 (px q) = of_int (py q)" "lin q p1 (px p1) = of_int (py p1)" using k(3) lin_ends [of q p1] by (simp_all add: q_def)
  have xq: "px q < px p1" using k(3) by (simp add: q_def)
  have bl: "below (lin q p1) PU"
    unfolding below_def
  proof
    fix u assume u: "u \<in> set PU"
    show "lin q p1 (px u) \<le> of_int (py u)"
    proof (cases "px q \<le> px u")
      case True
      have "lin q p1 (px q) \<le> lin (r1 M) (r3 M) (px q)" "lin q p1 (px p1) \<le> lin (r1 M) (r3 M) (px p1)"
        using i(10) qL(1) L' hi by (auto simp: above_def)
      then have "lin q p1 (px u) \<le> lin (r1 M) (r3 M) (px u)"
        using line_between [of _ _ "px q" _ _ "px p1" "px u"] True bspec [OF xU u] unfolding lin_line by simp
      then show ?thesis using i(9) u by (force simp: below_def)
    next
      case False
      have "lin q p1 (px q) \<le> lin (r0 M) (r2 M) (px q)" "lin (r0 M) (r2 M) (px p1) \<le> lin q p1 (px p1)"
        using i(8) qL(1) L' lo by (auto simp: above_def)
      then have "lin q p1 (px u) \<le> lin (r0 M) (r2 M) (px u)"
        using lines_cross(2) [OF _ _ xq] False unfolding lin_line by fastforce
      then show ?thesis using i(7) u by (force simp: below_def)
    qed
  qed
  have "below (lin q p1) ?H" "above (lin q p1) ?G" using bl i(13) k(4) by (auto simp: below_def q_def)
  then have ab: "above (lin q p1) PL" using i(17) unfolding lin_line by blast
  have all: "below (line a b) (p1 # PU) \<and> above (line a b) PL" if h: "below (line a b) (upts e M')" "above (line a b) (lpts e M')" for a b
  proof -
    have H: "below (line a b) ?H" using pop(4) h(1) H' by simp
    have "q \<in> set (lpts e M')" unfolding G' q_def using nth_mem [of 0 "drop k ?G"] k(1) by simp
    then have pq: "line a b (px p1) \<le> of_int (py p1)" "of_int (py q) \<le> line a b (px q)"
      using h by (simp_all add: below_def above_def H')
    have "of_int (py g) \<le> line a b (px g)" if g: "g \<in> set ?G" for g
    proof -
      obtain j where j: "j < length ?G" "g = ?G ! j" using g by (auto simp: in_set_conv_nth)
      show ?thesis
      proof (cases "k \<le> j")
        case True
        then have "g \<in> set (drop k ?G)" using j by (auto simp: in_set_conv_nth intro!: exI [of _ "j - k"])
        then show ?thesis using h(2) G' by (simp add: above_def)
      next
        case False
        have "sorted_wrt (\<lambda>a b. px a < px b) ?G" using i(16) by (simp add: right_turns_def)
        from sorted_wrt_nth_less [OF this, of j k] have "px g < px q" using False k(1) j by (simp add: q_def)
        moreover have "lin q p1 (px q) \<le> line a b (px q)" "line a b (px p1) \<le> lin q p1 (px p1)" using pq L' by simp_all
        ultimately have "lin q p1 (px g) \<le> line a b (px g)" using lines_cross(2) [OF _ _ xq] unfolding lin_line by fastforce
        moreover have "of_int (py g) \<le> lin q p1 (px g)" using k(4) that by (simp add: above_def q_def)
        ultimately show ?thesis by linarith
      qed
    qed
    then have "below (line a b) PU \<and> above (line a b) PL" using i(17) H by (simp add: above_def)
    then show ?thesis using pq(1) by (simp add: below_def)
  qed
  have f: "r0 M' = r0 M" "r2 M' = r2 M" "r1 M' = q" "r3 M' = p1" by (simp_all add: M'_def)
  have "extreme_inv e (p1 # PU) PL M'"
    unfolding extreme_inv_def f
  proof (intro conjI allI impI)
    show "below (line a b) (p1 # PU)" "above (line a b) PL" if "below (line a b) (upts e M') \<and> above (line a b) (lpts e M')" for a b
      using all that by blast+
    show "set (upts e M') \<subseteq> set (p1 # PU)" unfolding H' using i(13) by (auto dest: in_set_takeD)
    show "set (lpts e M') \<subseteq> set PL" unfolding G' using i(14) by (auto dest: in_set_dropD)
    show "lpts e M' \<noteq> []" unfolding G' using k(1) by simp
    show "right_turns (lpts e M')" unfolding G' by (rule right_turns_drop [OF i(16)])
    show "right_turns (map mirror (upts e M'))" unfolding H' by (rule pop(3))
  qed (use i lo bl ab L' qL xq H' in \<open>auto simp: below_def\<close>)
  then show ?thesis using upd pop(1,2) unfolding M'_def q_def by blast
qed

subsection \<open>Moving the line of the least slope\<close>

text \<open>Upside down, the least slope is the greatest one.\<close>

definition mirror_pla :: "pla \<Rightarrow> pla" where
  "mirror_pla M = M\<lparr>lower := map mirror (upper M), upper := map mirror (lower M), lower_start := upper_start M,
     upper_start := lower_start M, r0 := mirror (r1 M), r1 := mirror (r0 M), r2 := mirror (r3 M), r3 := mirror (r2 M)\<rparr>"

lemma mirror_mirror [simp]: "mirror \<circ> mirror = id"
  by (rule ext) simp

lemma mirror_pla_sel [simp]:
  "lower (mirror_pla M) = map mirror (upper M)" "upper (mirror_pla M) = map mirror (lower M)"
  "lower_start (mirror_pla M) = upper_start M" "upper_start (mirror_pla M) = lower_start M"
  "r0 (mirror_pla M) = mirror (r1 M)" "r1 (mirror_pla M) = mirror (r0 M)"
  "r2 (mirror_pla M) = mirror (r3 M)" "r3 (mirror_pla M) = mirror (r2 M)"
  "first_x (mirror_pla M) = first_x M" "last_x (mirror_pla M) = last_x M" "points_in_hull (mirror_pla M) = points_in_hull M"
  by (simp_all add: mirror_pla_def)

lemma mirror_mirror_pla [simp]: "mirror_pla (mirror_pla M) = M"
  by (simp add: mirror_pla_def)

lemma raised_mirror: "raised e (mirror p) = mirror (raised (- e) p)"
  by (simp add: raised_def mirror_def)

lemma pts_mirror [simp]: "upts e (mirror_pla M) = map mirror (lpts e M)" "lpts e (mirror_pla M) = map mirror (upts e M)"
  by (simp_all add: upts_def lpts_def drop_map raised_mirror)

lemma lin_mirror: "lin (mirror p) (mirror q) z = - lin p q z"
proof -
  have "sl (mirror p) (mirror q) = - sl p q" by (simp add: sl_def minus_divide_left)
  then show ?thesis by (simp add: lin_def)
qed

lemma line_neg: "- line a b z = line (- a) (- b) z"
  by (simp add: line_def)

lemma bounds_mirror:
  "below f (map mirror ps) \<longleftrightarrow> above (\<lambda>z. - f z) ps" "above f (map mirror ps) \<longleftrightarrow> below (\<lambda>z. - f z) ps"
  by (auto simp: below_def above_def)

lemma extreme_inv_mirror:
  assumes "extreme_inv e PU PL M"
  shows "extreme_inv e (map mirror PL) (map mirror PU) (mirror_pla M)"
proof -
  note i = extreme_invD [OF assms]
  have all: "below (line a b) (map mirror PL) \<and> above (line a b) (map mirror PU)"
    if "below (line a b) (upts e (mirror_pla M)) \<and> above (line a b) (lpts e (mirror_pla M))" for a b
    using i(17) [of "- a" "- b"] that by (simp add: bounds_mirror line_neg)
  have l: "(\<lambda>z. - lin (mirror p) (mirror q) z) = lin p q" for p q by (simp add: lin_mirror)
  show ?thesis unfolding extreme_inv_def
    by (intro conjI allI impI) (use all i in \<open>auto simp: bounds_mirror l\<close>)
qed

lemma extreme_inv_mirror_iff:
  "extreme_inv e (map mirror PL) (map mirror PU) (mirror_pla M) \<Longrightarrow> extreme_inv e PU PL M"
  using extreme_inv_mirror [of e "map mirror PL" "map mirror PU" "mirror_pla M"] by simp

lemma point_minus_mirror: "point_minus (mirror a) (mirror b) = (point_minus a b)\<lparr>dy := - dy (point_minus a b)\<rparr>"
  by (simp add: point_minus_def)

lemma slope_mirror:
  "slope_greater (point_minus (mirror a) (mirror b)) (point_minus (mirror c) (mirror d)) \<longleftrightarrow> slope_less (point_minus a b) (point_minus c d)"
  by (simp add: point_minus_mirror slope_greater_def slope_less_def)

lemma extreme_from_mirror:
  "extreme_from slope_greater (\<lambda>i. mirror (h i)) (mirror p) i left (point_minus (mirror a) (mirror b)) j
     = extreme_from slope_less h p i left (point_minus a b) j"
  by (induction left arbitrary: i a b j) (simp_all add: slope_mirror Let_def)

lemma extreme_mirror: "extreme slope_greater (\<lambda>i. mirror (h i)) n (mirror p) start = extreme slope_less h n p start"
  by (simp add: extreme_def extreme_from_mirror)

lemma hull_end_mirror: "hull_end (\<lambda>c. c \<le> 0) (\<lambda>i. mirror (h i)) (mirror p) start n = hull_end (\<lambda>c. 0 \<le> c) h p start n"
  by (induction n) (simp_all add: cross_mirror)

lemma extreme_from_cong:
  "i + left \<le> n \<Longrightarrow> \<forall>i<n. h i = h' i \<Longrightarrow> extreme_from worse h p i left b j = extreme_from worse h' p i left b j"
  by (induction left arbitrary: i b j) (simp_all add: Let_def)

lemma extreme_cong: "\<forall>i<n. h i = h' i \<Longrightarrow> extreme worse h n p start = extreme worse h' n p start"
  using extreme_from_cong [of "start + 1" "n - (start + 1)" n h h' worse p] by (simp add: extreme_def)

lemma extreme_from_bound: "i + left \<le> n \<Longrightarrow> j < n \<Longrightarrow> extreme_from worse h p i left b j < n"
  by (induction left arbitrary: i b j) (simp_all add: Let_def)

lemma extreme_bound: "extreme worse h n p start = Some k \<Longrightarrow> k < n"
  using extreme_from_bound [of "start + 1" "n - (start + 1)" n start] by (auto simp: extreme_def split: if_splits)

lemma hull_end_cong: "\<forall>i<n. h i = h' i \<Longrightarrow> hull_end pop h p start n = hull_end pop h' p start n"
  by (induction n) auto

lemma hull_at_mirror: "i < length h \<Longrightarrow> hull_at (- e) (map mirror h) i = mirror (hull_at e h i)"
  by (simp add: hull_at_raised raised_mirror)

lemma update_min_mirror: "update_min e pt p M = map_option mirror_pla (update_max e (mirror pt) (mirror p) (mirror_pla M))"
proof -
  have 1: "extreme slope_greater (hull_at (- e) (map mirror (upper M))) (length (upper M)) (mirror p) (upper_start M)
      = extreme slope_less (hull_at e (upper M)) (length (upper M)) p (upper_start M)"
    unfolding extreme_mirror [symmetric] by (rule extreme_cong) (simp add: hull_at_mirror)
  have "\<forall>i<length (lower M). hull_at e (map mirror (lower M)) i = mirror (hull_at (- e) (lower M) i)"
    using hull_at_mirror [of _ "lower M" "- e"] by simp
  from hull_end_cong [OF this] have 2: "hull_end (\<lambda>c. c \<le> 0) (hull_at e (map mirror (lower M))) (mirror p) (lower_start M) (length (lower M))
      = hull_end (\<lambda>c. 0 \<le> c) (hull_at (- e) (lower M)) p (lower_start M) (length (lower M))"
    by (simp add: hull_end_mirror)
  show ?thesis
  proof (cases "extreme slope_less (hull_at e (upper M)) (length (upper M)) p (upper_start M)")
    case None
    then show ?thesis using 1 by (simp add: update_min_def update_max_def)
  next
    case (Some k)
    then have "k < length (upper M)" by (rule extreme_bound)
    then show ?thesis using 1 2 Some by (simp add: update_min_def update_max_def mirror_pla_def hull_at_mirror take_map Let_def)
  qed
qed

lemma update_min_ok:
  assumes inv: "extreme_inv e PU PL M" and p2: "p2 = raised (- e) pt"
    and xL: "\<forall>l\<in>set PL. px l < px p2" and xU: "\<forall>u\<in>set PU. px u < px p2 \<or> px u = px p2 \<and> py p2 < py u"
    and first: "px (hd (upts e M)) < px p2"
    and hi: "of_int (py p2) \<le> lin (r1 M) (r3 M) (px p2)" and lo: "lin (r0 M) (r2 M) (px p2) < of_int (py p2)"
  shows "\<exists>M'. update_min e pt p2 M = Some M' \<and> extreme_inv e PU (p2 # PL) M' \<and> last_x M' = last_x M
    \<and> first_x M' = first_x M \<and> points_in_hull M' = points_in_hull M"
proof -
  have m: "mirror p2 = raised e (mirror pt)" by (simp add: p2 raised_mirror)
  have "hd (upts e M) = mirror (hd (lpts e (mirror_pla M)))"
    using extreme_invD(11) [OF inv] by (cases "upts e M") simp_all
  then have "px (hd (lpts e (mirror_pla M))) < px (mirror p2)" using first by simp
  moreover have "\<forall>u\<in>set (map mirror PL). px u < px (mirror p2)" using xL by simp
  moreover have "\<forall>l\<in>set (map mirror PU). px l < px (mirror p2) \<or> px l = px (mirror p2) \<and> py l < py (mirror p2)" using xU by auto
  moreover have "lin (r0 (mirror_pla M)) (r2 (mirror_pla M)) (px (mirror p2)) \<le> of_int (py (mirror p2))"
    using hi by (simp add: lin_mirror)
  moreover have "of_int (py (mirror p2)) < lin (r1 (mirror_pla M)) (r3 (mirror_pla M)) (px (mirror p2))"
    using lo by (simp add: lin_mirror)
  ultimately obtain N where N: "update_max e (mirror pt) (mirror p2) (mirror_pla M) = Some N"
    "extreme_inv e (mirror p2 # map mirror PL) (map mirror PU) N" "last_x N = last_x M" "first_x N = first_x M" "points_in_hull N = points_in_hull M"
    using update_max_ok [OF extreme_inv_mirror [OF inv] m] by auto
  have "extreme_inv e PU (p2 # PL) (mirror_pla N)" by (rule extreme_inv_mirror_iff) (use N(2) in simp)
  then show ?thesis using N by (simp add: update_min_mirror)
qed

lemma extreme_inv_keep_below:
  assumes inv: "extreme_inv e PU PL M" and x: "px (r2 M) \<le> px p2"
    and hi: "of_int (py p2) \<le> lin (r1 M) (r3 M) (px p2)" and lo: "of_int (py p2) \<le> lin (r0 M) (r2 M) (px p2)"
  shows "extreme_inv e PU (p2 # PL) M"
proof (rule extreme_inv_mirror_iff)
  have "extreme_inv e (mirror p2 # map mirror PL) (map mirror PU) (mirror_pla M)"
    by (rule extreme_inv_keep [OF extreme_inv_mirror [OF inv]]) (use x hi lo in \<open>simp_all add: lin_mirror\<close>)
  then show "extreme_inv e (map mirror (p2 # PL)) (map mirror PU) (mirror_pla M)" by simp
qed

end
