(* ===== verification/Pla_Segments.thy ===== *)
theory Pla_Segments
  imports Pla_Ok
begin

text \<open>
  What \<open>add_point\<close> and \<open>make_segmentation\<close> of the piecewise linear model promise: a segment holds
  two lines that pass all its points within the error, and ends only where no line does.
\<close>

subsection \<open>Lines within the error\<close>

definition line_within :: "int \<Rightarrow> (int \<Rightarrow> rat) \<Rightarrow> point list \<Rightarrow> bool" where
  "line_within e f ps \<longleftrightarrow> (\<forall>p\<in>set ps. \<bar>f (px p) - of_int (py p)\<bar> \<le> of_int e)"

definition fits :: "int \<Rightarrow> rat \<Rightarrow> rat \<Rightarrow> point list \<Rightarrow> bool" where
  "fits e a b ps \<longleftrightarrow> line_within e (line a b) ps"

lemma line_within_bounds: "line_within e f ps \<longleftrightarrow> below f (map (raised e) ps) \<and> above f (map (raised (- e)) ps)"
proof -
  have "\<bar>f (px p) - of_int (py p)\<bar> \<le> of_int e \<longleftrightarrow> f (px p) \<le> of_int (py p + e) \<and> of_int (py p - e) \<le> f (px p)" for p
    by (simp add: abs_le_iff) linarith
  then show ?thesis by (auto simp: line_within_def below_def above_def)
qed

lemmas fits_bounds = fits_def [unfolded line_within_bounds]

lemma fits_subset: "fits e a b ps \<Longrightarrow> set qs \<subseteq> set ps \<Longrightarrow> fits e a b qs"
  by (auto simp: fits_def line_within_def)

lemma lin_sym:
  assumes "px a \<noteq> px b" shows "lin a b = lin b a"
proof (rule ext)
  fix z
  have "sl a b * of_int (px b - px a) = of_int (py b - py a)" using assms by (simp add: sl_def)
  then show "lin a b z = lin b a z" using sl_sym [of a b] by (simp add: lin_def algebra_simps)
qed

text \<open>The tests of \<open>add_point\<close> against the two extreme lines\<close>

lemma outside_tests:
  assumes "px a < px b" "px b < px p"
  shows "slope_less (point_minus p b) (point_minus b a) \<longleftrightarrow> of_int (py p) < lin a b (px p)"
    "slope_greater (point_minus p b) (point_minus b a) \<longleftrightarrow> lin a b (px p) < of_int (py p)"
  using slope_less_right [of b p a b] sl_lin [of b p a] sl_sym [of a b] lin_sym [of a b] assms by simp_all

lemma inside_tests:
  assumes "px a < px b" "px a < px p"
  shows "slope_less (point_minus p a) (point_minus b a) \<longleftrightarrow> of_int (py p) < lin a b (px p)"
    "slope_greater (point_minus p a) (point_minus b a) \<longleftrightarrow> lin a b (px p) < of_int (py p)"
  using slope_less_right [of a p a b] sl_lin [of a p b] assms by simp_all

subsection \<open>The state of a segment\<close>

text \<open>The points of the segment, the newest first\<close>

definition pla_ok :: "int \<Rightarrow> point list \<Rightarrow> pla \<Rightarrow> bool" where
  "pla_ok e ps M \<longleftrightarrow> ps \<noteq> [] \<and> points_in_hull M = length ps \<and> last_x M = px (hd ps) \<and> first_x M = px (last ps)
     \<and> sorted_wrt (\<lambda>a b. px b < px a) ps
     \<and> (if length ps = 1 then r0 M = raised e (hd ps) \<and> r1 M = raised (- e) (hd ps) \<and> upper M = ps \<and> lower M = ps
          \<and> upper_start M = 0 \<and> lower_start M = 0
        else extreme_inv e (map (raised e) ps) (map (raised (- e)) ps) M)"

lemma right_turns_two: "right_turns [a, b] \<longleftrightarrow> px a < px b"
  by (simp add: right_turns_def)

lemma extreme_inv_two:
  assumes e: "0 \<le> e" and x: "px p < px q"
    and M: "r0 M = raised e p" "r1 M = raised (- e) p" "r2 M = raised (- e) q" "r3 M = raised e q"
      "upper M = [p, q]" "lower M = [p, q]" "upper_start M = 0" "lower_start M = 0"
  shows "extreme_inv e (map (raised e) [q, p]) (map (raised (- e)) [q, p]) M"
proof -
  have "upts e M = [raised e p, raised e q]" "lpts e M = [raised (- e) p, raised (- e) q]"
    using M by (simp_all add: upts_def lpts_def)
  moreover have "lin (r0 M) (r2 M) (px p) = of_int (py p + e)" "lin (r0 M) (r2 M) (px q) = of_int (py q - e)"
    "lin (r1 M) (r3 M) (px p) = of_int (py p - e)" "lin (r1 M) (r3 M) (px q) = of_int (py q + e)"
    using lin_ends [of "r0 M" "r2 M"] lin_ends [of "r1 M" "r3 M"] x by (simp_all add: M)
  ultimately show ?thesis using e x unfolding extreme_inv_def by (auto simp: M right_turns_two below_def above_def)
qed

lemma add_point_first:
  assumes "points_in_hull M = 0"
  shows "\<exists>M'. add_point e x y M = Some (True, M') \<and> pla_ok e [\<lparr>px = x, py = y\<rparr>] M'"
  using assms by (simp add: add_point_def Let_def pla_ok_def raised_def)

lemma add_point_second:
  assumes e: "0 \<le> e" and M: "pla_ok e [p] M" and x: "px p < x"
  shows "\<exists>M'. add_point e x y M = Some (True, M') \<and> pla_ok e [\<lparr>px = x, py = y\<rparr>, p] M'"
proof -
  let ?q = "\<lparr>px = x, py = y\<rparr>" and ?M = "M\<lparr>last_x := x, r2 := \<lparr>px = x, py = y - e\<rparr>, r3 := \<lparr>px = x, py = y + e\<rparr>,
    upper := upper M @ [\<lparr>px = x, py = y\<rparr>], lower := lower M @ [\<lparr>px = x, py = y\<rparr>], points_in_hull := 2\<rparr>"
  have "add_point e x y M = Some (True, ?M)" using M x by (simp add: add_point_def Let_def pla_ok_def)
  moreover have "extreme_inv e (map (raised e) [?q, p]) (map (raised (- e)) [?q, p]) ?M"
    by (rule extreme_inv_two [OF e]) (use M x in \<open>auto simp: pla_ok_def raised_def\<close>)
  then have "pla_ok e [?q, p] ?M" using M x unfolding pla_ok_def by auto
  ultimately show ?thesis by blast
qed

text \<open>The two halves of \<open>add_point\<close> on a rectangle that the new point does not leave\<close>

lemma max_step:
  assumes inv: "extreme_inv e PU PL M" and e: "0 < e" and pt: "p1 = raised e pt"
    and x: "\<forall>u\<in>set PU. px u < px pt" "\<forall>l\<in>set PL. px l < px pt"
    and lo: "lin (r0 M) (r2 M) (px pt) \<le> of_int (py pt + e)" and hi: "of_int (py pt - e) \<le> lin (r1 M) (r3 M) (px pt)"
  shows "\<exists>M1. (if slope_less (point_minus p1 (r1 M)) (point_minus (r3 M) (r1 M)) then update_max e pt p1 M else Some M) = Some M1
    \<and> extreme_inv e (p1 # PU) PL M1 \<and> last_x M1 = last_x M \<and> first_x M1 = first_x M \<and> points_in_hull M1 = points_in_hull M
    \<and> r0 M1 = r0 M \<and> r2 M1 = r2 M \<and> px (hd (upts e M1)) < px pt \<and> of_int (py pt - e) \<le> lin (r1 M1) (r3 M1) (px pt)"
proof -
  note i = extreme_invD [OF inv]
  have p: "px p1 = px pt" "py p1 = py pt + e" by (simp_all add: pt)
  have test: "slope_less (point_minus p1 (r1 M)) (point_minus (r3 M) (r1 M)) \<longleftrightarrow> of_int (py pt + e) < lin (r1 M) (r3 M) (px pt)"
    using inside_tests(1) [OF i(6), of p1] i(3) x(2) p by simp
  have hd: "px (hd (upts e M)) < px pt" using i(11,13) x(1) hd_in_set by blast
  show ?thesis
  proof (cases "of_int (py pt + e) < lin (r1 M) (r3 M) (px pt)")
    case True
    have "px (hd (lpts e M)) < px p1" using i(12,14) x(2) hd_in_set p by fastforce
    moreover have "\<forall>u\<in>set PU. px u < px p1" "\<forall>l\<in>set PL. px l < px p1 \<or> px l = px p1 \<and> py l < py p1" using x p by simp_all
    ultimately obtain k E where u: "update_max e pt p1 M = Some (M\<lparr>r1 := lpts e M ! k, r3 := p1, lower_start := lower_start M + k, upper := take E (upper M) @ [pt]\<rparr>)"
      "upper_start M < E" "E \<le> length (upper M)"
      "extreme_inv e (p1 # PU) PL (M\<lparr>r1 := lpts e M ! k, r3 := p1, lower_start := lower_start M + k, upper := take E (upper M) @ [pt]\<rparr>)"
      (is "extreme_inv _ _ _ ?M1")
      using update_max_ok [OF inv pt] lo True p by auto
    have "hd (upts e ?M1) = hd (upts e M)"
      using u(2,3) by (simp add: upts_def hd_map hd_append hd_drop_conv_nth nth_append)
    moreover have "lin (r1 ?M1) (r3 ?M1) (px pt) = of_int (py p1)"
      using extreme_invD(6) [OF u(4)] lin_ends(2) [of "r1 ?M1" "r3 ?M1"] p(1) by simp
    ultimately show ?thesis using u(1,4) True test hd e p(2) by simp
  next
    case False
    have "px (r3 M) \<le> px p1" using i(2) x(1) p by fastforce
    from extreme_inv_keep [OF inv this] have "extreme_inv e (p1 # PU) PL M" using lo False p by simp
    then show ?thesis using test False hd hi by simp
  qed
qed

lemma min_step:
  assumes inv: "extreme_inv e (p1 # PU) PL M" and e: "0 < e" and pt: "p1 = raised e pt" "p2 = raised (- e) pt"
    and x: "\<forall>u\<in>set PU. px u < px pt" "\<forall>l\<in>set PL. px l < px pt" and r0: "r0 M \<in> set PU"
    and first: "px (hd (upts e M)) < px pt" and hi: "of_int (py pt - e) \<le> lin (r1 M) (r3 M) (px pt)"
  shows "\<exists>M1. (if slope_greater (point_minus p2 (r0 M)) (point_minus (r2 M) (r0 M)) then update_min e pt p2 M else Some M) = Some M1
    \<and> extreme_inv e (p1 # PU) (p2 # PL) M1 \<and> last_x M1 = last_x M \<and> first_x M1 = first_x M \<and> points_in_hull M1 = points_in_hull M"
proof -
  note i = extreme_invD [OF inv]
  have p: "px p1 = px pt" "py p1 = py pt + e" "px p2 = px pt" "py p2 = py pt - e" by (simp_all add: pt)
  have test: "slope_greater (point_minus p2 (r0 M)) (point_minus (r2 M) (r0 M)) \<longleftrightarrow> lin (r0 M) (r2 M) (px pt) < of_int (py pt - e)"
    using inside_tests(2) [OF i(5), of p2] r0 x(1) p by simp
  show ?thesis
  proof (cases "lin (r0 M) (r2 M) (px pt) < of_int (py pt - e)")
    case True
    have "\<forall>l\<in>set PL. px l < px p2" "\<forall>u\<in>set (p1 # PU). px u < px p2 \<or> px u = px p2 \<and> py p2 < py u" using x p e by auto
    then show ?thesis using update_min_ok [OF inv pt(2)] first hi True test p by simp
  next
    case False
    have "px (r2 M) \<le> px p2" using i(4) x(2) p by fastforce
    from extreme_inv_keep_below [OF inv this] have "extreme_inv e (p1 # PU) (p2 # PL) M" using hi False p by simp
    then show ?thesis using test False by simp
  qed
qed

lemma extreme_inv_upd [simp]:
  "extreme_inv e PU PL (M\<lparr>last_x := x\<rparr>) \<longleftrightarrow> extreme_inv e PU PL M"
  "extreme_inv e PU PL (M\<lparr>points_in_hull := n\<rparr>) \<longleftrightarrow> extreme_inv e PU PL M"
  by (simp_all add: extreme_inv_def upts_def lpts_def)

text \<open>The point is refused only if no line passes all points within the error.\<close>

lemma add_point_more:
  assumes e: "0 < e" and M: "pla_ok e ps M" and n: "2 \<le> length ps" and x: "px (hd ps) < x"
    and pt: "pt = \<lparr>px = x, py = y\<rparr>"
  shows "\<exists>ok M'. add_point e x y M = Some (ok, M')
    \<and> (if ok then pla_ok e (pt # ps) M' else (\<forall>a b. \<not> fits e a b (pt # ps)) \<and> M' = M\<lparr>last_x := x, points_in_hull := 0\<rparr>)"
proof -
  let ?PU = "map (raised e) ps" and ?PL = "map (raised (- e)) ps"
  let ?p1 = "raised e pt" and ?p2 = "raised (- e) pt" and ?N = "M\<lparr>last_x := x\<rparr>"
  have inv: "extreme_inv e ?PU ?PL M" using M n by (simp add: pla_ok_def)
  note i = extreme_invD [OF inv]
  have old: "px p < x" if "p \<in> set ps" for p
    using M x that by (cases ps) (auto simp: pla_ok_def)
  have xs: "\<forall>u\<in>set ?PU. px u < px pt" "\<forall>l\<in>set ?PL. px l < px pt" using old by (simp_all add: pt)
  have p: "px ?p1 = x" "px ?p2 = x" "py ?p1 = y + e" "py ?p2 = y - e" "\<lparr>px = x, py = y + e\<rparr> = ?p1" "\<lparr>px = x, py = y - e\<rparr> = ?p2"
    by (simp_all add: pt raised_def)
  have rx: "px (r0 M) < x" "px (r1 M) < x" "px (r2 M) < x" "px (r3 M) < x" using i(1-4) xs by (auto simp: pt)
  have out1: "slope_less (point_minus ?p1 (r2 M)) (point_minus (r2 M) (r0 M)) \<longleftrightarrow> of_int (y + e) < lin (r0 M) (r2 M) x"
    using outside_tests(1) [OF i(5), of ?p1] rx p by simp
  have out2: "slope_greater (point_minus ?p2 (r3 M)) (point_minus (r3 M) (r1 M)) \<longleftrightarrow> lin (r1 M) (r3 M) x < of_int (y - e)"
    using outside_tests(2) [OF i(6), of ?p2] rx p by simp
  have pos: "0 < points_in_hull M" "points_in_hull M \<noteq> 1" "\<not> x \<le> last_x M" using M n x by (auto simp: pla_ok_def)
  show ?thesis
  proof (cases "of_int (y + e) < lin (r0 M) (r2 M) x \<or> lin (r1 M) (r3 M) x < of_int (y - e)")
    case True
    have "add_point e x y M = Some (False, ?N\<lparr>points_in_hull := 0\<rparr>)"
      using True pos by (simp add: add_point_def Let_def p out1 out2 flip: pt)
    moreover have "\<not> fits e a b (pt # ps)" for a b
    proof
      assume "fits e a b (pt # ps)"
      then have f: "below (line a b) ?PU" "above (line a b) ?PL" "line a b x \<le> of_int (y + e)" "of_int (y - e) \<le> line a b x"
        unfolding fits_bounds by (simp_all add: below_def above_def pt)
      show False using feasible_between(1,2) [OF inv f(1,2), of x] rx f(3,4) True by simp
    qed
    ultimately show ?thesis by (intro exI [of _ False]) simp
  next
    case False
    have inN: "extreme_inv e ?PU ?PL ?N" using inv by simp
    obtain M1 where M1: "(if slope_less (point_minus ?p1 (r1 M)) (point_minus (r3 M) (r1 M)) then update_max e pt ?p1 ?N else Some ?N) = Some M1"
      "extreme_inv e (?p1 # ?PU) ?PL M1" "last_x M1 = x" "first_x M1 = first_x M" "points_in_hull M1 = points_in_hull M" "r0 M1 = r0 M" "r2 M1 = r2 M"
      "px (hd (upts e M1)) < px pt" "of_int (py pt - e) \<le> lin (r1 M1) (r3 M1) (px pt)"
      using max_step [OF inN e refl xs] False by (auto simp: pt)
    have r0: "r0 M1 \<in> set ?PU" using i(1) M1(6) by simp
    obtain M2 where M2: "(if slope_greater (point_minus ?p2 (r0 M1)) (point_minus (r2 M) (r0 M)) then update_min e pt ?p2 M1 else Some M1) = Some M2"
      "extreme_inv e (?p1 # ?PU) (?p2 # ?PL) M2" "last_x M2 = x" "first_x M2 = first_x M" "points_in_hull M2 = points_in_hull M"
      using min_step [OF M1(2) e refl refl xs r0 M1(8,9)] M1(3-7) by auto
    have "add_point e x y M = Some (True, M2\<lparr>points_in_hull := points_in_hull M2 + 1\<rparr>)"
      using False pos M1(1) M2(1) by (simp add: add_point_def Let_def p out1 out2 flip: pt)
    moreover have "pla_ok e (pt # ps) (M2\<lparr>points_in_hull := points_in_hull M2 + 1\<rparr>)"
      using M M2(2-5) n old by (auto simp: pla_ok_def pt)
    ultimately show ?thesis by (intro exI [of _ True]) simp
  qed
qed

lemma add_point_ok:
  assumes e: "0 < e" and M: "pla_ok e ps M" and x: "px (hd ps) < x" and pt: "pt = \<lparr>px = x, py = y\<rparr>"
  shows "\<exists>ok M'. add_point e x y M = Some (ok, M')
    \<and> (if ok then pla_ok e (pt # ps) M'
       else 2 \<le> length ps \<and> (\<forall>a b. \<not> fits e a b (pt # ps)) \<and> M' = M\<lparr>last_x := x, points_in_hull := 0\<rparr>)"
proof (cases "2 \<le> length ps")
  case True
  then show ?thesis using add_point_more [OF e M True x pt] by (elim exE conjE, intro exI conjI) (auto split: if_splits)
next
  case False
  have "ps \<noteq> []" using M by (simp add: pla_ok_def)
  then obtain p where p: "ps = [p]" using False by (cases ps) (auto simp: Suc_le_eq)
  have "pla_ok e [p] M" "px p < x" using M x p by simp_all
  from add_point_second [OF _ this, of y] e show ?thesis unfolding p pt by (intro exI [of _ True]) simp
qed

subsection \<open>A segment\<close>

text \<open>Both extreme lines of a segment touch the bounds of its points and pass them within the error, and every line that does has a
  slope between theirs; a segment of one point has it twice.\<close>

definition segment_ok :: "int \<Rightarrow> point list \<Rightarrow> canonical \<Rightarrow> bool" where
  "segment_ok e ps c \<longleftrightarrow> ps \<noteq> [] \<and> c_first c = px (hd ps)
     \<and> (if length ps = 1 then c0 c = raised e (hd ps) \<and> c1 c = raised (- e) (hd ps) \<and> c2 c = c0 c \<and> c3 c = c1 c
        else {c0 c, c3 c} \<subseteq> raised e ` set ps \<and> {c1 c, c2 c} \<subseteq> raised (- e) ` set ps
          \<and> px (c0 c) < px (c2 c) \<and> px (c1 c) < px (c3 c) \<and> line_within e (lin (c0 c) (c2 c)) ps \<and> line_within e (lin (c1 c) (c3 c)) ps
          \<and> (\<forall>a b. fits e a b ps \<longrightarrow> sl (c0 c) (c2 c) \<le> a \<and> a \<le> sl (c1 c) (c3 c)))"

lemma line_within_rev [simp]: "line_within e f (rev ps) = line_within e f ps"
  by (simp add: line_within_def)

lemma fits_rev [simp]: "fits e a b (rev ps) = fits e a b ps"
  by (simp add: fits_def)

lemma get_segment_ok:
  assumes "pla_ok e (rev ps) M"
  shows "segment_ok e ps (get_segment M)"
proof (cases "length ps = 1")
  case True
  then obtain p where "ps = [p]" by (cases ps) auto
  then show ?thesis using assms by (simp add: pla_ok_def segment_ok_def get_segment_def)
next
  case False
  then have inv: "extreme_inv e (map (raised e) (rev ps)) (map (raised (- e)) (rev ps)) M" using assms by (simp add: pla_ok_def)
  have f: "sl (r0 M) (r2 M) \<le> a \<and> a \<le> sl (r1 M) (r3 M)" if "fits e a b ps" for a b
    using feasible_between(3,4) [OF inv, of a b] that fits_bounds [of e a b "rev ps"] by simp
  have "line_within e (lin (r0 M) (r2 M)) (rev ps)" "line_within e (lin (r1 M) (r3 M)) (rev ps)"
    using extreme_invD(7-10) [OF inv] unfolding line_within_bounds by blast+
  then show ?thesis
    using False f assms extreme_invD(1-6) [OF inv] by (auto simp: segment_ok_def get_segment_def pla_ok_def last_rev)
qed

lemma get_segment_refused: "1 < points_in_hull M \<Longrightarrow> get_segment (M\<lparr>last_x := x, points_in_hull := 0\<rparr>) = get_segment M"
  by (simp add: get_segment_def)

subsection \<open>The segmentation\<close>

text \<open>The points added to the segment of the positions from \<open>s\<close> on: the first of every run of equal keys\<close>

definition fed :: "(nat \<Rightarrow> int \<times> int) \<Rightarrow> nat \<Rightarrow> nat \<Rightarrow> point list" where
  "fed inp s t = map (\<lambda>i. \<lparr>px = fst (inp i), py = snd (inp i)\<rparr>)
     (filter (\<lambda>i. i = s \<or> fst (inp i) \<noteq> fst (inp (i - 1))) [s..<t])"

definition run_start :: "(nat \<Rightarrow> int \<times> int) \<Rightarrow> nat \<Rightarrow> bool" where
  "run_start inp i \<longleftrightarrow> i = 0 \<or> fst (inp i) \<noteq> fst (inp (i - 1))"

definition segment_right :: "int \<Rightarrow> (nat \<Rightarrow> int \<times> int) \<Rightarrow> nat \<Rightarrow> nat \<times> nat \<times> canonical \<Rightarrow> bool" where
  "segment_right e inp n = (\<lambda>(s, t, c). s < t \<and> t \<le> n \<and> run_start inp s \<and> segment_ok e (fed inp s t) c
     \<and> (t < n \<longrightarrow> (\<forall>a b. \<not> fits e a b (fed inp s (t + 1)))))"

text \<open>The segments follow each other without a gap.\<close>

fun covers :: "nat \<Rightarrow> nat \<Rightarrow> (nat \<times> nat \<times> 'a) list \<Rightarrow> bool" where
  "covers s n [] \<longleftrightarrow> s = n"
| "covers s n ((a, b, c) # r) \<longleftrightarrow> a = s \<and> a < b \<and> covers b n r"

lemma fed_Suc:
  "s \<le> t \<Longrightarrow> fed inp s (Suc t) = fed inp s t @ (if t = s \<or> fst (inp t) \<noteq> fst (inp (t - 1)) then [\<lparr>px = fst (inp t), py = snd (inp t)\<rparr>] else [])"
  by (simp add: fed_def)

lemma fed_one: "fed inp s (Suc s) = [\<lparr>px = fst (inp s), py = snd (inp s)\<rparr>]"
  by (simp add: fed_def)

lemma fed_last:
  assumes "s < t" "\<And>i j. i \<le> j \<Longrightarrow> j < n \<Longrightarrow> fst (inp i) \<le> fst (inp j)" "t \<le> n"
  shows "fed inp s t \<noteq> [] \<and> px (List.last (fed inp s t)) = fst (inp (t - 1))"
  using assms(1,3)
proof (induction t)
  case (Suc t)
  show ?case
  proof (cases "t = s")
    case False
    then show ?thesis using Suc by (auto simp: fed_Suc)
  qed (simp add: fed_one)
qed simp

lemma fed_subset: "run_start inp s \<or> s = t \<Longrightarrow> t \<le> s \<Longrightarrow> u \<le> v \<Longrightarrow> set (fed inp s u) \<subseteq> set (fed inp t v)"
  by (auto simp: fed_def run_start_def)

lemma seg_loop_steps:
  "n \<le> i \<Longrightarrow> seg_loop e n inp i start p opt out = Some (out @ [(start, n, get_segment opt)])"
  "i < n \<Longrightarrow> i \<noteq> start \<Longrightarrow> fst (inp i) = p \<Longrightarrow> seg_loop e n inp i start p opt out = seg_loop e n inp (i + 1) start p opt out"
  "i < n \<Longrightarrow> i = start \<or> fst (inp i) \<noteq> p \<Longrightarrow> add_point e (fst (inp i)) (snd (inp i)) opt = Some (True, opt') \<Longrightarrow>
    seg_loop e n inp i start p opt out = seg_loop e n inp (i + 1) start (fst (inp i)) opt' out"
  "i < n \<Longrightarrow> i = start \<or> fst (inp i) \<noteq> p \<Longrightarrow> add_point e (fst (inp i)) (snd (inp i)) opt = Some (False, opt') \<Longrightarrow>
    seg_loop e n inp i start p opt out = seg_loop e n inp i i (fst (inp i)) opt' (out @ [(start, i, get_segment opt')])"
  by (subst seg_loop.simps; auto simp: Let_def)+

text \<open>The points come in by ascending key, so no exception is raised.\<close>

lemma seg_loop_ok:
  assumes e: "0 < e" and srt: "\<And>i j. i \<le> j \<Longrightarrow> j < n \<Longrightarrow> fst (inp i) \<le> fst (inp j)"
  shows "start < i \<Longrightarrow> i \<le> n \<Longrightarrow> run_start inp start \<Longrightarrow> pla_ok e (rev (fed inp start i)) opt \<Longrightarrow>
    \<exists>segs. seg_loop e n inp i start (fst (inp (i - 1))) opt out = Some (out @ segs) \<and> covers start n segs \<and> (\<forall>x\<in>set segs. segment_right e inp n x)"
proof (induction "n - i" arbitrary: i start opt out)
  case 0
  then have "seg_loop e n inp i start (fst (inp (i - 1))) opt out = Some (out @ [(start, n, get_segment opt)])" by (simp add: seg_loop_steps)
  moreover have "segment_right e inp n (start, n, get_segment opt)"
    using get_segment_ok [OF 0(5)] 0 by (simp add: segment_right_def)
  ultimately show ?case using 0 by (intro exI [of _ "[(start, n, get_segment opt)]"]) simp
next
  case (Suc k)
  let ?x = "fst (inp i)" and ?y = "snd (inp i)" and ?ps = "rev (fed inp start i)" and ?p = "fst (inp (i - 1))"
  have i: "i < n" "start \<le> i" "start \<noteq> i" "k = n - (i + 1)" using Suc by simp_all
  show ?case
  proof (cases "?x = ?p")
    case True
    then have "fed inp start (i + 1) = fed inp start i" using i by (simp add: fed_Suc)
    moreover have "seg_loop e n inp i start ?p opt out = seg_loop e n inp (i + 1) start ?x opt out"
      using seg_loop_steps(2) [of i n start inp ?p e opt out] i True by simp
    ultimately show ?thesis using Suc.hyps(1) [of "i + 1" start opt out] Suc.prems i by simp
  next
    case False
    have "px (hd ?ps) = ?p" using fed_last [OF Suc.prems(1) srt Suc.prems(2)] by (simp add: hd_rev)
    moreover have "?p < ?x" using srt [of "i - 1" i] i False by simp
    ultimately obtain ok M' where M': "add_point e ?x ?y opt = Some (ok, M')"
      "if ok then pla_ok e (\<lparr>px = ?x, py = ?y\<rparr> # ?ps) M'
       else 2 \<le> length ?ps \<and> (\<forall>a b. \<not> fits e a b (\<lparr>px = ?x, py = ?y\<rparr> # ?ps)) \<and> M' = opt\<lparr>last_x := ?x, points_in_hull := 0\<rparr>"
      using add_point_ok [OF e Suc.prems(4) _ refl, of ?x ?y] by auto
    have f: "rev (fed inp start (i + 1)) = \<lparr>px = ?x, py = ?y\<rparr> # ?ps" using False i by (simp add: fed_Suc)
    show ?thesis
    proof (cases ok)
      case True
      then have "seg_loop e n inp i start ?p opt out = seg_loop e n inp (i + 1) start ?x M' out"
        using seg_loop_steps(3) [of i n start inp ?p e opt M' out] i False M'(1) by simp
      then show ?thesis using Suc.hyps(1) [of "i + 1" start M' out] Suc.prems i True M'(2) f by simp
    next
      case F: False
      obtain M'' where M'': "add_point e ?x ?y M' = Some (True, M'')" "pla_ok e (rev (fed inp i (i + 1))) M''"
        using add_point_first [of M' e ?x ?y] M'(2) F by (auto simp: fed_one)
      have len: "1 < points_in_hull opt" using Suc.prems(4) M'(2) F by (simp add: pla_ok_def)
      then have seg: "get_segment M' = get_segment opt" using M'(2) F by (simp add: get_segment_refused)
      let ?s = "(start, i, get_segment opt)"
      have "segment_right e inp n ?s"
        using get_segment_ok [OF Suc.prems(4)] Suc.prems M'(2) F f fits_rev [of e _ _ "fed inp start (i + 1)"]
        by (simp add: segment_right_def)
      moreover obtain segs where "seg_loop e n inp (i + 1) i (fst (inp (i + 1 - 1))) M'' (out @ [?s]) = Some ((out @ [?s]) @ segs)"
        "covers i n segs" "\<forall>x\<in>set segs. segment_right e inp n x"
        using Suc.hyps(1) [of "i + 1" i M'' "out @ [?s]"] i M''(2) False by (auto simp: run_start_def)
      moreover have "seg_loop e n inp i start ?p opt out = seg_loop e n inp (i + 1) i (fst (inp (i + 1 - 1))) M'' (out @ [?s])"
        using seg_loop_steps(4) [of i n start inp ?p e opt M' out] seg_loop_steps(3) [of i n i inp ?x e M' M'' "out @ [?s]"] i False M'(1) F M''(1) seg
        by simp
      ultimately show ?thesis using Suc.prems(1) by (intro exI [of _ "?s # segs"]) simp
    qed
  qed
qed

lemma make_segmentation_ok:
  assumes e: "0 < e" and srt: "\<And>i j. i \<le> j \<Longrightarrow> j < n \<Longrightarrow> fst (inp i) \<le> fst (inp j)"
  shows "\<exists>segs. make_segmentation n e inp = Some segs \<and> covers 0 n segs \<and> (\<forall>x\<in>set segs. segment_right e inp n x)"
proof (cases "n = 0")
  case False
  obtain M where M: "add_point e (fst (inp 0)) (snd (inp 0)) pla_new = Some (True, M)" "pla_ok e (rev (fed inp 0 1)) M"
    using add_point_first [of pla_new e "fst (inp 0)" "snd (inp 0)"] by (auto simp: pla_new_def fed_one)
  have "\<exists>segs. seg_loop e n inp 1 0 (fst (inp (1 - 1))) M [] = Some ([] @ segs) \<and> covers 0 n segs \<and> (\<forall>x\<in>set segs. segment_right e inp n x)"
    by (rule seg_loop_ok [OF e srt]) (use False M(2) in \<open>simp_all add: run_start_def\<close>)
  then show ?thesis using False M(1) by (simp add: make_segmentation_def)
qed (simp add: make_segmentation_def)

subsection \<open>No division into segments has fewer\<close>

definition part_fits :: "int \<Rightarrow> (nat \<Rightarrow> int \<times> int) \<Rightarrow> nat \<times> nat \<times> 'a \<Rightarrow> bool" where
  "part_fits e inp = (\<lambda>(s, t, c). run_start inp s \<and> (\<exists>a b. fits e a b (fed inp s t)))"

lemma covers_le: "covers s n ps \<Longrightarrow> s \<le> n"
  by (induction s n ps rule: covers.induct) auto

lemma greedy_least:
  "covers t n ps \<Longrightarrow> \<forall>x\<in>set ps. part_fits e inp x \<Longrightarrow> covers s n segs \<Longrightarrow> \<forall>x\<in>set segs. segment_right e inp n x \<Longrightarrow> t \<le> s \<Longrightarrow>
    length segs \<le> length ps"
proof (induction t n ps arbitrary: s segs rule: covers.induct)
  case (1 t n)
  then have "s = n" using covers_le [OF "1.prems"(3)] by simp
  then show ?case using "1.prems"(3) covers_le by (cases segs) fastforce+
next
  case (2 t n a u c ps)
  have ps: "covers u n ps" "\<forall>x\<in>set ps. part_fits e inp x" "part_fits e inp (t, u, c)" using 2 by auto
  show ?case
  proof (cases segs)
    case (Cons g gs)
    obtain v d where g: "g = (s, v, d)" using 2(4) Cons by (cases g) auto
    have v: "covers v n gs" "\<forall>x\<in>set gs. segment_right e inp n x" "segment_right e inp n (s, v, d)" "v \<le> n" using 2(4,5) Cons g covers_le by auto
    have "u \<le> v"
    proof (rule ccontr)
      assume n: "\<not> u \<le> v"
      then have "v < n" using covers_le [OF ps(1)] by simp
      then have no: "\<not> fits e a b (fed inp s (v + 1))" "run_start inp s" for a b using v(3) by (simp_all add: segment_right_def)
      have "set (fed inp s (v + 1)) \<subseteq> set (fed inp t u)" using fed_subset [of inp s t "v + 1" u] no(2) 2(6) n by simp
      moreover obtain a b where "fits e a b (fed inp t u)" using ps(3) by (auto simp: part_fits_def)
      ultimately show False using no(1) fits_subset by blast
    qed
    from 2(1) [OF ps(1,2) v(1,2) this] show ?thesis using Cons by simp
  qed simp
qed

end
