(* ===== verification/Pgm_Float.thy ===== *)
theory Pgm_Float
  imports Pgm_Index Pla_Segments
begin

text \<open>
  The rounding errors of the line of a segment. For keys below 2 to the 44, positions below 2 to the 31
  and errors below 2 to the 11, the stored intercept and the products of \<open>operator()\<close> are within an
  eighth of the exact line.
\<close>

subsection \<open>Rounding and products\<close>

lemma ldbl_near:
  assumes "\<bar>x' - x\<bar> \<le> d" "\<bar>x\<bar> \<le> B"
  shows "\<bar>ldbl x' - x\<bar> \<le> d + (B + d) / 2 ^ 64"
proof -
  have "\<bar>x'\<bar> \<le> B + d" using assms by linarith
  then have "\<bar>x'\<bar> / 2 ^ 64 \<le> (B + d) / 2 ^ 64" by (intro divide_right_mono) simp_all
  then show ?thesis using fl_error [of 64 x'] assms(1) by linarith
qed

lemma dbl_near:
  assumes "\<bar>x' - x\<bar> \<le> d" "\<bar>x\<bar> \<le> B"
  shows "\<bar>dbl x' - x\<bar> \<le> d + (B + d) / 2 ^ 53"
proof -
  have "\<bar>x'\<bar> \<le> B + d" using assms by linarith
  then have "\<bar>x'\<bar> / 2 ^ 53 \<le> (B + d) / 2 ^ 53" by (intro divide_right_mono) simp_all
  then show ?thesis using fl_error [of 53 x'] assms(1) by linarith
qed

lemma abs_mult_le: "\<bar>a\<bar> \<le> A \<Longrightarrow> \<bar>b\<bar> \<le> B \<Longrightarrow> \<bar>a * b\<bar> \<le> A * B" for a b :: rat
  by (simp add: abs_mult mult_mono)

lemma mult_near:
  fixes a b :: rat
  assumes "\<bar>a' - a\<bar> \<le> da" "\<bar>b' - b\<bar> \<le> db" "\<bar>a\<bar> \<le> A" "\<bar>b\<bar> \<le> B"
  shows "\<bar>a' * b' - a * b\<bar> \<le> da * (B + db) + A * db"
proof -
  have "\<bar>b'\<bar> \<le> B + db" using assms by linarith
  then have "\<bar>(a' - a) * b'\<bar> \<le> da * (B + db)" "\<bar>a * (b' - b)\<bar> \<le> A * db" using assms by (intro abs_mult_le; simp)+
  moreover have "a' * b' - a * b = (a' - a) * b' + a * (b' - b)" by (simp add: algebra_simps)
  ultimately show ?thesis by linarith
qed

lemma quot_near:
  assumes "0 \<le> m" "m \<le> a" "0 < a"
  shows "\<bar>ldbl (ldbl m / ldbl a) - m / a\<bar> \<le> 8 / 2 ^ 64"
proof -
  let ?u = "1 / 2 ^ 64 :: rat"
  have m: "\<bar>ldbl m - m\<bar> \<le> m * ?u" and a: "\<bar>ldbl a - a\<bar> \<le> a * ?u" using fl_error [of 64 m] fl_error [of 64 a] assms by simp_all
  have "a * ?u \<le> a / 2" using assms(3) by simp
  then have a': "a / 2 \<le> ldbl a" using a unfolding abs_le_iff by linarith
  then have pos: "0 < ldbl a" "0 < a * ldbl a" using assms(3) by simp_all
  have "\<bar>ldbl m * a - m * ldbl a\<bar> = \<bar>(ldbl m - m) * a - m * (ldbl a - a)\<bar>" by (simp add: algebra_simps)
  also have "\<dots> \<le> \<bar>(ldbl m - m) * a\<bar> + \<bar>m * (ldbl a - a)\<bar>" by (rule abs_triangle_ineq4)
  also have "\<dots> \<le> m * ?u * a + m * (a * ?u)" using m a assms by (intro add_mono abs_mult_le) simp_all
  also have "\<dots> = 2 * ?u * (m * a)" by simp
  also have "\<dots> \<le> 2 * ?u * (a * (2 * ldbl a))" using assms a' by (intro mult_left_mono mult_mono) simp_all
  finally have "\<bar>ldbl m * a - m * ldbl a\<bar> \<le> 4 * ?u * (a * ldbl a)" by simp
  then have "\<bar>(ldbl m * a - m * ldbl a) / (a * ldbl a)\<bar> \<le> 4 * ?u" using pos by (simp add: pos_divide_le_eq)
  moreover have "ldbl m / ldbl a - m / a = (ldbl m * a - m * ldbl a) / (a * ldbl a)" using pos assms(3) by (simp add: diff_frac_eq mult.commute)
  ultimately have q: "\<bar>ldbl m / ldbl a - m / a\<bar> \<le> 4 * ?u" by simp
  have "\<bar>m / a\<bar> \<le> 1" using assms by simp
  from ldbl_near [OF q this] show ?thesis by simp
qed

subsection \<open>The crossing of the extreme lines\<close>

lemma between_near:
  assumes b: "\<bar>b' - b\<bar> \<le> 8 / 2 ^ 64" "0 \<le> b" "b \<le> 1" and d: "\<bar>d\<bar> \<le> B" and p: "\<bar>p\<bar> \<le> B"
  shows "\<bar>ldbl (p + ldbl (b' * d)) - (p + b * d)\<bar> \<le> 12 * B / 2 ^ 64"
proof -
  have B: "0 \<le> B" using d by linarith
  have "\<bar>b' * d - b * d\<bar> \<le> 8 / 2 ^ 64 * (B + 0) + 1 * 0" using b d by (intro mult_near) simp_all
  moreover have bd: "\<bar>b * d\<bar> \<le> 1 * B" using b d by (intro abs_mult_le) simp_all
  ultimately have "\<bar>ldbl (b' * d) - b * d\<bar> \<le> 8 / 2 ^ 64 * B + (B + 8 / 2 ^ 64 * B) / 2 ^ 64"
    using ldbl_near [of "b' * d" "b * d" "8 / 2 ^ 64 * B" B] by simp
  then have "\<bar>(p + ldbl (b' * d)) - (p + b * d)\<bar> \<le> 8 / 2 ^ 64 * B + (B + 8 / 2 ^ 64 * B) / 2 ^ 64" by simp
  moreover have "\<bar>p + b * d\<bar> \<le> 2 * B" using p bd by linarith
  ultimately have "\<bar>ldbl (p + ldbl (b' * d)) - (p + b * d)\<bar>
      \<le> 8 / 2 ^ 64 * B + (B + 8 / 2 ^ 64 * B) / 2 ^ 64 + (2 * B + (8 / 2 ^ 64 * B + (B + 8 / 2 ^ 64 * B) / 2 ^ 64)) / 2 ^ 64"
    by (rule ldbl_near)
  also have "\<dots> \<le> 12 * B / 2 ^ 64" using B by simp
  finally show ?thesis .
qed

subsection \<open>The intercept and the products\<close>

lemma intercept_near:
  assumes x: "\<bar>ix' - ix\<bar> \<le> 1 / 80000" "0 \<le> ix" "ix \<le> 2 ^ 44" and y: "\<bar>iy' - iy\<bar> \<le> 1 / 1000" "\<bar>iy\<bar> \<le> 2 ^ 33"
    and s: "\<bar>s' - s\<bar> \<le> 1 / 2 ^ 50" "\<bar>s\<bar> \<le> 2 ^ 12" and o': "0 \<le> z" "z \<le> 2 ^ 44"
  shows "\<bar>ldbl (iy' - ldbl (ldbl (ix' - z) * s')) - (iy - (ix - z) * s)\<bar> \<le> 1 / 8"
proof -
  have d: "\<bar>ix - z\<bar> \<le> 2 ^ 44" using x o' by linarith
  have "\<bar>ldbl (ix' - z) - (ix - z)\<bar> \<le> 1 / 80000 + (2 ^ 44 + 1 / 80000) / 2 ^ 64" by (rule ldbl_near) (use x d in simp_all)
  then have "\<bar>ldbl (ix' - z) - (ix - z)\<bar> \<le> 11 / 800000" by simp
  from mult_near [OF this s(1) d s(2)] have m: "\<bar>ldbl (ix' - z) * s' - (ix - z) * s\<bar> \<le> 8 / 100" by simp
  have b: "\<bar>(ix - z) * s\<bar> \<le> 2 ^ 44 * 2 ^ 12" by (rule abs_mult_le [OF d s(2)])
  from ldbl_near [OF m this] have "\<bar>ldbl (ldbl (ix' - z) * s') - (ix - z) * s\<bar> \<le> 9 / 100" by simp
  then have "\<bar>(iy' - ldbl (ldbl (ix' - z) * s')) - (iy - (ix - z) * s)\<bar> \<le> 10 / 100" using y(1) by linarith
  moreover have "\<bar>iy - (ix - z) * s\<bar> \<le> 2 ^ 33 + 2 ^ 44 * 2 ^ 12" using y(2) b by linarith
  ultimately have "\<bar>ldbl (iy' - ldbl (ldbl (ix' - z) * s')) - (iy - (ix - z) * s)\<bar> \<le> 10 / 100 + (2 ^ 33 + 2 ^ 44 * 2 ^ 12 + 10 / 100) / 2 ^ 64"
    by (rule ldbl_near)
  then show ?thesis by simp
qed

lemma product_near:
  assumes s: "\<bar>s' - s\<bar> \<le> 1 / 2 ^ 50" and z: "0 \<le> z" "z \<le> 2 ^ 44" and b: "\<bar>s * z\<bar> \<le> 2 ^ 34"
  shows "\<bar>dbl (dbl s' * z) - s * z\<bar> \<le> 1 / 8"
proof -
  have e: "\<bar>(s' - s) * z\<bar> \<le> 1 / 2 ^ 50 * 2 ^ 44" using s z by (intro abs_mult_le) simp_all
  have "s' * z = s * z + (s' - s) * z" by (simp add: algebra_simps)
  then have "\<bar>s' * z\<bar> \<le> 2 ^ 34 + 1 / 2 ^ 50 * 2 ^ 44" using e b by linarith
  then have "\<bar>s'\<bar> * z \<le> 2 ^ 35" using z by (simp add: abs_mult)
  moreover have "\<bar>(dbl s' - s') * z\<bar> \<le> \<bar>s'\<bar> / 2 ^ 53 * z" using mult_right_mono [OF fl_error [of 53 s'] z(1)] z(1) by (simp only: abs_mult abs_of_nonneg)
  ultimately have "\<bar>(dbl s' - s') * z\<bar> \<le> 1 / 2 ^ 18" by simp
  moreover have "dbl s' * z - s * z = (dbl s' - s') * z + (s' - s) * z" by (simp add: algebra_simps)
  ultimately have "\<bar>dbl s' * z - s * z\<bar> \<le> 1 / 2 ^ 18 + 1 / 2 ^ 50 * 2 ^ 44" using e by linarith
  then have "\<bar>dbl s' * z - s * z\<bar> \<le> 1 / 50" by simp
  from dbl_near [OF this b] show ?thesis by simp
qed

end
