(* ===== verification/Pgm_Segment.thy ===== *)
theory Pgm_Segment
  imports Pgm_Float
begin

text \<open>
  The line of a segment: the mean of the two extreme lines passes the points within the error, its
  slope is positive, and the numbers stored in the segment give its positions to less than two.
\<close>

subsection \<open>The exact line\<close>

text \<open>The keys of the points rise at least as fast as their positions.\<close>

definition spaced :: "point list \<Rightarrow> bool" where
  "spaced ps \<longleftrightarrow> (\<forall>p\<in>set ps. 0 \<le> px p \<and> px p \<le> 2 ^ 44 \<and> 0 \<le> py p \<and> py p \<le> 2 ^ 30)
     \<and> (\<forall>p\<in>set ps. \<forall>q\<in>set ps. (px p \<le> px q \<longrightarrow> py p \<le> py q \<and> py q - py p \<le> px q - px p) \<and> (px p < px q \<longrightarrow> py p < py q))"

definition low :: "canonical \<Rightarrow> int \<Rightarrow> rat" where "low c = lin (c0 c) (c2 c)"
definition high :: "canonical \<Rightarrow> int \<Rightarrow> rat" where "high c = lin (c1 c) (c3 c)"
definition low_slope :: "canonical \<Rightarrow> rat" where "low_slope c = sl (c0 c) (c2 c)"
definition high_slope :: "canonical \<Rightarrow> rat" where "high_slope c = sl (c1 c) (c3 c)"

definition mean :: "canonical \<Rightarrow> int \<Rightarrow> rat" where
  "mean c z = (low c z + high c z) / 2"

definition mean_slope :: "canonical \<Rightarrow> rat" where
  "mean_slope c = (low_slope c + high_slope c) / 2"

lemma mean_move: "mean c z = mean c y + mean_slope c * of_int (z - y)"
  by (simp add: mean_def mean_slope_def low_def high_def low_slope_def high_slope_def lin_def algebra_simps add_divide_distrib diff_divide_distrib)

lemma segment_okD:
  assumes "segment_ok e ps c" "length ps \<noteq> 1"
  obtains p q r s where "p \<in> set ps" "q \<in> set ps" "r \<in> set ps" "s \<in> set ps"
    "c0 c = raised e p" "c2 c = raised (- e) q" "c1 c = raised (- e) r" "c3 c = raised e s" "px p < px q" "px r < px s"
  using assms by (auto simp: segment_ok_def)

lemma segment_within:
  assumes "segment_ok e ps c" "length ps \<noteq> 1"
  shows "line_within e (low c) ps" "line_within e (high c) ps" "line_within e (mean c) ps"
proof -
  show w: "line_within e (low c) ps" "line_within e (high c) ps" using assms by (simp_all add: segment_ok_def low_def high_def)
  have "\<bar>(a + b) / 2 - y\<bar> \<le> d" if "\<bar>a - y\<bar> \<le> d" "\<bar>b - y\<bar> \<le> d" for a b y d :: rat
    using that unfolding abs_le_iff by (simp add: field_simps)
  then show "line_within e (mean c) ps" using w by (simp add: line_within_def mean_def)
qed

lemma slope_between:
  assumes "segment_ok e ps c" "length ps \<noteq> 1" "fits e a b ps"
  shows "low_slope c \<le> a" "a \<le> high_slope c"
  using assms by (auto simp: segment_ok_def low_slope_def high_slope_def)

lemma extreme_slopes:
  assumes ok: "segment_ok e ps c" "length ps \<noteq> 1" and s: "spaced ps" and e: "0 < e"
  shows "- (2 * of_int e) \<le> low_slope c" "low_slope c \<le> 1" "0 < high_slope c" "high_slope c \<le> 1 + 2 * of_int e" "low_slope c \<le> high_slope c"
proof -
  obtain p q r s' where g: "p \<in> set ps" "q \<in> set ps" "r \<in> set ps" "s' \<in> set ps"
    "c0 c = raised e p" "c2 c = raised (- e) q" "c1 c = raised (- e) r" "c3 c = raised e s'" "px p < px q" "px r < px s'"
    using segment_okD [OF ok] .
  have pq: "py p < py q" "py q - py p \<le> px q - px p" and rs: "py r < py s'" "py s' - py r \<le> px s' - px r"
    using s g by (simp_all add: spaced_def)
  have l: "low_slope c = of_int (py q - py p - 2 * e) / of_int (px q - px p)" by (simp add: low_slope_def sl_def g algebra_simps)
  have h: "high_slope c = of_int (py s' - py r + 2 * e) / of_int (px s' - px r)" by (simp add: high_slope_def sl_def g algebra_simps)
  have "2 * e * 1 \<le> 2 * e * (px q - px p)" by (rule mult_left_mono) (use e g(9) in simp_all)
  then have i1: "- (2 * e) * (px q - px p) \<le> py q - py p - 2 * e" "py q - py p - 2 * e \<le> px q - px p" using pq e by linarith+
  have "2 * e * 1 \<le> 2 * e * (px s' - px r)" by (rule mult_left_mono) (use e g(10) in simp_all)
  then have i2: "0 < py s' - py r + 2 * e" "py s' - py r + 2 * e \<le> (1 + 2 * e) * (px s' - px r)" using rs e unfolding distrib_right mult_1_left by linarith+
  have d: "0 < (of_int (px q - px p) :: rat)" "0 < (of_int (px s' - px r) :: rat)" using g by simp_all
  show "- (2 * of_int e) \<le> low_slope c" "low_slope c \<le> 1"
    using i1 [THEN of_int_le_iff [where 'a = rat, THEN iffD2]] d(1) unfolding l pos_le_divide_eq [OF d(1)] pos_divide_le_eq [OF d(1)] by simp_all
  show "0 < high_slope c" using i2(1) d(2) unfolding h by simp
  show "high_slope c \<le> 1 + 2 * of_int e"
    using i2(2) [THEN of_int_le_iff [where 'a = rat, THEN iffD2]] d(2) unfolding h pos_divide_le_eq [OF d(2)] by simp
  have "fits e (low_slope c) (of_int (py (c0 c)) - low_slope c * of_int (px (c0 c))) ps"
    using segment_within(1) [OF ok] by (simp add: fits_def low_def lin_line low_slope_def)
  from slope_between(2) [OF ok this] show "low_slope c \<le> high_slope c" .
qed

text \<open>If the least slope falls, some line rises a little more steeply.\<close>

lemma falling_slope:
  assumes ok: "segment_ok e ps c" "length ps \<noteq> 1" and s: "spaced ps" and e: "0 < e" and neg: "low_slope c < 0"
  shows "- low_slope c * (1 + 1 / (2 * of_int e)) \<le> high_slope c"
proof -
  obtain p q where pq: "p \<in> set ps" "q \<in> set ps" "px p < px q" by (rule segment_okD [OF ok]) blast
  have fin: "finite (px ` set ps)" "px ` set ps \<noteq> {}" using pq(1) by auto
  obtain f where f: "f \<in> set ps" "px f = Min (px ` set ps)" using Min_in [OF fin] by force
  obtain l where l: "l \<in> set ps" "px l = Max (px ` set ps)" using Max_in [OF fin] by force
  have bet: "px f \<le> px i" "px i \<le> px l" if "i \<in> set ps" for i using that f(2) l(2) fin(1) by simp_all
  have mono: "py i \<le> py j" if "i \<in> set ps" "j \<in> set ps" "px i \<le> px j" for i j using s that by (auto simp: spaced_def)
  define m X Y where "m = - low_slope c" and "X = (of_int (px l - px f) :: rat)" and "Y = (of_int (py l - py f) :: rat)"
  have "px f < px l" using bet [OF pq(1)] bet [OF pq(2)] pq(3) by linarith
  then have X: "0 < X" by (simp add: X_def)
  have m: "0 < m" using neg by (simp add: m_def)
  have "low c (px l) = low c (px f) - m * X" by (simp add: low_def low_slope_def lin_def m_def X_def algebra_simps)
  moreover have "\<bar>low c (px l) - of_int (py l)\<bar> \<le> of_int e" "\<bar>low c (px f) - of_int (py f)\<bar> \<le> of_int e"
    using segment_within(1) [OF ok] f(1) l(1) by (auto simp: line_within_def)
  moreover have "Y = of_int (py l) - of_int (py f)" by (simp add: Y_def)
  ultimately have d: "m * X + Y \<le> 2 * of_int e" unfolding abs_le_iff by linarith
  have Y: "0 \<le> Y" using mono [OF f(1) l(1)] bet [OF f(1)] by (simp add: Y_def)
  have mX: "0 < m * X" using m X by simp
  define a T where "a = m * (1 + 1 / (2 * of_int e))" and "T = max 0 (a * X - 1)"
  have a: "0 < a" using m e by (simp add: a_def add_pos_pos)
  have "a * X = m * X + m * X / (2 * of_int e)" by (simp add: a_def algebra_simps)
  moreover have "m * X / (2 * of_int e) \<le> 1" using d Y e by (simp add: pos_divide_le_eq)
  ultimately have T: "T + Y \<le> 2 * of_int e" unfolding T_def max_def using d mX by simp
  have "\<bar>line a (of_int (py f) + of_int e - T - a * of_int (px f)) (px i) - of_int (py i)\<bar> \<le> of_int e" if i: "i \<in> set ps" for i
  proof -
    let ?x = "of_int (px i - px f) :: rat" and ?y = "of_int (py i - py f) :: rat"
    have x: "0 \<le> ?x" "?x \<le> X" "0 \<le> ?y" "?y \<le> Y" using bet [OF i] mono [OF f(1) i] mono [OF i l(1)] by (simp_all add: X_def Y_def)
    have "a * ?x - ?y \<le> T"
    proof (cases "px i = px f")
      case True
      then show ?thesis using x by (simp add: T_def)
    next
      case False
      then have "py f < py i" using s f(1) i bet(1) [OF i] by (auto simp: spaced_def)
      then have "1 \<le> ?y" by simp
      moreover have "a * ?x \<le> a * X" using x(2) a by simp
      ultimately show ?thesis by (simp add: T_def)
    qed
    moreover have "- Y \<le> a * ?x - ?y" using x a mult_nonneg_nonneg [of a ?x] by linarith
    moreover have "line a (of_int (py f) + of_int e - T - a * of_int (px f)) (px i) - of_int (py i) = a * ?x - ?y + of_int e - T"
      by (simp add: line_def algebra_simps)
    ultimately show ?thesis using T unfolding abs_le_iff by linarith
  qed
  then have "fits e a (of_int (py f) + of_int e - T - a * of_int (px f)) ps" by (simp add: fits_def line_within_def)
  from slope_between(2) [OF ok this] show ?thesis by (simp add: a_def m_def)
qed

subsection \<open>The stored slope\<close>

lemma fl_pos: "0 < x \<Longrightarrow> 1 \<le> p \<Longrightarrow> 0 < fl p x"
  using round_pos_below(2) [of x p] less_le_trans [OF zero_less_power_int [of "2::rat" "ilog2 x"]] by (simp add: fl_def)

lemma points_bounded:
  assumes "segment_ok e ps c" "length ps \<noteq> 1" "spaced ps" "0 < e" "e \<le> 1024"
  shows "0 \<le> px (c0 c)" "px (c2 c) \<le> 2 ^ 44" "0 \<le> px (c1 c)" "px (c3 c) \<le> 2 ^ 44" "px (c0 c) < px (c2 c)" "px (c1 c) < px (c3 c)"
    "\<bar>py (c0 c)\<bar> \<le> 2 ^ 31" "\<bar>py (c1 c)\<bar> \<le> 2 ^ 31" "\<bar>py (c2 c)\<bar> \<le> 2 ^ 31" "\<bar>py (c3 c)\<bar> \<le> 2 ^ 31"
proof -
  obtain p q r s where g: "p \<in> set ps" "q \<in> set ps" "r \<in> set ps" "s \<in> set ps"
    "c0 c = raised e p" "c2 c = raised (- e) q" "c1 c = raised (- e) r" "c3 c = raised e s" "px p < px q" "px r < px s"
    using segment_okD [OF assms(1,2)] .
  have b: "0 \<le> px i" "px i \<le> 2 ^ 44" "0 \<le> py i" "py i \<le> 2 ^ 30" if "i \<in> set ps" for i using assms(3) that by (auto simp: spaced_def)
  show "0 \<le> px (c0 c)" "px (c2 c) \<le> 2 ^ 44" "0 \<le> px (c1 c)" "px (c3 c) \<le> 2 ^ 44" "px (c0 c) < px (c2 c)" "px (c1 c) < px (c3 c)"
    using b [OF g(1)] b [OF g(2)] b [OF g(3)] b [OF g(4)] g by simp_all
  show "\<bar>py (c0 c)\<bar> \<le> 2 ^ 31" "\<bar>py (c1 c)\<bar> \<le> 2 ^ 31" "\<bar>py (c2 c)\<bar> \<le> 2 ^ 31" "\<bar>py (c3 c)\<bar> \<le> 2 ^ 31"
    using b [OF g(1)] b [OF g(2)] b [OF g(3)] b [OF g(4)] assms(4,5) by (simp_all add: g abs_le_iff)
qed

lemma slope_value_eq:
  assumes "px p < px q" "0 \<le> px p" "px q \<le> 2 ^ 44" "\<bar>py p\<bar> \<le> 2 ^ 31" "\<bar>py q\<bar> \<le> 2 ^ 31"
  shows "slope_value (point_minus q p) = ldbl (sl p q)"
proof -
  have "ldbl (of_int (py q - py p)) = of_int (py q - py p)" "ldbl (of_int (px q - px p)) = of_int (px q - px p)"
    using assms by (intro fl_of_int; simp add: abs_le_iff abs_less_iff)+
  then show ?thesis by (simp add: slope_value_def point_minus_def sl_def)
qed

lemma stored_slope:
  assumes ok: "segment_ok e ps c" "length ps \<noteq> 1" and s: "spaced ps" and e: "0 < e" "e \<le> 1024"
  defines "s' \<equiv> ldbl (ldbl (ldbl (low_slope c) + ldbl (high_slope c)) / 2)"
  shows "get_slope_range c = (ldbl (low_slope c), ldbl (high_slope c))" "0 < s'" "\<bar>s' - mean_slope c\<bar> \<le> 1 / 2 ^ 50"
proof -
  note b = points_bounded [OF ok s e]
  show "get_slope_range c = (ldbl (low_slope c), ldbl (high_slope c))"
    unfolding get_slope_range_def using b by (subst (1 2) slope_value_eq) (simp_all add: low_slope_def high_slope_def)
  let ?l = "low_slope c" and ?h = "high_slope c" and ?u = "1 / 2 ^ 64 :: rat"
  have eb: "(of_int e :: rat) \<le> 1024" "1 \<le> (of_int e :: rat)" using e by simp_all
  have sb: "\<bar>?l\<bar> \<le> 2048" "\<bar>?h\<bar> \<le> 2049" "0 < ?h" using extreme_slopes [OF ok s e(1)] eb unfolding abs_le_iff by linarith+
  define u :: rat where "u = ?u"
  have ln: "\<bar>ldbl ?l - ?l\<bar> \<le> 2049 * u" "\<bar>ldbl ?h - ?h\<bar> \<le> 2049 * u"
    using ldbl_near [of ?l ?l 0 2049] ldbl_near [of ?h ?h 0 2049] sb by (simp_all add: u_def)
  have sn: "\<bar>(ldbl ?l + ldbl ?h) - (?l + ?h)\<bar> \<le> 4098 * u" using ln by linarith
  have sm: "\<bar>?l + ?h\<bar> \<le> 4097" using sb by linarith
  have "\<bar>ldbl (ldbl ?l + ldbl ?h) - (?l + ?h)\<bar> \<le> 9000 * ?u" using ldbl_near [OF sn sm] by (simp add: u_def)
  then have "\<bar>ldbl (ldbl ?l + ldbl ?h) / 2 - mean_slope c\<bar> \<le> 4500 * ?u" unfolding mean_slope_def abs_le_iff by (simp add: field_simps)
  moreover have "\<bar>mean_slope c\<bar> \<le> 2049" using sm unfolding mean_slope_def abs_le_iff by (simp add: field_simps)
  ultimately show "\<bar>s' - mean_slope c\<bar> \<le> 1 / 2 ^ 50" unfolding s'_def using ldbl_near by fastforce
  have "0 < ldbl ?l + ldbl ?h"
  proof (cases "?l < 0")
    case False
    then show ?thesis using fl_nonneg [of ?l 64] fl_pos [OF sb(3), of 64] by simp
  next
    case True
    have "1 / 2048 \<le> 1 / (2 * of_int e :: rat)" using eb by (intro divide_left_mono) simp_all
    then have "- ?l * (1 + 1 / 2048) \<le> - ?l * (1 + 1 / (2 * of_int e))" using True by (intro mult_left_mono) simp_all
    then have h: "- ?l * (1 + 1 / 2048) \<le> ?h" using falling_slope [OF ok s e(1) True] by linarith
    have r: "- ?l * ?u \<ge> \<bar>ldbl ?l - ?l\<bar>" "?h * ?u \<ge> \<bar>ldbl ?h - ?h\<bar>" using fl_error [of 64 ?l] fl_error [of 64 ?h] True sb(3) by simp_all
    have "ldbl ?h \<ge> ?h - ?h * ?u" "ldbl ?l \<ge> ?l + ?l * ?u" using r unfolding abs_le_iff by linarith+
    then show ?thesis using h True by simp
  qed
  then show "0 < s'" unfolding s'_def using fl_pos by simp
qed

subsection \<open>The crossing of the extreme lines\<close>

text \<open>At \<open>c0\<close> and \<open>c2\<close> the line of the greatest slope lies on the inner side of the other one.\<close>

lemma high_inside:
  assumes ok: "segment_ok e ps c" "length ps \<noteq> 1"
  shows "high c (px (c0 c)) \<le> of_int (py (c0 c))" "of_int (py (c2 c)) \<le> high c (px (c2 c))"
    "low c (px (c0 c)) = of_int (py (c0 c))" "low c (px (c2 c)) = of_int (py (c2 c))"
proof -
  obtain p q where g: "p \<in> set ps" "q \<in> set ps" "c0 c = raised e p" "c2 c = raised (- e) q" "px p < px q"
    by (rule segment_okD [OF ok]) blast
  have "\<bar>high c (px p) - of_int (py p)\<bar> \<le> of_int e" "\<bar>high c (px q) - of_int (py q)\<bar> \<le> of_int e"
    using segment_within(2) [OF ok] g(1,2) by (auto simp: line_within_def)
  then show "high c (px (c0 c)) \<le> of_int (py (c0 c))" "of_int (py (c2 c)) \<le> high c (px (c2 c))"
    using g(3,4) unfolding abs_le_iff by simp_all
  show "low c (px (c0 c)) = of_int (py (c0 c))" "low c (px (c2 c)) = of_int (py (c2 c))"
    using lin_ends [of "c0 c" "c2 c"] g by (simp_all add: low_def)
qed

lemma crossing:
  assumes ok: "segment_ok e ps c" "length ps \<noteq> 1" and s: "spaced ps" and e: "0 < e" "e \<le> 1024"
  obtains ix iy where "\<bar>fst (get_intersection c) - ix\<bar> \<le> 1 / 80000" "\<bar>snd (get_intersection c) - iy\<bar> \<le> 1 / 1000"
    "0 \<le> ix" "ix \<le> 2 ^ 44" "\<bar>iy\<bar> \<le> 2 ^ 33"
    "\<And>z. low c z = iy + low_slope c * (of_int z - ix)" "\<And>z. high c z = iy + high_slope c * (of_int z - ix)"
proof -
  note b = points_bounded [OF ok s e] and h = high_inside [OF ok]
  define x0 y0 d1 w1 d2 w2 where "x0 = (of_int (px (c0 c)) :: rat)" and "y0 = (of_int (py (c0 c)) :: rat)"
    and "d1 = (of_int (px (c2 c) - px (c0 c)) :: rat)" and "w1 = (of_int (py (c2 c) - py (c0 c)) :: rat)"
    and "d2 = (of_int (px (c3 c) - px (c1 c)) :: rat)" and "w2 = (of_int (py (c3 c) - py (c1 c)) :: rat)"
  note defs = x0_def y0_def d1_def w1_def d2_def w2_def
  have d: "0 < d1" "0 < d2" "d1 \<le> 2 ^ 44" "0 \<le> x0" "x0 + d1 \<le> 2 ^ 44" "\<bar>y0\<bar> \<le> 2 ^ 31" "\<bar>w1\<bar> \<le> 2 ^ 32"
  proof -
    show "0 < d1" "0 < d2" "0 \<le> x0" using b by (simp_all add: defs)
    have "x0 + d1 = of_int (px (c2 c))" by (simp add: defs)
    also have "\<dots> \<le> of_int (2 ^ 44)" using b(2) by (simp only: of_int_le_iff)
    finally show "x0 + d1 \<le> 2 ^ 44" by simp
    then show "d1 \<le> 2 ^ 44" using \<open>0 \<le> x0\<close> by linarith
    have i: "\<bar>py (c0 c)\<bar> \<le> 2147483648" "\<bar>py (c2 c) - py (c0 c)\<bar> \<le> 4294967296" using b(7,9) by (simp_all add: abs_le_iff)
    then show "\<bar>y0\<bar> \<le> 2 ^ 31" "\<bar>w1\<bar> \<le> 2 ^ 32" unfolding defs of_int_abs [symmetric]
      by (simp_all add: of_int_le_numeral_iff del: of_int_abs of_int_diff)
  qed
  have s1: "low_slope c * d1 = w1" and s2: "high_slope c * d2 = w2"
    using d(1,2) by (simp_all add: low_slope_def high_slope_def sl_def defs)
  have low: "low c z = y0 + low_slope c * (of_int z - x0)" for z by (simp add: low_def lin_def low_slope_def defs)
  have high: "high c z = high c (px (c0 c)) + high_slope c * (of_int z - x0)" for z by (simp add: high_def lin_def high_slope_def defs algebra_simps)
  define D0 D2 where "D0 = y0 - high c (px (c0 c))" and "D2 = high c (px (c2 c)) - (y0 + w1)"
  have D: "0 \<le> D0" "0 \<le> D2" using h by (simp_all add: D0_def D2_def defs)
  have dd: "high_slope c * d1 - w1 = D0 + D2" using high [of "px (c2 c)"] by (simp add: D0_def D2_def defs)
  have exact: "ldbl (of_int i) = of_int i" if "\<bar>i\<bar> \<le> 2 ^ 44" for i using that by (intro fl_of_int) simp
  have ex: "ldbl x0 = x0" "ldbl y0 = y0" "ldbl d1 = d1" "ldbl w1 = w1"
    using b unfolding defs by (intro exact; simp add: abs_le_iff)+
  let ?num = "of_int ((px (c1 c) - px (c0 c)) * (py (c3 c) - py (c1 c)) - (py (c1 c) - py (c0 c)) * (px (c3 c) - px (c1 c))) :: rat"
  let ?a = "of_int ((px (c2 c) - px (c0 c)) * (py (c3 c) - py (c1 c)) - (py (c2 c) - py (c0 c)) * (px (c3 c) - px (c1 c))) :: rat"
  have num: "?num = D0 * d2"
  proof -
    have "high c (px (c0 c)) * d2 = of_int (py (c1 c)) * d2 + w2 * (of_int (px (c0 c)) - of_int (px (c1 c)))"
      unfolding high_def lin_def high_slope_def [symmetric] s2 [symmetric] by (simp add: algebra_simps)
    then show ?thesis by (simp add: D0_def left_diff_distrib) (simp add: defs algebra_simps)
  qed
  have a: "?a = (D0 + D2) * d2"
  proof -
    have "?a = d1 * w2 - w1 * d2" by (simp add: defs)
    also have "\<dots> = (high_slope c * d1 - w1) * d2" unfolding s2 [symmetric] by (simp add: algebra_simps)
    finally show ?thesis unfolding dd .
  qed
  have one: "\<not> one_point c" using b(5) by (auto simp: one_point_def)
  show thesis
  proof (cases "slope_eq (point_minus (c2 c) (c0 c)) (point_minus (c3 c) (c1 c))")
    case True
    then have "?a = 0" by (simp add: slope_eq_def point_minus_def)
    then have z: "D0 = 0" "D2 = 0" using a d(2) D by auto
    have g: "get_intersection c = (x0, y0)" using True ex by (simp add: get_intersection_def Let_def defs)
    have "high c (px (c0 c)) = y0" using z(1) by (simp add: D0_def)
    then have "high c z = y0 + high_slope c * (of_int z - x0)" for z using high [of z] by (simp only:)
    then show thesis using low d by (intro that [of x0 y0]) (simp_all add: g)
  next
    case False
    then have "?a \<noteq> 0" by (simp only: slope_eq_def point_minus_def slope.simps of_int_eq_0_iff)
    then have pos: "0 < D0 + D2" using a D by (cases "D0 + D2 = 0") auto
    define t where "t = ?num / ?a"
    have t: "t = D0 / (D0 + D2)" "0 \<le> t" "t \<le> 1" using pos D d(2) unfolding t_def num a by simp_all
    have tD: "t * (D0 + D2) = D0" using pos by (simp add: t(1))
    let ?b' = "ldbl (ldbl ?num / ldbl ?a)"
    have b': "\<bar>?b' - t\<bar> \<le> 8 / 2 ^ 64" unfolding t_def
      by (rule quot_near) (use D pos d(2) in \<open>simp_all only: num a mult_nonneg_nonneg mult_pos_pos less_imp_le mult_right_mono le_add_same_cancel1\<close>)
    have gi: "get_intersection c = (ldbl (x0 + ldbl (?b' * d1)), ldbl (y0 + ldbl (?b' * w1)))"
      using False one ex unfolding get_intersection_def Let_def point_minus_def slope.simps defs by simp
    have x: "\<bar>ldbl (x0 + ldbl (?b' * d1)) - (x0 + t * d1)\<bar> \<le> 12 * 2 ^ 44 / 2 ^ 64"
      by (rule between_near [OF b' t(2,3)]) (use d in simp_all)
    have y: "\<bar>ldbl (y0 + ldbl (?b' * w1)) - (y0 + t * w1)\<bar> \<le> 12 * 2 ^ 32 / 2 ^ 64"
      by (rule between_near [OF b' t(2,3)]) (use d in simp_all)
    have "\<bar>t * w1\<bar> \<le> 1 * 2 ^ 32" by (rule abs_mult_le) (use t(2,3) d(7) in simp_all)
    then have td: "0 \<le> t * d1" "t * d1 \<le> d1" "\<bar>t * w1\<bar> \<le> 2 ^ 32" using t(2,3) d by (simp_all add: mult_left_le_one_le)
    show thesis
    proof (rule that [of "x0 + t * d1" "y0 + t * w1"])
      show "\<bar>fst (get_intersection c) - (x0 + t * d1)\<bar> \<le> 1 / 80000" "\<bar>snd (get_intersection c) - (y0 + t * w1)\<bar> \<le> 1 / 1000"
        using order_trans [OF x, of "1 / 80000"] order_trans [OF y, of "1 / 1000"] unfolding gi fst_conv snd_conv by simp_all
      show "0 \<le> x0 + t * d1" "x0 + t * d1 \<le> 2 ^ 44" "\<bar>y0 + t * w1\<bar> \<le> 2 ^ 33"
        using d(4-6) td by (linarith, linarith, simp)
      show "low c z = y0 + t * w1 + low_slope c * (of_int z - (x0 + t * d1))" for z
        unfolding low s1 [symmetric] by (simp add: algebra_simps)
      have "t * (high_slope c * d1) = D0 + t * w1" using tD unfolding dd [symmetric] by (simp add: right_diff_distrib)
      moreover have "high c (px (c0 c)) = y0 - D0" by (simp add: D0_def)
      ultimately show "high c z = y0 + t * w1 + high_slope c * (of_int z - (x0 + t * d1))" for z
        using high [of z] by (simp add: algebra_simps)
    qed
  qed
qed

subsection \<open>The segment that is stored\<close>

lemma exact_ldbl: "\<bar>i\<bar> \<le> 2 ^ 44 \<Longrightarrow> ldbl (of_int i) = of_int i"
  by (intro fl_of_int) simp

lemma of_int_range: "0 \<le> i \<Longrightarrow> i \<le> 2 ^ 44 \<Longrightarrow> 0 \<le> (of_int i :: rat) \<and> of_int i \<le> (2 ^ 44 :: rat)"
  using of_int_le_iff [of i "2 ^ 44", where 'a = rat] by simp

lemma stored_line:
  assumes ok: "segment_ok e ps c" "length ps \<noteq> 1" and s: "spaced ps" and e: "0 < e" "e \<le> 1024" and k: "uint org \<le> 2 ^ 44"
  obtains sv ic where "get_floating_point_segment c org = (sv, ic)" "\<bar>ic - mean c (uint org)\<bar> \<le> 1 / 8"
    "0 < sv" "\<bar>sv - mean_slope c\<bar> \<le> 1 / 2 ^ 50"
proof -
  obtain ix iy where x: "\<bar>fst (get_intersection c) - ix\<bar> \<le> 1 / 80000" "0 \<le> ix" "ix \<le> 2 ^ 44"
    and y: "\<bar>snd (get_intersection c) - iy\<bar> \<le> 1 / 1000" "\<bar>iy\<bar> \<le> 2 ^ 33"
    and l: "\<And>z. low c z = iy + low_slope c * (of_int z - ix)" "\<And>z. high c z = iy + high_slope c * (of_int z - ix)"
    by (rule crossing [OF ok s e]) (rule that)
  define sv where "sv = ldbl (ldbl (ldbl (low_slope c) + ldbl (high_slope c)) / 2)"
  note sl = stored_slope [OF ok s e, folded sv_def]
  have "(of_int e :: rat) \<le> 1024" using e by simp
  then have "- 2048 \<le> low_slope c" "low_slope c \<le> 1" "0 < high_slope c" "high_slope c \<le> 2049" using extreme_slopes [OF ok s e(1)] by linarith+
  then have ms: "\<bar>mean_slope c\<bar> \<le> 2 ^ 12" unfolding mean_slope_def abs_le_iff by (simp add: field_simps)
  define ic where "ic = ldbl (snd (get_intersection c) - ldbl (ldbl (fst (get_intersection c) - of_int (uint org)) * sv))"
  have z: "0 \<le> (of_int (uint org) :: rat)" "of_int (uint org) \<le> (2 ^ 44 :: rat)" using of_int_range [OF uint_nonnegative k] by blast+
  have "\<bar>ic - (iy - (ix - of_int (uint org)) * mean_slope c)\<bar> \<le> 1 / 8"
    unfolding ic_def by (rule intercept_near [OF x y sl(3) ms z])
  moreover have "iy - (ix - of_int (uint org)) * mean_slope c = mean c (uint org)"
    by (simp add: mean_def mean_slope_def l field_simps)
  moreover have "\<not> one_point c" using points_bounded(5) [OF ok s e] by (auto simp: one_point_def)
  then have "get_floating_point_segment c org = (sv, ic)"
    using fl_of_int [of "uint org" 64] k by (simp add: get_floating_point_segment_def sl(1) Let_def sv_def ic_def split: prod.splits)
  ultimately show thesis using that sl(2,3) by simp
qed

definition seg_val :: "seg \<Rightarrow> u64 \<Rightarrow> int" where
  "seg_val sg k = trunc (dbl (seg_slope sg * dbl (of_int (uint k - uint (seg_key sg)))))"

definition seg_sane :: "seg \<Rightarrow> bool" where
  "seg_sane sg \<longleftrightarrow> 0 \<le> seg_slope sg \<and> seg_slope sg \<le> 2 ^ 13 \<and> \<bar>seg_intercept sg\<bar> < 2 ^ 31"

lemma seg_pos_eq:
  assumes sane: "seg_sane sg" and k: "seg_key sg \<le> k" "uint k \<le> 2 ^ 44"
  shows "seg_pos sg k = Some (nat (seg_val sg k + seg_intercept sg))" "0 \<le> seg_val sg k"
proof -
  let ?z = "uint k - uint (seg_key sg)"
  have z: "uint (k - seg_key sg) = ?z" "0 \<le> ?z" "?z \<le> 2 ^ 44"
    using k uint_sub_lem [of "seg_key sg" k] uint_nonnegative [of "seg_key sg"] unfolding word_le_def by (simp, linarith, linarith)
  then have d: "dbl (of_int ?z) = of_int ?z" by (intro fl_of_int) simp
  have zr: "0 \<le> (of_int ?z :: rat)" "of_int ?z \<le> (2 ^ 44 :: rat)" using of_int_range [OF z(2,3)] by blast+
  have p: "0 \<le> seg_slope sg * of_int ?z" "seg_slope sg * of_int ?z \<le> 2 ^ 13 * 2 ^ 44"
    using sane zr unfolding seg_sane_def by (simp, intro mult_mono) simp_all
  have "dbl (seg_slope sg * of_int ?z) \<le> dbl (of_int (2 ^ 57))" by (rule fl_mono) (use p in simp_all)
  also have "\<dots> = of_int (2 ^ 57)" using fl_exact [of 1 53 57] by simp
  finally have x: "dbl (seg_slope sg * of_int ?z) \<le> of_int (2 ^ 57)" .
  have "seg_val sg k = trunc (dbl (seg_slope sg * of_int ?z))" unfolding seg_val_def d ..
  moreover have "0 \<le> dbl (seg_slope sg * of_int ?z)" using p(1) by (rule fl_nonneg)
  moreover have "trunc (of_int (2 ^ 57) :: rat) = 2 ^ 57" by (simp add: trunc_def)
  ultimately have v: "0 \<le> seg_val sg k" "seg_val sg k \<le> 2 ^ 57" using trunc_nonneg trunc_mono [OF x] by (simp_all only:)
  then have "to_int 64 (seg_val sg k) = Some (seg_val sg k)" "to_int 64 (seg_val sg k + seg_intercept sg) = Some (seg_val sg k + seg_intercept sg)"
    using sane by (simp_all add: to_int_def seg_sane_def abs_less_iff)
  then show "seg_pos sg k = Some (nat (seg_val sg k + seg_intercept sg))"
    using z(1) by (simp add: seg_pos_def seg_val_def)
  show "0 \<le> seg_val sg k" by (rule v(1))
qed

lemma seg_val_mono: "seg_sane sg \<Longrightarrow> k \<le> k' \<Longrightarrow> seg_val sg k \<le> seg_val sg k'"
  unfolding seg_val_def by (intro trunc_mono fl_mono mult_left_mono of_int_le_iff [THEN iffD2] diff_right_mono) (simp_all add: seg_sane_def word_le_def)

text \<open>What the index needs to know of a segment\<close>

definition seg_ok :: "int \<Rightarrow> point list \<Rightarrow> seg \<Rightarrow> bool" where
  "seg_ok e ps sg \<longleftrightarrow> seg_sane sg \<and> uint (seg_key sg) = px (hd ps) \<and> (seg_slope sg = 0 \<longleftrightarrow> length ps = 1)
     \<and> py (hd ps) - e \<le> seg_intercept sg \<and> seg_intercept sg \<le> py (hd ps) + e \<and> seg_intercept sg \<le> py (last ps)
     \<and> (\<forall>p\<in>set ps. \<forall>k. uint k = px p \<longrightarrow> py p - e - 1 \<le> seg_val sg k + seg_intercept sg \<and> seg_val sg k + seg_intercept sg \<le> py p + e)"

lemma new_segment_one:
  assumes "segment_ok e [p] c" "spaced [p]" "0 < e"
  shows "\<exists>sg. new_segment c = Some sg \<and> seg_ok e [p] sg"
proof -
  have c: "c_first c = px p" "c0 c = raised e p" "c1 c = raised (- e) p" "c2 c = c0 c" "c3 c = c1 c" using assms(1) by (simp_all add: segment_ok_def)
  have b: "0 \<le> px p" "px p \<le> 2 ^ 44" "0 \<le> py p" "py p \<le> 2 ^ 30" using assms(2) by (simp_all add: spaced_def)
  have "(py (c0 c) + py (c1 c)) sdiv 2 = py p" using b by (simp add: c signed_divide_int_def sgn_if)
  then have "get_floating_point_segment c k = (0, of_int (py p))" for k
    using b by (simp add: get_floating_point_segment_def one_point_def c exact_ldbl)
  moreover have "round_away (of_int (py p)) = py p" using b by simp
  moreover have "\<not> (of_int (py p) :: rat) > 2147483647" using b of_int_le_iff [of "py p" 2147483647, where 'a = rat] by simp
  ultimately have n: "new_segment c = Some \<lparr>seg_key = word_of_int (px p), seg_slope = 0, seg_intercept = py p\<rparr>"
    using b by (simp add: new_segment_def to_int_def c)
  have "uint (word_of_int (px p) :: u64) = px p" using b by (simp add: uint_word_of_int_eq take_bit_int_eq_self)
  then show ?thesis using assms(3) b by (simp add: n seg_ok_def seg_sane_def seg_val_def trunc_def)
qed

text \<open>The points of a segment come with ascending keys.\<close>

definition ordered :: "point list \<Rightarrow> bool" where
  "ordered ps \<longleftrightarrow> ps \<noteq> [] \<and> (\<forall>p\<in>set ps. px (hd ps) \<le> px p \<and> px p \<le> px (last ps))"

lemma int_le_of_rat: "(of_int i :: rat) < of_int j + 1 \<Longrightarrow> i \<le> j"
proof -
  assume "(of_int i :: rat) < of_int j + 1"
  then have "(of_int i :: rat) < of_int (j + 1)" by simp
  then show "i \<le> j" unfolding of_int_less_iff by simp
qed

lemma mean_at_start:
  assumes ok: "segment_ok e ps c" "length ps \<noteq> 1" and s: "spaced ps" and e: "0 < e" and o: "ordered ps"
  shows "mean c (px (hd ps)) \<le> of_int (py (last ps)) - 1 / 2"
proof -
  obtain p q r s' where g: "p \<in> set ps" "q \<in> set ps" "r \<in> set ps" "s' \<in> set ps"
    "c0 c = raised e p" "c2 c = raised (- e) q" "c1 c = raised (- e) r" "c3 c = raised e s'" "px p < px q" "px r < px s'"
    using segment_okD [OF ok] .
  have m: "hd ps \<in> set ps" "last ps \<in> set ps" using o by (simp_all add: ordered_def)
  have b: "px (hd ps) \<le> px i" "px i \<le> px (last ps)" if "i \<in> set ps" for i using o that by (auto simp: ordered_def)
  have "px (hd ps) < px (last ps)" using b(1) [OF g(1)] b(2) [OF g(2)] g(9) by linarith
  then have hl: "py (hd ps) < py (last ps)" and rl: "py r \<le> py (last ps)" using s m g(3) b(2) [OF g(3)] by (auto simp: spaced_def)
  have "high c (px (hd ps)) = of_int (py r - e) - high_slope c * of_int (px r - px (hd ps))"
    by (simp add: high_def lin_def high_slope_def g algebra_simps)
  moreover have "0 \<le> high_slope c * of_int (px r - px (hd ps))"
    using extreme_slopes(3) [OF ok s e] b(1) [OF g(3)] by (intro mult_nonneg_nonneg) simp_all
  ultimately have "high c (px (hd ps)) \<le> of_int (py r) - of_int e" by simp
  moreover have "\<bar>low c (px (hd ps)) - of_int (py (hd ps))\<bar> \<le> of_int e" using segment_within(1) [OF ok] m(1) by (auto simp: line_within_def)
  moreover have "(of_int (py (hd ps)) :: rat) \<le> of_int (py (last ps)) - 1" using hl of_int_le_iff [of "py (hd ps) + 1" "py (last ps)", where 'a = rat] by simp
  moreover have "(of_int (py r) :: rat) \<le> of_int (py (last ps))" using rl by simp
  ultimately show ?thesis unfolding mean_def abs_le_iff by (simp add: field_simps)
qed

lemma new_segment_many:
  assumes ok: "segment_ok e ps c" "length ps \<noteq> 1" and s: "spaced ps" and e: "0 < e" "e \<le> 1024" and o: "ordered ps"
  shows "\<exists>sg. new_segment c = Some sg \<and> seg_ok e ps sg"
proof -
  let ?o = "px (hd ps)" and ?m = "mean c (px (hd ps))"
  have m: "hd ps \<in> set ps" "last ps \<in> set ps" using o by (simp_all add: ordered_def)
  have b: "0 \<le> px i" "px i \<le> 2 ^ 44" "0 \<le> py i" "py i \<le> 2 ^ 30" "?o \<le> px i" if "i \<in> set ps" for i
    using s o that by (auto simp: spaced_def ordered_def)
  define key :: u64 where "key = word_of_int ?o"
  have key: "uint key = ?o" "c_first c = ?o" using b(1,2) [OF m(1)] ok by (simp_all add: key_def uint_word_of_int_eq take_bit_int_eq_self segment_ok_def)
  have k: "uint key \<le> 2 ^ 44" using key(1) b(2) [OF m(1)] by simp
  obtain sv ic where f: "get_floating_point_segment c key = (sv, ic)" "\<bar>ic - ?m\<bar> \<le> 1 / 8" "0 < sv" "\<bar>sv - mean_slope c\<bar> \<le> 1 / 2 ^ 50"
    using stored_line [OF ok s e k] unfolding key(1) .
  have w: "\<bar>mean c (px i) - of_int (py i)\<bar> \<le> of_int e" if "i \<in> set ps" for i
    using segment_within(3) [OF ok] that by (auto simp: line_within_def)
  have eb: "(of_int e :: rat) \<le> 1024" using e by simp
  have yb: "0 \<le> (of_int (py i) :: rat)" "(of_int (py i) :: rat) \<le> 2 ^ 30" if "i \<in> set ps" for i
    using b(3,4) [OF that] of_int_le_iff [of "py i" "2 ^ 30", where 'a = rat] by simp_all
  define I where "I = round_away ic"
  have I: "of_int I \<le> ?m + 5 / 8" "?m - 5 / 8 \<le> of_int I"
    using round_away_bounds [of ic] f(2) unfolding I_def abs_le_iff by linarith+
  have Ib: "py (hd ps) - e \<le> I" "I \<le> py (hd ps) + e" "I \<le> py (last ps)"
    using I w [OF m(1)] mean_at_start [OF ok s e(1) o] unfolding abs_le_iff by (intro int_le_of_rat; simp)+
  have "ic \<le> 2147483647" using f(2) w [OF m(1)] eb yb(2) [OF m(1)] unfolding abs_le_iff by simp
  moreover have Ic: "\<bar>I\<bar> < 2 ^ 31" using Ib b(3,4) [OF m(1)] e by simp
  then have "to_int 32 I = Some I" by (simp add: to_int_def abs_less_iff)
  ultimately have n: "new_segment c = Some \<lparr>seg_key = key, seg_slope = dbl sv, seg_intercept = I\<rparr>" (is "_ = Some ?sg")
    using f(1) by (simp add: new_segment_def key(2) key_def I_def)
  have ms: "mean_slope c \<le> 2049" using extreme_slopes [OF ok s e(1)] eb by (simp add: mean_slope_def)
  then have "sv \<le> 2050" using f(4) unfolding abs_le_iff by simp
  then have "dbl sv \<le> 2 ^ 13" using fl_error [of 53 sv] f(3) unfolding abs_le_iff by simp
  moreover have pos: "0 < dbl sv" using fl_pos [OF f(3)] by simp
  ultimately have sane: "seg_sane ?sg" using Ic by (simp add: seg_sane_def)
  have pt: "py p - e - 1 \<le> seg_val ?sg k + I \<and> seg_val ?sg k + I \<le> py p + e" if p: "p \<in> set ps" "uint k = px p" for p k
  proof -
    let ?z = "of_int (px p - ?o) :: rat"
    have z: "0 \<le> px p - ?o" "px p - ?o \<le> 2 ^ 44" using b [OF p(1)] b [OF m(1)] by linarith+
    note zr = of_int_range [OF z]
    have d: "dbl ?z = ?z" using z by (intro fl_of_int) simp
    have mv: "mean c (px p) = ?m + mean_slope c * ?z" by (rule mean_move)
    have "\<bar>mean_slope c * ?z\<bar> \<le> 2 ^ 34" using mv w [OF p(1)] w [OF m(1)] eb yb [OF p(1)] yb [OF m(1)] unfolding abs_le_iff by simp
    from product_near [OF f(4) conjunct1 [OF zr] conjunct2 [OF zr] this]
    have v: "\<bar>dbl (dbl sv * ?z) - mean_slope c * ?z\<bar> \<le> 1 / 8" .
    have "0 \<le> dbl (dbl sv * ?z)" using pos zr by (intro fl_nonneg) simp
    from trunc_bounds [OF this] have t: "of_int (trunc (dbl (dbl sv * ?z))) \<le> dbl (dbl sv * ?z)" "dbl (dbl sv * ?z) < of_int (trunc (dbl (dbl sv * ?z))) + 1" by blast+
    have "seg_val ?sg k = trunc (dbl (dbl sv * ?z))" using d by (simp only: seg_val_def p(2) key(1) seg.simps)
    then show ?thesis using t v I mv w [OF p(1)] unfolding abs_le_iff by (intro conjI int_le_of_rat; simp)
  qed
  have "seg_ok e ps ?sg" using sane key(1) pos ok(2) Ib pt by (simp add: seg_ok_def)
  then show ?thesis using n by blast
qed

lemma new_segment_ok:
  assumes ok: "segment_ok e ps c" and s: "spaced ps" and e: "0 < e" "e \<le> 1024" and o: "ordered ps"
  shows "\<exists>sg. new_segment c = Some sg \<and> seg_ok e ps sg"
proof (cases "length ps = 1")
  case True
  then obtain p where "ps = [p]" by (cases ps) auto
  then show ?thesis using new_segment_one ok s e(1) by blast
qed (use new_segment_many assms in blast)

end
