(* ===== verification/Pgm_Level.thy ===== *)
theory Pgm_Level
  imports Pgm_Segment
begin

text \<open>
  One level of the static PGM index: what its segments promise about the keys below, that the
  constructor makes such a level, and that a level of two or more keys has fewer segments.
\<close>

subsection \<open>The keys of a level\<close>

text \<open>The keys ascend; only the last two may both be \<open>tk\<close>, the key that follows the greatest key of the
  data.\<close>

definition keys_ok :: "nat \<Rightarrow> int \<Rightarrow> (nat \<Rightarrow> int) \<Rightarrow> bool" where
  "keys_ok n tk f \<longleftrightarrow> 0 < n \<and> n \<le> 2 ^ 30 \<and> tk \<le> 2 ^ 44 \<and> f 0 < tk \<and> (\<forall>i<n. 0 \<le> f i \<and> f i \<le> tk)
     \<and> (\<forall>i. i + 1 < n \<longrightarrow> f i < f (i + 1) \<or> i + 2 = n \<and> f i = tk \<and> f (i + 1) = tk)"

lemma keys_okD:
  assumes "keys_ok n tk f"
  shows "0 < n" "n \<le> 2 ^ 30" "tk \<le> 2 ^ 44" "f 0 < tk" "i < n \<Longrightarrow> 0 \<le> f i" "i < n \<Longrightarrow> f i \<le> tk"
    "i + 1 < n \<Longrightarrow> f i < f (i + 1) \<or> i + 2 = n \<and> f i = tk \<and> f (i + 1) = tk"
  using assms by (auto simp: keys_ok_def)

lemma keys_gap:
  assumes k: "keys_ok n tk f"
  shows "i \<le> j \<Longrightarrow> j < n \<Longrightarrow> j + 1 < n \<or> i = j \<or> f (j - 1) \<noteq> f j \<Longrightarrow> int (j - i) \<le> f j - f i"
proof (induction j rule: dec_induct)
  case (step j)
  then have "int (j - i) \<le> f j - f i" by simp
  moreover have "f j < f (Suc j)" using keys_okD(7) [OF k, of j] step.prems step.hyps by auto
  ultimately show ?case using step.hyps by linarith
qed simp

lemma keys_mono:
  assumes k: "keys_ok n tk f"
  shows "i \<le> j \<Longrightarrow> j < n \<Longrightarrow> f i \<le> f j"
proof (induction j rule: dec_induct)
  case (step j)
  then show ?case using keys_okD(7) [OF k, of j] by fastforce
qed simp

lemma keys_strict:
  assumes k: "keys_ok n tk f" and i: "i < j" "j < n" "f i < tk"
  shows "f i < f j"
proof -
  have "f i < f (i + 1)" using keys_okD(7) [OF k, of i] i by auto
  also have "f (i + 1) \<le> f j" by (rule keys_mono [OF k]) (use i in simp_all)
  finally show ?thesis .
qed

lemma keys_ok_sorted: "keys_ok n tk f \<Longrightarrow> \<forall>i<n. inp i = (f i, int i) \<Longrightarrow> i \<le> j \<Longrightarrow> j < n \<Longrightarrow> fst (inp i) \<le> fst (inp j)"
  using keys_mono by simp

subsection \<open>The points of a segment\<close>

definition pt :: "(nat \<Rightarrow> int) \<Rightarrow> nat \<Rightarrow> point" where
  "pt f i = \<lparr>px = f i, py = int i\<rparr>"

lemma pt_sel [simp]: "px (pt f i) = f i" "py (pt f i) = int i"
  by (simp_all add: pt_def)

lemma set_fed:
  assumes "\<forall>i<n. inp i = (f i, int i)" "t \<le> n"
  shows "set (fed inp s t) = pt f ` {i \<in> {s..<t}. i = s \<or> f (i - 1) \<noteq> f i}"
  using assms by (auto simp: fed_def pt_def)

lemma fed_ends:
  assumes inp: "\<forall>i<n. inp i = (f i, int i)" and t: "s < t" "t \<le> n" and k: "keys_ok n tk f"
  shows "fed inp s t \<noteq> []" "hd (fed inp s t) = pt f s" "px (last (fed inp s t)) = f (t - 1)"
proof -
  show "fed inp s t \<noteq> []" "px (last (fed inp s t)) = f (t - 1)"
    using fed_last [OF t(1), of n inp] keys_ok_sorted [OF k inp] t inp by auto
  show "hd (fed inp s t) = pt f s" using t inp by (simp add: fed_def upt_conv_Cons pt_def)
qed

lemma fed_spaced:
  assumes inp: "\<forall>i<n. inp i = (f i, int i)" and t: "s < t" "t \<le> n" and k: "keys_ok n tk f"
  shows "spaced (fed inp s t)" "ordered (fed inp s t)"
proof -
  let ?D = "{i \<in> {s..<t}. i = s \<or> f (i - 1) \<noteq> f i}"
  note set = set_fed [OF inp t(2), of s]
  have gap: "int (j - i) \<le> f j - f i" if "i \<in> ?D" "j \<in> ?D" "i \<le> j" for i j
    using keys_gap [OF k that(3)] that t by auto
  have 1: "(f i \<le> f j \<longrightarrow> int i \<le> int j \<and> int j - int i \<le> f j - f i) \<and> (f i < f j \<longrightarrow> int i < int j)" if "i \<in> ?D" "j \<in> ?D" for i j
    using gap [OF that] gap [OF that(2,1)] by (cases i j rule: linorder_cases) auto
  have 2: "0 \<le> f i \<and> f i \<le> 2 ^ 44 \<and> int i \<le> 2 ^ 30" if "i \<in> ?D" for i
    using keys_okD(2,3) [OF k] keys_okD(5,6) [OF k, of i] that t by simp
  have "0 \<le> px p \<and> px p \<le> 2 ^ 44 \<and> 0 \<le> py p \<and> py p \<le> 2 ^ 30" if "p \<in> set (fed inp s t)" for p
    using that 2 unfolding set by (elim imageE) simp
  moreover have "(px p \<le> px q \<longrightarrow> py p \<le> py q \<and> py q - py p \<le> px q - px p) \<and> (px p < px q \<longrightarrow> py p < py q)"
    if pq: "p \<in> set (fed inp s t)" "q \<in> set (fed inp s t)" for p q
  proof -
    obtain i j where "p = pt f i" "q = pt f j" and ij: "i \<in> ?D" "j \<in> ?D" using pq unfolding set by blast
    then show ?thesis using 1 [OF ij] by (simp only: pt_sel)
  qed
  ultimately show "spaced (fed inp s t)" unfolding spaced_def by blast
  have "f s \<le> f i \<and> f i \<le> f (t - 1)" if "i \<in> ?D" for i using keys_mono [OF k] that t by auto
  then show "ordered (fed inp s t)" unfolding ordered_def set using fed_ends [OF inp t k] by simp
qed

lemma fed_last_py:
  assumes "\<forall>i<n. inp i = (f i, int i)" "s < t" "t \<le> n" "keys_ok n tk f"
  shows "py (last (fed inp s t)) \<le> int t - 1"
proof -
  have "last (fed inp s t) \<in> set (fed inp s t)" using fed_ends(1) [OF assms] by simp
  then show ?thesis unfolding set_fed [OF assms(1,3)] by auto
qed

subsection \<open>The segments of a level\<close>

definition part_ok :: "int \<Rightarrow> nat \<Rightarrow> int \<Rightarrow> (nat \<Rightarrow> int) \<Rightarrow> nat \<Rightarrow> nat \<Rightarrow> seg \<Rightarrow> bool" where
  "part_ok e n tk f s t sg \<longleftrightarrow> s \<le> t \<and> t \<le> n \<and> (s < n \<longrightarrow> s < t) \<and> seg_sane sg \<and> uint (seg_key sg) = (if s < n then f s else tk)
     \<and> int s - e \<le> seg_intercept sg \<and> seg_intercept sg \<le> int s + e \<and> seg_intercept sg \<le> int t \<and> (0 < s \<longrightarrow> 0 \<le> seg_intercept sg)
     \<and> (\<forall>j k. s \<le> j \<and> j < t \<and> (j = s \<or> f (j - 1) \<noteq> f j) \<and> uint k = f j \<longrightarrow>
          int j - e - 1 \<le> seg_val sg k + seg_intercept sg \<and> seg_val sg k + seg_intercept sg \<le> int j + e)"

text \<open>\<open>st\<close> are the positions at which the segments start, and the end.\<close>

definition level_ok :: "int \<Rightarrow> nat \<Rightarrow> int \<Rightarrow> (nat \<Rightarrow> int) \<Rightarrow> seg list \<Rightarrow> nat list \<Rightarrow> bool" where
  "level_ok e n tk f L st \<longleftrightarrow> 2 \<le> length L \<and> length st = length L \<and> st ! 0 = 0 \<and> st ! (length L - 1) = n
     \<and> seg_intercept (last L) = int n \<and> (\<forall>i. i + 1 < length L \<longrightarrow> part_ok e n tk f (st ! i) (st ! (i + 1)) (L ! i))"

text \<open>A segment that is not the last has more than twice the error in points, so the intercepts after
  the first segment are not negative.\<close>

lemma segment_long:
  assumes inp: "\<forall>i<n. inp i = (f i, int i)" and r: "segment_right e inp n (a, b, c)" and e: "0 < e" and b: "b < n"
  shows "2 * e + 1 \<le> int b - int a"
proof (rule ccontr)
  assume "\<not> 2 * e + 1 \<le> int b - int a"
  then have d: "(of_int (int b - int a) :: rat) \<le> of_int (2 * e)" by (simp only: of_int_le_iff)
  have ab: "a < b" "\<not> fits e 0 (of_int (int a + int b) / 2) (fed inp a (b + 1))" using r b by (auto simp: segment_right_def)
  have "fits e 0 (of_int (int a + int b) / 2) (fed inp a (b + 1))"
    unfolding fits_def line_within_def
  proof
    fix p assume "p \<in> set (fed inp a (b + 1))"
    then obtain i where "p = pt f i" "a \<le> i" "i \<le> b" using set_fed [OF inp, of "b + 1" a] b by auto
    then have i: "of_int (py p) = (of_nat i :: rat)" "(of_nat a :: rat) \<le> of_nat i" "(of_nat i :: rat) \<le> of_nat b" by simp_all
    have "line 0 (of_int (int a + int b) / 2) (px p) = (of_nat a + of_nat b) / 2" by (simp add: line_def)
    then show "\<bar>line 0 (of_int (int a + int b) / 2) (px p) - of_int (py p)\<bar> \<le> of_int e"
      using i d unfolding abs_le_iff by (simp add: field_simps)
  qed
  then show False using ab(2) by simp
qed

lemma those_map_ok:
  "\<forall>x\<in>set xs. \<exists>y. g x = Some y \<and> P x y \<Longrightarrow> \<exists>ys. those (map g xs) = Some ys \<and> list_all2 P xs ys"
  by (induction xs) fastforce+

lemma covers_starts:
  "covers s n out \<Longrightarrow> i < length out \<Longrightarrow> fst (snd (out ! i)) = (map fst out @ [n]) ! (i + 1) \<and> fst (out ! i) < fst (snd (out ! i)) \<and> s \<le> fst (out ! i)"
proof (induction s n out arbitrary: i rule: covers.induct)
  case (2 s n a b c r)
  show ?case
  proof (cases i)
    case 0
    then show ?thesis using 2 by (cases r) auto
  next
    case (Suc j)
    then show ?thesis using 2 by fastforce
  qed
qed simp

lemma covers_first: "covers s n out \<Longrightarrow> (map fst out @ [n]) ! 0 = s"
  by (cases out) auto

lemma covers_count: "covers s n out \<Longrightarrow> \<forall>(a, b, c)\<in>set out. b < n \<longrightarrow> a + 3 \<le> b \<Longrightarrow> out \<noteq> [] \<Longrightarrow> s + 3 * (length out - 1) + 1 \<le> n"
proof (induction s n out rule: covers.induct)
  case (2 s n a b c r)
  show ?case
  proof (cases r)
    case Nil
    then show ?thesis using 2 by simp
  next
    case (Cons x y)
    then have "b + 3 * (length r - 1) + 1 \<le> n" using 2 by simp
    moreover have "a + 3 \<le> b" "a = s" using 2 calculation by auto
    ultimately show ?thesis using Cons by simp
  qed
qed simp

lemma new_part:
  assumes inp: "\<forall>i<n. inp i = (f i, int i)" and k: "keys_ok n tk f" and e: "0 < e" "e \<le> 1024"
    and r: "segment_right e inp n (a, b, c)" and pos: "0 < a \<Longrightarrow> e \<le> int a"
  shows "\<exists>sg. new_segment c = Some sg \<and> part_ok e n tk f a b sg \<and> (seg_slope sg = 0 \<longleftrightarrow> length (fed inp a b) = 1)"
proof -
  have ab: "a < b" "b \<le> n" and ok: "segment_ok e (fed inp a b) c" using r by (simp_all add: segment_right_def)
  note ends = fed_ends [OF inp ab k]
  obtain sg where sg: "new_segment c = Some sg" "seg_ok e (fed inp a b) sg"
    using new_segment_ok [OF ok fed_spaced(1) [OF inp ab k] e fed_spaced(2) [OF inp ab k]] by blast
  have I: "int a - e \<le> seg_intercept sg" "seg_intercept sg \<le> int a + e" "seg_intercept sg \<le> int b"
    using sg(2) ends(2) fed_last_py [OF inp ab k] by (simp_all add: seg_ok_def)
  have "int j - e - 1 \<le> seg_val sg w + seg_intercept sg \<and> seg_val sg w + seg_intercept sg \<le> int j + e"
    if j: "a \<le> j" "j < b" "j = a \<or> f (j - 1) \<noteq> f j" "uint w = f j" for j w
  proof -
    have "pt f j \<in> set (fed inp a b)" unfolding set_fed [OF inp ab(2)] using j by simp
    then show ?thesis using sg(2) j(4) by (force simp: seg_ok_def)
  qed
  then have "part_ok e n tk f a b sg" unfolding part_ok_def using sg(2) I ab ends(2) pos by (auto simp: seg_ok_def)
  then show ?thesis using sg by (auto simp: seg_ok_def)
qed

subsection \<open>The constructor makes a level\<close>

lemma flat_segment_eq:
  assumes "uint last_key + 1 = tk" "tk \<le> 2 ^ 44" "n \<le> 2 ^ 30"
  shows "flat_segment (last_key + 1) n = Some \<lparr>seg_key = last_key + 1, seg_slope = 0, seg_intercept = int n\<rparr>" "uint (last_key + 1) = tk"
proof -
  have "dbl (of_nat n) = of_int (int n)" using fl_of_nat [of n 53] assms(3) by simp
  moreover have "trunc (of_int (int n)) = int n" by (simp add: trunc_def)
  ultimately show "flat_segment (last_key + 1) n = Some \<lparr>seg_key = last_key + 1, seg_slope = 0, seg_intercept = int n\<rparr>"
    using assms(3) by (simp add: flat_segment_def to_int_def)
  show "uint (last_key + 1) = tk" using assms by (subst uint_plus_if') simp
qed

lemma last_segment_intercept: "n \<le> 2 ^ 30 \<Longrightarrow> seg_intercept (last_segment n) = int n"
  by (simp add: last_segment_def sint_uint unsigned_of_nat signed_take_bit_int_eq_self take_bit_nat_eq_self)

lemma part_flat:
  assumes "0 < e" "n \<le> 2 ^ 30" "uint (seg_key sg) = tk" "seg_slope sg = 0" "seg_intercept sg = int n"
  shows "part_ok e n tk f n n sg"
  using assms by (simp add: part_ok_def seg_sane_def)

text \<open>The segments before \<open>back_check\<close>, and where they start\<close>

definition made :: "int \<Rightarrow> nat \<Rightarrow> int \<Rightarrow> (nat \<Rightarrow> int) \<Rightarrow> seg list \<Rightarrow> nat list \<Rightarrow> bool" where
  "made e n tk f new sts \<longleftrightarrow> new \<noteq> [] \<and> length sts = length new + 1 \<and> sts ! 0 = 0 \<and> sts ! length new = n
     \<and> (\<forall>i<length new. part_ok e n tk f (sts ! i) (sts ! (i + 1)) (new ! i) \<and> sts ! i < n)
     \<and> (\<forall>i. i + 1 < length new \<longrightarrow> f (sts ! i) < f (sts ! (i + 1)))
     \<and> 3 * (length new - 1) + 1 \<le> n \<and> (n = 2 \<longrightarrow> seg_slope (last new) \<noteq> 0)"

lemma segments_at:
  assumes "covers 0 n out" "\<forall>x\<in>set out. segment_right e inp n x" "i < length out"
  defines "sts \<equiv> map fst out @ [n]"
  shows "fst (out ! i) = sts ! i" "fst (snd (out ! i)) = sts ! (i + 1)" "sts ! i < sts ! (i + 1)" "sts ! i < n" "run_start inp (sts ! i)"
    "segment_right e inp n (sts ! i, sts ! (i + 1), snd (snd (out ! i)))"
proof -
  show s: "fst (out ! i) = sts ! i" "fst (snd (out ! i)) = sts ! (i + 1)" "sts ! i < sts ! (i + 1)"
    using covers_starts [OF assms(1,3)] assms(3) by (simp_all add: sts_def nth_append)
  have "segment_right e inp n (out ! i)" using assms(2,3) by simp
  then show r: "segment_right e inp n (sts ! i, sts ! (i + 1), snd (snd (out ! i)))" using s by (metis prod.collapse)
  then show "sts ! i < n" "run_start inp (sts ! i)" by (simp_all add: segment_right_def)
qed

lemma starts_late:
  assumes inp: "\<forall>i<n. inp i = (f i, int i)" and e: "0 < e" and out: "covers 0 n out" "\<forall>x\<in>set out. segment_right e inp n x"
    and i: "i < length out" "0 < (map fst out @ [n]) ! i"
  shows "e \<le> int ((map fst out @ [n]) ! i)"
proof (cases i)
  case 0
  then show ?thesis using covers_first [OF out(1)] i by simp
next
  case (Suc j)
  then have "2 * e + 1 \<le> int ((map fst out @ [n]) ! i) - int ((map fst out @ [n]) ! j)"
    using segment_long [OF inp _ e] segments_at(6) [OF out, of j] segments_at(4) [OF out i(1)] i(1) by simp
  then show ?thesis using e by linarith
qed

lemma starts_ascend:
  assumes inp: "\<forall>i<n. inp i = (f i, int i)" and k: "keys_ok n tk f" and out: "covers 0 n out" "\<forall>x\<in>set out. segment_right e inp n x"
    and i: "i + 1 < length out"
  shows "f ((map fst out @ [n]) ! i) < f ((map fst out @ [n]) ! (i + 1))"
proof -
  let ?a = "(map fst out @ [n]) ! i" and ?b = "(map fst out @ [n]) ! (i + 1)"
  have p: "?a \<le> ?b - 1" "0 < ?b" "?b < n" using segments_at(3) [OF out, of i] segments_at(4) [OF out i] i by simp_all
  then have "f ?b \<noteq> f (?b - 1)" using segments_at(5) [OF out i] inp by (simp add: run_start_def)
  moreover have "f (?b - 1) \<le> f ?b" "f ?a \<le> f (?b - 1)" using keys_mono [OF k] p by simp_all
  ultimately show ?thesis by linarith
qed

lemma make_parts:
  assumes k: "keys_ok n tk f" and inp: "\<forall>i<n. inp i = (f i, int i)" and e: "0 < e" "e \<le> 1024"
  obtains out new where "make_segmentation n e inp = Some out" "covers 0 n out" "those (map (\<lambda>(start, end', cs). new_segment cs) out) = Some new"
    "length new = length out" "made e n tk f new (map fst out @ [n])"
proof -
  obtain out where out: "make_segmentation n e inp = Some out" "covers 0 n out" "\<forall>x\<in>set out. segment_right e inp n x"
    using make_segmentation_ok [OF e(1), of n inp] keys_ok_sorted [OF k inp] by blast
  define sts where "sts = map fst out @ [n]"
  note at = segments_at [OF out(2,3), folded sts_def]
  have ne: "out \<noteq> []" using out(2) keys_okD(1) [OF k] by auto
  let ?g = "\<lambda>(start, end', cs). new_segment cs"
  let ?P = "\<lambda>(a, b, c) sg. part_ok e n tk f a b sg \<and> (seg_slope sg = 0 \<longleftrightarrow> length (fed inp a b) = 1)"
  have "\<exists>sg. ?g x = Some sg \<and> ?P x sg" if mem: "x \<in> set out" for x
  proof -
    obtain i where i: "i < length out" "x = out ! i" using mem by (auto simp: in_set_conv_nth)
    obtain a b c where x: "x = (a, b, c)" by (cases x) auto
    have "sts ! i = a" using at(1) [OF i(1)] i(2) x by (metis fst_conv)
    then show ?thesis using new_part [OF inp k e, of a b c] out(3) mem x starts_late [OF inp e(1) out(2,3) i(1), folded sts_def] by auto
  qed
  then obtain new where new: "those (map ?g out) = Some new" "list_all2 ?P out new" using those_map_ok [of out ?g ?P] by blast
  have len: "length new = length out" using list_all2_lengthD [OF new(2)] by simp
  have parts: "part_ok e n tk f (sts ! i) (sts ! (i + 1)) (new ! i)"
    "seg_slope (new ! i) = 0 \<longleftrightarrow> length (fed inp (sts ! i) (sts ! (i + 1))) = 1" if "i < length out" for i
    using list_all2_nthD [OF new(2) that] at(1,2) [OF that] by (auto split: prod.splits)
  have "\<forall>(a, b, c)\<in>set out. b < n \<longrightarrow> a + 3 \<le> b" using out(3) segment_long [OF inp _ e(1)] e(1) by fastforce
  from covers_count [OF out(2) this ne] have count: "3 * (length out - 1) + 1 \<le> n" by simp
  have two: "seg_slope (last new) \<noteq> 0" if "n = 2"
  proof -
    have "length out \<le> 1" using count that by simp
    then have l: "length out = 1" using ne by (cases out) auto
    have "sts = [0, 2]" using covers_first [OF out(2)] l that by (cases out) (auto simp: sts_def)
    moreover have "f 1 \<noteq> f 0" using keys_strict [OF k, of 0 1] keys_okD(4) [OF k] that by simp
    ultimately have "length (fed inp (sts ! 0) (sts ! (0 + 1))) = 2" using inp that by (simp add: fed_def upt_conv_Cons)
    moreover have "last new = new ! 0" using l len by (cases new) auto
    ultimately show ?thesis using parts(2) [of 0] l by simp
  qed
  have "made e n tk f new sts" unfolding made_def
    using ne len parts(1) at(4) starts_ascend [OF inp k out(2,3), folded sts_def] count two covers_first [OF out(2)]
    by (auto simp: sts_def nth_append)
  then show thesis using that out(1,2) new(1) len by (simp add: sts_def)
qed

text \<open>\<open>back_check\<close> adds a segment behind a last segment without slope.\<close>

lemma close_level:
  assumes k: "keys_ok n tk f" and m: "made e n tk f new sts" and e: "0 < e"
    and ex: "ex = [] \<and> seg_slope (last new) \<noteq> 0 \<or> seg_slope (last new) = 0 \<and> ex = [x] \<and> uint (seg_key x) = tk \<and> seg_slope x = 0 \<and> seg_intercept x = int n"
  defines "L \<equiv> new @ ex @ [last_segment n]"
  shows "level_ok e n tk f L (sts @ map (\<lambda>_. n) ex)" "keys_ok (length L - 1) tk (\<lambda>i. uint (seg_key (L ! i)))" "2 \<le> n \<longrightarrow> length L - 1 < n"
proof -
  note kD = keys_okD [OF k]
  have md: "new \<noteq> []" "length sts = length new + 1" "sts ! 0 = 0" "sts ! length new = n" "3 * (length new - 1) + 1 \<le> n" "n = 2 \<longrightarrow> seg_slope (last new) \<noteq> 0"
    using m by (simp_all add: made_def)
  have part: "part_ok e n tk f (sts ! i) (sts ! (i + 1)) (new ! i)" "sts ! i < n" if "i < length new" for i using m that by (simp_all add: made_def)
  have asc: "f (sts ! i) < f (sts ! (i + 1))" if "i + 1 < length new" for i using m that by (simp add: made_def)
  have lenL: "length L = length new + length ex + 1" "length ex \<le> 1" using ex by (auto simp: L_def)
  have "part_ok e n tk f ((sts @ map (\<lambda>_. n) ex) ! i) ((sts @ map (\<lambda>_. n) ex) ! (i + 1)) (L ! i)" if i: "i + 1 < length L" for i
  proof (cases "i < length new")
    case True
    then show ?thesis using part(1) [OF True] md(2) by (simp add: L_def nth_append)
  next
    case False
    then have "i = length new" "ex = [x]" using i lenL ex by auto
    then show ?thesis using part_flat [OF e kD(2), of x tk f] ex md(2,4) by (simp add: L_def nth_append)
  qed
  then show "level_ok e n tk f L (sts @ map (\<lambda>_. n) ex)"
    using md kD(2) ex by (auto simp: level_ok_def L_def nth_append last_segment_intercept Suc_le_eq)
  have key: "uint (seg_key (L ! i)) = (if i < length new then f (sts ! i) else tk)" if "i < length L - 1" for i
    using part [of i] that lenL ex by (auto simp: L_def nth_append part_ok_def less_Suc_eq)
  have fr: "0 \<le> f (sts ! i)" "f (sts ! i) \<le> tk" if "i < length new" for i using kD(5,6) [OF part(2) [OF that]] by blast+
  have small: "2 \<le> n \<longrightarrow> length L - 1 < n"
  proof
    assume n: "2 \<le> n"
    show "length L - 1 < n"
    proof (cases "n = 2")
      case True
      then have "length new \<le> 1" using md(5) by simp
      then have "length new = 1" using md(1) by (cases new) auto
      then show ?thesis using md(6) True ex lenL by auto
    next
      case False
      then show ?thesis using md(1,5) n lenL by (cases new) auto
    qed
  qed
  then show "2 \<le> n \<longrightarrow> length L - 1 < n" .
  show "keys_ok (length L - 1) tk (\<lambda>i. uint (seg_key (L ! i)))"
    unfolding keys_ok_def
  proof (intro conjI allI impI)
    show "0 < length L - 1" using md(1) lenL(1) by simp
    show "length L - 1 \<le> 2 ^ 30" using small kD(2) md(1,5) lenL by (cases "2 \<le> n") auto
    show "uint (seg_key (L ! 0)) < tk" using key [of 0] md(1,3) lenL kD(4) by simp
    fix i
    show "0 \<le> uint (seg_key (L ! i))" by simp
    show "uint (seg_key (L ! i)) \<le> tk" if "i < length L - 1" using key [OF that] fr(2) [of i] by simp
    show "uint (seg_key (L ! i)) < uint (seg_key (L ! (i + 1))) \<or> i + 2 = length L - 1 \<and> uint (seg_key (L ! i)) = tk \<and> uint (seg_key (L ! (i + 1))) = tk"
      if i: "i + 1 < length L - 1"
      using key [of i] key [OF i] asc [of i] fr(2) [of i] i lenL by (cases "i + 1 < length new") auto
  qed (use kD(3) in simp)
qed

lemma build_level:
  assumes k: "keys_ok n tk f" and inp: "\<forall>i<n. inp i = (f i, int i)" and e: "0 < e" "e \<le> 1024" and last_key: "uint last_key + 1 = tk"
  obtains out L st where "make_segmentation n e inp = Some out" "covers 0 n out" "\<And>segs. new_level last_key n segs out = Some (segs @ L, length L - 1)"
    "level_ok e n tk f L st" "keys_ok (length L - 1) tk (\<lambda>i. uint (seg_key (L ! i)))" "2 \<le> n \<Longrightarrow> length L - 1 < n"
proof -
  obtain out new where o: "make_segmentation n e inp = Some out" "covers 0 n out" "those (map (\<lambda>(start, end', cs). new_segment cs) out) = Some new"
    "length new = length out" "made e n tk f new (map fst out @ [n])" by (rule make_parts [OF k inp e]) (rule that)
  have ne: "new \<noteq> []" using o(5) by (simp add: made_def)
  let ?x = "\<lparr>seg_key = last_key + 1, seg_slope = 0, seg_intercept = int n\<rparr>"
  note flat = flat_segment_eq [OF last_key keys_okD(3,2) [OF k]]
  define ex where "ex = (if seg_slope (last new) = 0 then [?x] else [])"
  have "ex = [] \<and> seg_slope (last new) \<noteq> 0
      \<or> seg_slope (last new) = 0 \<and> ex = [?x] \<and> uint (seg_key ?x) = tk \<and> seg_slope ?x = 0 \<and> seg_intercept ?x = int n"
    using flat(2) by (simp add: ex_def)
  note c = close_level [OF k o(5) e(1) this]
  have "new_level last_key n segs out = Some (segs @ (new @ ex @ [last_segment n]), length (new @ ex @ [last_segment n]) - 1)" for segs
    using ne flat(1) by (simp add: new_level_def o(3,4) back_check_def ex_def)
  then show thesis using that [OF o(1,2) _ c(1,2)] c(3) by blast
qed

end
