(* ===== verification/Pgm_Search.thy ===== *)
theory Pgm_Search
  imports Pgm_Level
begin

text \<open>
  The search of the static PGM index: from the responsible segment of one level to the responsible
  segment of the level below, and at last to the window in the data.
\<close>

subsection \<open>The position a segment predicts\<close>

text \<open>The rightmost key that is not greater\<close>

definition rightmost :: "nat \<Rightarrow> (nat \<Rightarrow> int) \<Rightarrow> int \<Rightarrow> nat \<Rightarrow> bool" where
  "rightmost n f x j \<longleftrightarrow> j < n \<and> f j \<le> x \<and> (j + 1 < n \<longrightarrow> x < f (j + 1))"

definition lkeys :: "seg list \<Rightarrow> nat \<Rightarrow> int" where
  "lkeys L i = uint (seg_key (L ! i))"

text \<open>Beyond the greatest key any segment will do.\<close>

definition located :: "seg list \<Rightarrow> int \<Rightarrow> u64 \<Rightarrow> nat \<Rightarrow> bool" where
  "located L tk k i \<longleftrightarrow> i < length L - 1 \<and> (if uint k < tk then rightmost (length L - 1) (lkeys L) (uint k) i else lkeys L i \<le> uint k)"

text \<open>The level \<open>L\<close> stands in the vector of segments from \<open>off\<close> on.\<close>

definition level_at :: "seg list \<Rightarrow> nat \<Rightarrow> seg list \<Rightarrow> bool" where
  "level_at segs off L \<longleftrightarrow> off + length L \<le> length segs \<and> (\<forall>i<length L. segs ! (off + i) = L ! i)"

lemma rightmost_exists:
  assumes "f 0 \<le> x" "0 < n"
  shows "\<exists>j. rightmost n f x j"
proof -
  let ?S = "{j. j < n \<and> f j \<le> x}"
  have fin: "finite ?S" "?S \<noteq> {}" using assms by auto
  have "Max ?S \<in> ?S" by (rule Max_in [OF fin])
  moreover have "x < f (Max ?S + 1)" if "Max ?S + 1 < n"
  proof (rule ccontr)
    assume "\<not> x < f (Max ?S + 1)"
    then have "Max ?S + 1 \<in> ?S" using that by simp
    then show False using Max_ge [OF fin(1)] by fastforce
  qed
  ultimately show ?thesis by (intro exI [of _ "Max ?S"]) (simp add: rightmost_def)
qed

lemma rightmost_sides:
  assumes k: "keys_ok n tk f" and r: "rightmost n f x j" and i: "i < n"
  shows "f i \<le> x \<longleftrightarrow> i \<le> j"
proof
  assume "i \<le> j"
  then show "f i \<le> x" using keys_mono [OF k, of i j] r by (auto simp: rightmost_def)
next
  assume x: "f i \<le> x"
  show "i \<le> j"
  proof (rule ccontr)
    assume "\<not> i \<le> j"
    then have "f (j + 1) \<le> f i" "j + 1 < n" using keys_mono [OF k, of "j + 1" i] i by simp_all
    then show False using r x by (auto simp: rightmost_def)
  qed
qed

text \<open>The intercept of the next segment caps the position.\<close>

lemma next_intercept:
  assumes l: "level_ok e n tk f L st" and i: "i + 1 < length L" and e: "0 < e" and n: "0 < n"
  shows "0 \<le> seg_intercept (L ! (i + 1))" "seg_intercept (L ! (i + 1)) \<le> int n"
    "int (st ! (i + 1)) - e \<le> seg_intercept (L ! (i + 1))" "seg_intercept (L ! (i + 1)) \<le> int (st ! (i + 1)) + e"
proof -
  let ?I = "seg_intercept (L ! (i + 1))"
  have parts: "part_ok e n tk f (st ! m) (st ! (m + 1)) (L ! m)" if "m + 1 < length L" for m using l that by (simp add: level_ok_def)
  have "0 \<le> ?I \<and> ?I \<le> int n \<and> int (st ! (i + 1)) - e \<le> ?I \<and> ?I \<le> int (st ! (i + 1)) + e"
  proof (cases "i + 2 < length L")
    case True
    have "st ! i \<le> st ! (i + 1)" "st ! i < n \<longrightarrow> st ! i < st ! (i + 1)" using parts [OF i] by (simp_all add: part_ok_def)
    then have "0 < st ! (i + 1)" using n by linarith
    then show ?thesis using parts [of "i + 1"] True by (auto simp: part_ok_def)
  next
    case False
    then have j: "i + 1 = length L - 1" using i by simp
    have "L \<noteq> []" "seg_intercept (last L) = int n" "st ! (length L - 1) = n" using l by (auto simp: level_ok_def)
    then have "?I = int n" "st ! (i + 1) = n" unfolding j by (simp_all add: last_conv_nth)
    then show ?thesis using e by simp
  qed
  then show "0 \<le> ?I" "?I \<le> int n" "int (st ! (i + 1)) - e \<le> ?I" "?I \<le> int (st ! (i + 1)) + e" by blast+
qed

lemma capped_pos_eq:
  assumes l: "level_ok e n tk f L st" and at: "level_at segs off L" and i: "i + 1 < length L" and e: "0 < e" and n: "0 < n" "n \<le> 2 ^ 30"
    and k: "lkeys L i \<le> uint k" "uint k \<le> 2 ^ 44"
  shows "capped_pos segs (off + i) k = Some (min (nat (seg_val (L ! i) k + seg_intercept (L ! i))) (nat (seg_intercept (L ! (i + 1)))))"
proof -
  have s: "seg_at segs (off + i) = Some (L ! i)" "seg_at segs (off + i + 1) = Some (L ! (i + 1))"
    using at i by (simp_all add: level_at_def seg_at_def) (metis add_Suc_right Suc_eq_plus1)
  have sane: "seg_sane (L ! i)" using l i by (auto simp: level_ok_def part_ok_def)
  have "seg_key (L ! i) \<le> k" using k(1) by (simp add: lkeys_def word_le_def)
  note p = seg_pos_eq(1) [OF sane this k(2)]
  have "seg_intercept (L ! (i + 1)) mod 2 ^ 64 = seg_intercept (L ! (i + 1))"
    using next_intercept(1,2) [OF l i e n(1)] n(2) by (intro mod_pos_pos_trivial) simp_all
  then show ?thesis using s p by (simp add: capped_pos_def)
qed

lemma level_pos:
  assumes l: "level_ok e n tk f L st" and k: "keys_ok n tk f" and e: "0 < e" and at: "level_at segs off L"
    and loc: "located L tk key i" and key: "uint key \<le> 2 ^ 44"
  obtains p where "capped_pos segs (off + i) key = Some p" "p \<le> n"
    "\<And>j. uint key < tk \<Longrightarrow> rightmost n f (uint key) j \<Longrightarrow>
      int j - e - 1 \<le> int p \<and> int p \<le> int j + 1 + e \<and> (f j = uint key \<longrightarrow> int p \<le> int j + e)"
proof -
  let ?sg = "L ! i" and ?I' = "seg_intercept (L ! (i + 1))" and ?v = "seg_val (L ! i) key + seg_intercept (L ! i)"
  have i: "i + 1 < length L" "lkeys L i \<le> uint key" using loc by (auto simp: located_def rightmost_def split: if_splits)
  note nx = next_intercept [OF l i(1) e keys_okD(1) [OF k]]
  have part: "part_ok e n tk f (st ! m) (st ! (m + 1)) (L ! m)" if "m + 1 < length L" for m using l that by (simp add: level_ok_def)
  note pi = part [OF i(1)]
  have sane: "seg_sane ?sg" using pi by (simp add: part_ok_def)
  have cap: "capped_pos segs (off + i) key = Some (min (nat ?v) (nat ?I'))"
    by (rule capped_pos_eq [OF l at i(1) e keys_okD(1,2) [OF k] i(2) key])
  have bounds: "int j - e - 1 \<le> int (min (nat ?v) (nat ?I')) \<and> int (min (nat ?v) (nat ?I')) \<le> int j + 1 + e
      \<and> (f j = uint key \<longrightarrow> int (min (nat ?v) (nat ?I')) \<le> int j + e)"
    if kt: "uint key < tk" and r: "rightmost n f (uint key) j" for j
  proof -
    have j: "j < n" "f j \<le> uint key" "j + 1 < n \<longrightarrow> uint key < f (j + 1)" using r by (auto simp: rightmost_def)
    have keys: "lkeys L m = (if st ! m < n then f (st ! m) else tk)" if "m + 1 < length L" for m
      using part [OF that] by (simp add: part_ok_def lkeys_def)
    have "st ! i < n" using keys [OF i(1)] i(2) kt by (auto split: if_splits)
    then have sj: "st ! i \<le> j" using rightmost_sides [OF k r] keys [OF i(1)] i(2) by auto
    have js: "j < st ! (i + 1)"
    proof (cases "i + 2 < length L \<and> st ! (i + 1) < n")
      case True
      then have "i + 1 < length L - 1" by arith
      moreover have "lkeys L (i + 1) = f (st ! (i + 1))" using keys [of "i + 1"] True by simp
      ultimately have "uint key < f (st ! (i + 1))" using loc kt by (simp add: located_def rightmost_def)
      then show ?thesis using rightmost_sides [OF k r, of "st ! (i + 1)"] True by simp
    next
      case False
      then have "st ! (i + 1) = n"
      proof (cases "i + 2 < length L")
        case True
        then show ?thesis using False part [of "i + 1"] by (simp add: part_ok_def)
      next
        case F: False
        then have "i + 1 = length L - 1" using i(1) by simp
        then show ?thesis using l by (simp add: level_ok_def)
      qed
      then show ?thesis using j(1) by simp
    qed
    have acc: "int m - e - 1 \<le> seg_val ?sg w + seg_intercept ?sg \<and> seg_val ?sg w + seg_intercept ?sg \<le> int m + e"
      if "st ! i \<le> m" "m < st ! (i + 1)" "m = st ! i \<or> f (m - 1) \<noteq> f m" "uint w = f m" for m w
      using pi that unfolding part_ok_def by blast
    have fm: "uint (word_of_int (f m) :: u64) = f m" if "m < n" for m
      using keys_okD(3) [OF k] keys_okD(5,6) [OF k that] by (simp add: uint_word_of_int_eq take_bit_int_eq_self)
    have new: "m = st ! i \<or> f (m - 1) \<noteq> f m" if "f (m - 1) < tk" "m < n" "0 < m" for m
      using keys_strict [OF k, of "m - 1" m] that by auto
    have jn: "j = st ! i \<or> f (j - 1) \<noteq> f j"
      using new [of j] j kt sj keys_mono [OF k, of "j - 1" j] by (cases "j = 0") auto
    have "seg_val ?sg (word_of_int (f j)) \<le> seg_val ?sg key"
      using fm [OF j(1)] j(2) by (intro seg_val_mono [OF sane]) (simp add: word_le_def)
    then have low: "int j - e - 1 \<le> ?v" using acc [OF sj js jn fm [OF j(1)]] by linarith
    have "int j + 1 \<le> int (st ! (i + 1))" using js by simp
    then have low': "int j - e - 1 \<le> ?I'" using nx(3) by linarith
    have up: "?v \<le> int j + 1 + e \<or> ?I' \<le> int j + 1 + e"
    proof (cases "j + 1 < st ! (i + 1)")
      case True
      moreover have "st ! (i + 1) \<le> n" using pi by (simp add: part_ok_def)
      ultimately have j1: "j + 1 < n" by simp
      have "seg_val ?sg key \<le> seg_val ?sg (word_of_int (f (j + 1)))"
        using fm [OF j1] j(3) j1 by (intro seg_val_mono [OF sane]) (simp add: word_le_def)
      moreover have "j + 1 = st ! i \<or> f (j + 1 - 1) \<noteq> f (j + 1)" using new [of "j + 1"] j j1 kt by simp
      ultimately show ?thesis using acc [of "j + 1"] fm [OF j1] sj True by fastforce
    next
      case False
      then have "int (st ! (i + 1)) = int j + 1" using js by simp
      then show ?thesis using nx(4) by linarith
    qed
    have "?v \<le> int j + e" if "f j = uint key" using acc [OF sj js jn] that by simp
    then show ?thesis using low low' up nx(1) e by (auto simp: min_def)
  qed
  have "min (nat ?v) (nat ?I') \<le> n" using nx(2) by simp
  then show thesis using that cap bounds by blast
qed

subsection \<open>From one level to the next\<close>

lemma err_bounds: "SUB_ERR p a = p - a" "ADD_ERR p a n = min n (p + a)"
  by (auto simp: SUB_ERR_def ADD_ERR_def)

lemma level_step_ok:
  assumes SU: "search_class S U" and at0: "level_at segs off0 L0" and k: "keys_ok (length L0 - 1) tk (lkeys L0)"
    and p: "capped_pos segs it key = Some p" "p \<le> length L0 - 1" and first: "lkeys L0 0 \<le> uint key"
    and b: "\<And>j. uint key < tk \<Longrightarrow> rightmost (length L0 - 1) (lkeys L0) (uint key) j \<Longrightarrow> int j - int e - 1 \<le> int p \<and> int p \<le> int j + 1 + int e"
  shows "\<exists>i. level_step e U segs off0 (length L0 - 1) key it = Some (off0 + i) \<and> located L0 tk key i"
proof -
  let ?n = "length L0 - 1" and ?f = "\<lambda>x. seg_key (segs ! nat x)"
  note kD = keys_okD [OF k]
  define lo hi where "lo = int (off0 + SUB_ERR p (e + 1))" and "hi = int (off0 + ADD_ERR p (e + 2) ?n)"
  have bounds: "int off0 \<le> lo" "lo \<le> hi" "hi \<le> int (off0 + ?n)" "int off0 < hi" "hi - lo < 2 ^ 53"
    using p(2) kD(1,2) by (auto simp: lo_def hi_def err_bounds min_def)
  have off: "off0 + ?n \<le> length segs" using at0 unfolding level_at_def by linarith
  have key: "?f (int off0 + int j) = seg_key (L0 ! j)" if "j < ?n" for j
    using at0 that by (simp add: level_at_def nat_add_distrib)
  have rel: "\<exists>j. x = int off0 + int j \<and> j < ?n" if "lo \<le> x" "x < hi" for x
    using that bounds by (intro exI [of _ "nat (x - int off0)"]) linarith
  have le: "?f (int off0 + int i) \<le> ?f (int off0 + int j)" if "i \<le> j" "j < ?n" for i j
    using keys_mono [OF k that] key [of i] key [of j] that by (simp add: lkeys_def word_le_def)
  have rd: "readable (vec_at seg_key segs) ?f lo hi"
    using readable_vec_at [of seg_key segs] bounds off by (auto simp: readable_def)
  have srt: "sorted_range ?f lo hi"
    unfolding sorted_range_def
  proof (intro allI impI)
    fix i j assume ij: "lo \<le> i \<and> i \<le> j \<and> j < hi"
    obtain a b where "i = int off0 + int a" "j = int off0 + int b" "b < ?n" using rel [of i] rel [of j] ij by auto
    then show "?f i \<le> ?f j" using le [of a b] ij by simp
  qed
  obtain r where r: "U lo hi key lo (vec_at seg_key segs) (<) = Some r" "is_upper_bound ?f lo hi key r"
    using search_class.upper_spec [OF SU _ bounds(2,5) rd srt, of key] by blast
  have rb: "lo \<le> r" "r \<le> hi" using r(2) by (simp_all add: is_upper_bound_def)
  have cmp: "?f (int off0 + int j) \<le> key \<longleftrightarrow> lkeys L0 j \<le> uint key" if "j < ?n" for j
    using key [OF that] by (simp add: lkeys_def word_le_def)
  have step: "level_step e U segs off0 ?n key it = Some (if nat r = off0 then nat r else nat r - 1)"
    using p(1) r(1) by (simp add: level_step_def lo_def hi_def add.commute)
  show ?thesis
  proof (cases "uint key < tk")
    case True
    obtain j where j: "rightmost ?n (lkeys L0) (uint key) j" using rightmost_exists [of "lkeys L0", OF first kD(1)] by blast
    have jn: "j < ?n" using j by (simp add: rightmost_def)
    have w: "lo \<le> int off0 + int j + 1" "int off0 + int j + 1 \<le> hi"
      using b [OF True j] jn by (auto simp: lo_def hi_def err_bounds min_def)
    have "is_upper_bound ?f lo hi key (int off0 + int j + 1)"
      unfolding is_upper_bound_def
    proof (intro conjI allI impI)
      fix x
      show "?f x \<le> key" if x: "lo \<le> x \<and> x < int off0 + int j + 1"
      proof -
        obtain a where a: "x = int off0 + int a" "a < ?n" using rel [of x] x w(2) by auto
        then have "a \<le> j" using x by simp
        then show ?thesis unfolding a(1) using cmp [OF a(2)] rightmost_sides [OF k j a(2)] by simp
      qed
      show "key < ?f x" if x: "int off0 + int j + 1 \<le> x \<and> x < hi"
      proof -
        obtain a where a: "x = int off0 + int a" "a < ?n" using rel [of x] x w(1) by auto
        then have "\<not> a \<le> j" using x by simp
        then have "\<not> ?f (int off0 + int a) \<le> key" using cmp [OF a(2)] rightmost_sides [OF k j a(2)] by simp
        then show ?thesis unfolding a(1) by (simp add: not_le)
      qed
    qed (use w in auto)
    then have "r = int off0 + int j + 1" using r(2) is_upper_bound_unique by blast
    then have "(if nat r = off0 then nat r else nat r - 1) = off0 + j" by (simp add: nat_add_distrib)
    then show ?thesis using step True j jn by (intro exI [of _ j]) (simp add: located_def)
  next
    case False
    have "r = hi"
    proof (rule ccontr)
      assume "r \<noteq> hi"
      then have "r < hi" using rb by simp
      then obtain a where a: "r = int off0 + int a" "a < ?n" using rel rb by blast
      have "key < ?f r" using r(2) \<open>r < hi\<close> by (auto simp: is_upper_bound_def)
      moreover have "?f r \<le> key" unfolding a(1) using cmp [OF a(2)] kD(6) [OF a(2)] False by simp
      ultimately show False by simp
    qed
    then obtain a where a: "r = int off0 + int a" "0 < a" "a \<le> ?n"
      using bounds(3,4) that by (intro that [of "nat (r - int off0)"]) linarith+
    then have "(if nat r = off0 then nat r else nat r - 1) = off0 + (a - 1)" by (simp add: nat_add_distrib)
    moreover have "a - 1 < ?n" using a by linarith
    then have "located L0 tk key (a - 1)" using False kD(6) [of "a - 1"] by (simp add: located_def)
    ultimately show ?thesis using step by auto
  qed
qed

end
