(* ===== verification/Pgm_Build.thy ===== *)
theory Pgm_Build
  imports Pgm_Search
begin

text \<open>
  The whole static PGM index: the constructor builds levels down to a single segment, and
  \<open>find_approximate_position\<close> returns a window in which the lower bound lies.
\<close>

subsection \<open>The levels of an index\<close>

definition off :: "seg list list \<Rightarrow> nat \<Rightarrow> nat" where
  "off Ls l = length (concat (take l Ls))"

definition levels_ok :: "nat \<Rightarrow> nat \<Rightarrow> nat \<Rightarrow> int \<Rightarrow> (nat \<Rightarrow> int) \<Rightarrow> seg list list \<Rightarrow> bool" where
  "levels_ok e er n tk f Ls \<longleftrightarrow> Ls \<noteq> [] \<and> keys_ok n tk f \<and> (\<exists>st. level_ok (int e) n tk f (Ls ! 0) st)
     \<and> (\<forall>l. l + 1 < length Ls \<longrightarrow> (\<exists>st. level_ok (int er) (length (Ls ! l) - 1) tk (lkeys (Ls ! l)) (Ls ! (l + 1)) st))
     \<and> (\<forall>l<length Ls. keys_ok (length (Ls ! l) - 1) tk (lkeys (Ls ! l)) \<and> lkeys (Ls ! l) 0 = f 0)"

definition laid_out :: "seg list list \<Rightarrow> pgm_index \<Rightarrow> bool" where
  "laid_out Ls p \<longleftrightarrow> segments p = concat Ls \<and> levels_sizes p = map (\<lambda>L. length L - 1) Ls \<and> levels_offsets p = map (off Ls) [0..<length Ls]"

lemma off_simps [simp]: "off Ls 0 = 0" "l < length Ls \<Longrightarrow> off Ls (Suc l) = off Ls l + length (Ls ! l)"
  by (simp_all add: off_def take_Suc_conv_app_nth)

lemma off_append: "l \<le> length Ls \<Longrightarrow> off (Ls @ Ms) l = off Ls l"
  by (simp add: off_def)

lemma level_at_concat:
  assumes "l < length Ls"
  shows "level_at (concat Ls) (off Ls l) (Ls ! l)"
proof -
  have "concat Ls = concat (take l Ls) @ Ls ! l @ concat (drop (Suc l) Ls)"
    using assms by (subst id_take_nth_drop [OF assms]) simp
  then show ?thesis by (simp add: level_at_def off_def nth_append)
qed

lemma level_first:
  assumes "level_ok e n tk f L st" "0 < n"
  shows "lkeys L 0 = f 0"
proof -
  have "2 \<le> length L" and z: "st ! 0 = 0" and p: "\<And>i. i + 1 < length L \<Longrightarrow> part_ok e n tk f (st ! i) (st ! (i + 1)) (L ! i)"
    using assms(1) by (simp_all add: level_ok_def)
  then have "part_ok e n tk f (st ! 0) (st ! (0 + 1)) (L ! 0)" by (intro p) simp
  then show ?thesis using z assms(2) by (simp add: part_ok_def lkeys_def)
qed

subsection \<open>Construction\<close>

lemma upper_levels_ok:
  assumes er: "0 < er" "er \<le> 1024" and last_key: "uint last_key + 1 = tk" and inv: "levels_ok e er n tk f Ls"
  shows "\<exists>Ms. upper_levels er last_key (length (last Ls) - 1) (concat Ls) (map (off Ls) [0..<length Ls + 1]) (map (\<lambda>L. length L - 1) Ls)
      = Some (concat Ms, map (off Ms) [0..<length Ms + 1], map (\<lambda>L. length L - 1) Ms)
    \<and> levels_ok e er n tk f Ms \<and> length (last Ms) = 2"
  using inv
proof (induction "length (last Ls)" arbitrary: Ls rule: less_induct)
  case less
  let ?m = "length (last Ls) - 1" and ?h = "length Ls - 1"
  have ne: "Ls \<noteq> []" "?h < length Ls" using less.prems by (simp_all add: levels_ok_def)
  have lst: "last Ls = Ls ! ?h" using ne(1) by (simp add: last_conv_nth)
  have km: "keys_ok ?m tk (lkeys (last Ls))" and first: "lkeys (last Ls) 0 = f 0" using less.prems ne(2) lst by (simp_all add: levels_ok_def)
  show ?case
  proof (cases "?m > 1")
    case False
    then have "length (last Ls) = 2" using keys_okD(1) [OF km] by simp
    then show ?thesis using less.prems by (subst upper_levels.simps) auto
  next
    case True
    let ?inp = "in_fun_rec (concat Ls) (off Ls ?h)"
    have inp: "\<forall>i<?m. ?inp i = (lkeys (last Ls) i, int i)"
      using level_at_concat [OF ne(2)] by (simp add: in_fun_rec_def level_at_def lkeys_def lst)
    have er': "0 < int er" "int er \<le> 1024" using er by simp_all
    obtain out L st where b: "make_segmentation ?m (int er) ?inp = Some out" "covers 0 ?m out"
      "\<And>segs. new_level last_key ?m segs out = Some (segs @ L, length L - 1)"
      "level_ok (int er) ?m tk (lkeys (last Ls)) L st" "keys_ok (length L - 1) tk (\<lambda>i. uint (seg_key (L ! i)))" "2 \<le> ?m \<Longrightarrow> length L - 1 < ?m"
      by (rule build_level [OF km inp er' last_key]) (rule that)
    have L: "keys_ok (length L - 1) tk (lkeys L)" "lkeys L 0 = f 0" "length L < length (last Ls)"
      using b(5,6) level_first [OF b(4) keys_okD(1) [OF km]] first True by (simp_all add: lkeys_def [abs_def]) 
    have inv': "levels_ok e er n tk f (Ls @ [L])"
      unfolding levels_ok_def
    proof (intro conjI allI impI)
      fix l
      show "\<exists>st. level_ok (int er) (length ((Ls @ [L]) ! l) - 1) tk (lkeys ((Ls @ [L]) ! l)) ((Ls @ [L]) ! (l + 1)) st" if l: "l + 1 < length (Ls @ [L])"
      proof (cases "l + 1 < length Ls")
        case True
        then show ?thesis using less.prems by (simp add: levels_ok_def nth_append)
      next
        case False
        then have "l = ?h" using l by simp
        then show ?thesis using b(4) lst ne by (auto simp: nth_append)
      qed
      show "keys_ok (length ((Ls @ [L]) ! l) - 1) tk (lkeys ((Ls @ [L]) ! l))" "lkeys ((Ls @ [L]) ! l) 0 = f 0" if "l < length (Ls @ [L])"
        using that less.prems L(1,2) by (auto simp: levels_ok_def nth_append less_Suc_eq)
    qed (use less.prems ne in \<open>simp_all add: levels_ok_def nth_append\<close>)
    have offs: "map (off Ls) [0..<length Ls + 1] @ [last (map (off Ls) [0..<length Ls + 1]) + (length L - 1) + 1] = map (off (Ls @ [L])) [0..<length (Ls @ [L]) + 1]"
      using L(1) keys_okD(1) [OF L(1)] by (simp add: off_append off_def)
    have off: "map (off Ls) [0..<length Ls + 1] ! (length (map (off Ls) [0..<length Ls + 1]) - 2) = off Ls ?h"
      using ne by (simp add: nth_append del: upt_Suc)
    have "upper_levels er last_key ?m (concat Ls) (map (off Ls) [0..<length Ls + 1]) (map (\<lambda>L. length L - 1) Ls)
        = upper_levels er last_key (length L - 1) (concat (Ls @ [L])) (map (off (Ls @ [L])) [0..<length (Ls @ [L]) + 1]) (map (\<lambda>L. length L - 1) (Ls @ [L]))"
      unfolding offs [symmetric] by (subst upper_levels.simps) (use er True off b(1,3) in \<open>simp del: upt_Suc\<close>)
    then show ?thesis using less.hyps [OF _ inv'] L(3) by simp
  qed
qed

lemma renumber_covers: "covers s n out \<Longrightarrow> renumber s out = out"
  by (induction s n out rule: covers.induct) auto

text \<open>Sorted keys without duplicates, below 2 to the 44\<close>

definition loadable_keys :: "u64 list \<Rightarrow> bool" where
  "loadable_keys ks \<longleftrightarrow> ks \<noteq> [] \<and> sorted_wrt (<) ks \<and> length ks \<le> 2 ^ 30 \<and> uint (last ks) < 2 ^ 44"

definition key_of :: "u64 list \<Rightarrow> nat \<Rightarrow> int" where
  "key_of ks i = uint (ks ! i)"

definition top_key :: "u64 list \<Rightarrow> int" where
  "top_key ks = uint (last ks) + 1"

lemma key_of_less: "sorted_wrt (<) ks \<Longrightarrow> i < j \<Longrightarrow> j < length ks \<Longrightarrow> key_of ks i < key_of ks j"
  using sorted_wrt_nth_less [of "(<)" ks i j] by (simp add: key_of_def word_less_def)

lemma loadable_keys_ok:
  assumes "loadable_keys ks"
  shows "keys_ok (length ks) (top_key ks) (key_of ks)" "last ks \<noteq> - 1"
proof -
  have k: "ks \<noteq> []" "sorted_wrt (<) ks" "length ks \<le> 2 ^ 30" "uint (last ks) < 2 ^ 44" using assms by (simp_all add: loadable_keys_def)
  have l: "uint (last ks) = key_of ks (length ks - 1)" using k(1) by (simp add: key_of_def last_conv_nth)
  have le: "key_of ks i \<le> uint (last ks)" if "i < length ks" for i
    using key_of_less [OF k(2), of i "length ks - 1"] that unfolding l by (cases "i < length ks - 1") (auto simp: not_less dest: le_antisym intro: order.strict_implies_order Suc_pred)
  show "keys_ok (length ks) (top_key ks) (key_of ks)"
    unfolding keys_ok_def top_key_def
  proof (intro conjI allI impI)
    show "key_of ks 0 < uint (last ks) + 1" using le [of 0] k(1) by simp
    show "0 \<le> key_of ks i" for i by (simp add: key_of_def)
    show "key_of ks i \<le> uint (last ks) + 1" if "i < length ks" for i using le [OF that] by simp
    show "key_of ks i < key_of ks (i + 1) \<or> i + 2 = length ks \<and> key_of ks i = uint (last ks) + 1 \<and> key_of ks (i + 1) = uint (last ks) + 1"
      if "i + 1 < length ks" for i using key_of_less [OF k(2), of i "i + 1"] that by simp
  qed (use k in simp_all)
  show "last ks \<noteq> - 1"
  proof
    assume "last ks = - 1"
    then show False using k(4) by (simp add: unsigned_minus_1_eq_mask mask_eq_exp_minus_1)
  qed
qed

lemma in_fun_distinct:
  assumes "loadable_keys ks" "i < length ks"
  shows "in_fun ks i = (key_of ks i, int i)"
proof -
  have "ks ! i \<noteq> ks ! (i - 1)" if "0 < i"
    using sorted_wrt_nth_less [of "(<)" ks "i - 1" i] assms that by (simp add: loadable_keys_def)
  then show ?thesis by (auto simp: in_fun_def key_of_def Let_def)
qed

lemma pgm_construct_ok:
  assumes ks: "loadable_keys ks" and e: "0 < e" "e \<le> 1024" and er: "0 < er" "er \<le> 1024"
  obtains p Ls where "pgm_construct e er ks = Some p" "laid_out Ls p" "levels_ok e er (length ks) (top_key ks) (key_of ks) Ls"
    "length (last Ls) = 2" "pgm_n p = length ks" "first_key p = hd ks"
proof -
  let ?n = "length ks"
  note k = loadable_keys_ok [OF ks]
  have ne: "ks \<noteq> []" "?n \<noteq> 0" "ks ! (?n - 1) = last ks" using ks by (auto simp: loadable_keys_def last_conv_nth)
  have inp: "\<forall>i<?n. in_fun ks i = (key_of ks i, int i)" using in_fun_distinct [OF ks] by blast
  have e': "0 < int e" "int e \<le> 1024" using e by simp_all
  obtain out L st where b: "make_segmentation ?n (int e) (in_fun ks) = Some out" "covers 0 ?n out"
    "\<And>segs. new_level (last ks) ?n segs out = Some (segs @ L, length L - 1)"
    "level_ok (int e) ?n (top_key ks) (key_of ks) L st" "keys_ok (length L - 1) (top_key ks) (\<lambda>i. uint (seg_key (L ! i)))" "2 \<le> ?n \<Longrightarrow> length L - 1 < ?n"
    by (rule build_level [OF k(1) inp e' top_key_def [symmetric]]) (rule that)
  have inv: "levels_ok e er ?n (top_key ks) (key_of ks) [L]"
    using k(1) b(4,5) level_first [OF b(4) keys_okD(1) [OF k(1)]] by (auto simp: levels_ok_def lkeys_def [abs_def])
  have L: "0 < length L" using b(4) by (auto simp: level_ok_def)
  obtain Ms where M: "upper_levels er (last ks) (length L - 1) L [0, length L] [length L - 1]
      = Some (concat Ms, map (off Ms) [0..<length Ms + 1], map (\<lambda>L. length L - 1) Ms)"
    "levels_ok e er ?n (top_key ks) (key_of ks) Ms" "length (last Ms) = 2"
    using upper_levels_ok [OF er top_key_def [symmetric] inv] by (auto simp: off_def)
  have par: "make_segmentation_par ?n (int e) (in_fun ks) = Some out" using b(1) renumber_covers [OF b(2)] by (simp add: make_segmentation_par_def)
  let ?p = "\<lparr>pgm_n = ?n, first_key = hd ks, segments = concat Ms, levels_sizes = map (\<lambda>L. length L - 1) Ms,
    levels_offsets = map (off Ms) [0..<length Ms]\<rparr>"
  have "pgm_construct e er ks = Some ?p"
    using ne k(2) par b(3) [of "[]"] M(1) L by (simp add: pgm_construct_def Let_def)
  then show thesis by (rule that) (use M(2,3) in \<open>simp_all add: laid_out_def\<close>)
qed

subsection \<open>Search\<close>

lemma descend_levels_ok:
  assumes SU: "search_class S U" and lay: "laid_out Ls p" and inv: "levels_ok e er n tk f Ls" and er: "0 < er"
    and key: "uint key \<le> 2 ^ 44" "f 0 \<le> uint key"
  shows "l < length Ls \<Longrightarrow> located (Ls ! l) tk key i \<Longrightarrow> \<exists>i0. descend_levels er U p key l (off Ls l + i) = Some i0 \<and> located (Ls ! 0) tk key i0"
proof (induction l arbitrary: i)
  case 0
  then show ?case by simp
next
  case (Suc l)
  let ?L0 = "Ls ! l" and ?segs = "concat Ls"
  have l: "l < length Ls" "l + 1 < length Ls" using Suc.prems by simp_all
  obtain st where lo: "level_ok (int er) (length ?L0 - 1) tk (lkeys ?L0) (Ls ! Suc l) st" using inv l(2) by (auto simp: levels_ok_def)
  have k: "keys_ok (length ?L0 - 1) tk (lkeys ?L0)" "lkeys ?L0 0 = f 0" using inv l(1) by (simp_all add: levels_ok_def)
  have er': "0 < int er" using er by simp
  obtain q where q: "capped_pos ?segs (off Ls (Suc l) + i) key = Some q" "q \<le> length ?L0 - 1"
    "\<And>j. uint key < tk \<Longrightarrow> rightmost (length ?L0 - 1) (lkeys ?L0) (uint key) j \<Longrightarrow>
      int j - int er - 1 \<le> int q \<and> int q \<le> int j + 1 + int er \<and> (lkeys ?L0 j = uint key \<longrightarrow> int q \<le> int j + int er)"
    by (rule level_pos [OF lo k(1) er' level_at_concat [OF Suc.prems(1)] Suc.prems(2) key(1)]) (rule that)
  obtain i' where i': "level_step er U ?segs (off Ls l) (length ?L0 - 1) key (off Ls (Suc l) + i) = Some (off Ls l + i')" "located ?L0 tk key i'"
    using level_step_ok [OF SU level_at_concat [OF l(1)] k(1) q(1,2)] q(3) key(2) k(2) by auto
  have "levels_offsets p ! l = off Ls l" "levels_sizes p ! l = length ?L0 - 1" "segments p = ?segs" using lay l(1) by (simp_all add: laid_out_def)
  then show ?case using i' Suc.IH [OF l(1) i'(2)] by simp
qed

lemma segment_for_key_ok:
  assumes SU: "search_class S U" and lay: "laid_out Ls p" and inv: "levels_ok e er n tk f Ls" and er: "0 < er"
    and key: "uint key \<le> 2 ^ 44" "f 0 \<le> uint key" and top: "length (last Ls) = 2"
  shows "\<exists>i. segment_for_key er U p key = Some i \<and> located (Ls ! 0) tk key i"
proof -
  let ?h = "length Ls - 1"
  have h: "?h < length Ls" "last Ls = Ls ! ?h" "lkeys (Ls ! ?h) 0 = f 0" using inv by (auto simp: levels_ok_def last_conv_nth)
  have "located (Ls ! ?h) tk key 0" using top h(2,3) key(2) by (simp add: located_def rightmost_def)
  moreover have "[0..<length Ls] = [0..<?h] @ [?h]" using h(1) by (cases "length Ls") simp_all
  then have "last (levels_offsets p) = off Ls ?h + 0" "length (levels_sizes p) = length Ls" using lay by (simp_all add: laid_out_def)
  ultimately show ?thesis using descend_levels_ok [OF SU lay inv er key h(1), of 0] er by (simp add: segment_for_key_def)
qed

text \<open>The lower bound in the keys lies in the window or just behind it; the window of a key that is
  present has it.\<close>

definition rank :: "u64 list \<Rightarrow> u64 \<Rightarrow> nat" where
  "rank ks key = length (takeWhile (\<lambda>k. k < key) ks)"

definition window_right :: "u64 list \<Rightarrow> u64 \<Rightarrow> nat \<times> nat \<times> nat \<Rightarrow> bool" where
  "window_right ks key = (\<lambda>(pos, lo, hi). lo \<le> pos \<and> pos \<le> hi \<and> hi \<le> length ks \<and> lo \<le> rank ks key
     \<and> (key \<in> set ks \<longrightarrow> rank ks key \<le> hi) \<and> (key \<le> last ks \<longrightarrow> rank ks key \<le> hi + 1))"

lemma rank_eq:
  assumes "j \<le> length ks" "\<And>i. i < j \<Longrightarrow> ks ! i < key" "j < length ks \<Longrightarrow> key \<le> ks ! j"
  shows "rank ks key = j"
  using takeWhile_eq_take_P_nth [of j ks "\<lambda>k. k < key"] assms by (simp add: rank_def not_less)

lemma key_of_le: "key_of ks i \<le> uint key \<longleftrightarrow> ks ! i \<le> key"
  by (simp add: key_of_def word_le_def)

lemma rank_rightmost:
  assumes ks: "loadable_keys ks" and r: "rightmost (length ks) (key_of ks) (uint key) j"
  shows "key_of ks j = uint key \<Longrightarrow> rank ks key = j \<and> key \<in> set ks" "key_of ks j \<noteq> uint key \<Longrightarrow> rank ks key = j + 1 \<and> key \<notin> set ks"
proof -
  note sides = rightmost_sides [OF loadable_keys_ok(1) [OF ks] r, unfolded key_of_le]
  have srt: "sorted_wrt (<) ks" using ks by (simp add: loadable_keys_def)
  have j: "j < length ks" "ks ! j \<le> key" using r by (simp_all add: rightmost_def key_of_le)
  have below: "ks ! i < key" if "i < j" for i using sorted_wrt_nth_less [OF srt that j(1)] j(2) by (rule less_le_trans)
  show "rank ks key = j \<and> key \<in> set ks" if "key_of ks j = uint key"
  proof -
    have jk: "ks ! j = key" using that unfolding key_of_def by (rule unsigned_word_eqI)
    have "rank ks key = j"
    proof (rule rank_eq)
      show "j \<le> length ks" using j(1) by (rule less_imp_le)
      show "ks ! i < key" if "i < j" for i using that by (rule below)
      show "key \<le> ks ! j" unfolding jk by (rule order_refl)
    qed
    moreover have "key \<in> set ks" using nth_mem [OF j(1)] unfolding jk .
    ultimately show ?thesis ..
  qed
  assume ne: "key_of ks j \<noteq> uint key"
  then have "ks ! j \<noteq> key" by (auto simp: key_of_def)
  then have jk: "ks ! j < key" using j(2) by simp
  have above: "key < ks ! i" if "j < i" "i < length ks" for i using sides [of i] that by auto
  have "rank ks key = j + 1"
    by (rule rank_eq) (use j jk below above [of "j + 1"] in \<open>auto simp: less_Suc_eq\<close>)
  moreover have "key \<notin> set ks"
  proof
    assume "key \<in> set ks"
    then obtain i where i: "i < length ks" "ks ! i = key" by (auto simp: in_set_conv_nth)
    then show False using below [of i] above [of i] jk by (cases i j rule: linorder_cases) auto
  qed
  ultimately show "rank ks key = j + 1 \<and> key \<notin> set ks" ..
qed

lemma find_approximate_ok:
  assumes SU: "search_class S U" and ks: "loadable_keys ks" and e: "0 < e" "e \<le> 1024" and er: "0 < er" "er \<le> 1024"
    and key: "uint key \<le> 2 ^ 44"
  shows "\<exists>p w. pgm_construct e er ks = Some p \<and> find_approximate e er U p key = Some w \<and> window_right ks key w"
proof -
  let ?n = "length ks" and ?f = "key_of ks" and ?tk = "top_key ks"
  obtain p Ls where p: "pgm_construct e er ks = Some p" "laid_out Ls p" "levels_ok e er ?n ?tk ?f Ls" "length (last Ls) = 2" "pgm_n p = ?n" "first_key p = hd ks"
    by (rule pgm_construct_ok [OF ks e er]) (rule that)
  define k where "k = max (first_key p) key"
  note keys = loadable_keys_ok(1) [OF ks]
  have ne: "ks \<noteq> []" using ks by (simp add: loadable_keys_def)
  have f0: "?f 0 = uint (hd ks)" using ne by (simp add: key_of_def hd_conv_nth)
  have k: "uint k \<le> 2 ^ 44" "?f 0 \<le> uint k"
    using key keys_okD(3,4) [OF keys] unfolding k_def f0 p(6) by (auto simp: max_def word_le_def)
  obtain i where i: "segment_for_key er U p k = Some i" "located (Ls ! 0) ?tk k i" using segment_for_key_ok [OF SU p(2,3) er(1) k p(4)] by blast
  obtain st where lo: "level_ok (int e) ?n ?tk ?f (Ls ! 0) st" and L0: "0 < length Ls" using p(3) by (auto simp: levels_ok_def)
  have e': "0 < int e" using e by simp
  obtain q where q: "capped_pos (concat Ls) (off Ls 0 + i) k = Some q" "q \<le> ?n"
    "\<And>j. uint k < ?tk \<Longrightarrow> rightmost ?n ?f (uint k) j \<Longrightarrow>
      int j - int e - 1 \<le> int q \<and> int q \<le> int j + 1 + int e \<and> (?f j = uint k \<longrightarrow> int q \<le> int j + int e)"
    by (rule level_pos [OF lo keys e' level_at_concat [OF L0] i(2) k(1)]) (rule that)
  have "find_approximate e er U p key = Some (q, SUB_ERR q e, ADD_ERR q (e + 1) ?n)"
    using i(1) q(1) p(2,5) by (simp add: find_approximate_def laid_out_def flip: k_def)
  moreover have "window_right ks key (q, SUB_ERR q e, ADD_ERR q (e + 1) ?n)"
  proof (cases "uint k < ?tk")
    case True
    obtain j where j: "rightmost ?n ?f (uint k) j" using rightmost_exists [of ?f, OF k(2) keys_okD(1) [OF keys]] by blast
    note b = q(3) [OF True j] and r = rank_rightmost [OF ks j]
    have jn: "j < ?n" using j by (simp add: rightmost_def)
    show ?thesis
    proof (cases "hd ks \<le> key")
      case True
      then have kk: "k = key" using p(6) by (simp add: k_def)
      then show ?thesis using b r [unfolded kk] q(2) jn unfolding window_right_def err_bounds
        by (cases "?f j = uint key") (auto simp: min_def)
    next
      case False
      then have kk: "k = hd ks" using p(6) by (simp add: k_def)
      have "rank ks key = 0" by (rule rank_eq) (use False ne in \<open>auto simp: hd_conv_nth\<close>)
      moreover have "j = 0"
        using rightmost_sides [OF keys j jn] rightmost_sides [OF keys j, of 0] j keys_gap [OF keys, of 0 j] f0 kk jn
          key_of_less [of ks 0 j] ks by (auto simp: rightmost_def loadable_keys_def)
      ultimately show ?thesis using b f0 kk q(2) unfolding window_right_def err_bounds by auto
    qed
  next
    case False
    have "hd ks < k"
    proof -
      have "uint (hd ks) < ?tk" using keys_okD(4) [OF keys] f0 by simp
      then show ?thesis using False by (simp add: word_less_def)
    qed
    then have kk: "k = key" using p(6) by (auto simp: k_def max_def split: if_splits)
    have gt: "x < key" if x: "x \<in> set ks" for x
    proof -
      obtain m where "m < ?n" "x = ks ! m" using x by (auto simp: in_set_conv_nth)
      then have "uint x \<le> ?f (?n - 1)" using keys_mono [OF keys, of m "?n - 1"] by (simp add: key_of_def)
      also have "?f (?n - 1) = ?tk - 1" using ne by (simp add: key_of_def top_key_def last_conv_nth)
      finally show ?thesis using False kk by (simp add: word_less_def)
    qed
    have "rank ks key = ?n" by (rule rank_eq) (use gt in auto)
    moreover have "key \<notin> set ks" "\<not> key \<le> last ks" using gt gt [OF last_in_set [OF ne]] by auto
    ultimately show ?thesis using q(2) unfolding window_right_def err_bounds by auto
  qed
  ultimately show ?thesis using p(1) by blast
qed

end
