(* ===== verification/Dpgm_Static.thy ===== *)
theory Dpgm_Static
  imports Dpgm_Props Pgm_Build
begin

text \<open>
  The dynamic PGM index over the static one: the template argument \<open>PGMType\<close> is
  \<open>PGMIndex<K, SearchClass, pgm_error, 16>\<close> (\<open>competitors/dynamic_pgm_index.h\<close>), built on the keys of a
  level. Its windows are those that the dynamic index relies on, so the lookups and range queries of
  the whole structure need no hypothesis on it.
\<close>

definition static_index :: "nat \<Rightarrow> u64 search_fn \<Rightarrow> pgm_index option pgm_class" where
  "static_index pgm_error SearchClass =
     \<lparr>pgm_empty = Some \<lparr>pgm_n = 0, first_key = 0, segments = [], levels_sizes = [], levels_offsets = []\<rparr>,
      pgm_build = (\<lambda>xs. pgm_construct pgm_error 16 (map ikey xs)),
      find_approximate_position = (\<lambda>p key. the (Option.bind p (\<lambda>p. find_approximate pgm_error 16 SearchClass p key)))\<rparr>"

lemma rank_level: "rank (map ikey xs) key = std_lower_bound xs key"
  by (induction xs) (simp_all add: rank_def std_lower_bound_def)

lemma distinct_sorted_less: "sorted xs \<Longrightarrow> distinct xs \<Longrightarrow> sorted_wrt (<) (xs :: 'a::linorder list)"
  by (simp add: strict_sorted_iff)

lemma static_window:
  assumes SU: "search_class S U" and e: "0 < e" "e \<le> 1024" and key: "uint key \<le> 2 ^ 44" and ne: "xs \<noteq> []"
    and s: "level_sorted xs" "distinct (map ikey xs)" and k: "\<forall>x\<in>set xs. uint (ikey x) < 2 ^ 44" and n: "length xs \<le> 2 ^ 30"
  shows "window_encloses (static_index e U) xs key"
proof -
  have "uint (ikey (last xs)) < 2 ^ 44" by (rule bspec [OF k last_in_set [OF ne]])
  then have "loadable_keys (map ikey xs)"
    unfolding loadable_keys_def using distinct_sorted_less [OF s(1) [unfolded level_sorted_def] s(2)] ne n by (simp add: last_map)
  from find_approximate_ok [OF SU this e _ _ key, of 16] obtain p w where w: "pgm_construct e 16 (map ikey xs) = Some p"
    "find_approximate e 16 U p key = Some w" "window_right (map ikey xs) key w" by auto
  then show ?thesis by (auto simp: window_encloses_def static_index_def window_right_def rank_level)
qed

text \<open>The states that insertions reach, with keys the static index can load.\<close>

definition small_keys :: "'p dpgm \<Rightarrow> bool" where
  "small_keys st \<longleftrightarrow> (\<forall>x\<in>set (dpgm_items st). uint (ikey x) < 2 ^ 44) \<and> length (dpgm_items st) \<le> 2 ^ 30"

lemma static_windows:
  assumes SU: "search_class S U" and e: "0 < e" "e \<le> 1024" and key: "uint key \<le> 2 ^ 44"
    and inv: "dpgm_inv (static_index e U) st" and small: "small_keys st"
  shows "windows_enclose (static_index e U) st key"
  unfolding windows_enclose_def
proof (intro ballI impI)
  fix l
  assume l: "l \<in> {18..<used_levels st}" and ne: "data st ! (l - 6) \<noteq> []"
  have wf: "dpgm_wf (static_index e U) st" and d: "distinct (map ikey (dpgm_items st))" using inv by (simp_all add: dpgm_inv_def)
  have m: "l - 6 < length (data st)" using dpgm_wfD [OF wf] l by auto
  have "dpgm_items st = concat (take (l - 6) (data st)) @ data st ! (l - 6) @ concat (drop (Suc (l - 6)) (data st))"
    unfolding dpgm_items_def by (subst id_take_nth_drop [OF m]) simp
  then show "window_encloses (static_index e U) (data st ! (l - 6)) key"
    using d small dpgm_wfD [OF wf] m ne by (intro static_window [OF SU e key]) (auto simp: small_keys_def)
qed

lemma counter_levels_bound:
  assumes inv: "dpgm_inv C st" and n: "length (dpgm_items st) \<le> 2 ^ 30"
  shows "used_levels st \<le> 32"
proof (rule ccontr)
  assume "\<not> used_levels st \<le> 32"
  then have u: "33 \<le> used_levels st" by simp
  have wf: "dpgm_wf C st" using inv by (simp add: dpgm_inv_def)
  have "used_levels st - 7 < length (data st)" using dpgm_wfD [OF wf] u by auto
  then have "length (data st ! (used_levels st - 7)) \<le> length (dpgm_items st)" by (rule level_length [OF wf])
  moreover have "2 ^ (used_levels st - 2) \<le> length (data st ! (used_levels st - 7))" using inv u by (simp add: dpgm_inv_def dpgm_counter_def)
  moreover have "(2::nat) ^ 31 \<le> 2 ^ (used_levels st - 2)" using u by (intro power_increasing) simp_all
  ultimately show False using n by simp
qed

text \<open>With different keys the items are the pairs of the map.\<close>

lemma items_of_map:
  assumes inv: "dpgm_inv C st" and m: "dpgm_map st = map_of kvs" and d: "distinct (map fst kvs)"
  shows "mset (map (\<lambda>x. (ikey x, ivalue x)) (dpgm_items st)) = mset kvs"
proof -
  have wf: "dpgm_wf C st" and di: "distinct (map ikey (dpgm_items st))" using inv by (simp_all add: dpgm_inv_def)
  have und: "\<not> deleted x" if "x \<in> set (dpgm_items st)" for x
    using that dpgm_wfD [OF wf] by (auto simp: dpgm_items_def undeleted_def)
  have found: "dpgm_map st k = Some v \<longleftrightarrow> (k, v) \<in> (\<lambda>x. (ikey x, ivalue x)) ` set (dpgm_items st)" for k v
  proof
    assume "dpgm_map st k = Some v"
    then obtain x where "level_find (dpgm_items st) k = Some x" "ivalue x = v"
      by (auto simp: dpgm_map_def live_value_def split: option.splits if_splits)
    then show "(k, v) \<in> (\<lambda>x. (ikey x, ivalue x)) ` set (dpgm_items st)" using level_find_Some [of "dpgm_items st" k x] by force
  next
    assume "(k, v) \<in> (\<lambda>x. (ikey x, ivalue x)) ` set (dpgm_items st)"
    then obtain x where x: "x \<in> set (dpgm_items st)" "ikey x = k" "ivalue x = v" by auto
    then obtain y where y: "level_find (dpgm_items st) k = Some y" using level_find_None [of "dpgm_items st" k] by fastforce
    then have "y = x" using level_find_Some [OF y] x di by (auto simp: distinct_map dest: inj_onD)
    then show "dpgm_map st k = Some v" using y x und by (simp add: dpgm_map_def live_value_def)
  qed
  have "distinct (map (\<lambda>x. (ikey x, ivalue x)) (dpgm_items st))" using di by (auto simp: distinct_map inj_on_def)
  moreover have "distinct kvs" using d by (simp add: distinct_map)
  moreover have "set (map (\<lambda>x. (ikey x, ivalue x)) (dpgm_items st)) = set kvs"
    using found m d by (auto simp: set_eq_iff)
  ultimately show ?thesis by (simp only: set_eq_iff_mset_eq_distinct)
qed

lemma small_keys_of:
  assumes "mset (map (\<lambda>x. (ikey x, ivalue x)) (dpgm_items st)) = mset kvs" "\<forall>(k, v)\<in>set kvs. uint k < 2 ^ 44" "length kvs \<le> 2 ^ 30"
  shows "small_keys st"
  using assms(2,3) arg_cong [OF assms(1), of size] mset_eq_setD [OF assms(1)] unfolding small_keys_def by (auto simp: set_eq_iff image_iff)

lemma range_of_pairs:
  assumes "mset (map (\<lambda>x. (ikey x, ivalue x)) xs) = mset kvs"
  shows "sum_list (map ivalue (filter (\<lambda>x. lo \<le> ikey x \<and> ikey x \<le> hi) xs)) = sum_list (map snd (filter (\<lambda>(k, v). lo \<le> k \<and> k \<le> hi) kvs))"
proof -
  have "sum_list (map snd (filter (\<lambda>(k, v). lo \<le> k \<and> k \<le> hi) kvs))
      = sum_mset (image_mset snd (filter_mset (\<lambda>(k, v). lo \<le> k \<and> k \<le> hi) (mset kvs)))"
    by (simp flip: sum_mset_sum_list mset_filter mset_map)
  also have "\<dots> = sum_list (map snd (filter (\<lambda>(k, v). lo \<le> k \<and> k \<le> hi) (map (\<lambda>x. (ikey x, ivalue x)) xs)))"
    unfolding assms [symmetric] by (simp flip: sum_mset_sum_list mset_filter mset_map)
  finally show ?thesis by (simp add: filter_map o_def)
qed

lemma dpgm_static_ok:
  assumes SU: "search_class S U" and e: "0 < e" "e \<le> 1024" and bulk: "sorted (map fst bulk)" "2 ^ 14 < length bulk"
    and d: "distinct (map fst (bulk @ kvs))" and k: "\<forall>(k, v)\<in>set (bulk @ kvs). uint k < 2 ^ 44" and n: "length (bulk @ kvs) \<le> 2 ^ 30"
  shows "\<exists>st0 st. dpgm_construct (static_index e U) bulk = Inr st0 \<and> insert_all (dpgm_insert (static_index e U)) kvs st0 = Inr st
    \<and> dpgm_inv (static_index e U) st \<and> small_keys st \<and> dpgm_map st = map_of (bulk @ kvs)
    \<and> mset (map (\<lambda>x. (ikey x, ivalue x)) (dpgm_items st)) = mset (bulk @ kvs)"
proof -
  let ?C = "static_index e U"
  obtain st0 where st0: "dpgm_construct ?C bulk = Inr st0" "dpgm_wf ?C st0" "dpgm_counter st0"
    "dpgm_items st0 = map (\<lambda>(k, v). live_item k v) bulk" using construct_ok [OF bulk] by blast
  have ks: "map ikey (dpgm_items st0) = map fst bulk" by (simp add: st0(4) live_item_def case_prod_beta)
  have inv0: "dpgm_inv ?C st0" unfolding dpgm_inv_def ks using st0(2,3) d by simp
  have m0: "dpgm_map st0 = map_of bulk"
    unfolding dpgm_map_def live_value_def st0(4) find_live by (intro ext) (simp add: live_item_def split: option.split)
  have "length (dpgm_items st0) + length kvs \<le> dpgm_cap" "\<forall>k\<in>fst ` set kvs. dpgm_map st0 k = None"
    using d n arg_cong [OF ks, of length] unfolding m0 by (auto simp: dpgm_cap_def map_of_eq_None_iff)
  then obtain st where st: "insert_all (dpgm_insert ?C) kvs st0 = Inr st" "dpgm_inv ?C st" "dpgm_map st = dpgm_map st0 ++ map_of kvs"
    using dpgm_ins.insert_distinct [OF inv0, of kvs] d by auto
  have m: "dpgm_map st = map_of (bulk @ kvs)"
  proof -
    have "map_of bulk ++ map_of kvs = map_of kvs ++ map_of bulk" using d by (intro map_add_comm) (auto simp: dom_map_of_conv_image_fst)
    then show ?thesis by (simp add: st(3) m0)
  qed
  note items = items_of_map [OF st(2) m d]
  have "small_keys st" by (rule small_keys_of [OF items k n])
  then show ?thesis using st0(1) st(1,2) m items by blast
qed

lemma static_queries:
  assumes SU: "search_class S U" and e: "0 < e" "e \<le> 1024" and inv: "dpgm_inv (static_index e U) st" and small: "small_keys st"
  shows "uint key \<le> 2 ^ 44 \<Longrightarrow> dpgm_EqualityLookup (static_index e U) S st key = Inr (case dpgm_map st key of None \<Rightarrow> OVERFLOW | Some v \<Rightarrow> v)"
    and "uint lo \<le> 2 ^ 44 \<Longrightarrow> dpgm_RangeQuery (static_index e U) S st lo hi
      = Some (Inr (sum_list (map ivalue (filter (\<lambda>x. lo \<le> ikey x \<and> ikey x \<le> hi) (dpgm_items st)))))"
proof -
  have wf: "dpgm_wf (static_index e U) st" using inv by (simp add: dpgm_inv_def)
  have n: "length (dpgm_items st) < 2 ^ 53" "used_levels st \<noteq> 255"
    using small counter_levels_bound [OF inv] by (simp_all add: small_keys_def)
  show "dpgm_EqualityLookup (static_index e U) S st key = Inr (case dpgm_map st key of None \<Rightarrow> OVERFLOW | Some v \<Rightarrow> v)" if "uint key \<le> 2 ^ 44"
    using dpgm_EqualityLookup_ok [OF dpgm_wf_readable [OF wf] SU windows_enclose_ok [OF static_windows [OF SU e that inv small]] n(1)] .
  show "dpgm_RangeQuery (static_index e U) S st lo hi
      = Some (Inr (sum_list (map ivalue (filter (\<lambda>x. lo \<le> ikey x \<and> ikey x \<le> hi) (dpgm_items st)))))" if "uint lo \<le> 2 ^ 44"
    by (rule dpgm_RangeQuery_ok [OF wf SU static_windows [OF SU e that inv small] n])
qed

text \<open>The index that is given new keys one by one\<close>

lemma static_lookup:
  assumes SU: "search_class S U" and e: "0 < e" "e \<le> 1024" and inv: "dpgm_inv (static_index e U) st"
    and m: "dpgm_map st = map_of kvs" and d: "distinct (map fst kvs)" and k: "\<forall>(k, v)\<in>set kvs. uint k < 2 ^ 44" and n: "length kvs \<le> 2 ^ 30"
    and key: "uint key \<le> 2 ^ 44"
  shows "dpgm_EqualityLookup (static_index e U) S st key = Inr (case map_of kvs key of None \<Rightarrow> OVERFLOW | Some v \<Rightarrow> v)"
proof -
  note items = items_of_map [OF inv m d]
  have "small_keys st" by (rule small_keys_of [OF items k n])
  from static_queries(1) [OF SU e inv this key] show ?thesis by (simp only: m)
qed

end
