(* ===== verification/Hybrid_Inv.thy ===== *)
theory Hybrid_Inv
  imports Hybrid Dpgm_Static
begin

text \<open>
  The invariant of the hybrid index: in every interleaving of the two threads the pairs inserted so
  far are, in order, the ones flushed to the \<open>LIPP\<close>, the ones the background thread is moving, the
  buffer, and the one the main thread is about to buffer. The dynamic PGM keeps all of them.
\<close>

fun inserts_of :: "event list \<Rightarrow> (u64 \<times> u64) list" where
  "inserts_of [] = []"
| "inserts_of (Inserted kv # evs) = kv # inserts_of evs"
| "inserts_of (_ # evs) = inserts_of evs"

lemma inserts_of_append [simp]: "inserts_of (xs @ ys) = inserts_of xs @ inserts_of ys"
  by (induction xs rule: inserts_of.induct) simp_all

definition moving :: "worker_pc \<Rightarrow> (u64 \<times> u64) list" where
  "moving pc = (case pc of Inserting kvs \<Rightarrow> kvs | _ \<Rightarrow> [])"

definition pending :: "main_pc \<Rightarrow> (u64 \<times> u64) list" where
  "pending pc = (case pc of Buffering kv \<Rightarrow> [kv] | _ \<Rightarrow> [])"

lemma moving_simps [simp]: "moving Waiting = []" "moving Flushing = []" "moving Stopped = []" "moving (Inserting kvs) = kvs"
  by (simp_all add: moving_def)

lemma pending_simps [simp]: "pending Idle = []" "pending Joining = []" "pending (Looking k) = []" "pending (Buffering kv) = [kv]"
  by (simp_all add: pending_def)

text \<open>The shared state, with the pairs that were loaded, inserted, and among these the flushed ones.\<close>

definition shared_inv :: "'p pgm_class \<Rightarrow> (u64 \<times> u64) list \<Rightarrow> (u64 \<times> u64) list \<Rightarrow> (u64 \<times> u64) list \<Rightarrow> 'p hybrid \<Rightarrow> bool" where
  "shared_inv C built inserted flushed st \<longleftrightarrow>
     lipp_inv (h_lipp st) \<and> mset (entries (root_node (h_lipp st))) = mset (built @ flushed)
     \<and> dpgm_inv C (h_pgm st) \<and> dpgm_map (h_pgm st) = map_of inserted \<and> length (dpgm_items (h_pgm st)) = length inserted
     \<and> pgm_size st = of_nat (length (hbuffer st)) \<and> \<not> buffer_mutex st"

definition hinv :: "'p pgm_class \<Rightarrow> (u64 \<times> u64) list \<Rightarrow> (u64 \<times> u64) list \<Rightarrow> 'p config \<Rightarrow> bool" where
  "hinv C built inserted c \<longleftrightarrow>
     (\<exists>flushed. shared_inv C built inserted flushed (shared c)
        \<and> inserted = flushed @ moving (worker_at c) @ hbuffer (shared c) @ pending (main_at c))
     \<and> (\<forall>k. main_at c = Looking k \<longrightarrow> map_of built k \<in> {None, Some NOT_FOUND})"

lemma lock_free [simp]: "\<not> buffer_mutex st \<Longrightarrow> lock st = Inr (st\<lparr>buffer_mutex := True\<rparr>)"
  by (simp add: lock_def)

lemma unlock_id: "\<not> buffer_mutex st \<Longrightarrow> st\<lparr>buffer_mutex := False\<rparr> = st"
  by (cases st) simp

subsection \<open>The operations\<close>

lemma insert_pgm_ok:
  assumes inv: "shared_inv C built inserted flushed st" and i: "insert_pgm C kv st = Inr st'"
    and new: "fst kv \<notin> fst ` set inserted" and cap: "length inserted < dpgm_cap"
  shows "shared_inv C built (inserted @ [kv]) flushed st' \<and> hbuffer st' = hbuffer st \<and> should_stop st' = should_stop st"
proof -
  obtain k v where kv: "kv = (k, v)" by fastforce
  obtain p where p: "dpgm_insert C k v (h_pgm st) = Inr p" "st' = st\<lparr>h_pgm := p\<rparr>"
    using i by (auto simp: insert_pgm_def kv bindE_Inr)
  have none: "map_of inserted k = None" using new kv by (simp add: map_of_eq_None_iff)
  then obtain q where "dpgm_insert C k v (h_pgm st) = Inr q" "dpgm_inv C q"
    "dpgm_map q = (dpgm_map (h_pgm st))(k \<mapsto> v)" "length (dpgm_items q) = Suc (length (dpgm_items (h_pgm st)))"
    using dpgm_ins.ins_new [of C "h_pgm st" k v] inv cap by (auto simp: shared_inv_def)
  moreover have "map_of (inserted @ [kv]) = (map_of inserted)(k \<mapsto> v)"
    using none kv by (auto simp: map_add_def split: option.splits)
  ultimately show ?thesis using inv p by (simp add: shared_inv_def)
qed

lemma flush_take_ok:
  assumes inv: "shared_inv C built inserted flushed st" and t: "flush_take cfg st = Inr (kvs, st')"
  shows "shared_inv C built inserted flushed st' \<and> hbuffer st = kvs @ hbuffer st' \<and> should_stop st' = should_stop st
    \<and> length kvs = min (length (hbuffer st)) (unat (max_flush_size cfg))"
proof (cases "hbuffer st = []")
  case True
  then have "kvs = []" "st' = st"
    using t inv by (simp_all add: flush_take_def shared_inv_def unlock_def unlock_id)
  then show ?thesis using inv True by simp
next
  case False
  let ?n = "min (length (hbuffer st)) (unat (max_flush_size cfg))"
  have "kvs = take ?n (hbuffer st)"
    "st' = st\<lparr>hbuffer := drop ?n (hbuffer st), pgm_size := pgm_size st - of_nat ?n, buffer_mutex := False\<rparr>"
    using t inv False by (simp_all add: flush_take_def shared_inv_def unlock_def Let_def)
  moreover have "of_nat (length (hbuffer st)) - of_nat ?n = (of_nat (length (hbuffer st) - ?n) :: u64)"
    by (simp add: of_nat_diff)
  ultimately show ?thesis using inv by (simp add: shared_inv_def)
qed

lemma flush_item_ok:
  assumes inv: "shared_inv C built inserted flushed st" and f: "flush_item kv st = Inr st'"
  shows "shared_inv C built inserted (flushed @ [kv]) st' \<and> hbuffer st' = hbuffer st \<and> should_stop st' = should_stop st"
proof -
  obtain k v where kv: "kv = (k, v)" by fastforce
  obtain l where l: "lipp_insert std_opts k v (h_lipp st) = Inr l" "st' = st\<lparr>h_lipp := l\<rparr>"
    using f by (auto simp: flush_item_def kv bindE_Inr)
  have li: "lipp_inv (h_lipp st)" and "0 \<le> BUILD_LR_REMAIN std_opts" using inv by (simp_all add: shared_inv_def std_opts_def)
  from lipp_insert_ok [OF this l(1)] show ?thesis using inv l(2) kv by (simp add: shared_inv_def)
qed

lemma flush_items_ok:
  "shared_inv C built inserted flushed st \<Longrightarrow> flush_items kvs st = Inr st'
   \<Longrightarrow> shared_inv C built inserted (flushed @ kvs) st' \<and> hbuffer st' = hbuffer st \<and> should_stop st' = should_stop st"
proof (induction kvs arbitrary: st flushed)
  case (Cons kv kvs)
  obtain s1 where s1: "flush_item kv st = Inr s1" "flush_items kvs s1 = Inr st'" using Cons.prems(2) by (auto simp: bindE_Inr)
  note 1 = flush_item_ok [OF Cons.prems(1) s1(1)]
  have "shared_inv C built inserted ((flushed @ [kv]) @ kvs) st' \<and> hbuffer st' = hbuffer s1 \<and> should_stop st' = should_stop s1"
    by (rule Cons.IH [OF _ s1(2)]) (use 1 in blast)
  with 1 show ?case by simp
qed simp

lemma flush_buffer_held: "buffer_mutex st \<Longrightarrow> flush_buffer cfg st = Inl DEADLOCK"
  by (simp add: flush_buffer_def flush_take_def lock_def)

lemma insert_buffer_ok:
  assumes inv: "shared_inv C built inserted flushed st" and i: "insert_buffer cfg kv st = Inr st'"
  shows "shared_inv C built inserted flushed st' \<and> hbuffer st' = hbuffer st @ [kv] \<and> should_stop st' = should_stop st"
proof -
  let ?st = "st\<lparr>buffer_mutex := True, hbuffer := hbuffer st @ [kv], pgm_size := pgm_size st + 1, total_size := total_size st + 1\<rparr>"
  have "buffer_mutex ?st" by simp
  note held = flush_buffer_held [OF this, of cfg]
  have "st' = unlock ?st"
    using i inv held by (auto simp: insert_buffer_def shared_inv_def Let_def split: if_splits)
  then show ?thesis using inv by (simp add: shared_inv_def unlock_def add.commute)
qed

subsection \<open>The steps\<close>

lemma lookup_lipp_inv:
  assumes inv: "shared_inv C built inserted flushed st" and dist: "distinct (map fst (built @ flushed))"
  shows "lookup_lipp k st = Inr (case map_of (built @ flushed) k of None \<Rightarrow> NOT_FOUND | Some v \<Rightarrow> v)"
proof -
  have li: "lipp_inv (h_lipp st)" and ms: "mset (entries (root_node (h_lipp st))) = mset (built @ flushed)"
    using inv by (simp_all add: shared_inv_def)
  have "distinct (map fst (entries (root_node (h_lipp st))))"
    using dist ms by (metis mset_eq_imp_distinct_iff mset_map)
  then have "map_of (entries (root_node (h_lipp st))) = map_of (built @ flushed)"
    using map_of_inject_set [of _ "built @ flushed"] dist mset_eq_setD [OF ms] by blast
  then have "lipp_map (root_node (h_lipp st)) = map_of (built @ flushed)" by (simp add: lipp_map_def)
  then show ?thesis using lipp.lookup_ok [OF li, of k] by (simp add: lookup_lipp_def lipp_EqualityLookup_def)
qed

lemma lookup_pgm_inv:
  assumes inv: "shared_inv (static_index e U) built inserted flushed st" and SU: "search_class S U" and e: "0 < e" "e \<le> 1024"
    and ins: "distinct (map fst inserted)" "\<forall>(k, v)\<in>set inserted. uint k < 2 ^ 44" "length inserted \<le> 2 ^ 30" and k: "uint k \<le> 2 ^ 44"
  shows "lookup_pgm (static_index e U) S k st = Inr (case map_of inserted k of None \<Rightarrow> NOT_FOUND | Some v \<Rightarrow> v)"
proof -
  have "dpgm_inv (static_index e U) (h_pgm st)" "dpgm_map (h_pgm st) = map_of inserted" using inv by (simp_all add: shared_inv_def)
  from static_lookup [OF SU e this ins k] show ?thesis
    by (simp add: lookup_pgm_def OVERFLOW_def NOT_FOUND_def split: option.split)
qed

lemma hstep_ok:
  assumes "hstep cfg C S c ev c'" "hinv C built inserted c" "\<forall>e. ev \<noteq> Crashed e"
    and "distinct (map fst (built @ inserted @ inserts_of [ev]))" "length (inserted @ inserts_of [ev]) \<le> dpgm_cap"
  shows "hinv C built (inserted @ inserts_of [ev]) c'"
  using assms
proof (cases rule: hstep.cases)
  case (main_insert kv st)
  obtain flushed where f: "shared_inv C built inserted flushed (shared c)"
    "inserted = flushed @ moving (worker_at c) @ hbuffer (shared c) @ pending (main_at c)" using assms(2) by (auto simp: hinv_def)
  have "shared_inv C built (inserted @ [kv]) flushed st \<and> hbuffer st = hbuffer (shared c) \<and> should_stop st = should_stop (shared c)"
    using insert_pgm_ok [OF f(1), of kv st] main_insert assms(4,5) by auto
  then show ?thesis using main_insert f by (auto simp: hinv_def)
next
  case (main_buffer kv st)
  obtain flushed where f: "shared_inv C built inserted flushed (shared c)"
    "inserted = flushed @ moving (worker_at c) @ hbuffer (shared c) @ pending (main_at c)" using assms(2) by (auto simp: hinv_def)
  then show ?thesis using main_buffer insert_buffer_ok [OF f(1), of cfg kv st] by (auto simp: hinv_def)
next
  case (main_lookup_miss key)
  obtain flushed where f: "shared_inv C built inserted flushed (shared c)"
    "inserted = flushed @ moving (worker_at c) @ hbuffer (shared c) @ pending (main_at c)" using assms(2) by (auto simp: hinv_def)
  have "distinct (map fst (built @ flushed))" using assms(4) f(2) by auto
  from lookup_lipp_inv [OF f(1) this, of key] main_lookup_miss have "map_of built key \<in> {None, Some NOT_FOUND}"
    by (auto simp: map_add_def split: option.splits)
  then show ?thesis using main_lookup_miss f by (auto simp: hinv_def)
next
  case (worker_take kvs st)
  obtain flushed where f: "shared_inv C built inserted flushed (shared c)"
    "inserted = flushed @ moving (worker_at c) @ hbuffer (shared c) @ pending (main_at c)" using assms(2) by (auto simp: hinv_def)
  then show ?thesis using worker_take flush_take_ok [OF f(1), of cfg kvs st] assms(2) by (auto simp: hinv_def)
next
  case (worker_item kv kvs st)
  obtain flushed where f: "shared_inv C built inserted flushed (shared c)"
    "inserted = flushed @ moving (worker_at c) @ hbuffer (shared c) @ pending (main_at c)" using assms(2) by (auto simp: hinv_def)
  then show ?thesis using worker_item flush_item_ok [OF f(1), of kv st] assms(2) by (auto simp: hinv_def)
qed (auto simp: hinv_def shared_inv_def)

lemma hrun_ok:
  assumes "hrun cfg C S c evs c'" "hinv C built [] c" "\<forall>e. Crashed e \<notin> set evs"
    and "distinct (map fst (built @ inserts_of evs))" "length (inserts_of evs) \<le> dpgm_cap"
  shows "hinv C built (inserts_of evs) c'"
  using assms
proof (induction rule: hrun.induct)
  case (step evs c' ev c'')
  have "hinv C built (inserts_of evs) c'" using step.prems by (intro step.IH) auto
  from hstep_ok [OF step.hyps(2) this] step.prems show ?case by auto
qed simp

end
