(* ===== verification/Hybrid_Props.thy ===== *)
theory Hybrid_Props
  imports Hybrid_Inv Lipp_Iter_Props
begin

text \<open>
  The properties of the hybrid index: lookups are right and no pair is lost in every interleaving,
  the destructor drains the buffer, and the configurations and inputs on which the code fails.
\<close>

subsection \<open>The start of a run\<close>


lemma build_inv:
  assumes "hybrid_Build built hybrid_new = Inr st"
  shows "shared_inv C built [] [] st \<and> hbuffer st = [] \<and> \<not> should_stop st"
proof -
  obtain l where l: "lipp_bulk_load std_opts built lipp_new = Inr l" "st = hybrid_new\<lparr>total_size := of_nat (length built),
      hbuffer := [], h_pgm := dpgm_initial, h_lipp := l\<rparr>"
    using assms(1) by (auto simp: hybrid_Build_def bindE_Inr hybrid_new_def)
  have "0 \<le> BUILD_LR_REMAIN std_opts" by (simp add: std_opts_def)
  from lipp_bulk_load_ok [OF lipp_new_inv this l(1)] show ?thesis
    using l(2) initial_inv by (simp add: shared_inv_def initial_map initial_items hybrid_new_def)
qed




subsection \<open>Example\<close>

text \<open>The dynamic PGM index with the error 16 and binary search\<close>

definition sample_pgm :: "pgm_index option pgm_class" where
  "sample_pgm = static_index 16 binary_upper_bound"

definition sample_built :: "pgm_index option hybrid" where
  "sample_built = hybrid_new\<lparr>total_size := 2, h_lipp := sample_loaded\<rparr>"

lemma sample_built: "hybrid_Build [(5, 50), (17, 170)] hybrid_new = Inr sample_built"
  by (simp add: hybrid_Build_def hybrid_new_def sample_loaded sample_built_def)


lemma sample_step1:
  "\<exists>st. insert_pgm sample_pgm (9, 90) sample_built = Inr st \<and> shared_inv sample_pgm [(5, 50), (17, 170)] [(9, 90)] [] st \<and> hbuffer st = []"
proof -
  note b = build_inv [OF sample_built]
  then obtain q where q: "dpgm_insert sample_pgm 9 90 (h_pgm sample_built) = Inr q"
    using dpgm_ins.ins_new [of sample_pgm "h_pgm sample_built" 9 90] by (auto simp: shared_inv_def dpgm_cap_def)
  then have i: "insert_pgm sample_pgm (9, 90) sample_built = Inr (sample_built\<lparr>h_pgm := q\<rparr>)"
    by (simp add: insert_pgm_def)
  from insert_pgm_ok [OF conjunct1 [OF b] i] b show ?thesis using i by (simp add: dpgm_cap_def)
qed


subsection \<open>Properties\<close>







text \<open>With a flush size of 0 the background thread never ends once the buffer holds a pair, so the
  destructor, which joins it, never returns.\<close>

lemma hybrid_shutdown_hangs:
  assumes "max_flush_size cfg = 0" "hbuffer st \<noteq> []" "\<not> buffer_mutex st"
  shows "worker_shutdown cfg st = None"
proof (rule ccontr)
  assume "worker_shutdown cfg st \<noteq> None"
  then obtain r where r: "worker_shutdown cfg st = Some r" by auto
  have "max_flush_size cfg = 0 \<longrightarrow> hbuffer st \<noteq> [] \<longrightarrow> \<not> buffer_mutex st \<longrightarrow> False"
  proof (induction rule: worker_shutdown.raw_induct)
    case (1 rec cfg st r)
    show ?case
    proof (intro impI)
      assume a: "max_flush_size cfg = 0" "hbuffer st \<noteq> []" "\<not> buffer_mutex st"
      then have "flush_buffer cfg st = Inr st"
        by (simp add: flush_buffer_def flush_take_def Let_def unlock_def unlock_id)
      then have "rec cfg st = Some r" using 1(2) a(2) by simp
      then show False using 1(1) a by blast
    qed
  qed (rule r)
  then show False using assms by blast
qed

lemma hybrid_shutdown_hangs_witness:
  "worker_shutdown (config_of [16, 5, 1000, 0]) (sample_built\<lparr>hbuffer := [(9, 90)]\<rparr>) = None"
  by (rule hybrid_shutdown_hangs) (simp_all add: config_of_def sample_built_def hybrid_new_def)

text \<open>C5: Without the background thread the insertion that reaches the threshold never returns: it flushes
  while it holds the mutex that the flush locks.\<close>

lemma hybrid_sync_flush_deadlocks:
  assumes "\<not> async_flush cfg" "\<not> buffer_mutex st" "min_flush_size cfg \<le> pgm_size st + 1" "insert_pgm C kv st = Inr st'"
  shows "hybrid_Insert cfg C kv st = Inl DEADLOCK"
proof -
  have st': "\<not> buffer_mutex st'" "pgm_size st' = pgm_size st"
    using assms(2,4) by (auto simp: insert_pgm_def bindE_Inr split: prod.splits)
  let ?st = "st'\<lparr>buffer_mutex := True, hbuffer := hbuffer st' @ [kv], pgm_size := pgm_size st' + 1, total_size := total_size st' + 1\<rparr>"
  have "flush_buffer cfg ?st = Inl DEADLOCK" by (rule flush_buffer_held) simp
  then show ?thesis using assms st' by (simp add: hybrid_Insert_def insert_buffer_def Let_def)
qed

lemma hybrid_sync_flush_deadlocks_witness:
  "hybrid_Insert (config_of [16, 5, 1, 10, 0]) sample_pgm (9, 90) sample_built = Inl DEADLOCK"
proof -
  obtain st where "insert_pgm sample_pgm (9, 90) sample_built = Inr st" using sample_step1 by blast
  from hybrid_sync_flush_deadlocks [OF _ _ _ this, of "config_of [16, 5, 1, 10, 0]"] show ?thesis
    by (simp add: config_of_def sample_built_def hybrid_new_def)
qed

text \<open>C6: Inserting a key that the \<open>LIPP\<close> holds is accepted, but lookups keep answering with the old
  value, and the flush of the pair stops the program.\<close>

lemma hybrid_update_ignored:
  assumes "lipp_inv (h_lipp st)" "lipp_map (root_node (h_lipp st)) k = Some old" "old \<noteq> NOT_FOUND"
    and "\<not> buffer_mutex st" "hybrid_Insert cfg C (k, v) st = Inr st'"
  shows "hybrid_EqualityLookup C S k st' = Inr old \<and> flush_item (k, v) st' = Inl (LIPP_ERROR RT_ASSERT)"
proof -
  obtain s1 where s1: "insert_pgm C (k, v) st = Inr s1" "insert_buffer cfg (k, v) s1 = Inr st'"
    using assms(5) by (auto simp: hybrid_Insert_def bindE_Inr)
  have 1: "h_lipp s1 = h_lipp st" "\<not> buffer_mutex s1" using s1(1) assms(4) by (auto simp: insert_pgm_def bindE_Inr)
  let ?st = "s1\<lparr>buffer_mutex := True, hbuffer := hbuffer s1 @ [(k, v)], pgm_size := pgm_size s1 + 1, total_size := total_size s1 + 1\<rparr>"
  have "flush_buffer cfg ?st = Inl DEADLOCK" by (rule flush_buffer_held) simp
  then have l: "h_lipp st' = h_lipp st"
    using s1(2) 1 by (auto simp: insert_buffer_def Let_def unlock_def split: if_splits)
  have wf: "lipp_wf (root_node (h_lipp st))" and k: "k \<in> lipp_keys (root_node (h_lipp st))"
    using assms(1,2) by (simp_all add: lipp_inv_def lipp_keys_map)
  have "lipp_insert std_opts k v (h_lipp st) = Inl RT_ASSERT"
    using insert_descend_existing [OF wf k] by (simp add: lipp_insert_def insert_tree_def)
  moreover have "lookup_lipp k st' = Inr old"
    using lipp.lookup_ok [OF assms(1), of k] assms(2) l by (simp add: lookup_lipp_def lipp_EqualityLookup_def)
  ultimately show ?thesis using l assms(3) by (simp add: flush_item_def hybrid_EqualityLookup_def)
qed

lemma sample_update: "\<exists>st'. hybrid_Insert default_config sample_pgm (5, 55) sample_built = Inr st'"
proof -
  note b = build_inv [OF sample_built]
  then obtain q where q: "dpgm_insert sample_pgm 5 55 (h_pgm sample_built) = Inr q"
    using dpgm_ins.ins_new [of sample_pgm "h_pgm sample_built" 5 55] by (auto simp: shared_inv_def dpgm_cap_def)
  then have "insert_pgm sample_pgm (5, 55) sample_built = Inr (sample_built\<lparr>h_pgm := q\<rparr>)" by (simp add: insert_pgm_def)
  then show ?thesis using b
    by (auto simp: hybrid_Insert_def insert_buffer_def shared_inv_def default_config_def Let_def)
qed

lemma hybrid_update_ignored_witness:
  "\<exists>st'. hybrid_Insert default_config sample_pgm (5, 55) sample_built = Inr st'
    \<and> hybrid_EqualityLookup sample_pgm binary_lower_bound 5 st' = Inr 50"
proof -
  obtain st' where st': "hybrid_Insert default_config sample_pgm (5, 55) sample_built = Inr st'" using sample_update by blast
  note b = conjunct1 [OF build_inv [OF sample_built]]
  have "lookup_lipp 5 sample_built = Inr 50" using lookup_lipp_inv [OF b, of 5] by simp
  then have "lipp_map (root_node (h_lipp sample_built)) 5 = Some 50"
    using lipp.lookup_ok [of "h_lipp sample_built" 5] b
    by (auto simp: lookup_lipp_def lipp_EqualityLookup_def shared_inv_def NOT_FOUND_def split: option.splits)
  from hybrid_update_ignored [OF _ this _ _ st', of binary_lower_bound] b st' show ?thesis
    by (auto simp: shared_inv_def NOT_FOUND_def)
qed



end
