(* ===== verification/Btree_Node.thy ===== *)
theory Btree_Node
  imports Search_Base
begin

text \<open>
  The data model of the B+ tree (\<open>competitors/stx-btree-0.9/include/stx/btree.h\<close>): its nodes,
  the double linked chain of its leaves, its statistics, its iterators, and the searches inside a
  node. The leaves are named by the number of their allocation, which stands for their address;
  \<open>slotuse\<close> is the length of the list of keys, so what the arrays hold behind it is not
  represented. The links of the chain are stored beside the tree and updated as the code updates
  them: nothing but the proofs ties them to the order of the leaves in the tree.
\<close>

subsection \<open>Template parameters, nodes and members\<close>

record 'k btree_class =
  search_lower :: "'k search_fn"
  search_upper :: "'k search_fn"
  leafslotmax :: nat
  innerslotmax :: nat
  allow_duplicates :: bool

definition minleafslots :: "'k btree_class \<Rightarrow> nat" where
  "minleafslots C = leafslotmax C div 2"

definition mininnerslots :: "'k btree_class \<Rightarrow> nat" where
  "mininnerslots C = innerslotmax C div 2"

datatype ('k, 'v) bnode =
    Leaf nat "('k \<times> 'v) list"
  | Inner nat "'k list" "('k, 'v) bnode list"

fun node_level :: "('k, 'v) bnode \<Rightarrow> nat" where
  "node_level (Leaf i es) = 0"
| "node_level (Inner l ks cs) = l"

fun node_slotuse :: "('k, 'v) bnode \<Rightarrow> nat" where
  "node_slotuse (Leaf i es) = length es"
| "node_slotuse (Inner l ks cs) = length ks"

fun node_isfull :: "'k btree_class \<Rightarrow> ('k, 'v) bnode \<Rightarrow> bool" where
  "node_isfull C (Leaf i es) = (length es = leafslotmax C)"
| "node_isfull C (Inner l ks cs) = (length ks = innerslotmax C)"

fun node_isunderflow :: "'k btree_class \<Rightarrow> ('k, 'v) bnode \<Rightarrow> bool" where
  "node_isunderflow C (Leaf i es) = (length es < minleafslots C)"
| "node_isunderflow C (Inner l ks cs) = (length ks < mininnerslots C)"

record tree_stats =
  st_itemcount :: nat
  st_leaves :: nat
  st_innernodes :: nat

definition empty_stats :: tree_stats where
  "empty_stats = \<lparr>st_itemcount = 0, st_leaves = 0, st_innernodes = 0\<rparr>"

definition stats_nodes :: "tree_stats \<Rightarrow> nat" where
  "stats_nodes s = st_innernodes s + st_leaves s"

record tree_mem =
  m_headleaf :: "nat option"
  m_tailleaf :: "nat option"
  nextleaf :: "nat \<Rightarrow> nat option"
  prevleaf :: "nat \<Rightarrow> nat option"
  fresh_leaf :: nat
  m_stats :: tree_stats

record ('k, 'v) btree =
  m_root :: "('k, 'v) bnode option"
  m_mem :: tree_mem

definition empty_mem :: tree_mem where
  "empty_mem = \<lparr>m_headleaf = None, m_tailleaf = None, nextleaf = (\<lambda>_. None), prevleaf = (\<lambda>_. None),
     fresh_leaf = 0, m_stats = empty_stats\<rparr>"

definition btree_new :: "('k, 'v) btree" where
  "btree_new = \<lparr>m_root = None, m_mem = empty_mem\<rparr>"

definition allocate_leaf :: "tree_mem \<Rightarrow> nat \<times> tree_mem" where
  "allocate_leaf m = (let n = fresh_leaf m in
     (n, m\<lparr>nextleaf := (nextleaf m)(n := None), prevleaf := (prevleaf m)(n := None), fresh_leaf := Suc n,
           m_stats := (m_stats m)\<lparr>st_leaves := st_leaves (m_stats m) + 1\<rparr>\<rparr>))"

definition allocate_inner :: "tree_mem \<Rightarrow> tree_mem" where
  "allocate_inner m = m\<lparr>m_stats := (m_stats m)\<lparr>st_innernodes := st_innernodes (m_stats m) + 1\<rparr>\<rparr>"

fun free_node :: "('k, 'v) bnode \<Rightarrow> tree_mem \<Rightarrow> tree_mem" where
  "free_node (Leaf i es) m = m\<lparr>m_stats := (m_stats m)\<lparr>st_leaves := st_leaves (m_stats m) - 1\<rparr>\<rparr>"
| "free_node (Inner l ks cs) m = m\<lparr>m_stats := (m_stats m)\<lparr>st_innernodes := st_innernodes (m_stats m) - 1\<rparr>\<rparr>"

lemma child_size [termination_simp]: "slot < length cs \<Longrightarrow> size (cs ! slot) < Suc (n + size_list size cs)"
  using size_list_estimation' [OF nth_mem [of slot cs] order_refl, of size] by simp

subsection \<open>What a tree holds\<close>

fun tree_leaves :: "('k, 'v) bnode \<Rightarrow> (nat \<times> ('k \<times> 'v) list) list" where
  "tree_leaves (Leaf i es) = [(i, es)]"
| "tree_leaves (Inner l ks cs) = concat (map tree_leaves cs)"

fun inner_count :: "('k, 'v) bnode \<Rightarrow> nat" where
  "inner_count (Leaf i es) = 0"
| "inner_count (Inner l ks cs) = Suc (sum_list (map inner_count cs))"

definition leaf_ids :: "('k, 'v) bnode \<Rightarrow> nat list" where
  "leaf_ids n = map fst (tree_leaves n)"

definition node_entries :: "('k, 'v) bnode \<Rightarrow> ('k \<times> 'v) list" where
  "node_entries n = concat (map snd (tree_leaves n))"

definition root_leaves :: "('k, 'v) btree \<Rightarrow> (nat \<times> ('k \<times> 'v) list) list" where
  "root_leaves t = (case m_root t of None \<Rightarrow> [] | Some n \<Rightarrow> tree_leaves n)"

definition btree_entries :: "('k, 'v) btree \<Rightarrow> ('k \<times> 'v) list" where
  "btree_entries t = concat (map snd (root_leaves t))"

definition maxkey :: "('k, 'v) bnode \<Rightarrow> 'k" where
  "maxkey n = fst (last (node_entries n))"

lemma leaf_ids_simps [simp]:
  "leaf_ids (Leaf i es) = [i]" "leaf_ids (Inner l ks cs) = concat (map leaf_ids cs)"
  by (induction cs) (simp_all add: leaf_ids_def)

lemma node_entries_simps [simp]:
  "node_entries (Leaf i es) = es" "node_entries (Inner l ks cs) = concat (map node_entries cs)"
  by (induction cs) (simp_all add: node_entries_def)

lemma length_leaf_ids: "length (leaf_ids n) = length (tree_leaves n)"
  by (simp add: leaf_ids_def)

subsection \<open>Iterators\<close>

record titer =
  currnode :: "nat option"
  currslot :: nat

definition leaf_at :: "('k, 'v) btree \<Rightarrow> nat \<Rightarrow> ('k \<times> 'v) list option" where
  "leaf_at t i = map_of (root_leaves t) i"

definition iter_begin :: "('k, 'v) btree \<Rightarrow> titer" where
  "iter_begin t = \<lparr>currnode = m_headleaf (m_mem t), currslot = 0\<rparr>"

definition iter_end :: "('k, 'v) btree \<Rightarrow> titer option" where
  "iter_end t = (case m_tailleaf (m_mem t) of None \<Rightarrow> Some \<lparr>currnode = None, currslot = 0\<rparr>
     | Some i \<Rightarrow> do { es \<leftarrow> leaf_at t i; Some \<lparr>currnode = Some i, currslot = length es\<rparr> })"

definition iter_deref :: "('k, 'v) btree \<Rightarrow> titer \<Rightarrow> ('k \<times> 'v) option" where
  "iter_deref t it = do { i \<leftarrow> currnode it; es \<leftarrow> leaf_at t i;
     if currslot it < length es then Some (es ! currslot it) else None }"

definition iter_incr :: "('k, 'v) btree \<Rightarrow> titer \<Rightarrow> titer option" where
  "iter_incr t it = do { i \<leftarrow> currnode it; es \<leftarrow> leaf_at t i;
     Some (if currslot it + 1 < length es then it\<lparr>currslot := currslot it + 1\<rparr>
           else case nextleaf (m_mem t) i of
                  Some j \<Rightarrow> \<lparr>currnode = Some j, currslot = 0\<rparr>
                | None \<Rightarrow> it\<lparr>currslot := length es\<rparr>) }"

definition iter_decr :: "('k, 'v) btree \<Rightarrow> titer \<Rightarrow> titer option" where
  "iter_decr t it = do { i \<leftarrow> currnode it;
     if 0 < currslot it then Some (it\<lparr>currslot := currslot it - 1\<rparr>)
     else case prevleaf (m_mem t) i of
            Some j \<Rightarrow> do { es \<leftarrow> leaf_at t j; Some \<lparr>currnode = Some j, currslot = length es - 1\<rparr> }
          | None \<Rightarrow> Some (it\<lparr>currslot := 0\<rparr>) }"

subsection \<open>Searching a node\<close>

definition find_lower :: "'k::linorder btree_class \<Rightarrow> 'k list \<Rightarrow> 'k \<Rightarrow> nat option" where
  "find_lower C ks key = do { r \<leftarrow> search_lower C 0 (int (length ks)) key 0 (vec_at id ks) (<); Some (nat r) }"

definition find_upper :: "'k::linorder btree_class \<Rightarrow> 'k list \<Rightarrow> 'k \<Rightarrow> nat option" where
  "find_upper C ks key = do { r \<leftarrow> search_upper C 0 (int (length ks)) key 0 (vec_at id ks) (<); Some (nat r) }"

text \<open>
  The constants of the traits classes: at least eight slots in every node, and few enough for
  \<open>unsigned short\<close>.
\<close>

definition btree_class_ok :: "'k::linorder btree_class \<Rightarrow> bool" where
  "btree_class_ok C \<longleftrightarrow> search_class (search_lower C) (search_upper C)
     \<and> 8 \<le> leafslotmax C \<and> leafslotmax C < 2 ^ 16 \<and> 8 \<le> innerslotmax C \<and> innerslotmax C < 2 ^ 16"

lemma takeWhile_bound:
  assumes "sorted (ks :: 'k::linorder list)"
  shows "is_lower_bound (\<lambda>i. id (ks ! nat i)) 0 (int (length ks)) key (int (length (takeWhile (\<lambda>x. x < key) ks)))"
    and "is_upper_bound (\<lambda>i. id (ks ! nat i)) 0 (int (length ks)) key (int (length (takeWhile (\<lambda>x. x \<le> key) ks)))"
proof -
  have rng: "sorted_range (\<lambda>i. id (ks ! nat i)) 0 (int (length ks))" using sorted_range_vec [of id ks] assms by simp
  have le: "length (takeWhile P ks) \<le> length ks" for P by (rule length_takeWhile_le)
  have above: "int (length (takeWhile P ks)) = int (length ks) \<or> \<not> P (ks ! nat (int (length (takeWhile P ks))))" for P
    using nth_length_takeWhile [of P ks] le [of P] by (cases "length (takeWhile P ks) = length ks") simp_all
  have below: "int (length (takeWhile P ks)) = 0 \<or> P (ks ! nat (int (length (takeWhile P ks)) - 1))" for P
  proof (cases "length (takeWhile P ks)")
    case (Suc n)
    then have "takeWhile P ks ! n \<in> set (takeWhile P ks)" by (intro nth_mem) simp
    then have "P (takeWhile P ks ! n)" by (rule conjunct2 [OF set_takeWhileD])
    then show ?thesis using Suc takeWhile_nth [of n P ks] by simp
  qed simp
  show "is_lower_bound (\<lambda>i. id (ks ! nat i)) 0 (int (length ks)) key (int (length (takeWhile (\<lambda>x. x < key) ks)))"
    by (rule lower_boundI [OF rng]) (use le above [of "\<lambda>x. x < key"] below [of "\<lambda>x. x < key"] in \<open>simp_all add: not_less\<close>)
  show "is_upper_bound (\<lambda>i. id (ks ! nat i)) 0 (int (length ks)) key (int (length (takeWhile (\<lambda>x. x \<le> key) ks)))"
    by (rule upper_boundI [OF rng]) (use le above [of "\<lambda>x. x \<le> key"] below [of "\<lambda>x. x \<le> key"] in \<open>simp_all add: not_le\<close>)
qed

lemma find_lower_eq:
  assumes "btree_class_ok C" "sorted ks" "length ks < 2 ^ 16"
  shows "find_lower C ks key = Some (length (takeWhile (\<lambda>x. x < key) ks))"
proof -
  have "search_lower C 0 (int (length ks)) key 0 (vec_at id ks) (<) = Some (int (length (takeWhile (\<lambda>x. x < key) ks)))"
    by (rule search_class.lower_bound_eq [OF _ _ _ _ readable_vec_at])
      (use assms takeWhile_bound(1) sorted_range_vec [of id ks] in \<open>auto simp: btree_class_ok_def\<close>)
  then show ?thesis by (simp add: find_lower_def)
qed

lemma find_upper_eq:
  assumes "btree_class_ok C" "sorted ks" "length ks < 2 ^ 16"
  shows "find_upper C ks key = Some (length (takeWhile (\<lambda>x. x \<le> key) ks))"
proof -
  have "search_upper C 0 (int (length ks)) key 0 (vec_at id ks) (<) = Some (int (length (takeWhile (\<lambda>x. x \<le> key) ks)))"
    by (rule search_class.upper_bound_eq [OF _ _ _ _ readable_vec_at])
      (use assms takeWhile_bound(2) sorted_range_vec [of id ks] in \<open>auto simp: btree_class_ok_def\<close>)
  then show ?thesis by (simp add: find_upper_def)
qed

end
