(* ===== verification/Btree_Inv.thy ===== *)
theory Btree_Inv
  imports Btree_Node
begin

text \<open>
  The invariant of the B+ tree: every node but the root at least half full, all leaves on one
  level, a separator for every child but the last, equal to the largest key below that child, the
  entries in order, and the leaves linked in the order of the tree.
\<close>

fun node_wf :: "'k btree_class \<Rightarrow> bool \<Rightarrow> ('k, 'v) bnode \<Rightarrow> bool" where
  "node_wf C r (Leaf i es) \<longleftrightarrow> es \<noteq> [] \<and> length es \<le> leafslotmax C \<and> (r \<or> minleafslots C \<le> length es)"
| "node_wf C r (Inner l ks cs) \<longleftrightarrow> ks \<noteq> [] \<and> length ks \<le> innerslotmax C \<and> (r \<or> mininnerslots C \<le> length ks)
     \<and> ks = map maxkey (butlast cs)
     \<and> (\<forall>c\<in>set cs. Suc (node_level c) = l \<and> node_wf C False c)"

fun chain_seg :: "tree_mem \<Rightarrow> nat option \<Rightarrow> nat list \<Rightarrow> nat option \<Rightarrow> bool" where
  "chain_seg m p [] n = True"
| "chain_seg m p (i # is) n \<longleftrightarrow> prevleaf m i = p \<and> nextleaf m i = (if is = [] then n else Some (hd is))
     \<and> chain_seg m (Some i) is n"

definition chain_ok :: "tree_mem \<Rightarrow> nat list \<Rightarrow> bool" where
  "chain_ok m is \<longleftrightarrow> is \<noteq> [] \<and> distinct is \<and> (\<forall>i\<in>set is. i < fresh_leaf m)
     \<and> m_headleaf m = Some (hd is) \<and> m_tailleaf m = Some (last is) \<and> chain_seg m None is None"

definition keys_ok :: "'k::linorder btree_class \<Rightarrow> ('k \<times> 'v) list \<Rightarrow> bool" where
  "keys_ok C es \<longleftrightarrow> sorted (map fst es) \<and> (allow_duplicates C \<or> distinct (map fst es))"

definition stats_of :: "('k, 'v) bnode \<Rightarrow> tree_stats" where
  "stats_of n = \<lparr>st_itemcount = length (node_entries n), st_leaves = length (tree_leaves n), st_innernodes = inner_count n\<rparr>"

definition btree_inv :: "'k::linorder btree_class \<Rightarrow> ('k, 'v) btree \<Rightarrow> bool" where
  "btree_inv C t \<longleftrightarrow> (case m_root t of
       None \<Rightarrow> m_headleaf (m_mem t) = None \<and> m_tailleaf (m_mem t) = None \<and> m_stats (m_mem t) = empty_stats
     | Some n \<Rightarrow> node_wf C True n \<and> keys_ok C (node_entries n) \<and> chain_ok (m_mem t) (leaf_ids n)
         \<and> m_stats (m_mem t) = stats_of n)"

subsection \<open>Facts on well-formed nodes\<close>

lemma node_wf_length: "node_wf C r (Inner l ks cs) \<Longrightarrow> length cs = Suc (length ks)"
  by (cases cs rule: rev_cases) auto

lemma node_wf_mono: "node_wf C False n \<Longrightarrow> node_wf C r n"
  by (cases n) auto

lemma node_wf_leaves: "node_wf C r n \<Longrightarrow> tree_leaves n \<noteq> [] \<and> (\<forall>(i, es)\<in>set (tree_leaves n). es \<noteq> [] \<and> length es \<le> leafslotmax C)"
proof (induction n arbitrary: r)
  case (Inner l ks cs)
  have IH: "tree_leaves c \<noteq> [] \<and> (\<forall>(i, es)\<in>set (tree_leaves c). es \<noteq> [] \<and> length es \<le> leafslotmax C)" if "c \<in> set cs" for c
    by (rule Inner.IH [OF that, of False]) (use Inner.prems that in simp)
  have "cs \<noteq> []" using Inner.prems by auto
  then show ?case using IH by (fastforce simp: neq_Nil_conv)
qed simp

lemma node_wf_nonempty: "node_wf C r n \<Longrightarrow> node_entries n \<noteq> []"
  using node_wf_leaves [of C r n] by (cases "tree_leaves n") (auto simp: node_entries_def)

lemma maxkey_Inner:
  assumes "cs \<noteq> []" "node_entries (last cs) \<noteq> []"
  shows "maxkey (Inner l ks cs) = maxkey (last cs)"
  using assms by (cases cs rule: rev_cases) (simp_all add: maxkey_def last_append)

lemma maxkey_upper: "sorted (map fst (node_entries n)) \<Longrightarrow> e \<in> set (node_entries n) \<Longrightarrow> fst e \<le> maxkey n"
  unfolding maxkey_def by (cases "node_entries n" rule: rev_cases) (auto simp: sorted_append)

lemma maxkey_in: "node_entries n \<noteq> [] \<Longrightarrow> \<exists>e\<in>set (node_entries n). fst e = maxkey n"
  by (auto simp: maxkey_def)

lemma sorted_children:
  assumes "sorted (map fst (concat (map node_entries cs)))" "c \<in> set cs"
  shows "sorted (map fst (node_entries c))"
proof -
  obtain xs ys where "cs = xs @ c # ys" using assms(2) by (auto simp: in_set_conv_decomp)
  then show ?thesis using assms(1) by (simp add: sorted_append)
qed

lemma sorted_maxkeys:
  "sorted (map fst (concat (map node_entries cs))) \<Longrightarrow> \<forall>c\<in>set cs. node_entries c \<noteq> [] \<Longrightarrow> sorted (map maxkey cs)"
proof (induction cs)
  case (Cons c cs)
  have "maxkey c \<le> maxkey d" if "d \<in> set cs" for d
  proof -
    have "node_entries c \<noteq> []" "node_entries d \<noteq> []" using Cons.prems(2) that by auto
    then obtain x y where "x \<in> set (node_entries c)" "fst x = maxkey c" "y \<in> set (node_entries d)" "fst y = maxkey d"
      using maxkey_in by metis
    then show ?thesis using Cons.prems(1) that by (fastforce simp: sorted_append)
  qed
  then show ?case using Cons by (auto simp: sorted_append)
qed simp

lemma node_wf_separators:
  assumes "node_wf C r (Inner l ks cs)" "sorted (map fst (node_entries (Inner l ks cs)))"
  shows "sorted ks"
proof -
  have "\<forall>c\<in>set cs. node_entries c \<noteq> []" using assms(1) node_wf_nonempty by fastforce
  then have "sorted (map maxkey cs)" using sorted_maxkeys assms(2) by simp
  then have "sorted (butlast (map maxkey cs))" using assms(1) by (auto intro: sorted_butlast)
  then show ?thesis using assms(1) by (simp add: map_butlast)
qed

text \<open>
  The child a search descends into: all entries of the children before it satisfy the search
  predicate, and if it is not the last child its largest key does not.
\<close>

definition downward :: "('k::linorder \<Rightarrow> bool) \<Rightarrow> bool" where
  "downward P \<longleftrightarrow> (\<forall>x y. P y \<and> x \<le> y \<longrightarrow> P x)"

lemma downwardD: "downward P \<Longrightarrow> P y \<Longrightarrow> x \<le> y \<Longrightarrow> P x"
  by (auto simp: downward_def)

lemma downward_intros [simp]: "downward (\<lambda>x. x < key)" "downward (\<lambda>x. x \<le> key)"
  by (auto simp: downward_def)

lemma child_position:
  assumes wf: "node_wf C r (Inner l ks cs)" and s: "sorted (map fst (node_entries (Inner l ks cs)))"
    and P: "downward P" and slot: "slot = length (takeWhile P ks)"
  shows "slot < length cs" "\<forall>c\<in>set (take slot cs). \<forall>e\<in>set (node_entries c). P (fst e)"
    "slot < length ks \<Longrightarrow> \<not> P (maxkey (cs ! slot))"
proof -
  have le: "slot \<le> length ks" using slot by (simp add: length_takeWhile_le)
  then show lt: "slot < length cs" using node_wf_length [OF wf] by simp
  have ks: "ks ! i = maxkey (cs ! i)" if "i < length ks" for i
    using that wf by (simp add: nth_butlast)
  show "\<forall>c\<in>set (take slot cs). \<forall>e\<in>set (node_entries c). P (fst e)"
  proof (intro ballI)
    fix c e assume c: "c \<in> set (take slot cs)" and e: "e \<in> set (node_entries c)"
    obtain i where i: "i < slot" "c = cs ! i" using c by (auto simp: in_set_conv_nth)
    have "ks ! i \<in> set (takeWhile P ks)" using i slot nth_mem [of i "takeWhile P ks"] by (simp add: takeWhile_nth)
    then have "P (maxkey c)" using i le ks by (auto dest: set_takeWhileD)
    moreover have "c \<in> set cs" using c by (rule in_set_takeD)
    then have "fst e \<le> maxkey c" using e maxkey_upper sorted_children s by (metis node_entries_simps(2))
    ultimately show "P (fst e)" by (rule downwardD [OF P])
  qed
  show "slot < length ks \<Longrightarrow> \<not> P (maxkey (cs ! slot))"
    using ks slot nth_length_takeWhile [of P ks] by simp
qed

lemma entries_take_drop:
  assumes "slot < length cs"
  shows "node_entries (Inner l ks cs) = concat (map node_entries (take slot cs)) @ node_entries (cs ! slot)
           @ concat (map node_entries (drop (Suc slot) cs))"
    and "tree_leaves (Inner l ks cs) = concat (map tree_leaves (take slot cs)) @ tree_leaves (cs ! slot)
           @ concat (map tree_leaves (drop (Suc slot) cs))"
  using arg_cong [OF id_take_nth_drop [OF assms], of "\<lambda>cs. concat (map node_entries cs)"]
    arg_cong [OF id_take_nth_drop [OF assms], of "\<lambda>cs. concat (map tree_leaves cs)"] by simp_all

subsection \<open>The chain\<close>

lemma chain_seg_append:
  "chain_seg m p (xs @ ys) n \<longleftrightarrow> chain_seg m p xs (if ys = [] then n else Some (hd ys))
     \<and> chain_seg m (if xs = [] then p else Some (last xs)) ys n"
  by (induction xs arbitrary: p) auto

lemma chain_seg_cong:
  "\<forall>i\<in>set is. nextleaf m' i = nextleaf m i \<and> prevleaf m' i = prevleaf m i \<Longrightarrow> chain_seg m' p is n = chain_seg m p is n"
  by (induction "is" arbitrary: p) auto

lemma chain_next:
  assumes "chain_ok m (xs @ i # ys)"
  shows "nextleaf m i = (if ys = [] then None else Some (hd ys))"
    "prevleaf m i = (if xs = [] then None else Some (last xs))"
  using assms by (auto simp: chain_ok_def chain_seg_append)

text \<open>A new leaf linked behind the last one; before the first leaf there is no chain.\<close>

definition chain_or_none :: "tree_mem \<Rightarrow> nat list \<Rightarrow> bool" where
  "chain_or_none m is \<longleftrightarrow> (if is = [] then m_headleaf m = None \<and> m_tailleaf m = None else chain_ok m is)"

definition leaf_appended :: "tree_mem \<Rightarrow> nat \<Rightarrow> tree_mem \<Rightarrow> bool" where
  "leaf_appended m i m' \<longleftrightarrow> i = fresh_leaf m \<and> fresh_leaf m' = Suc i \<and> m_tailleaf m' = Some i
     \<and> (case m_tailleaf m of
          None \<Rightarrow> m_headleaf m' = Some i \<and> nextleaf m' = (nextleaf m)(i := None) \<and> prevleaf m' = (prevleaf m)(i := None)
        | Some j \<Rightarrow> m_headleaf m' = m_headleaf m \<and> nextleaf m' = (nextleaf m)(i := None, j := Some i)
            \<and> prevleaf m' = (prevleaf m)(i := Some j))"

lemma chain_appended:
  assumes "chain_or_none m is" "leaf_appended m i m'"
  shows "chain_ok m' (is @ [i])"
proof (cases "is" rule: rev_cases)
  case Nil
  then show ?thesis using assms by (simp add: chain_ok_def chain_or_none_def leaf_appended_def)
next
  case (snoc js j)
  then have c: "chain_ok m (js @ [j])" using assms(1) by (simp add: chain_or_none_def)
  then have lt: "i \<notin> set js" "i \<noteq> j" "j \<notin> set js" and seg: "chain_seg m None js (Some j)" "m_tailleaf m = Some j"
    using assms(2) by (auto simp: chain_ok_def chain_seg_append leaf_appended_def)
  then have "chain_seg m' None js (Some j)"
    using assms(2) by (subst chain_seg_cong [where m = m]) (auto simp: leaf_appended_def)
  then show ?thesis using c snoc lt seg assms(2)
    by (auto simp: chain_ok_def chain_seg_append leaf_appended_def hd_append less_Suc_eq)
qed

end
