(* ===== verification/Iterators.thy ===== *)
theory Iterators
  imports Prelude
begin

text \<open>
  The forward iterators of an ordered container, as the loops of the benchmark use them: the
  container in a good state stands for a sequence, an iterator for a position of it or for its
  end. The loops over a container are defined once over the operations of its iterators, as
  partial functions (a loop that does not end has the value \<open>None\<close>), and proved once in the
  locale to end and to compute what a list function computes on the sequence.
\<close>

text \<open>\<open>for (; it != end() && cond(*it); ++it) acc = step(acc, *it);\<close>\<close>

partial_function (option) iterate_while ::
  "('i \<Rightarrow> 'a option) \<Rightarrow> ('i \<Rightarrow> 'i option) \<Rightarrow> ('i \<Rightarrow> bool) \<Rightarrow> ('a \<Rightarrow> bool) \<Rightarrow> ('b \<Rightarrow> 'a \<Rightarrow> 'b) \<Rightarrow> 'i \<Rightarrow> 'b \<Rightarrow> 'b option" where
  [code]: "iterate_while deref incr at_end cond step it acc =
     (if at_end it then Some acc
      else do { x \<leftarrow> deref it;
        if cond x then do { it' \<leftarrow> incr it; iterate_while deref incr at_end cond step it' (step acc x) }
        else Some acc })"

text \<open>\<open>std::equal\<close>: the second range is assumed to be as long as the first.\<close>

partial_function (option) equal_ranges ::
  "('i \<Rightarrow> 'a option) \<Rightarrow> ('i \<Rightarrow> 'i option) \<Rightarrow> ('i \<Rightarrow> bool) \<Rightarrow> ('i \<Rightarrow> 'a option) \<Rightarrow> ('i \<Rightarrow> 'i option)
    \<Rightarrow> 'i \<Rightarrow> 'i \<Rightarrow> bool option" where
  [code]: "equal_ranges deref incr at_end deref2 incr2 it jt =
     (if at_end it then Some True
      else do { x \<leftarrow> deref it; y \<leftarrow> deref2 jt;
        if x = y then do { it' \<leftarrow> incr it; jt' \<leftarrow> incr2 jt; equal_ranges deref incr at_end deref2 incr2 it' jt' }
        else Some False })"

text \<open>\<open>std::lexicographical_compare\<close> with the \<open><\<close> of the elements.\<close>

partial_function (option) less_ranges ::
  "('a \<Rightarrow> 'a \<Rightarrow> bool) \<Rightarrow> ('i \<Rightarrow> 'a option) \<Rightarrow> ('i \<Rightarrow> 'i option) \<Rightarrow> ('i \<Rightarrow> bool)
    \<Rightarrow> ('i \<Rightarrow> 'a option) \<Rightarrow> ('i \<Rightarrow> 'i option) \<Rightarrow> ('i \<Rightarrow> bool) \<Rightarrow> 'i \<Rightarrow> 'i \<Rightarrow> bool option" where
  [code]: "less_ranges lt deref incr at_end deref2 incr2 at_end2 it jt =
     (if at_end it then Some (\<not> at_end2 jt)
      else if at_end2 jt then Some False
      else do { x \<leftarrow> deref it; y \<leftarrow> deref2 jt;
        if lt x y then Some True else if lt y x then Some False
        else do { it' \<leftarrow> incr it; jt' \<leftarrow> incr2 jt;
          less_ranges lt deref incr at_end deref2 incr2 at_end2 it' jt' } })"

fun lex_less :: "('a \<Rightarrow> 'a \<Rightarrow> bool) \<Rightarrow> 'a list \<Rightarrow> 'a list \<Rightarrow> bool" where
  "lex_less lt [] ys = (ys \<noteq> [])"
| "lex_less lt (x # xs) [] = False"
| "lex_less lt (x # xs) (y # ys) = (lt x y \<or> \<not> lt y x \<and> lex_less lt xs ys)"

locale iterator_class =
  fixes inv :: "'s \<Rightarrow> bool"
    and seq :: "'s \<Rightarrow> 'a list"
    and at_pos :: "'s \<Rightarrow> 'i \<Rightarrow> nat \<Rightarrow> bool"
    and deref :: "'s \<Rightarrow> 'i \<Rightarrow> 'a option"
    and incr :: "'s \<Rightarrow> 'i \<Rightarrow> 'i option"
    and at_end :: "'s \<Rightarrow> 'i \<Rightarrow> bool"
  assumes deref_at: "inv s \<Longrightarrow> at_pos s it k \<Longrightarrow> k < length (seq s) \<Longrightarrow> deref s it = Some (seq s ! k)"
    and incr_at: "inv s \<Longrightarrow> at_pos s it k \<Longrightarrow> k < length (seq s) \<Longrightarrow> \<exists>it'. incr s it = Some it' \<and> at_pos s it' (Suc k)"
    and end_at: "inv s \<Longrightarrow> at_pos s it k \<Longrightarrow> k \<le> length (seq s) \<and> (at_end s it \<longleftrightarrow> k = length (seq s))"
begin

lemma step_at:
  assumes "inv s" "at_pos s it k"
  obtains (stop) "at_end s it" "drop k (seq s) = []"
  | (item) x it' where "\<not> at_end s it" "deref s it = Some x" "incr s it = Some it'" "at_pos s it' (Suc k)"
      "drop k (seq s) = x # drop (Suc k) (seq s)" "k < length (seq s)"
proof (cases "k = length (seq s)")
  case True
  show thesis by (rule stop) (use True end_at [OF assms] in auto)
next
  case False
  then have k: "k < length (seq s)" using end_at [OF assms] by auto
  obtain it' where "incr s it = Some it'" "at_pos s it' (Suc k)" using incr_at [OF assms k] by blast
  note it' = this
  show thesis
    by (rule item [OF _ deref_at [OF assms k] it']) (use it' end_at [OF assms] False k in \<open>auto simp: Cons_nth_drop_Suc\<close>)
qed

lemma iterate_while_eq:
  "inv s \<Longrightarrow> at_pos s it k \<Longrightarrow> iterate_while (deref s) (incr s) (at_end s) cond step it acc
     = Some (foldl step acc (takeWhile cond (drop k (seq s))))"
proof (induction "length (seq s) - k" arbitrary: it k acc rule: less_induct)
  case less
  from less.prems show ?case
  proof (cases rule: step_at)
    case stop
    then show ?thesis by (simp add: iterate_while.simps)
  next
    case (item x it')
    then have "length (seq s) - Suc k < length (seq s) - k" by simp
    note IH = less.hyps [OF this less.prems(1) item(4)]
    show ?thesis by (subst iterate_while.simps) (simp add: item(1-3,5) IH)
  qed
qed

lemma equal_ranges_eq:
  "inv s \<Longrightarrow> inv s' \<Longrightarrow> at_pos s it k \<Longrightarrow> at_pos s' jt l \<Longrightarrow> length (seq s) - k = length (seq s') - l
   \<Longrightarrow> equal_ranges (deref s) (incr s) (at_end s) (deref s') (incr s') it jt
     = Some (drop k (seq s) = drop l (seq s'))"
proof (induction "length (seq s) - k" arbitrary: it jt k l rule: less_induct)
  case less
  from less.prems(1,3) show ?case
  proof (cases rule: step_at)
    case stop
    then have "drop l (seq s') = []" using less.prems(5) by simp
    then show ?thesis using stop by (simp add: equal_ranges.simps)
  next
    case (item x it')
    note 1 = item
    from less.prems(2,4) show ?thesis
    proof (cases rule: step_at)
      case stop
      then show ?thesis using less.prems(5) 1(6) by simp
    next
      case (item y jt')
      have m: "length (seq s) - Suc k < length (seq s) - k" "length (seq s) - Suc k = length (seq s') - Suc l"
        using 1(6) less.prems(5) by simp_all
      note IH = less.hyps [OF m(1) less.prems(1,2) 1(4) item(4) m(2)]
      show ?thesis by (subst equal_ranges.simps) (simp add: 1(1-3,5) item(2,3,5) IH)
    qed
  qed
qed

lemma less_ranges_eq:
  "inv s \<Longrightarrow> inv s' \<Longrightarrow> at_pos s it k \<Longrightarrow> at_pos s' jt l
   \<Longrightarrow> less_ranges lt (deref s) (incr s) (at_end s) (deref s') (incr s') (at_end s') it jt
     = Some (lex_less lt (drop k (seq s)) (drop l (seq s')))"
proof (induction "length (seq s) - k" arbitrary: it jt k l rule: less_induct)
  case less
  from less.prems(1,3) show ?case
  proof (cases rule: step_at)
    case stop
    have "at_end s' jt \<longleftrightarrow> drop l (seq s') = []" using end_at [OF less.prems(2,4)] by auto
    then show ?thesis using stop by (simp add: less_ranges.simps)
  next
    case (item x it')
    note 1 = item
    from less.prems(2,4) show ?thesis
    proof (cases rule: step_at)
      case stop
      then show ?thesis using 1 by (simp add: less_ranges.simps)
    next
      case (item y jt')
      have m: "length (seq s) - Suc k < length (seq s) - k" using 1(6) by simp
      note IH = less.hyps [OF m less.prems(1,2) 1(4) item(4)]
      show ?thesis by (subst less_ranges.simps) (simp add: 1(1-3,5) item(1-3,5) IH)
    qed
  qed
qed

end

end
