(* ===== verification/Btree_Search.thy ===== *)
theory Btree_Search
  imports Btree_Inv Iterators
begin

text \<open>
  The queries of the B+ tree: the descent to a leaf, \<open>exists\<close>, \<open>find\<close>, \<open>count\<close>,
  \<open>lower_bound\<close>, \<open>upper_bound\<close> and \<open>equal_range\<close>, with the iterators they return,
  and the comparison operators. A position of the tree (\<open>btree_at\<close>) ties an iterator to an index
  of the list of all entries.
\<close>

subsection \<open>The operations\<close>

fun descend :: "('k list \<Rightarrow> nat option) \<Rightarrow> ('k, 'v) bnode \<Rightarrow> (nat \<times> ('k \<times> 'v) list) option" where
  "descend find_slot (Leaf i es) = Some (i, es)"
| "descend find_slot (Inner l ks cs) = do { slot \<leftarrow> find_slot ks;
     if slot < length cs then descend find_slot (cs ! slot) else None }"

definition key_equal :: "'k::linorder \<Rightarrow> 'k \<Rightarrow> bool" where
  "key_equal a b \<longleftrightarrow> \<not> a < b \<and> \<not> b < a"

definition btree_exists :: "'k::linorder btree_class \<Rightarrow> ('k, 'v) btree \<Rightarrow> 'k \<Rightarrow> bool option" where
  "btree_exists C t key = (case m_root t of None \<Rightarrow> Some False
     | Some n \<Rightarrow> do { (i, es) \<leftarrow> descend (\<lambda>ks. find_lower C ks key) n; slot \<leftarrow> find_lower C (map fst es) key;
         Some (slot < length es \<and> key_equal key (fst (es ! slot))) })"

definition btree_find :: "'k::linorder btree_class \<Rightarrow> ('k, 'v) btree \<Rightarrow> 'k \<Rightarrow> titer option" where
  "btree_find C t key = (case m_root t of None \<Rightarrow> iter_end t
     | Some n \<Rightarrow> do { (i, es) \<leftarrow> descend (\<lambda>ks. find_lower C ks key) n; slot \<leftarrow> find_lower C (map fst es) key;
         if slot < length es \<and> key_equal key (fst (es ! slot)) then Some \<lparr>currnode = Some i, currslot = slot\<rparr>
         else iter_end t })"

partial_function (option) count_loop ::
  "('k::linorder, 'v) btree \<Rightarrow> 'k \<Rightarrow> nat option \<Rightarrow> nat \<Rightarrow> nat \<Rightarrow> nat option" where
  [code]: "count_loop t key leaf slot num = (case leaf of None \<Rightarrow> Some num
     | Some i \<Rightarrow> do { es \<leftarrow> leaf_at t i;
         if slot < length es \<and> key_equal key (fst (es ! slot)) then
           if length es \<le> slot + 1 then count_loop t key (nextleaf (m_mem t) i) 0 (num + 1)
           else count_loop t key (Some i) (slot + 1) (num + 1)
         else Some num })"

definition btree_count :: "'k::linorder btree_class \<Rightarrow> ('k, 'v) btree \<Rightarrow> 'k \<Rightarrow> nat option" where
  "btree_count C t key = (case m_root t of None \<Rightarrow> Some 0
     | Some n \<Rightarrow> do { (i, es) \<leftarrow> descend (\<lambda>ks. find_lower C ks key) n; slot \<leftarrow> find_lower C (map fst es) key;
         count_loop t key (Some i) slot 0 })"

definition btree_lower_bound :: "'k::linorder btree_class \<Rightarrow> ('k, 'v) btree \<Rightarrow> 'k \<Rightarrow> titer option" where
  "btree_lower_bound C t key = (case m_root t of None \<Rightarrow> iter_end t
     | Some n \<Rightarrow> do { (i, es) \<leftarrow> descend (\<lambda>ks. find_lower C ks key) n; slot \<leftarrow> find_lower C (map fst es) key;
         Some \<lparr>currnode = Some i, currslot = slot\<rparr> })"

definition btree_upper_bound :: "'k::linorder btree_class \<Rightarrow> ('k, 'v) btree \<Rightarrow> 'k \<Rightarrow> titer option" where
  "btree_upper_bound C t key = (case m_root t of None \<Rightarrow> iter_end t
     | Some n \<Rightarrow> do { (i, es) \<leftarrow> descend (\<lambda>ks. find_upper C ks key) n; slot \<leftarrow> find_upper C (map fst es) key;
         Some \<lparr>currnode = Some i, currslot = slot\<rparr> })"

definition btree_equal_range :: "'k::linorder btree_class \<Rightarrow> ('k, 'v) btree \<Rightarrow> 'k \<Rightarrow> (titer \<times> titer) option" where
  "btree_equal_range C t key = do { lo \<leftarrow> btree_lower_bound C t key; hi \<leftarrow> btree_upper_bound C t key; Some (lo, hi) }"

definition btree_size :: "('k, 'v) btree \<Rightarrow> nat" where
  "btree_size t = st_itemcount (m_stats (m_mem t))"

definition btree_empty :: "('k, 'v) btree \<Rightarrow> bool" where
  "btree_empty t \<longleftrightarrow> btree_size t = 0"

definition is_end :: "('k, 'v) btree \<Rightarrow> titer \<Rightarrow> bool" where
  "is_end t it \<longleftrightarrow> Some it = iter_end t"

definition btree_equal :: "('k, 'v) btree \<Rightarrow> ('k, 'v) btree \<Rightarrow> bool option" where
  "btree_equal t u = (if btree_size t \<noteq> btree_size u then Some False
     else equal_ranges (iter_deref t) (iter_incr t) (is_end t) (iter_deref u) (iter_incr u) (iter_begin t) (iter_begin u))"

definition pair_less :: "'k::linorder \<times> 'v::linorder \<Rightarrow> 'k \<times> 'v \<Rightarrow> bool" where
  "pair_less x y \<longleftrightarrow> fst x < fst y \<or> \<not> fst y < fst x \<and> snd x < snd y"

definition btree_less :: "('k::linorder, 'v::linorder) btree \<Rightarrow> ('k, 'v) btree \<Rightarrow> bool option" where
  "btree_less t u = less_ranges pair_less (iter_deref t) (iter_incr t) (is_end t) (iter_deref u) (iter_incr u) (is_end u)
     (iter_begin t) (iter_begin u)"

lemma key_equal_eq [simp]: "key_equal a b \<longleftrightarrow> a = b"
  by (auto simp: key_equal_def)

subsection \<open>Positions\<close>

definition btree_at :: "('k, 'v) btree \<Rightarrow> titer \<Rightarrow> nat \<Rightarrow> bool" where
  "btree_at t it k \<longleftrightarrow> (if m_root t = None then it = \<lparr>currnode = None, currslot = 0\<rparr> \<and> k = 0
     else \<exists>ls i es rs. root_leaves t = ls @ (i, es) # rs \<and> currnode it = Some i \<and> currslot it \<le> length es
       \<and> (currslot it = length es \<longrightarrow> rs = []) \<and> k = length (concat (map snd ls)) + currslot it)"

lemma btree_inv_root:
  assumes "btree_inv C t" "m_root t = Some n"
  shows "node_wf C True n" "sorted (map fst (node_entries n))" "chain_ok (m_mem t) (map fst (root_leaves t))"
    "root_leaves t = tree_leaves n" "btree_entries t = node_entries n" "\<forall>(i, es)\<in>set (root_leaves t). es \<noteq> []"
  using assms node_wf_leaves [of C True n]
  by (auto simp: btree_inv_def keys_ok_def root_leaves_def btree_entries_def node_entries_def leaf_ids_def)

lemma btree_inv_sorted: "btree_inv C t \<Longrightarrow> sorted (map fst (btree_entries t))"
  using btree_inv_root(2,5) [of C t] by (cases "m_root t") (auto simp: btree_entries_def root_leaves_def)

lemma btree_inv_size: "btree_inv C t \<Longrightarrow> btree_size t = length (btree_entries t)"
  using btree_inv_root(5) [of C t]
  by (cases "m_root t") (auto simp: btree_inv_def btree_size_def stats_of_def empty_stats_def btree_entries_def root_leaves_def)

lemma empty_root: "m_root t = None \<Longrightarrow> btree_entries t = []"
  by (simp add: btree_entries_def root_leaves_def)

lemma leaf_at_mid:
  assumes "chain_ok m (map fst (ls @ (i, es) # rs))" "root_leaves t = ls @ (i, es) # rs"
  shows "leaf_at t i = Some es"
proof -
  have "distinct (map fst (root_leaves t))" using assms by (simp add: chain_ok_def)
  from map_of_eq_Some_iff [OF this] show ?thesis using assms(2) by (simp only: leaf_at_def) simp
qed

lemma iter_end_eq:
  assumes "btree_inv C t" "m_root t \<noteq> None"
  obtains ls i es where "root_leaves t = ls @ [(i, es)]" "iter_end t = Some \<lparr>currnode = Some i, currslot = length es\<rparr>"
proof -
  obtain n where n: "m_root t = Some n" using assms(2) by blast
  note r = btree_inv_root [OF assms(1) n]
  obtain ls x where l: "root_leaves t = ls @ [x]"
    using r(4) node_wf_leaves [OF r(1)] append_butlast_last_id by metis
  obtain i es where x: "x = (i, es)" by fastforce
  have "leaf_at t i = Some es" using leaf_at_mid [of _ ls i es "[]"] r(3) l x by simp
  moreover have "m_tailleaf (m_mem t) = Some i" using r(3) l x by (simp add: chain_ok_def)
  ultimately show thesis using that l x by (simp add: iter_end_def)
qed

lemma btree_at_cases:
  assumes inv: "btree_inv C t" and p: "btree_at t it k"
  obtains (empty) "m_root t = None" "it = \<lparr>currnode = None, currslot = 0\<rparr>" "k = 0"
  | (leaf) ls i es rs where "m_root t \<noteq> None" "root_leaves t = ls @ (i, es) # rs" "currnode it = Some i" "currslot it \<le> length es"
      "currslot it = length es \<longrightarrow> rs = []" "k = length (concat (map snd ls)) + currslot it"
      "leaf_at t i = Some es" "nextleaf (m_mem t) i = (if rs = [] then None else Some (fst (hd rs)))"
      "prevleaf (m_mem t) i = (if ls = [] then None else Some (fst (last ls)))"
      "es \<noteq> []" "\<forall>(i, es)\<in>set (ls @ rs). es \<noteq> []" "distinct (map fst (root_leaves t))"
proof (cases "m_root t")
  case None
  then show thesis using p empty by (simp add: btree_at_def)
next
  case (Some n)
  note r = btree_inv_root [OF inv Some]
  from p Some obtain ls i es rs where *: "root_leaves t = ls @ (i, es) # rs" "currnode it = Some i" "currslot it \<le> length es"
      "currslot it = length es \<longrightarrow> rs = []" "k = length (concat (map snd ls)) + currslot it"
    by (auto simp: btree_at_def)
  have c: "chain_ok (m_mem t) (map fst ls @ i # map fst rs)" using r(3) * by simp
  show thesis
    by (rule leaf [OF _ *]) (use Some c chain_next [OF c] leaf_at_mid [of _ ls i es rs] * r(6)
      in \<open>auto simp: hd_map last_map chain_ok_def\<close>)
qed

lemma btree_at_deref:
  assumes "btree_inv C t" "btree_at t it k" "k < length (btree_entries t)"
  shows "iter_deref t it = Some (btree_entries t ! k)"
  using assms(1,2)
proof (cases rule: btree_at_cases)
  case empty
  then show ?thesis using assms(3) by (simp add: empty_root)
next
  case (leaf ls i es rs)
  have "currslot it < length es" using leaf assms(3) by (auto simp: btree_entries_def)
  then show ?thesis using leaf by (simp add: iter_deref_def btree_entries_def nth_append)
qed

lemma btree_at_incr:
  assumes "btree_inv C t" "btree_at t it k" "k < length (btree_entries t)"
  shows "\<exists>it'. iter_incr t it = Some it' \<and> btree_at t it' (Suc k)"
  using assms(1,2)
proof (cases rule: btree_at_cases)
  case empty
  then show ?thesis using assms(3) by (simp add: empty_root)
next
  case (leaf ls i es rs)
  have s: "currslot it < length es" using leaf assms(3) by (auto simp: btree_entries_def)
  show ?thesis
  proof (cases "currslot it + 1 < length es")
    case True
    then show ?thesis using leaf(1-7) by (auto simp: iter_incr_def btree_at_def intro!: exI [of _ ls])
  next
    case False
    note last = this
    show ?thesis
    proof (cases rs)
      case Nil
      then show ?thesis using leaf(1-8) last s by (auto simp: iter_incr_def btree_at_def intro!: exI [of _ ls])
    next
      case (Cons r rs')
      obtain j es' where j: "r = (j, es')" by fastforce
      have "root_leaves t = (ls @ [(i, es)]) @ (j, es') # rs'" "es' \<noteq> []" using leaf(2,11) Cons j by simp_all
      then show ?thesis using leaf(1,3,6,7,8) Cons j last s unfolding btree_at_def
        by (auto simp: iter_incr_def intro!: exI [of _ "ls @ [(i, es)]"])
    qed
  qed
qed

lemma btree_at_end:
  assumes "btree_inv C t" "btree_at t it k"
  shows "k \<le> length (btree_entries t) \<and> (is_end t it \<longleftrightarrow> k = length (btree_entries t))"
  using assms
proof (cases rule: btree_at_cases)
  case empty
  then show ?thesis using assms(1) by (simp add: is_end_def iter_end_def btree_inv_def empty_root)
next
  case (leaf ls i es rs)
  obtain ls' i' es' where e: "root_leaves t = ls' @ [(i', es')]" "iter_end t = Some \<lparr>currnode = Some i', currslot = length es'\<rparr>"
    using iter_end_eq [OF assms(1) leaf(1)] by blast
  have l: "length (btree_entries t) = length (concat (map snd ls)) + length es + length (concat (map snd rs))"
    by (simp add: btree_entries_def leaf(2))
  have eq: "is_end t it \<longleftrightarrow> i' = i \<and> currslot it = length es'"
    using leaf(3) by (cases it) (auto simp: is_end_def e(2))
  show ?thesis
  proof (cases rs rule: rev_cases)
    case Nil
    then have "ls' = ls \<and> i' = i \<and> es' = es" using e(1) leaf(2) by simp
    then show ?thesis using leaf(4,6) l eq Nil by auto
  next
    case (snoc rs' x)
    then have "x = (i', es')" using e(1) leaf(2) by simp
    then have "i' \<noteq> i" "es' \<noteq> []" using leaf(2,11,12) snoc by auto
    then show ?thesis using leaf(4,5,6) l eq snoc \<open>x = _\<close> by auto
  qed
qed

lemma btree_at_begin:
  assumes "btree_inv C t"
  shows "btree_at t (iter_begin t) 0"
proof (cases "m_root t")
  case None
  then show ?thesis using assms by (simp add: btree_at_def iter_begin_def btree_inv_def)
next
  case (Some n)
  note r = btree_inv_root [OF assms Some]
  obtain i es rs where l: "root_leaves t = (i, es) # rs" using r(4) node_wf_leaves [OF r(1)] by (metis neq_Nil_conv prod.exhaust)
  then show ?thesis using r(3,6) Some by (auto simp: btree_at_def iter_begin_def chain_ok_def intro: exI [of _ "[]"])
qed

interpretation bt: iterator_class "btree_inv C" btree_entries btree_at iter_deref iter_incr is_end
  for C :: "'k::linorder btree_class"
proof
  fix t :: "('k, 'v) btree" and it :: titer and k :: nat
  assume a: "btree_inv C t" "btree_at t it k"
  { assume "k < length (btree_entries t)"
    then show "iter_deref t it = Some (btree_entries t ! k)" "\<exists>it'. iter_incr t it = Some it' \<and> btree_at t it' (Suc k)"
      using btree_at_deref btree_at_incr a by blast+ }
  show "k \<le> length (btree_entries t) \<and> (is_end t it \<longleftrightarrow> k = length (btree_entries t))"
    using btree_at_end a by blast
qed

subsection \<open>The descent\<close>

text \<open>
  The descent with a search for the first key that does not satisfy a predicate ends in the leaf
  in which the entries stop satisfying it.
\<close>

lemma descend_ok:
  assumes P: "downward P" and find: "\<And>ks. sorted ks \<Longrightarrow> length ks < 2 ^ 16 \<Longrightarrow> f ks = Some (length (takeWhile P ks))"
    and max: "innerslotmax C < 2 ^ 16"
  shows "node_wf C r n \<Longrightarrow> sorted (map fst (node_entries n)) \<Longrightarrow> \<exists>ls i es rs. descend f n = Some (i, es)
    \<and> tree_leaves n = ls @ (i, es) # rs \<and> (\<forall>e\<in>set (concat (map snd ls)). P (fst e))
    \<and> (rs \<noteq> [] \<longrightarrow> \<not> P (fst (last es)))"
proof (induction n arbitrary: r)
  case (Leaf i es)
  then show ?case by (auto intro: exI [of _ "[]"])
next
  case (Inner l ks cs)
  define slot where "slot = length (takeWhile P ks)"
  note cp = child_position [OF Inner.prems P slot_def]
  have ks: "sorted ks" "length ks < 2 ^ 16"
    using node_wf_separators [OF Inner.prems] Inner.prems(1) max by auto
  have c: "cs ! slot \<in> set cs" using cp(1) by simp
  have wf: "node_wf C False (cs ! slot)" using Inner.prems(1) c by simp
  have sc: "sorted (map fst (node_entries (cs ! slot)))" using sorted_children [OF _ c] Inner.prems(2) by simp
  obtain ls i es rs where IH: "descend f (cs ! slot) = Some (i, es)" "tree_leaves (cs ! slot) = ls @ (i, es) # rs"
    "\<forall>e\<in>set (concat (map snd ls)). P (fst e)" "rs \<noteq> [] \<longrightarrow> \<not> P (fst (last es))"
    using Inner.IH [OF c wf sc] by blast
  let ?L = "concat (map tree_leaves (take slot cs))" and ?R = "concat (map tree_leaves (drop (Suc slot) cs))"
  have "descend f (Inner l ks cs) = Some (i, es)" using find [OF ks] cp(1) IH(1) by (simp add: slot_def)
  moreover have "tree_leaves (Inner l ks cs) = (?L @ ls) @ (i, es) # (rs @ ?R)"
    using entries_take_drop(2) [OF cp(1)] IH(2) by simp
  moreover have "\<forall>e\<in>set (concat (map snd (?L @ ls))). P (fst e)"
    using cp(2) IH(3) by (auto simp: node_entries_def)
  moreover have "rs @ ?R \<noteq> [] \<longrightarrow> \<not> P (fst (last es))"
  proof
    assume "rs @ ?R \<noteq> []"
    show "\<not> P (fst (last es))"
    proof (cases "rs = []")
      case True
      then have "slot < length ks" using \<open>rs @ ?R \<noteq> []\<close> node_wf_length [OF Inner.prems(1)] by (cases "slot < length ks") auto
      then have "\<not> P (maxkey (cs ! slot))" by (rule cp(3))
      moreover have "es \<noteq> []" using node_wf_leaves [OF wf] IH(2) by auto
      ultimately show ?thesis using IH(2) True by (simp add: maxkey_def node_entries_def last_append)
    qed (use IH(4) in blast)
  qed
  ultimately show ?case by blast
qed

text \<open>The leaf and the slot that \<open>lower_bound\<close> and \<open>upper_bound\<close> compute, as a position.\<close>

definition entries_while :: "('k \<Rightarrow> bool) \<Rightarrow> ('k, 'v) btree \<Rightarrow> nat" where
  "entries_while P t = length (takeWhile (\<lambda>e. P (fst e)) (btree_entries t))"

lemma takeWhile_fst: "length (takeWhile P (map fst es)) = length (takeWhile (\<lambda>e. P (fst e)) es)"
  by (simp add: takeWhile_map o_def)

lemma takeWhile_last: "es \<noteq> [] \<Longrightarrow> \<not> P (last es) \<Longrightarrow> takeWhile P (es @ fs) = takeWhile P es \<and> takeWhile P es \<noteq> es"
  by (metis last_in_set takeWhile_append1 takeWhile_eq_all_conv)

lemma takeWhile_short: "takeWhile P es \<noteq> es \<Longrightarrow> length (takeWhile P es) < length es"
  by (induction es) auto

lemma search_position:
  assumes inv: "btree_inv C t" "m_root t = Some n" and P: "downward P"
    and find: "\<And>ks. sorted ks \<Longrightarrow> length ks < 2 ^ 16 \<Longrightarrow> f ks = Some (length (takeWhile P ks))"
    and max: "innerslotmax C < 2 ^ 16" "leafslotmax C < 2 ^ 16"
  obtains i es slot where "descend f n = Some (i, es)" "f (map fst es) = Some slot"
    "btree_at t \<lparr>currnode = Some i, currslot = slot\<rparr> (entries_while P t)" "slot \<le> length es"
    "slot < length es \<Longrightarrow> btree_entries t ! entries_while P t = es ! slot"
    "slot < length es \<longleftrightarrow> entries_while P t < length (btree_entries t)"
proof -
  note r = btree_inv_root [OF inv]
  obtain ls i es rs where d: "descend f n = Some (i, es)" "tree_leaves n = ls @ (i, es) # rs"
    "\<forall>e\<in>set (concat (map snd ls)). P (fst e)" "rs \<noteq> [] \<longrightarrow> \<not> P (fst (last es))"
    using descend_ok [OF P find max(1) r(1,2)] by blast
  define slot where "slot = length (takeWhile (\<lambda>e. P (fst e)) es)"
  have E: "btree_entries t = concat (map snd ls) @ es @ concat (map snd rs)" using r(5) d(2) by (simp add: node_entries_def)
  have "sorted (map fst (btree_entries t))" using r(2,5) by simp
  then have "sorted (map fst es)" unfolding E by (simp add: sorted_append)
  moreover have "length (map fst es) < 2 ^ 16" using node_wf_leaves [OF r(1)] d(2) max by auto
  ultimately have f: "f (map fst es) = Some slot" using find takeWhile_fst [of P es] by (simp add: slot_def)
  have ne: "es \<noteq> []" using r(4,6) d(2) by auto
  have tw: "takeWhile (\<lambda>e. P (fst e)) (es @ concat (map snd rs)) = takeWhile (\<lambda>e. P (fst e)) es
      \<and> (rs \<noteq> [] \<longrightarrow> slot < length es)"
  proof (cases "rs = []")
    case False
    then have "\<not> P (fst (last es))" using d(4) by blast
    from takeWhile_last [where P = "\<lambda>e. P (fst e)", OF ne this] show ?thesis
      unfolding slot_def using takeWhile_short [of "\<lambda>e. P (fst e)" es] by blast
  qed simp
  have W: "entries_while P t = length (concat (map snd ls)) + slot"
  proof -
    have "takeWhile (\<lambda>e. P (fst e)) (concat (map snd ls) @ es @ concat (map snd rs))
        = concat (map snd ls) @ takeWhile (\<lambda>e. P (fst e)) (es @ concat (map snd rs))"
      by (rule takeWhile_append2) (use d(3) in blast)
    then show ?thesis using tw by (simp only: entries_while_def E slot_def length_append)
  qed
  have le: "slot \<le> length es" by (simp add: slot_def length_takeWhile_le)
  show thesis
  proof (rule that [OF d(1) f _ le])
    show "btree_at t \<lparr>currnode = Some i, currslot = slot\<rparr> (entries_while P t)"
      using inv(2) W le tw r(4) d(2) by (auto simp: btree_at_def intro!: exI [of _ ls])
    show "slot < length es \<Longrightarrow> btree_entries t ! entries_while P t = es ! slot" using E W by (simp add: nth_append)
    show "slot < length es \<longleftrightarrow> entries_while P t < length (btree_entries t)" using E W tw by auto
  qed
qed

subsection \<open>What the queries return\<close>

lemma btree_class_okD:
  assumes "btree_class_ok C"
  shows "innerslotmax C < 2 ^ 16" "leafslotmax C < 2 ^ 16" "8 \<le> innerslotmax C" "8 \<le> leafslotmax C"
  using assms by (simp_all add: btree_class_ok_def)

lemmas lower_position = search_position [where P = "\<lambda>x. x < key" and f = "\<lambda>ks. find_lower C ks key" for C key, OF _ _ downward_intros(1)]
lemmas upper_position = search_position [where P = "\<lambda>x. x \<le> key" and f = "\<lambda>ks. find_upper C ks key" for C key, OF _ _ downward_intros(2)]

lemma iter_end_at:
  assumes "btree_inv C t"
  shows "\<exists>it. iter_end t = Some it \<and> btree_at t it (length (btree_entries t))"
proof (cases "m_root t")
  case None
  then show ?thesis using assms by (simp add: btree_inv_def btree_at_def iter_end_def empty_root)
next
  case (Some n)
  obtain ls i es where "root_leaves t = ls @ [(i, es)]" "iter_end t = Some \<lparr>currnode = Some i, currslot = length es\<rparr>"
    using iter_end_eq [OF assms] Some by blast
  then show ?thesis using Some by (auto simp: btree_at_def btree_entries_def)
qed

lemma lower_bound_position:
  assumes ok: "btree_class_ok C" and inv: "btree_inv C t"
  shows "\<exists>it. btree_lower_bound C t key = Some it \<and> btree_at t it (entries_while (\<lambda>x. x < key) t)"
proof (cases "m_root t")
  case None
  then show ?thesis using iter_end_at [OF inv] by (simp add: btree_lower_bound_def entries_while_def empty_root)
next
  case (Some n)
  obtain i es slot where p: "descend (\<lambda>ks. find_lower C ks key) n = Some (i, es)" "find_lower C (map fst es) key = Some slot"
    "btree_at t \<lparr>currnode = Some i, currslot = slot\<rparr> (entries_while (\<lambda>x. x < key) t)"
    using lower_position [OF inv Some find_lower_eq [OF ok] btree_class_okD(1,2) [OF ok]] by metis
  then show ?thesis using Some by (simp add: btree_lower_bound_def)
qed

lemma upper_bound_position:
  assumes ok: "btree_class_ok C" and inv: "btree_inv C t"
  shows "\<exists>it. btree_upper_bound C t key = Some it \<and> btree_at t it (entries_while (\<lambda>x. x \<le> key) t)"
proof (cases "m_root t")
  case None
  then show ?thesis using iter_end_at [OF inv] by (simp add: btree_upper_bound_def entries_while_def empty_root)
next
  case (Some n)
  obtain i es slot where p: "descend (\<lambda>ks. find_upper C ks key) n = Some (i, es)" "find_upper C (map fst es) key = Some slot"
    "btree_at t \<lparr>currnode = Some i, currslot = slot\<rparr> (entries_while (\<lambda>x. x \<le> key) t)"
    using upper_position [OF inv Some find_upper_eq [OF ok] btree_class_okD(1,2) [OF ok]] by metis
  then show ?thesis using Some by (simp add: btree_upper_bound_def)
qed

lemma find_position:
  assumes ok: "btree_class_ok C" and inv: "btree_inv C t"
  shows "\<exists>it. btree_find C t key = Some it
    \<and> btree_at t it (if key \<in> fst ` set (btree_entries t) then entries_while (\<lambda>x. x < key) t else length (btree_entries t))"
proof (cases "m_root t")
  case None
  then show ?thesis using iter_end_at [OF inv] by (simp add: btree_find_def empty_root)
next
  case (Some n)
  obtain i es slot where p: "descend (\<lambda>ks. find_lower C ks key) n = Some (i, es)" "find_lower C (map fst es) key = Some slot"
    "btree_at t \<lparr>currnode = Some i, currslot = slot\<rparr> (entries_while (\<lambda>x. x < key) t)"
    "slot < length es \<Longrightarrow> btree_entries t ! entries_while (\<lambda>x. x < key) t = es ! slot"
    "slot < length es \<longleftrightarrow> entries_while (\<lambda>x. x < key) t < length (btree_entries t)"
    using lower_position [OF inv Some find_lower_eq [OF ok] btree_class_okD(1,2) [OF ok]] by metis
  show ?thesis using iter_end_at [OF inv] p sorted_member [OF btree_inv_sorted [OF inv], of key] Some
    by (auto simp: btree_find_def entries_while_def)
qed

lemma exists_eq:
  assumes ok: "btree_class_ok C" and inv: "btree_inv C t"
  shows "btree_exists C t key = Some (key \<in> fst ` set (btree_entries t))"
proof (cases "m_root t")
  case None
  then show ?thesis by (simp add: btree_exists_def empty_root)
next
  case (Some n)
  obtain i es slot where p: "descend (\<lambda>ks. find_lower C ks key) n = Some (i, es)" "find_lower C (map fst es) key = Some slot"
    "slot < length es \<Longrightarrow> btree_entries t ! entries_while (\<lambda>x. x < key) t = es ! slot"
    "slot < length es \<longleftrightarrow> entries_while (\<lambda>x. x < key) t < length (btree_entries t)"
    using lower_position [OF inv Some find_lower_eq [OF ok] btree_class_okD(1,2) [OF ok]] by metis
  show ?thesis using p sorted_member [OF btree_inv_sorted [OF inv], of key] Some
    by (auto simp: btree_exists_def entries_while_def)
qed

lemma btree_at_step:
  assumes inv: "btree_inv C t" and p: "btree_at t \<lparr>currnode = Some i, currslot = slot\<rparr> k"
    and es: "leaf_at t i = Some es" "length es \<le> slot + 1" "slot < length es"
  shows "if Suc k < length (btree_entries t) then \<exists>j. nextleaf (m_mem t) i = Some j \<and> btree_at t \<lparr>currnode = Some j, currslot = 0\<rparr> (Suc k)
         else nextleaf (m_mem t) i = None"
proof -
  from inv p show ?thesis
  proof (cases rule: btree_at_cases)
    case (leaf ls i' es' rs)
    have [simp]: "i' = i" "es' = es" using leaf(3,7) es by simp_all
    show ?thesis
    proof (cases rs)
      case Nil
      then show ?thesis using leaf(2,6,8) es by (simp add: btree_entries_def)
    next
      case (Cons r rs')
      obtain j fs where j: "r = (j, fs)" by fastforce
      have "root_leaves t = (ls @ [(i, es)]) @ (j, fs) # rs'" "fs \<noteq> []" using leaf(2,11) Cons j by simp_all
      moreover obtain f fs' where "fs = f # fs'" using \<open>fs \<noteq> []\<close> by (cases fs) auto
      ultimately show ?thesis using leaf(1,3,6,7,8) Cons j es
        by (auto simp: btree_entries_def btree_at_def intro!: exI [of _ "ls @ [(i, es)]"])
    qed
  qed simp
qed

lemma count_loop_eq:
  assumes inv: "btree_inv C t"
  shows "btree_at t \<lparr>currnode = Some i, currslot = slot\<rparr> k \<Longrightarrow> count_loop t key (Some i) slot num
    = Some (num + length (takeWhile (\<lambda>e. fst e = key) (drop k (btree_entries t))))"
proof (induction "length (btree_entries t) - k" arbitrary: i slot k num rule: less_induct)
  case less
  let ?E = "btree_entries t"
  from inv less.prems obtain es where es: "leaf_at t i = Some es" "slot \<le> length es" "slot = length es \<Longrightarrow> k = length ?E"
    "slot < length es \<Longrightarrow> k < length ?E \<and> ?E ! k = es ! slot"
    by (cases rule: btree_at_cases) (auto simp: btree_entries_def nth_append)
  show ?case
  proof (cases "slot < length es \<and> fst (es ! slot) = key")
    case False
    then have "takeWhile (\<lambda>e. fst e = key) (drop k ?E) = []"
      using es by (cases "slot < length es") (auto simp: Cons_nth_drop_Suc [symmetric])
    then show ?thesis by (subst count_loop.simps) (use False es(1) in auto)
  next
    case True
    note k = conjunct1 [OF es(4) [OF conjunct1 [OF True]]]
    then have D: "takeWhile (\<lambda>e. fst e = key) (drop k ?E) = ?E ! k # takeWhile (\<lambda>e. fst e = key) (drop (Suc k) ?E)"
      using True es(4) by (simp add: Cons_nth_drop_Suc [symmetric])
    have m: "length ?E - Suc k < length ?E - k" using k by simp
    show ?thesis
    proof (cases "length es \<le> slot + 1")
      case last: True
      note st = btree_at_step [OF inv less.prems es(1) last conjunct1 [OF True]]
      show ?thesis
      proof (cases "Suc k < length ?E")
        case lt: True
        then obtain j where j: "nextleaf (m_mem t) i = Some j" "btree_at t \<lparr>currnode = Some j, currslot = 0\<rparr> (Suc k)"
          using st by auto
        show ?thesis by (subst count_loop.simps) (use True last es(1) j D less.hyps [OF m j(2)] in simp)
      next
        case ge: False
        then have "nextleaf (m_mem t) i = None" using st by simp
        then show ?thesis by (subst count_loop.simps) (use True last es(1) D ge in \<open>simp add: count_loop.simps\<close>)
      qed
    next
      case nlast: False
      obtain it' where "iter_incr t \<lparr>currnode = Some i, currslot = slot\<rparr> = Some it'" "btree_at t it' (Suc k)"
        using btree_at_incr [OF inv less.prems k] by blast
      then have "btree_at t \<lparr>currnode = Some i, currslot = slot + 1\<rparr> (Suc k)" using es(1) nlast by (simp add: iter_incr_def)
      from less.hyps [OF m this] show ?thesis by (subst count_loop.simps) (use True nlast es(1) D in simp)
    qed
  qed
qed

lemma takeWhile_equal_count:
  fixes es :: "('k::linorder \<times> 'v) list"
  shows "sorted (map fst es) \<Longrightarrow> length (takeWhile (\<lambda>e. fst e = key) (dropWhile (\<lambda>e. fst e < key) es)) = count_list (map fst es) key"
proof (induction es)
  case (Cons e es)
  have none: "key < fst e \<Longrightarrow> count_list (map fst es) key = 0" using Cons.prems by (auto simp: count_list_0_iff)
  have "fst e = key \<Longrightarrow> dropWhile (\<lambda>e. fst e < key) es = es" using Cons.prems by (cases es) auto
  then show ?case using Cons none by (cases "fst e" key rule: linorder_cases) auto
qed simp

lemma count_eq:
  assumes ok: "btree_class_ok C" and inv: "btree_inv C t"
  shows "btree_count C t key = Some (count_list (map fst (btree_entries t)) key)"
proof (cases "m_root t")
  case None
  then show ?thesis by (simp add: btree_count_def empty_root)
next
  case (Some n)
  obtain i es slot where p: "descend (\<lambda>ks. find_lower C ks key) n = Some (i, es)" "find_lower C (map fst es) key = Some slot"
    "btree_at t \<lparr>currnode = Some i, currslot = slot\<rparr> (entries_while (\<lambda>x. x < key) t)"
    using lower_position [OF inv Some find_lower_eq [OF ok] btree_class_okD(1,2) [OF ok]] by metis
  show ?thesis using p(1,2) count_loop_eq [OF inv p(3), of key 0] Some takeWhile_equal_count [OF btree_inv_sorted [OF inv], of key]
    by (simp add: btree_count_def entries_while_def dropWhile_eq_drop)
qed

end
