(* ===== verification/Btree_Insert.thy ===== *)
theory Btree_Insert
  imports Btree_Search
begin

text \<open>
  Insertion into the B+ tree: the descent, the splits of leaves and inner nodes on the way back,
  and the new root. It is proved to keep the invariant and to insert the pair before the first
  entry whose key is not smaller.
\<close>

subsection \<open>The operations\<close>

text \<open>\<open>copy_backward\<close> from the slot on, then the write to the slot\<close>

definition put_at :: "nat \<Rightarrow> 'a \<Rightarrow> 'a list \<Rightarrow> 'a list" where
  "put_at slot x xs = take slot xs @ x # drop slot xs"

fun put_inner :: "nat \<Rightarrow> 'k \<Rightarrow> ('k, 'v) bnode \<Rightarrow> ('k, 'v) bnode \<Rightarrow> ('k, 'v) bnode" where
  "put_inner slot newkey newchild (Inner l ks cs) = Inner l (put_at slot newkey ks) (put_at (slot + 1) newchild cs)"
| "put_inner slot newkey newchild (Leaf i es) = Leaf i es"

definition split_leaf_node :: "nat \<Rightarrow> ('k \<times> 'v) list \<Rightarrow> tree_mem
    \<Rightarrow> (('k \<times> 'v) list \<times> 'k \<times> nat \<times> ('k \<times> 'v) list \<times> tree_mem) option" where
  "split_leaf_node i es m = (let mid = length es div 2; (j, m1) = allocate_leaf m; nx = nextleaf m1 i;
     m2 = m1\<lparr>nextleaf := (nextleaf m1)(j := nx)\<rparr>;
     m3 = (case nx of None \<Rightarrow> m2\<lparr>m_tailleaf := Some j\<rparr> | Some k \<Rightarrow> m2\<lparr>prevleaf := (prevleaf m2)(k := Some j)\<rparr>);
     m4 = m3\<lparr>nextleaf := (nextleaf m3)(i := Some j), prevleaf := (prevleaf m3)(j := Some i)\<rparr>
     in if mid = 0 then None else Some (take mid es, fst (take mid es ! (mid - 1)), j, drop mid es, m4))"

definition split_inner_node :: "'k list \<Rightarrow> ('k, 'v) bnode list \<Rightarrow> nat \<Rightarrow> tree_mem
    \<Rightarrow> 'k list \<times> ('k, 'v) bnode list \<times> 'k \<times> 'k list \<times> ('k, 'v) bnode list \<times> tree_mem" where
  "split_inner_node ks cs addslot m = (let mid0 = length ks div 2;
     mid = (if addslot \<le> mid0 \<and> length ks - (mid0 + 1) < mid0 then mid0 - 1 else mid0)
     in (take mid ks, take (mid + 1) cs, ks ! mid, drop (mid + 1) ks, drop (mid + 1) cs, allocate_inner m))"

type_synonym ('k, 'v) ins_result = "('k, 'v) bnode \<times> ('k \<times> ('k, 'v) bnode) option \<times> titer \<times> bool \<times> tree_mem"

definition insert_leaf :: "'k::linorder btree_class \<Rightarrow> 'k \<Rightarrow> 'v \<Rightarrow> nat \<Rightarrow> ('k \<times> 'v) list \<Rightarrow> tree_mem
    \<Rightarrow> ('k, 'v) ins_result option" where
  "insert_leaf C key value i es m = do { slot \<leftarrow> find_lower C (map fst es) key;
     if \<not> allow_duplicates C \<and> slot < length es \<and> key_equal key (fst (es ! slot)) then
       Some (Leaf i es, None, \<lparr>currnode = Some i, currslot = slot\<rparr>, False, m)
     else if length es = leafslotmax C then do {
       (l, splitkey, j, r, m') \<leftarrow> split_leaf_node i es m;
       if length l \<le> slot then
         Some (Leaf i l, Some (splitkey, Leaf j (put_at (slot - length l) (key, value) r)),
           \<lparr>currnode = Some j, currslot = slot - length l\<rparr>, True, m')
       else let l' = put_at slot (key, value) l in
         Some (Leaf i l', Some (if slot = length l' - 1 then key else splitkey, Leaf j r),
           \<lparr>currnode = Some i, currslot = slot\<rparr>, True, m') }
     else Some (Leaf i (put_at slot (key, value) es), None, \<lparr>currnode = Some i, currslot = slot\<rparr>, True, m) }"

definition insert_child :: "'k btree_class \<Rightarrow> nat \<Rightarrow> 'k list \<Rightarrow> ('k, 'v) bnode list \<Rightarrow> nat \<Rightarrow> 'k \<Rightarrow> ('k, 'v) bnode \<Rightarrow> tree_mem
    \<Rightarrow> ('k, 'v) bnode \<times> ('k \<times> ('k, 'v) bnode) option \<times> tree_mem" where
  "insert_child C l ks cs slot newkey newchild m =
     (if length ks = innerslotmax C then
        (case split_inner_node ks cs slot m of (lk, lc, up, rk, rc, m') \<Rightarrow>
           if slot = length lk + 1 \<and> length lk < length rk then
             (Inner l (lk @ [up]) (lc @ [rc ! 0]), Some (newkey, Inner l rk (rc[0 := newchild])), m')
           else if length lk + 1 \<le> slot then
             (Inner l lk lc, Some (up, put_inner (slot - (length lk + 1)) newkey newchild (Inner l rk rc)), m')
           else (put_inner slot newkey newchild (Inner l lk lc), Some (up, Inner l rk rc), m'))
      else (put_inner slot newkey newchild (Inner l ks cs), None, m))"

fun btree_insert_descend :: "'k::linorder btree_class \<Rightarrow> 'k \<Rightarrow> 'v \<Rightarrow> ('k, 'v) bnode \<Rightarrow> tree_mem
    \<Rightarrow> ('k, 'v) ins_result option" where
  "btree_insert_descend C key value (Inner l ks cs) m = do { slot \<leftarrow> find_lower C ks key;
     if slot < length cs then do {
       (c, split, it, b, m') \<leftarrow> btree_insert_descend C key value (cs ! slot) m;
       case split of
         None \<Rightarrow> Some (Inner l ks (cs[slot := c]), None, it, b, m')
       | Some (newkey, newchild) \<Rightarrow>
           (case insert_child C l ks (cs[slot := c]) slot newkey newchild m' of (n', split', m'') \<Rightarrow>
              Some (n', split', it, b, m'')) }
     else None }"
| "btree_insert_descend C key value (Leaf i es) m = insert_leaf C key value i es m"

definition btree_insert_start :: "'k::linorder btree_class \<Rightarrow> 'k \<Rightarrow> 'v \<Rightarrow> ('k, 'v) btree
    \<Rightarrow> ((titer \<times> bool) \<times> ('k, 'v) btree) option" where
  "btree_insert_start C key value t = (let (root, m0) = (case m_root t of Some n \<Rightarrow> (n, m_mem t)
       | None \<Rightarrow> (case allocate_leaf (m_mem t) of (i, m) \<Rightarrow> (Leaf i [], m\<lparr>m_headleaf := Some i, m_tailleaf := Some i\<rparr>)))
     in do { (n, split, it, b, m1) \<leftarrow> btree_insert_descend C key value root m0;
       let (root', m2) = (case split of None \<Rightarrow> (n, m1)
         | Some (newkey, newchild) \<Rightarrow> (Inner (node_level n + 1) [newkey] [n, newchild], allocate_inner m1));
           m3 = (if b then m2\<lparr>m_stats := (m_stats m2)\<lparr>st_itemcount := st_itemcount (m_stats m2) + 1\<rparr>\<rparr> else m2)
       in Some ((it, b), \<lparr>m_root = Some root', m_mem = m3\<rparr>) })"

definition btree_insert_pair :: "'k::linorder btree_class \<Rightarrow> 'k \<times> 'v \<Rightarrow> ('k, 'v) btree
    \<Rightarrow> ((titer \<times> bool) \<times> ('k, 'v) btree) option" where
  "btree_insert_pair C x t = btree_insert_start C (fst x) (snd x) t"

fun btree_insert_range :: "'k::linorder btree_class \<Rightarrow> ('k \<times> 'v) list \<Rightarrow> ('k, 'v) btree \<Rightarrow> ('k, 'v) btree option" where
  "btree_insert_range C [] t = Some t"
| "btree_insert_range C (x # xs) t = do { (r, t') \<leftarrow> btree_insert_pair C x t; btree_insert_range C xs t' }"

definition btree_construct_range :: "'k::linorder btree_class \<Rightarrow> ('k \<times> 'v) list \<Rightarrow> ('k, 'v) btree option" where
  "btree_construct_range C xs = btree_insert_range C xs btree_new"

subsection \<open>Ordered insertion into a list\<close>

definition ins_list :: "'k::linorder \<Rightarrow> 'v \<Rightarrow> ('k \<times> 'v) list \<Rightarrow> ('k \<times> 'v) list" where
  "ins_list k v es = takeWhile (\<lambda>e. fst e < k) es @ (k, v) # dropWhile (\<lambda>e. fst e < k) es"

lemma put_at_ins_list: "put_at (length (takeWhile (\<lambda>e. fst e < k) es)) (k, v) es = ins_list k v es"
  by (simp add: put_at_def ins_list_def takeWhile_eq_take [symmetric] dropWhile_eq_drop [symmetric])

lemma length_put_at [simp]: "length (put_at n x xs) = Suc (length xs)"
  by (simp add: put_at_def)

lemma ins_list_append:
  assumes "\<forall>e\<in>set xs. fst e < k" "zs = [] \<or> es \<noteq> [] \<and> \<not> fst (last es) < k"
  shows "ins_list k v (xs @ es @ zs) = xs @ ins_list k v es @ zs"
    "takeWhile (\<lambda>e. fst e < k) (xs @ es @ zs) = xs @ takeWhile (\<lambda>e. fst e < k) es"
proof -
  have t: "takeWhile (\<lambda>e. fst e < k) (es @ zs) = takeWhile (\<lambda>e. fst e < k) es"
    using assms(2) takeWhile_last [of es "\<lambda>e. fst e < k" zs] by auto
  moreover have "es @ zs = takeWhile (\<lambda>e. fst e < k) es @ dropWhile (\<lambda>e. fst e < k) es @ zs"
    by (simp add: append_assoc [symmetric] del: append_assoc)
  ultimately have d: "dropWhile (\<lambda>e. fst e < k) (es @ zs) = dropWhile (\<lambda>e. fst e < k) es @ zs"
    by (metis same_append_eq takeWhile_dropWhile_id)
  show 1: "takeWhile (\<lambda>e. fst e < k) (xs @ es @ zs) = xs @ takeWhile (\<lambda>e. fst e < k) es"
    using assms(1) by (subst takeWhile_append2) (simp_all add: t)
  show "ins_list k v (xs @ es @ zs) = xs @ ins_list k v es @ zs"
    unfolding ins_list_def 1 using assms(1) by (subst dropWhile_append2) (simp_all add: d)
qed

lemma ins_list_cases:
  obtains A B where "es = A @ B" "ins_list k v es = A @ (k, v) # B" "takeWhile (\<lambda>e. fst e < k) es = A"
    "\<forall>e\<in>set A. fst e < k" "B \<noteq> [] \<Longrightarrow> \<not> fst (hd B) < k"
proof (rule that)
  show "es = takeWhile (\<lambda>e. fst e < k) es @ dropWhile (\<lambda>e. fst e < k) es" by simp
  show "dropWhile (\<lambda>e. fst e < k) es \<noteq> [] \<Longrightarrow> \<not> fst (hd (dropWhile (\<lambda>e. fst e < k) es)) < k" by (rule hd_dropWhile)
qed (auto simp: ins_list_def dest: set_takeWhileD)

lemma length_ins_list [simp]: "length (ins_list k v es) = Suc (length es)"
  by (rule ins_list_cases [of es k v]) simp

lemma set_ins_list [simp]: "set (ins_list k v es) = insert (k, v) (set es)"
  by (rule ins_list_cases [of es k v]) auto

lemma ins_list_nonempty [simp]: "ins_list k v es \<noteq> []"
  by (simp add: ins_list_def)

lemma ins_list_nth: "ins_list k v es ! length (takeWhile (\<lambda>e. fst e < k) es) = (k, v)"
  by (simp add: ins_list_def)

lemma last_ins_list:
  assumes "es \<noteq> []" "\<not> fst (last es) < k"
  shows "last (ins_list k v es) = last es"
proof (rule ins_list_cases [of es k v])
  fix A B assume 1: "es = A @ B" "ins_list k v es = A @ (k, v) # B" "\<forall>e\<in>set A. fst e < k"
  have "B \<noteq> []"
  proof
    assume "B = []"
    then show False using assms 1(1,3) last_in_set [of es] by simp
  qed
  then show ?thesis unfolding 1(2) using 1(1) by simp
qed

lemma keys_ok_ins:
  assumes "keys_ok C es" "allow_duplicates C \<or> k \<notin> fst ` set es"
  shows "keys_ok C (ins_list k v es)"
proof (rule ins_list_cases [of es k v])
  fix A B assume 1: "es = A @ B" "ins_list k v es = A @ (k, v) # B" "\<forall>e\<in>set A. fst e < k" "B \<noteq> [] \<Longrightarrow> \<not> fst (hd B) < k"
  have "\<forall>e\<in>set B. k \<le> fst e"
  proof (cases B)
    case (Cons b bs)
    then show ?thesis using assms(1) 1(1,4) by (auto simp: keys_ok_def sorted_append)
  qed simp
  then have B: "\<forall>x\<in>set (map fst B). k \<le> x" by auto
  have A: "\<forall>x\<in>set (map fst A). x < k" using 1(3) by auto
  have "sorted (map fst A)" "sorted (map fst B)" "\<forall>x\<in>set (map fst A). \<forall>y\<in>set (map fst B). x \<le> y"
    using assms(1) 1(1) by (auto simp: keys_ok_def sorted_append)
  moreover have "\<forall>x\<in>set (map fst A). x \<le> k" using A by (blast intro: less_imp_le)
  ultimately have "sorted (map fst (ins_list k v es))" unfolding 1(2) using B by (simp add: sorted_append)
  moreover have "allow_duplicates C \<or> distinct (map fst (ins_list k v es))"
    unfolding 1(2) using assms unfolding 1(1) keys_ok_def by auto
  ultimately show ?thesis by (simp add: keys_ok_def)
qed

subsection \<open>Splitting a node\<close>

lemma take_put_at: "slot \<le> d \<Longrightarrow> slot \<le> length xs \<Longrightarrow> take (Suc d) (put_at slot x xs) = put_at slot x (take d xs)"
  by (simp add: put_at_def min_absorb1 min_absorb2 Suc_diff_le drop_take)

lemma drop_put_at: "slot \<le> d \<Longrightarrow> slot \<le> length xs \<Longrightarrow> drop (Suc d) (put_at slot x xs) = drop d xs"
  by (simp add: put_at_def Suc_diff_le)

lemma take_put_at_before: "d \<le> slot \<Longrightarrow> slot \<le> length xs \<Longrightarrow> take d (put_at slot x xs) = take d xs"
  by (simp add: put_at_def min_absorb1)

lemma drop_put_at_before: "d \<le> slot \<Longrightarrow> slot \<le> length xs \<Longrightarrow> drop d (put_at slot x xs) = put_at (slot - d) x (drop d xs)"
  by (simp add: put_at_def drop_take)

lemma nth_put_at: "slot \<le> length xs \<Longrightarrow> d \<le> length xs
    \<Longrightarrow> put_at slot x xs ! d = (if d < slot then xs ! d else if d = slot then x else xs ! (d - 1))"
  by (auto simp: put_at_def nth_append min_absorb2 nth_Cons' Suc_diff_le)

lemmas put_at_split = take_put_at drop_put_at take_put_at_before drop_put_at_before nth_put_at

text \<open>Whatever case the code takes, it splits the keys and children with the new child put in.\<close>

lemma insert_child_full:
  assumes "length ks = innerslotmax C" "8 \<le> innerslotmax C" "length cs = Suc (length ks)" "slot < length cs"
  obtains d where "mininnerslots C \<le> d" "mininnerslots C \<le> length ks - d" "d \<le> length ks"
    "insert_child C l ks cs slot newkey newchild m =
       (Inner l (take d (put_at slot newkey ks)) (take (d + 1) (put_at (slot + 1) newchild cs)),
        Some (put_at slot newkey ks ! d,
          Inner l (drop (d + 1) (put_at slot newkey ks)) (drop (d + 1) (put_at (slot + 1) newchild cs))), allocate_inner m)"
proof -
  define mid0 where "mid0 = length ks div 2"
  define mid where "mid = (if slot \<le> mid0 \<and> length ks - (mid0 + 1) < mid0 then mid0 - 1 else mid0)"
  have sp: "split_inner_node ks cs slot m
      = (take mid ks, take (mid + 1) cs, ks ! mid, drop (mid + 1) ks, drop (mid + 1) cs, allocate_inner m)"
    by (simp add: split_inner_node_def mid_def mid0_def Let_def)
  have m0: "4 \<le> mid0" "length ks = 2 * mid0 \<or> length ks = 2 * mid0 + 1" using assms(1,2) by (auto simp: mid0_def)
  have m1: "mid < length ks" "mid \<le> mid0" "mid0 \<le> mid + 1" using m0 by (auto simp: mid_def)
  have lens: "length (take mid ks) = mid" "length (drop (mid + 1) ks) = length ks - (mid + 1)" using m1 by simp_all
  have min: "mininnerslots C = mid0" using assms(1) by (simp add: mininnerslots_def mid0_def)
  consider (a) "slot = mid + 1" "mid < length ks - (mid + 1)" | (b) "mid + 1 \<le> slot" "\<not> (slot = mid + 1 \<and> mid < length ks - (mid + 1))"
    | (c) "slot \<le> mid" by linarith
  then show thesis
  proof cases
    case a
    have "mid = mid0 - 1 \<and> length ks = 2 * mid0" using a m0 by (auto simp: mid_def split: if_splits)
    then have d: "mininnerslots C \<le> mid + 1" "mininnerslots C \<le> length ks - (mid + 1)" "mid + 1 \<le> length ks" using min m0 by auto
    have cs: "drop (mid + 1) cs = cs ! (mid + 1) # drop (mid + 2) cs" "take (mid + 2) cs = take (mid + 1) cs @ [cs ! (mid + 1)]"
      using a assms(3,4) Cons_nth_drop_Suc [of "mid + 1" cs] by (simp_all add: take_Suc_conv_app_nth)
    show thesis
      by (rule that [OF d]) (use a m1 assms(1,3) sp lens cs in
        \<open>simp add: insert_child_def put_at_split take_Suc_conv_app_nth put_at_def [of 0] put_at_def [of "Suc 0"]\<close>)
  next
    case b
    have d: "mininnerslots C \<le> mid" "mininnerslots C \<le> length ks - mid" "mid \<le> length ks"
      using b m0 min by (auto simp: mid_def split: if_splits)
    show thesis
      by (rule that [OF d]) (use b m1 assms sp lens Suc_diff_le [of "mid + 1" slot] in \<open>auto simp add: insert_child_def put_at_split\<close>)
  next
    case c
    have d: "mininnerslots C \<le> mid + 1" "mininnerslots C \<le> length ks - (mid + 1)" "mid + 1 \<le> length ks"
      using c m0 min by (auto simp: mid_def split: if_splits)
    show thesis
      by (rule that [OF d]) (use c m1 assms sp lens in \<open>auto simp add: insert_child_def put_at_split\<close>)
  qed
qed

subsection \<open>The parent after an insertion\<close>

definition children_ok :: "'k btree_class \<Rightarrow> nat \<Rightarrow> 'k list \<Rightarrow> ('k, 'v) bnode list \<Rightarrow> bool" where
  "children_ok C l ks cs \<longleftrightarrow> cs \<noteq> [] \<and> ks = map maxkey (butlast cs) \<and> (\<forall>c\<in>set cs. Suc (node_level c) = l \<and> node_wf C False c)"

lemma node_wf_children:
  "node_wf C r (Inner l ks cs) \<longleftrightarrow> ks \<noteq> [] \<and> length ks \<le> innerslotmax C \<and> (r \<or> mininnerslots C \<le> length ks) \<and> children_ok C l ks cs"
  by (auto simp: children_ok_def)

lemma children_ok_split:
  assumes "children_ok C l ks cs" "d < length ks"
  shows "children_ok C l (take d ks) (take (d + 1) cs)" "children_ok C l (drop (d + 1) ks) (drop (d + 1) cs)"
    "ks ! d = maxkey (Inner l (take d ks) (take (d + 1) cs))"
proof -
  have ks: "ks = map maxkey (butlast cs)" and d: "d + 1 < length cs" using assms by (auto simp: children_ok_def)
  have sub: "set (take (d + 1) cs) \<subseteq> set cs" "set (drop (d + 1) cs) \<subseteq> set cs" by (simp_all add: set_take_subset set_drop_subset)
  have ne: "take (d + 1) cs \<noteq> []" "drop (d + 1) cs \<noteq> []" using d by auto
  show "children_ok C l (take d ks) (take (d + 1) cs)"
    using assms(1) sub(1) ne(1) d unfolding children_ok_def by (auto simp: butlast_take take_map take_butlast subset_iff)
  show "children_ok C l (drop (d + 1) ks) (drop (d + 1) cs)"
    using assms(1) sub(2) ne(2) d unfolding children_ok_def by (auto simp: butlast_drop [symmetric] drop_map drop_butlast subset_iff)
  have l: "last (take (d + 1) cs) = cs ! d" using d by (simp add: take_Suc_conv_app_nth)
  have "node_wf C False (cs ! d)" using assms(1) d by (simp add: children_ok_def)
  then have "maxkey (Inner l (take d ks) (take (d + 1) cs)) = maxkey (cs ! d)"
    using maxkey_Inner [OF ne(1)] l node_wf_nonempty by metis
  then show "ks ! d = maxkey (Inner l (take d ks) (take (d + 1) cs))" using d by (simp add: ks nth_butlast)
qed

fun ins_nodes :: "('k, 'v) bnode \<Rightarrow> ('k \<times> ('k, 'v) bnode) option \<Rightarrow> ('k, 'v) bnode list" where
  "ins_nodes n None = [n]"
| "ins_nodes n (Some (sk, q)) = [n, q]"

fun ins_wf :: "'k btree_class \<Rightarrow> bool \<Rightarrow> nat \<Rightarrow> ('k, 'v) bnode \<Rightarrow> ('k \<times> ('k, 'v) bnode) option \<Rightarrow> bool" where
  "ins_wf C r l n None \<longleftrightarrow> node_level n = l \<and> node_wf C r n"
| "ins_wf C r l n (Some (sk, q)) \<longleftrightarrow> node_level n = l \<and> node_level q = l \<and> node_wf C False n \<and> node_wf C False q \<and> sk = maxkey n"

fun parent_keys :: "nat \<Rightarrow> ('k \<times> ('k, 'v) bnode) option \<Rightarrow> 'k list \<Rightarrow> 'k list" where
  "parent_keys slot None ks = ks"
| "parent_keys slot (Some (sk, q)) ks = put_at slot sk ks"

definition parent_children :: "nat \<Rightarrow> ('k, 'v) bnode list \<Rightarrow> ('k, 'v) bnode list \<Rightarrow> ('k, 'v) bnode list" where
  "parent_children slot ns cs = take slot cs @ ns @ drop (Suc slot) cs"

lemma parent_children_eq:
  assumes "slot < length cs"
  shows "cs[slot := n] = parent_children slot (ins_nodes n None) cs"
    "put_at (slot + 1) q (cs[slot := n]) = parent_children slot (ins_nodes n (Some (sk, q))) cs"
  using assms by (simp_all add: parent_children_def upd_conv_take_nth_drop put_at_def)

lemma parent_ok:
  assumes "children_ok C l ks cs" "slot < length cs" "ins_wf C False (node_level (cs ! slot)) n sp"
    and last: "slot < length ks \<Longrightarrow> maxkey (last (ins_nodes n sp)) = maxkey (cs ! slot)"
  shows "children_ok C l (parent_keys slot sp ks) (parent_children slot (ins_nodes n sp) cs)"
proof -
  let ?A = "take slot cs" and ?B = "drop (Suc slot) cs"
  have cs: "cs = ?A @ cs ! slot # ?B" using assms(2) by (rule id_take_nth_drop)
  have lv: "Suc (node_level (cs ! slot)) = l" using assms(1,2) by (simp add: children_ok_def)
  have AB: "\<forall>c\<in>set ?A \<union> set ?B. Suc (node_level c) = l \<and> node_wf C False c"
    using assms(1) unfolding children_ok_def by (auto dest: in_set_takeD in_set_dropD)
  then have all: "\<forall>c\<in>set (parent_children slot (ins_nodes n sp) cs). Suc (node_level c) = l \<and> node_wf C False c"
    using assms(3) lv by (cases sp) (auto simp: parent_children_def)
  have ks: "ks = map maxkey (butlast cs)" using assms(1) by (simp add: children_ok_def)
  have "parent_keys slot sp ks = map maxkey (butlast (parent_children slot (ins_nodes n sp) cs))"
  proof (cases "?B = []")
    case True
    then have "length ?A = slot" "butlast cs = ?A" using cs assms(2) by (metis length_take min_absorb2 less_imp_le, metis butlast_snoc)
    then show ?thesis using True assms(3) ks by (cases sp) (auto simp: parent_children_def put_at_def butlast_append)
  next
    case False
    then have lt: "slot < length ks" using assms(2) ks by simp
    have "butlast cs = ?A @ cs ! slot # butlast ?B" using cs False by (metis butlast.simps(2) butlast_append list.distinct(1))
    then have ks': "ks = map maxkey ?A @ maxkey (cs ! slot) # map maxkey (butlast ?B)" using ks by simp
    have lA: "length (map maxkey ?A) = slot" using assms(2) by simp
    show ?thesis
    proof (cases sp)
      case None
      then show ?thesis using ks' last [OF lt] False by (simp add: parent_children_def butlast_append)
    next
      case (Some p)
      obtain sk q where p: "p = (sk, q)" by fastforce
      have "put_at slot sk ks = map maxkey ?A @ sk # maxkey (cs ! slot) # map maxkey (butlast ?B)"
        using lA unfolding put_at_def ks' by (metis append_eq_conv_conj)
      then show ?thesis using last [OF lt] False assms(3) Some p by (simp add: parent_children_def butlast_append)
    qed
  qed
  then show ?thesis using all assms(3) unfolding children_ok_def by (cases sp) (auto simp: parent_children_def)
qed

end
