(* ===== verification/Btree_Insert_Ok.thy ===== *)
theory Btree_Insert_Ok
  imports Btree_Insert
begin

text \<open>
  The insertion keeps the invariant of the tree and refines the ordered insertion into the list
  of its entries; the iterator it returns points to the inserted pair.
\<close>

subsection \<open>Splitting a leaf\<close>

lemma split_leaf_chain:
  assumes "split_leaf_node i es m = Some (l, sk, j, r, m')" "chain_ok m (pre @ i # post)"
  shows "chain_ok m' (pre @ i # j # post)"
proof -
  have j: "j = fresh_leaf m" using assms(1) by (auto simp: split_leaf_node_def allocate_leaf_def Let_def split: if_splits)
  have c: "distinct (pre @ i # post)" "\<forall>x\<in>set (pre @ i # post). x < fresh_leaf m"
    "chain_seg m None pre (Some i)" "prevleaf m i = (if pre = [] then None else Some (last pre))"
    "nextleaf m i = (if post = [] then None else Some (hd post))" "chain_seg m (Some i) post None"
    "m_headleaf m = Some (hd (pre @ [i]))" "m_tailleaf m = Some (last (i # post))"
    using assms(2) by (auto simp: chain_ok_def chain_seg_append hd_append)
  have jn: "j \<notin> set (pre @ i # post)" using c(2) j by blast
  have m': "nextleaf m' = (nextleaf m)(j := nextleaf m i, i := Some j)"
    "prevleaf m' = ((prevleaf m)(j := Some i))(if post = [] then j else hd post := (if post = [] then Some i else Some j))"
    "m_headleaf m' = m_headleaf m" "m_tailleaf m' = (if post = [] then Some j else m_tailleaf m)"
    "fresh_leaf m' = Suc (fresh_leaf m)"
    using assms(1) c(5) jn
    by (cases post; auto simp: split_leaf_node_def allocate_leaf_def Let_def j split: if_splits)+
  have pre: "chain_seg m' None pre (Some i)"
    using c(1,3) jn by (subst chain_seg_cong [where m = m]) (auto simp: m'(1,2) dest: hd_in_set)
  have post: "chain_seg m' (Some j) post None"
  proof (cases post)
    case (Cons p ps)
    have "chain_seg m' (Some p) ps None = chain_seg m (Some p) ps None"
      using c(1) jn Cons by (intro chain_seg_cong) (auto simp: m'(1,2))
    then show ?thesis using c(1,6) jn Cons by (auto simp: m'(1,2))
  qed simp
  have lt: "\<forall>x\<in>set (pre @ i # j # post). x < fresh_leaf m'" using c(2) j by (auto simp: m'(5) intro: less_SucI)
  have d: "distinct (pre @ i # j # post)" using c(1) jn by auto
  have "m_headleaf m' = Some (hd (pre @ i # j # post))" "m_tailleaf m' = Some (last (pre @ i # j # post))"
    using c(7,8) by (simp_all add: m'(3,4) hd_append)
  moreover have "chain_seg m' None (pre @ i # j # post) None"
  proof -
    have "post \<noteq> [] \<Longrightarrow> hd post \<noteq> i" using c(1) hd_in_set [of post] by auto
    then show ?thesis unfolding chain_seg_append using pre post c(4,5) jn by (auto simp: m'(1,2))
  qed
  ultimately show ?thesis unfolding chain_ok_def using lt d by simp
qed

lemma split_leaf_parts:
  assumes "8 \<le> length es"
  obtains j m' where "split_leaf_node i es m = Some (take (length es div 2) es,
      maxkey (Leaf i (take (length es div 2) es)), j, drop (length es div 2) es, m')"
    "m_stats m' = (m_stats m)\<lparr>st_leaves := st_leaves (m_stats m) + 1\<rparr>"
proof -
  let ?l = "take (length es div 2) es"
  have "length ?l = length es div 2" "?l \<noteq> []" using assms by auto
  then have "fst (?l ! (length es div 2 - 1)) = maxkey (Leaf i ?l)" by (simp add: maxkey_def last_conv_nth)
  then show thesis using that assms
    by (auto simp: split_leaf_node_def allocate_leaf_def Let_def split: option.splits)
qed

subsection \<open>The result of an insertion\<close>

definition leaves_at :: "(nat \<times> ('k \<times> 'v) list) list \<Rightarrow> titer \<Rightarrow> nat \<Rightarrow> bool" where
  "leaves_at L it p \<longleftrightarrow> (\<exists>ls i es rs. L = ls @ (i, es) # rs \<and> it = \<lparr>currnode = Some i, currslot = currslot it\<rparr>
     \<and> currslot it < length es \<and> p = length (concat (map snd ls)) + currslot it)"

definition counts_ok :: "tree_mem \<Rightarrow> ('k, 'v) bnode list \<Rightarrow> tree_mem \<Rightarrow> ('k, 'v) bnode list \<Rightarrow> bool" where
  "counts_ok m ns m' ns' \<longleftrightarrow> st_itemcount (m_stats m') = st_itemcount (m_stats m)
     \<and> st_leaves (m_stats m') + sum_list (map (length \<circ> tree_leaves) ns) = st_leaves (m_stats m) + sum_list (map (length \<circ> tree_leaves) ns')
     \<and> st_innernodes (m_stats m') + sum_list (map inner_count ns) = st_innernodes (m_stats m) + sum_list (map inner_count ns')"

definition ins_result_ok :: "'k::linorder btree_class \<Rightarrow> bool \<Rightarrow> 'k \<Rightarrow> 'v \<Rightarrow> ('k, 'v) bnode \<Rightarrow> tree_mem \<Rightarrow> nat list \<Rightarrow> nat list
    \<Rightarrow> ('k, 'v) ins_result \<Rightarrow> bool" where
  "ins_result_ok C r k v n m pre post res \<longleftrightarrow> (case res of (n', sp, it, b, m') \<Rightarrow>
     (b \<longleftrightarrow> allow_duplicates C \<or> k \<notin> fst ` set (node_entries n))
     \<and> ins_wf C r (node_level n) n' sp
     \<and> concat (map node_entries (ins_nodes n' sp)) = (if b then ins_list k v (node_entries n) else node_entries n)
     \<and> chain_ok m' (pre @ concat (map leaf_ids (ins_nodes n' sp)) @ post)
     \<and> counts_ok m [n] m' (ins_nodes n' sp)
     \<and> leaves_at (concat (map tree_leaves (ins_nodes n' sp))) it (length (takeWhile (\<lambda>e. fst e < k) (node_entries n))))"

lemma leaves_at_append: "leaves_at L it p \<Longrightarrow> leaves_at (A @ L @ B) it (length (concat (map snd A)) + p)"
  unfolding leaves_at_def by (elim exE, rule_tac x = "A @ ls" in exI) auto

lemma leaves_at_simps [simp]:
  "slot < length es \<Longrightarrow> leaves_at ((i, es) # rs) \<lparr>currnode = Some i, currslot = slot\<rparr> slot"
  "slot < length r \<Longrightarrow> p = length l + slot \<Longrightarrow> leaves_at [(i, l), (j, r)] \<lparr>currnode = Some j, currslot = slot\<rparr> p"
  unfolding leaves_at_def by (rule exI [of _ "[]"], simp, rule exI [of _ "[(i, l)]"], simp)

lemma insert_leaf_ok:
  assumes ok: "btree_class_ok C" and es: "length es \<le> leafslotmax C" "r \<or> minleafslots C \<le> length es" "keys_ok C es"
    and ch: "chain_ok m (pre @ i # post)"
  shows "\<exists>res. insert_leaf C k v i es m = Some res \<and> ins_result_ok C r k v (Leaf i es) m pre post res"
proof -
  note ok' = btree_class_okD [OF ok]
  define slot where "slot = length (takeWhile (\<lambda>e. fst e < k) es)"
  have sorted: "sorted (map fst es)" using es(3) by (simp add: keys_ok_def)
  have f: "find_lower C (map fst es) k = Some slot"
    using find_lower_eq [OF ok sorted, of k] es(1) ok'(2) takeWhile_fst [of "\<lambda>x. x < k" es] by (simp add: slot_def)
  have tw: "length (takeWhile (\<lambda>e. fst e < k) es) = slot" by (simp add: slot_def)
  have le: "slot \<le> length es" by (simp add: slot_def length_takeWhile_le)
  have mem: "k \<in> fst ` set es \<longleftrightarrow> slot < length es \<and> k = fst (es ! slot)"
    using sorted_member [OF sorted, of k] by (auto simp: slot_def)
  have ins: "ins_list k v es = put_at slot (k, v) es" by (simp add: slot_def put_at_ins_list)
  show ?thesis
  proof (cases "\<not> allow_duplicates C \<and> k \<in> fst ` set es")
    case True
    then have "es \<noteq> []" by auto
    then show ?thesis using True es mem ch f tw
      by (auto simp: insert_leaf_def ins_result_ok_def counts_ok_def)
  next
    case False
    then have new: "allow_duplicates C \<or> k \<notin> fst ` set es" by blast
    then have "\<not> (\<not> allow_duplicates C \<and> slot < length es \<and> key_equal k (fst (es ! slot)))" using mem by auto
    note cond = this [unfolded key_equal_eq]
    show ?thesis
    proof (cases "length es = leafslotmax C")
      case False
      then have "Suc (length es) \<le> leafslotmax C" using es(1) by simp
      moreover have "put_at slot (k, v) es \<noteq> []" by (simp add: put_at_def)
      ultimately have "ins_result_ok C r k v (Leaf i es) m pre post
          (Leaf i (put_at slot (k, v) es), None, \<lparr>currnode = Some i, currslot = slot\<rparr>, True, m)"
        using new es(2) ch tw le ins by (auto simp: ins_result_ok_def counts_ok_def)
      then show ?thesis using False cond f by (auto simp: insert_leaf_def)
    next
      case full: True
      let ?mid = "length es div 2" and ?P = "put_at slot (k, v) es"
      obtain j m' where sp: "split_leaf_node i es m = Some (take ?mid es, maxkey (Leaf i (take ?mid es)), j, drop ?mid es, m')"
        "m_stats m' = (m_stats m)\<lparr>st_leaves := st_leaves (m_stats m) + 1\<rparr>"
        using split_leaf_parts full ok'(4) by metis
      note ch' = split_leaf_chain [OF sp(1) ch]
      have min: "minleafslots C = ?mid" "?mid < length es" "0 < ?mid" using full ok'(4) by (auto simp: minleafslots_def)
      show ?thesis
      proof (cases "?mid \<le> slot")
        case True
        have "take ?mid es @ put_at (slot - ?mid) (k, v) (drop ?mid es) = ?P"
          using put_at_split(3,4) [OF True le, of "(k, v)"] by (metis append_take_drop_id)
        moreover have "put_at (slot - ?mid) (k, v) (drop ?mid es) \<noteq> []" by (simp add: put_at_def)
        ultimately have "ins_result_ok C r k v (Leaf i es) m pre post
            (Leaf i (take ?mid es), Some (maxkey (Leaf i (take ?mid es)), Leaf j (put_at (slot - ?mid) (k, v) (drop ?mid es))),
             \<lparr>currnode = Some j, currslot = slot - ?mid\<rparr>, True, m')"
          using True new es(1) tw le ins sp(2) ch' min full by (auto simp: ins_result_ok_def counts_ok_def)
        then show ?thesis using True full cond f sp(1) min by (auto simp: insert_leaf_def)
      next
        case False
        then have lt: "slot < ?mid" by simp
        have "put_at slot (k, v) (take ?mid es) @ drop ?mid es = ?P"
          using put_at_split(1,2) [of slot ?mid es "(k, v)"] lt le by (metis append_take_drop_id less_imp_le)
        moreover have "put_at slot (k, v) (take ?mid es) \<noteq> []" by (simp add: put_at_def)
        moreover have "last (put_at slot (k, v) (take ?mid es)) = last (take ?mid es)"
          using lt min by (simp add: put_at_def last_drop)
        ultimately have "ins_result_ok C r k v (Leaf i es) m pre post
            (Leaf i (put_at slot (k, v) (take ?mid es)), Some (maxkey (Leaf i (take ?mid es)), Leaf j (drop ?mid es)),
             \<lparr>currnode = Some i, currslot = slot\<rparr>, True, m')"
          using lt new es(1) tw ins sp(2) ch' min full by (auto simp: ins_result_ok_def counts_ok_def maxkey_def)
        then show ?thesis using lt full cond f sp(1) min by (auto simp: insert_leaf_def Let_def)
      qed
    qed
  qed
qed

subsection \<open>The descent\<close>

text \<open>What holds of the list of children once the recursive call has returned\<close>

definition parent_result :: "'k::linorder btree_class \<Rightarrow> 'k \<Rightarrow> 'v \<Rightarrow> nat \<Rightarrow> ('k, 'v) bnode list \<Rightarrow> tree_mem \<Rightarrow> nat list \<Rightarrow> nat list
    \<Rightarrow> 'k list \<Rightarrow> ('k, 'v) bnode list \<Rightarrow> titer \<Rightarrow> bool \<Rightarrow> tree_mem \<Rightarrow> bool" where
  "parent_result C k v l cs m pre post ks' cs' it b m' \<longleftrightarrow> (let E = concat (map node_entries cs) in
     (b \<longleftrightarrow> allow_duplicates C \<or> k \<notin> fst ` set E) \<and> children_ok C l ks' cs'
     \<and> concat (map node_entries cs') = (if b then ins_list k v E else E)
     \<and> chain_ok m' (pre @ concat (map leaf_ids cs') @ post) \<and> counts_ok m cs m' cs'
     \<and> leaves_at (concat (map tree_leaves cs')) it (length (takeWhile (\<lambda>e. fst e < k) E)))"

lemma ins_wf_nonempty: "ins_wf C r l n sp \<Longrightarrow> node_entries (last (ins_nodes n sp)) \<noteq> [] \<and> ins_nodes n sp \<noteq> []"
  using node_wf_nonempty by (cases sp) fastforce+

lemma ins_last_maxkey:
  assumes "ins_result_ok C r k v c m pre post (n, sp, it, b, m')" "node_entries c \<noteq> []" "\<not> fst (last (node_entries c)) < k"
  shows "maxkey (last (ins_nodes n sp)) = maxkey c"
proof -
  have e: "concat (map node_entries (ins_nodes n sp)) = (if b then ins_list k v (node_entries c) else node_entries c)"
    and w: "ins_wf C r (node_level c) n sp" using assms(1) by (simp_all add: ins_result_ok_def)
  have "last (concat (map node_entries (ins_nodes n sp))) = last (node_entries (last (ins_nodes n sp)))"
    using ins_wf_nonempty [OF w] by (cases sp) auto
  then show ?thesis using last_ins_list [OF assms(2,3), of v] e by (simp add: maxkey_def split: if_splits)
qed

lemma entries_of_leaves: "concat (map snd (concat (map tree_leaves cs))) = concat (map node_entries cs)"
  by (induction cs) (simp_all add: node_entries_def)

lemma child_entries:
  fixes cs :: "('k::linorder, 'v) bnode list"
  assumes wf: "node_wf C r (Inner l ks cs)" and sorted: "sorted (map fst (node_entries (Inner l ks cs)))"
    and slot: "slot = length (takeWhile (\<lambda>x. x < k) ks)"
  defines "A \<equiv> concat (map node_entries (take slot cs))" and "B \<equiv> concat (map node_entries (drop (Suc slot) cs))"
  shows "node_entries (Inner l ks cs) = A @ node_entries (cs ! slot) @ B" "\<forall>e\<in>set A. fst e < k"
    "B = [] \<or> node_entries (cs ! slot) \<noteq> [] \<and> \<not> fst (last (node_entries (cs ! slot))) < k"
    "k \<in> fst ` set (node_entries (Inner l ks cs)) \<longleftrightarrow> k \<in> fst ` set (node_entries (cs ! slot))"
proof -
  note cp = child_position [OF wf sorted downward_intros(1) slot]
  let ?c = "cs ! slot"
  show E: "node_entries (Inner l ks cs) = A @ node_entries ?c @ B" unfolding A_def B_def by (rule entries_take_drop(1) [OF cp(1)])
  show A: "\<forall>e\<in>set A. fst e < k" using cp(2) by (auto simp: A_def)
  have ne: "node_entries ?c \<noteq> []" using wf cp(1) node_wf_nonempty by (metis node_wf.simps(2) nth_mem)
  have lt: "slot < length ks \<Longrightarrow> \<not> fst (last (node_entries ?c)) < k" using cp(3) by (simp add: maxkey_def)
  show B: "B = [] \<or> node_entries ?c \<noteq> [] \<and> \<not> fst (last (node_entries ?c)) < k"
    using ne lt node_wf_length [OF wf] by (cases "slot < length ks") (auto simp: B_def)
  have "k \<in> fst ` set (node_entries ?c)" if "k \<in> fst ` set B"
  proof -
    from that obtain x where x: "k = fst x" "x \<in> set B" by (rule imageE)
    have "sorted (map fst (A @ node_entries ?c @ B))" using sorted E by simp
    then have "fst (last (node_entries ?c)) \<le> k" using x last_in_set [OF ne] by (auto simp: sorted_append)
    then have "fst (last (node_entries ?c)) = k" using B x by auto
    then show ?thesis using last_in_set [OF ne] by force
  qed
  moreover have "k \<notin> fst ` set A" using A by auto
  ultimately show "k \<in> fst ` set (node_entries (Inner l ks cs)) \<longleftrightarrow> k \<in> fst ` set (node_entries ?c)"
    unfolding E by (simp only: set_append image_Un Un_iff) blast
qed

lemma parent_result_ok:
  fixes cs :: "('k::linorder, 'v) bnode list"
  assumes wf: "node_wf C r (Inner l ks cs)" and keys: "keys_ok C (node_entries (Inner l ks cs))"
    and slot: "slot = length (takeWhile (\<lambda>x. x < k) ks)"
    and res: "ins_result_ok C False k v (cs ! slot) m (pre @ concat (map leaf_ids (take slot cs)))
        (concat (map leaf_ids (drop (Suc slot) cs)) @ post) (n, sp, it, b, m')"
  shows "parent_result C k v l cs m pre post (parent_keys slot sp ks) (parent_children slot (ins_nodes n sp) cs) it b m'"
proof -
  have sorted: "sorted (map fst (node_entries (Inner l ks cs)))" using keys by (simp add: keys_ok_def)
  note cp = child_position [OF wf sorted downward_intros(1) slot]
  let ?c = "cs ! slot" and ?ns = "ins_nodes n sp"
  let ?A = "concat (map node_entries (take slot cs))" and ?B = "concat (map node_entries (drop (Suc slot) cs))"
  note ce = child_entries [OF wf sorted slot]
  have E: "concat (map node_entries cs) = ?A @ node_entries ?c @ ?B" using ce(1) by simp
  note A = ce(2) and B = ce(3)
  have mem: "k \<in> fst ` set (concat (map node_entries cs)) \<longleftrightarrow> k \<in> fst ` set (node_entries ?c)" using ce(4) by (simp only: node_entries_simps)
  have ne: "node_entries ?c \<noteq> []" using wf cp(1) node_wf_nonempty by (metis node_wf.simps(2) nth_mem)
  have lt: "slot < length ks \<Longrightarrow> \<not> fst (last (node_entries ?c)) < k" using cp(3) by (simp add: maxkey_def)
  note r = res [unfolded ins_result_ok_def prod.case]
  have ch: "children_ok C l ks cs" using wf node_wf_children by blast
  have co: "children_ok C l (parent_keys slot sp ks) (parent_children slot ?ns cs)"
    by (rule parent_ok [OF ch cp(1)]) (use r ins_last_maxkey [OF res ne lt] in auto)
  have dist: "concat (map f (parent_children slot ?ns cs)) = concat (map f (take slot cs)) @ concat (map f ?ns) @ concat (map f (drop (Suc slot) cs))"
    for f :: "('k, 'v) bnode \<Rightarrow> 'b list" by (simp add: parent_children_def)
  have cnt: "counts_ok m cs m' (parent_children slot ?ns cs)"
  proof -
    have "sum_list (map f cs) = sum_list (map f (take slot cs)) + f ?c + sum_list (map f (drop (Suc slot) cs))" for f :: "('k, 'v) bnode \<Rightarrow> nat"
      using arg_cong [OF id_take_nth_drop [OF cp(1)], of "\<lambda>cs. sum_list (map f cs)"] by simp
    then show ?thesis using r by (simp add: counts_ok_def parent_children_def)
  qed
  have pos: "leaves_at (concat (map tree_leaves (parent_children slot ?ns cs))) it (length (takeWhile (\<lambda>e. fst e < k) (?A @ node_entries ?c @ ?B)))"
  proof -
    have "leaves_at (concat (map tree_leaves ?ns)) it (length (takeWhile (\<lambda>e. fst e < k) (node_entries ?c)))" using r by blast
    from leaves_at_append [OF this, of "concat (map tree_leaves (take slot cs))"] show ?thesis
      unfolding dist ins_list_append(2) [OF A B] length_append by (simp only: entries_of_leaves)
  qed
  show ?thesis
    unfolding parent_result_def Let_def
    using r co cnt pos mem ins_list_append(1) [OF A B, of v] by (auto simp: E dist)
qed

lemma parent_no_split:
  assumes "parent_result C k v l cs m pre post ks' cs' it b m'" "ks' \<noteq> []" "length ks' \<le> innerslotmax C" "r \<or> mininnerslots C \<le> length ks'"
  shows "ins_result_ok C r k v (Inner l ks cs) m pre post (Inner l ks' cs', None, it, b, m')"
  using assms node_wf_children [of C r l ks' cs']
  by (simp add: parent_result_def Let_def ins_result_ok_def counts_ok_def o_def length_concat)

lemma parent_split:
  fixes cs cs' :: "('k::linorder, 'v) bnode list"
  assumes p: "parent_result C k v l cs m pre post ks' cs' it b m'" and len: "length ks' = Suc (innerslotmax C)"
    and d: "mininnerslots C \<le> d" "mininnerslots C \<le> innerslotmax C - d" "d \<le> innerslotmax C" and min: "0 < mininnerslots C"
  shows "ins_result_ok C r k v (Inner l ks cs) m pre post
    (Inner l (take d ks') (take (d + 1) cs'), Some (ks' ! d, Inner l (drop (d + 1) ks') (drop (d + 1) cs')), it, b, allocate_inner m')"
proof -
  note p' = p [unfolded parent_result_def Let_def]
  have co: "children_ok C l ks' cs'" using p' by blast
  have dk: "d < length ks'" using len d by simp
  note sp = children_ok_split [OF co dk]
  have wf: "node_wf C False (Inner l (take d ks') (take (d + 1) cs'))" "node_wf C False (Inner l (drop (d + 1) ks') (drop (d + 1) cs'))"
    unfolding node_wf_children using sp(1,2) len d min by auto
  have cat: "concat (map f (take (d + 1) cs')) @ concat (map f (drop (d + 1) cs')) = concat (map f cs')" for f :: "('k, 'v) bnode \<Rightarrow> 'b list"
    by (metis append_take_drop_id concat_append map_append)
  have sum: "sum_list (map f (take (d + 1) cs')) + sum_list (map f (drop (d + 1) cs')) = sum_list (map f cs')" for f :: "('k, 'v) bnode \<Rightarrow> nat"
    by (metis append_take_drop_id sum_list_append map_append)
  have ch: "chain_ok (allocate_inner m') is = chain_ok m' is" for "is"
  proof -
    have "chain_seg (allocate_inner m') q is None = chain_seg m' q is None" for q by (rule chain_seg_cong) (simp add: allocate_inner_def)
    then show ?thesis by (simp add: chain_ok_def allocate_inner_def)
  qed
  have len_leaves: "length (tree_leaves (Inner l qs ns)) = sum_list (map (length \<circ> tree_leaves) ns)" for qs and ns :: "('k, 'v) bnode list"
    by (simp add: length_concat o_def)
  have "counts_ok m [Inner l ks cs] (allocate_inner m') [Inner l (take d ks') (take (d + 1) cs'), Inner l (drop (d + 1) ks') (drop (d + 1) cs')]"
    using p' sum [of inner_count] sum [of "length \<circ> tree_leaves"] unfolding counts_ok_def
    by (simp del: tree_leaves.simps add: len_leaves) (simp add: allocate_inner_def)
  moreover have "\<forall>e. concat (map node_entries [Inner l (take d ks') (take (d + 1) cs'), Inner l (drop (d + 1) ks') (drop (d + 1) cs')]) = concat (map node_entries cs')"
    using cat [of node_entries] by simp
  ultimately show ?thesis
    using p' wf sp(3) cat [of node_entries] cat [of leaf_ids] cat [of tree_leaves]
    unfolding ins_result_ok_def by (simp add: ch del: node_wf.simps)
qed

lemma btree_insert_descend_ok:
  assumes ok: "btree_class_ok C"
  shows "node_wf C r n \<Longrightarrow> keys_ok C (node_entries n) \<Longrightarrow> chain_ok m (pre @ leaf_ids n @ post)
    \<Longrightarrow> \<exists>res. btree_insert_descend C k v n m = Some res \<and> ins_result_ok C r k v n m pre post res"
proof (induction n arbitrary: r m pre post)
  case (Leaf i es)
  then show ?case using insert_leaf_ok [OF ok, of es r m pre i post k v] by simp
next
  case (Inner l ks cs)
  note ok' = btree_class_okD [OF ok]
  have sorted: "sorted (map fst (node_entries (Inner l ks cs)))" using Inner.prems(2) by (simp add: keys_ok_def)
  define slot where "slot = length (takeWhile (\<lambda>x. x < k) ks)"
  note cp = child_position [OF Inner.prems(1) sorted downward_intros(1) slot_def]
  have lks: "length cs = Suc (length ks)" using node_wf_length [OF Inner.prems(1)] .
  have ksl: "ks \<noteq> []" "length ks \<le> innerslotmax C" "r \<or> mininnerslots C \<le> length ks" using Inner.prems(1) node_wf_children by blast+
  have f: "find_lower C ks k = Some slot"
    unfolding slot_def by (rule find_lower_eq [OF ok node_wf_separators [OF Inner.prems(1) sorted]]) (use ksl ok' in simp)
  have c: "cs ! slot \<in> set cs" using cp(1) by simp
  have wf: "node_wf C False (cs ! slot)" using Inner.prems(1) c by simp
  have kc: "keys_ok C (node_entries (cs ! slot))"
    using Inner.prems(2) entries_take_drop(1) [OF cp(1), of l ks] by (auto simp: keys_ok_def sorted_append)
  let ?pre = "pre @ concat (map leaf_ids (take slot cs))" and ?post = "concat (map leaf_ids (drop (Suc slot) cs)) @ post"
  have "leaf_ids (Inner l ks cs) = concat (map leaf_ids (take slot cs)) @ leaf_ids (cs ! slot) @ concat (map leaf_ids (drop (Suc slot) cs))"
    using arg_cong [OF id_take_nth_drop [OF cp(1)], of "\<lambda>cs. concat (map leaf_ids cs)"] by simp
  then have ch: "chain_ok m (?pre @ leaf_ids (cs ! slot) @ ?post)" using Inner.prems(3) by simp
  obtain c' sp it b m' where IH: "btree_insert_descend C k v (cs ! slot) m = Some (c', sp, it, b, m')"
    "ins_result_ok C False k v (cs ! slot) m ?pre ?post (c', sp, it, b, m')"
    using Inner.IH [OF c wf kc ch] by (metis prod_cases5)
  note pr = parent_result_ok [OF Inner.prems(1,2) slot_def IH(2)]
  show ?case
  proof (cases sp)
    case None
    then have "btree_insert_descend C k v (Inner l ks cs) m = Some (Inner l ks (parent_children slot (ins_nodes c' sp) cs), None, it, b, m')"
      using f cp(1) IH(1) parent_children_eq(1) [OF cp(1)] by simp
    then show ?thesis using parent_no_split [OF pr, of r ks] ksl None by auto
  next
    case (Some p)
    obtain sk q where p: "p = (sk, q)" by fastforce
    let ?ks = "put_at slot sk ks" and ?cs = "parent_children slot (ins_nodes c' sp) cs"
    have cs': "put_at (Suc slot) q (cs[slot := c']) = ?cs" using parent_children_eq(2) [OF cp(1), of q c' sk] Some p by simp
    have pr': "parent_result C k v l cs m pre post ?ks ?cs it b m'" using pr Some p by simp
    have go: "btree_insert_descend C k v (Inner l ks cs) m = (case insert_child C l ks (cs[slot := c']) slot sk q m' of (n', split', m'') \<Rightarrow> Some (n', split', it, b, m''))"
      using f cp(1) IH(1) Some p by simp
    show ?thesis
    proof (cases "length ks = innerslotmax C")
      case False
      then have "insert_child C l ks (cs[slot := c']) slot sk q m' = (Inner l ?ks ?cs, None, m')" using cs' by (simp add: insert_child_def)
      moreover have "?ks \<noteq> []" "length ?ks \<le> innerslotmax C" "r \<or> mininnerslots C \<le> length ?ks" using ksl False by (auto simp: put_at_def)
      ultimately show ?thesis using parent_no_split [OF pr', of r ks] go by simp
    next
      case True
      obtain d where d: "mininnerslots C \<le> d" "mininnerslots C \<le> length ks - d" "d \<le> length ks"
        "insert_child C l ks (cs[slot := c']) slot sk q m' = (Inner l (take d ?ks) (take (d + 1) ?cs),
          Some (?ks ! d, Inner l (drop (d + 1) ?ks) (drop (d + 1) ?cs)), allocate_inner m')"
        using insert_child_full [OF True ok'(3), of "cs[slot := c']" slot l sk q m'] lks cp(1) cs' by auto
      have "0 < mininnerslots C" using ok'(3) by (auto simp: mininnerslots_def)
      then show ?thesis using parent_split [OF pr', of d r ks] d go True by simp
    qed
  qed
qed

subsection \<open>The root\<close>

definition insert_finish :: "('k, 'v) ins_result \<Rightarrow> (titer \<times> bool) \<times> ('k, 'v) btree" where
  "insert_finish res = (case res of (n, split, it, b, m1) \<Rightarrow>
     let (root', m2) = (case split of None \<Rightarrow> (n, m1)
         | Some (newkey, newchild) \<Rightarrow> (Inner (node_level n + 1) [newkey] [n, newchild], allocate_inner m1));
         m3 = (if b then m2\<lparr>m_stats := (m_stats m2)\<lparr>st_itemcount := st_itemcount (m_stats m2) + 1\<rparr>\<rparr> else m2)
     in ((it, b), \<lparr>m_root = Some root', m_mem = m3\<rparr>))"

lemma bind_Some_map: "(\<And>r. F r = Some (G r)) \<Longrightarrow> Option.bind x F = map_option G x"
  by (cases x) simp_all

lemma insert_start_finish:
  "btree_insert_start C k v t = (let (root, m0) = (case m_root t of Some n \<Rightarrow> (n, m_mem t)
       | None \<Rightarrow> (case allocate_leaf (m_mem t) of (i, m) \<Rightarrow> (Leaf i [], m\<lparr>m_headleaf := Some i, m_tailleaf := Some i\<rparr>)))
     in map_option insert_finish (btree_insert_descend C k v root m0))"
  unfolding btree_insert_start_def insert_finish_def Let_def
  by (cases "m_root t") (auto simp: allocate_leaf_def Let_def intro!: bind_Some_map split: prod.split)

lemma chain_ok_cong:
  assumes "nextleaf m' = nextleaf m" "prevleaf m' = prevleaf m" "fresh_leaf m' = fresh_leaf m"
    "m_headleaf m' = m_headleaf m" "m_tailleaf m' = m_tailleaf m"
  shows "chain_ok m' is = chain_ok m is"
proof -
  have "chain_seg m' p is n = chain_seg m p is n" for p n by (rule chain_seg_cong) (simp add: assms)
  then show ?thesis by (simp add: chain_ok_def assms)
qed

lemma leaves_at_btree_at:
  assumes "leaves_at L it p" "root_leaves t = L" "m_root t \<noteq> None"
  shows "btree_at t it p"
proof -
  obtain ls i es rs where l: "L = ls @ (i, es) # rs" "it = \<lparr>currnode = Some i, currslot = currslot it\<rparr>" "currslot it < length es"
    "p = length (concat (map snd ls)) + currslot it" using assms(1) by (auto simp: leaves_at_def)
  then have "currnode it = Some i" by (metis titer.select_convs(1))
  then show ?thesis using assms(2,3) l(1,3,4) unfolding btree_at_def by (auto intro!: exI [of _ ls])
qed

lemma insert_finish_ok:
  assumes ok: "btree_class_ok C" and keys: "keys_ok C (node_entries n)" and stats: "m_stats m = stats_of n"
    and res: "ins_result_ok C True k v n m [] [] res" and fin: "insert_finish res = ((it, b), t')"
  shows "btree_inv C t'" "b \<longleftrightarrow> allow_duplicates C \<or> k \<notin> fst ` set (node_entries n)"
    "btree_entries t' = (if b then ins_list k v (node_entries n) else node_entries n)"
    "btree_at t' it (length (takeWhile (\<lambda>e. fst e < k) (node_entries n)))"
proof -
  obtain n' sp it' b' m' where r: "res = (n', sp, it', b', m')" by (metis prod_cases5)
  note f = fin [unfolded r insert_finish_def prod.case]
  have b: "b' = b" "it' = it" using f by (auto simp: Let_def split: prod.splits)
  let ?ns = "ins_nodes n' sp" and ?E = "if b then ins_list k v (node_entries n) else node_entries n"
  note R = res [unfolded r ins_result_ok_def prod.case b append_Nil append_Nil2]
  define root where "root = (case sp of None \<Rightarrow> n' | Some (newkey, newchild) \<Rightarrow> Inner (node_level n' + 1) [newkey] [n', newchild])"
  have t': "m_root t' = Some root" using f by (auto simp: Let_def root_def split: prod.splits option.splits)
  have of_root: "tree_leaves root = concat (map tree_leaves ?ns)" "node_entries root = concat (map node_entries ?ns)"
    "leaf_ids root = concat (map leaf_ids ?ns)" by (auto simp: root_def split: option.split)
  have E: "node_entries root = ?E" using R of_root by simp
  show 1: "b \<longleftrightarrow> allow_duplicates C \<or> k \<notin> fst ` set (node_entries n)" using R by blast
  show 2: "btree_entries t' = ?E" using E t' by (simp add: btree_entries_def root_leaves_def node_entries_def)
  have wf: "node_wf C True root"
  proof (cases sp)
    case None
    then show ?thesis using R by (simp add: root_def)
  next
    case (Some p)
    obtain sk q where p: "p = (sk, q)" by fastforce
    then show ?thesis using R Some btree_class_okD(3) [OF ok] by (simp add: root_def)
  qed
  have mem: "nextleaf (m_mem t') = nextleaf m'" "prevleaf (m_mem t') = prevleaf m'" "fresh_leaf (m_mem t') = fresh_leaf m'"
    "m_headleaf (m_mem t') = m_headleaf m'" "m_tailleaf (m_mem t') = m_tailleaf m'"
    using f by (auto simp: Let_def allocate_inner_def split: prod.splits option.splits if_splits)
  have ch: "chain_ok (m_mem t') (leaf_ids root)" unfolding chain_ok_cong [OF mem] using R of_root by simp
  have st: "st_itemcount (m_stats (m_mem t')) = st_itemcount (m_stats m') + (if b then 1 else 0)"
    "st_leaves (m_stats (m_mem t')) = st_leaves (m_stats m')"
    "st_innernodes (m_stats (m_mem t')) = st_innernodes (m_stats m') + (if sp = None then 0 else 1)"
    using f b by (auto simp: Let_def allocate_inner_def split: prod.splits option.splits if_splits)
  have cnt: "counts_ok m [n] m' ?ns" using R by blast
  have "length (tree_leaves root) = sum_list (map (length \<circ> tree_leaves) ?ns)" using of_root(1) by (simp add: length_concat o_def)
  moreover have "inner_count root = sum_list (map inner_count ?ns) + (if sp = None then 0 else 1)"
    by (auto simp: root_def split: option.split)
  moreover have "length (node_entries root) = length (node_entries n) + (if b then 1 else 0)" using E by simp
  ultimately have "m_stats (m_mem t') = stats_of root"
    using st cnt stats by (intro tree_stats.equality) (simp_all add: counts_ok_def stats_of_def)
  moreover have "keys_ok C (node_entries root)" using keys keys_ok_ins [OF keys] 1 E by simp
  ultimately show "btree_inv C t'" using t' wf ch by (simp add: btree_inv_def)
  have "leaves_at (tree_leaves root) it (length (takeWhile (\<lambda>e. fst e < k) (node_entries n)))" using R of_root b by simp
  then show "btree_at t' it (length (takeWhile (\<lambda>e. fst e < k) (node_entries n)))"
    by (rule leaves_at_btree_at) (simp_all add: t' root_leaves_def)
qed

theorem insert_start_ok:
  assumes ok: "btree_class_ok C" and inv: "btree_inv C t"
  shows "\<exists>it b t'. btree_insert_start C k v t = Some ((it, b), t') \<and> btree_inv C t'
    \<and> (b \<longleftrightarrow> allow_duplicates C \<or> k \<notin> fst ` set (btree_entries t))
    \<and> btree_entries t' = (if b then ins_list k v (btree_entries t) else btree_entries t)
    \<and> btree_at t' it (entries_while (\<lambda>x. x < k) t)"
proof (cases "m_root t")
  case None
  obtain i m where al: "allocate_leaf (m_mem t) = (i, m)" by fastforce
  let ?m = "m\<lparr>m_headleaf := Some i, m_tailleaf := Some i\<rparr>"
  have ch: "chain_ok ?m ([] @ i # [])" using al by (auto simp: allocate_leaf_def Let_def chain_ok_def)
  have st: "m_stats ?m = stats_of (Leaf i [])" using al inv None by (auto simp: allocate_leaf_def Let_def btree_inv_def stats_of_def empty_stats_def)
  have keys: "keys_ok C (node_entries (Leaf i []))" by (simp add: keys_ok_def)
  obtain res where res: "insert_leaf C k v i [] ?m = Some res" "ins_result_ok C True k v (Leaf i []) ?m [] [] res"
    using insert_leaf_ok [OF ok _ _ _ ch, of "[]" True k v] by (auto simp: keys_ok_def)
  obtain it b t' where fin: "insert_finish res = ((it, b), t')" by (metis prod.exhaust)
  have "btree_insert_start C k v t = Some ((it, b), t')" using None al res(1) fin by (simp add: insert_start_finish)
  then show ?thesis using insert_finish_ok [OF ok keys st res(2) fin] None
    by (auto simp: entries_while_def empty_root)
next
  case (Some n)
  note i = inv [unfolded btree_inv_def Some option.case]
  have keys: "keys_ok C (node_entries n)" and st: "m_stats (m_mem t) = stats_of n" and wf: "node_wf C True n"
    and ch: "chain_ok (m_mem t) ([] @ leaf_ids n @ [])" using i by simp_all
  obtain res where res: "btree_insert_descend C k v n (m_mem t) = Some res" "ins_result_ok C True k v n (m_mem t) [] [] res"
    using btree_insert_descend_ok [OF ok wf keys ch] by blast
  obtain it b t' where fin: "insert_finish res = ((it, b), t')" by (metis prod.exhaust)
  have "btree_insert_start C k v t = Some ((it, b), t')" using Some res(1) fin by (simp add: insert_start_finish)
  then show ?thesis using insert_finish_ok [OF ok keys st res(2) fin] btree_inv_root(5) [OF inv Some]
    by (auto simp: entries_while_def)
qed

lemma btree_new_inv: "btree_inv C btree_new" "btree_entries btree_new = []"
  by (simp_all add: btree_inv_def btree_new_def empty_mem_def btree_entries_def root_leaves_def)

fun insert_pairs :: "bool \<Rightarrow> ('k::linorder \<times> 'v) list \<Rightarrow> ('k \<times> 'v) list \<Rightarrow> ('k \<times> 'v) list" where
  "insert_pairs dup [] es = es"
| "insert_pairs dup ((k, v) # xs) es = insert_pairs dup xs (if dup \<or> k \<notin> fst ` set es then ins_list k v es else es)"

lemma insert_range_ok:
  assumes ok: "btree_class_ok C"
  shows "btree_inv C t \<Longrightarrow> \<exists>t'. btree_insert_range C xs t = Some t' \<and> btree_inv C t'
    \<and> btree_entries t' = insert_pairs (allow_duplicates C) xs (btree_entries t)"
proof (induction xs arbitrary: t)
  case (Cons x xs)
  obtain k v where x: "x = (k, v)" by fastforce
  obtain it b t1 where t1: "btree_insert_start C k v t = Some ((it, b), t1)" "btree_inv C t1"
    "b \<longleftrightarrow> allow_duplicates C \<or> k \<notin> fst ` set (btree_entries t)"
    "btree_entries t1 = (if b then ins_list k v (btree_entries t) else btree_entries t)"
    using insert_start_ok [OF ok Cons.prems] by blast
  show ?case using Cons.IH [OF t1(2)] t1 x by (simp add: btree_insert_pair_def)
qed simp

end
