(* ===== verification/Btree_Bulk.thy ===== *)
theory Btree_Bulk
  imports Btree_Insert_Ok
begin

text \<open>
  Bulk loading a sorted sequence: the items are spread evenly over the smallest number of leaves,
  the leaves over the smallest number of parents, and so on up to one root. The loop over the
  levels is a partial function; it is proved to end in a tree that satisfies the invariant.
\<close>

subsection \<open>The operations\<close>

fun bulk_leaves :: "nat \<Rightarrow> ('k \<times> 'v) list \<Rightarrow> tree_mem \<Rightarrow> ('k, 'v) bnode list \<times> tree_mem" where
  "bulk_leaves 0 data m = ([], m)"
| "bulk_leaves (Suc n) data m = (let u = length data div Suc n; (i, m1) = allocate_leaf m;
     m2 = (case m_tailleaf m1 of
             Some j \<Rightarrow> m1\<lparr>nextleaf := (nextleaf m1)(j := Some i), prevleaf := (prevleaf m1)(i := Some j)\<rparr>
           | None \<Rightarrow> m1\<lparr>m_headleaf := Some i\<rparr>);
     (ls, m4) = bulk_leaves n (drop u data) (m2\<lparr>m_tailleaf := Some i\<rparr>)
     in (Leaf i (take u data) # ls, m4))"

fun bulk_parents :: "nat \<Rightarrow> nat \<Rightarrow> (('k, 'v) bnode \<times> 'k) list \<Rightarrow> tree_mem
    \<Rightarrow> ((('k, 'v) bnode \<times> 'k) list \<times> tree_mem) option" where
  "bulk_parents l 0 xs m = Some ([], m)"
| "bulk_parents l (Suc n) xs m = (let u = length xs div Suc n; slotuse = u - 1 in
     if u = 0 then None
     else do { (ps, m') \<leftarrow> bulk_parents l n (drop u xs) (allocate_inner m);
       Some ((Inner l (map snd (take slotuse xs)) (map fst (take u xs)), snd (xs ! slotuse)) # ps, m') })"

partial_function (option) bulk_levels ::
  "'k btree_class \<Rightarrow> nat \<Rightarrow> (('k, 'v) bnode \<times> 'k) list \<Rightarrow> tree_mem \<Rightarrow> (('k, 'v) bnode \<times> tree_mem) option" where
  [code]: "bulk_levels C l xs m =
     (if length xs = 1 then Some (fst (xs ! 0), m)
      else do { (ps, m') \<leftarrow> bulk_parents l ((length xs + (innerslotmax C + 1) - 1) div (innerslotmax C + 1)) xs m;
        bulk_levels C (l + 1) ps m' })"

definition btree_bulk_load :: "'k btree_class \<Rightarrow> ('k \<times> 'v) list \<Rightarrow> ('k, 'v) btree \<Rightarrow> ('k, 'v) btree option" where
  "btree_bulk_load C data t = (let m0 = (m_mem t)\<lparr>m_stats := (m_stats (m_mem t))\<lparr>st_itemcount := length data\<rparr>\<rparr>;
     num_leaves = (length data + leafslotmax C - 1) div leafslotmax C;
     (ls, m1) = bulk_leaves num_leaves data m0
     in if m_headleaf m1 = m_tailleaf m1 then
          Some \<lparr>m_root = (case ls of [] \<Rightarrow> None | n # _ \<Rightarrow> Some n), m_mem = m1\<rparr>
        else do {
          (ps, m2) \<leftarrow> bulk_parents 1 ((num_leaves + (innerslotmax C + 1) - 1) div (innerslotmax C + 1))
             (map (\<lambda>n. (n, maxkey n)) ls) m1;
          (root, m3) \<leftarrow> bulk_levels C 2 ps m2;
          Some \<lparr>m_root = Some root, m_mem = m3\<rparr> })"

subsection \<open>Even spreading\<close>

definition spreads :: "nat \<Rightarrow> nat \<Rightarrow> nat \<Rightarrow> nat \<Rightarrow> bool" where
  "spreads lo hi k n \<longleftrightarrow> lo * k \<le> n \<and> n \<le> hi * k"

lemma spreads_step:
  assumes "spreads lo hi (Suc k) n"
  shows "lo \<le> n div Suc k" "n div Suc k \<le> hi" "n div Suc k \<le> n" "spreads lo hi k (n - n div Suc k)"
proof -
  let ?q = "n div Suc k" and ?r = "n mod Suc k"
  have n: "n = ?q * Suc k + ?r" "?r \<le> k" using div_mult_mod_eq [of n "Suc k"] by (simp_all add: mod_Suc_le_divisor)
  show lo: "lo \<le> ?q" using assms by (simp add: spreads_def less_eq_div_iff_mult_less_eq)
  have "?q * Suc k \<le> n" by (rule div_times_less_eq_dividend)
  then have "Suc k * ?q \<le> Suc k * hi" using assms by (simp only: spreads_def mult.commute) simp
  then show hi: "?q \<le> hi" by (simp only: Suc_mult_le_cancel1)
  show "?q \<le> n" by simp
  have d: "n - ?q = ?q * k + ?r" using n(1) by simp
  have "lo * k \<le> ?q * k" using lo by simp
  moreover have "?q * k + ?r \<le> hi * k"
  proof (cases "?q = hi")
    case True
    then have "?r = 0" using assms n(1) by (simp add: spreads_def)
    then show ?thesis using True by simp
  next
    case False
    then have "Suc ?q * k \<le> hi * k" using hi by (intro mult_le_mono1) simp
    then have "k + ?q * k \<le> hi * k" by simp
    then show ?thesis using n(2) by linarith
  qed
  ultimately show "spreads lo hi k (n - ?q)" unfolding spreads_def d by linarith
qed

lemma spreads_ceil:
  assumes "0 < hi" "k = (n + hi - 1) div hi"
  shows "n \<le> hi * k" "0 < n \<Longrightarrow> spreads 1 hi k n" "2 \<le> k \<Longrightarrow> 2 * lo \<le> hi + 1 \<Longrightarrow> spreads lo hi k n" "1 < n \<Longrightarrow> 1 < hi \<Longrightarrow> k < n"
    "0 < n \<Longrightarrow> 0 < k"
proof -
  have k: "hi * k \<le> n + hi - 1" "n + hi - 1 < hi * k + hi"
  proof -
    have "n + hi - 1 = k * hi + (n + hi - 1) mod hi" unfolding assms(2) by (rule div_mult_mod_eq [symmetric])
    moreover have "(n + hi - 1) mod hi < hi" using assms(1) by simp
    ultimately show "hi * k \<le> n + hi - 1" "n + hi - 1 < hi * k + hi" by (simp_all add: mult.commute)
  qed
  show 1: "n \<le> hi * k" using k(2) by linarith
  show pos: "0 < n \<Longrightarrow> 0 < k" using 1 by (cases k) auto
  show "0 < n \<Longrightarrow> spreads 1 hi k n"
  proof -
    assume n: "0 < n"
    then obtain j where j: "k = Suc j" using pos by (cases k) auto
    have "j \<le> hi * j" using assms(1) by (cases hi) simp_all
    moreover have "hi * j + hi \<le> n + hi - 1" using k(1) j by simp
    ultimately have "k \<le> n" using n j by linarith
    then show ?thesis using 1 by (simp add: spreads_def)
  qed
  show "2 \<le> k \<Longrightarrow> 2 * lo \<le> hi + 1 \<Longrightarrow> spreads lo hi k n"
  proof -
    assume "2 \<le> k" "2 * lo \<le> hi + 1"
    then obtain j where j: "k = Suc (Suc j)" by (metis add_2_eq_Suc le_iff_add)
    have "lo * j \<le> hi * j" using \<open>2 * lo \<le> hi + 1\<close> assms(1) by (intro mult_le_mono1) linarith
    moreover have "hi * j + hi + 1 \<le> n" using k(1) j assms(1) by (simp add: algebra_simps)
    moreover have "lo * k = lo * j + 2 * lo" using j by (simp add: algebra_simps)
    ultimately show ?thesis using 1 \<open>2 * lo \<le> hi + 1\<close> unfolding spreads_def by linarith
  qed
  show "1 < n \<Longrightarrow> 1 < hi \<Longrightarrow> k < n"
  proof (rule ccontr)
    assume n: "1 < n" and hi: "1 < hi" and "\<not> k < n"
    then have "hi * n \<le> n + hi - 1" using k(1) by (meson le_trans mult_le_mono2 not_less)
    moreover obtain a b where "n = Suc (Suc a)" "hi = Suc (Suc b)" using n hi by (metis Suc_lessE less_imp_Suc_add One_nat_def)
    ultimately show False by simp
  qed
qed

subsection \<open>The leaves\<close>

lemma bulk_leaves_ok:
  assumes "spreads lo (leafslotmax C) n (length data)" "0 < lo" "minleafslots C \<le> lo \<or> r"
    "chain_or_none m is"
    "bulk_leaves n data m = (ls, m')"
  shows "length ls = n \<and> (\<forall>c\<in>set ls. node_level c = 0 \<and> node_wf C r c) \<and> concat (map node_entries ls) = data
    \<and> (is @ concat (map leaf_ids ls) \<noteq> [] \<longrightarrow> chain_ok m' (is @ concat (map leaf_ids ls)))
    \<and> m_stats m' = (m_stats m)\<lparr>st_leaves := st_leaves (m_stats m) + n\<rparr>
    \<and> (\<Sum>c\<leftarrow>ls. length (tree_leaves c)) = n \<and> sum_list (map inner_count ls) = 0"
  using assms
proof (induction n arbitrary: data m "is" ls m')
  case 0
  then show ?case by (auto simp: spreads_def chain_or_none_def)
next
  case (Suc n)
  let ?u = "length data div Suc n"
  note sp = spreads_step [OF Suc.prems(1)]
  obtain i m1 where al: "allocate_leaf m = (i, m1)" by fastforce
  define m3 where "m3 = (case m_tailleaf m1 of
             Some j \<Rightarrow> m1\<lparr>nextleaf := (nextleaf m1)(j := Some i), prevleaf := (prevleaf m1)(i := Some j)\<rparr>
           | None \<Rightarrow> m1\<lparr>m_headleaf := Some i\<rparr>)\<lparr>m_tailleaf := Some i\<rparr>"
  obtain ls' m4 where rest: "bulk_leaves n (drop ?u data) m3 = (ls', m4)" by fastforce
  have ls: "ls = Leaf i (take ?u data) # ls'" "m' = m4"
    using Suc.prems(5) al rest by (simp_all add: m3_def Let_def)
  have i: "i = fresh_leaf m" "fresh_leaf m1 = Suc i" "m_headleaf m1 = m_headleaf m" "m_tailleaf m1 = m_tailleaf m"
    "nextleaf m1 = (nextleaf m)(i := None)" "prevleaf m1 = (prevleaf m)(i := None)"
    "m_stats m1 = (m_stats m)\<lparr>st_leaves := st_leaves (m_stats m) + 1\<rparr>"
    using al by (auto simp: allocate_leaf_def Let_def)
  have ch: "chain_ok m3 (is @ [i])"
    by (rule chain_appended [OF Suc.prems(4)]) (auto simp: leaf_appended_def m3_def i split: option.split)
  have st: "m_stats m3 = (m_stats m)\<lparr>st_leaves := st_leaves (m_stats m) + 1\<rparr>" using i by (simp add: m3_def split: option.split)
  have "length ls' = n \<and> (\<forall>c\<in>set ls'. node_level c = 0 \<and> node_wf C r c) \<and> concat (map node_entries ls') = drop ?u data
    \<and> ((is @ [i]) @ concat (map leaf_ids ls') \<noteq> [] \<longrightarrow> chain_ok m4 ((is @ [i]) @ concat (map leaf_ids ls')))
    \<and> m_stats m4 = (m_stats m3)\<lparr>st_leaves := st_leaves (m_stats m3) + n\<rparr>
    \<and> (\<Sum>c\<leftarrow>ls'. length (tree_leaves c)) = n \<and> sum_list (map inner_count ls') = 0"
    by (rule Suc.IH [OF _ Suc.prems(2,3) _ rest]) (use sp(4) ch in \<open>simp_all add: chain_or_none_def\<close>)
  moreover have "node_wf C r (Leaf i (take ?u data))" using sp(1,2) Suc.prems(2,3) by auto
  ultimately show ?case using ls st by simp
qed

subsection \<open>The inner levels\<close>

definition level_ok :: "'k btree_class \<Rightarrow> bool \<Rightarrow> nat \<Rightarrow> (('k, 'v) bnode \<times> 'k) list \<Rightarrow> bool" where
  "level_ok C r l xs \<longleftrightarrow> (\<forall>(c, key)\<in>set xs. Suc (node_level c) = l \<and> node_wf C r c \<and> key = maxkey c)"

definition level_leaves :: "(('k, 'v) bnode \<times> 'k) list \<Rightarrow> (nat \<times> ('k \<times> 'v) list) list" where
  "level_leaves xs = concat (map tree_leaves (map fst xs))"

definition level_inners :: "(('k, 'v) bnode \<times> 'k) list \<Rightarrow> nat" where
  "level_inners xs = sum_list (map inner_count (map fst xs))"

definition add_inners :: "nat \<Rightarrow> tree_mem \<Rightarrow> tree_mem" where
  "add_inners n m = m\<lparr>m_stats := (m_stats m)\<lparr>st_innernodes := st_innernodes (m_stats m) + n\<rparr>\<rparr>"

lemma add_inners_simps [simp]:
  "add_inners 0 m = m" "add_inners a (add_inners b m) = add_inners (b + a) m" "allocate_inner m = add_inners 1 m"
  by (simp_all add: add_inners_def allocate_inner_def add.assoc)

lemma chain_ok_add_inners [simp]: "chain_ok (add_inners n m) = chain_ok m"
  by (rule ext, rule chain_ok_cong) (simp_all add: add_inners_def)

lemma bulk_group_ok:
  assumes xs: "level_ok C False l xs" and u: "u \<le> length xs" "2 \<le> u" "u \<le> innerslotmax C + 1" "r \<or> mininnerslots C \<le> u - 1"
  defines "n \<equiv> Inner l (map snd (take (u - 1) xs)) (map fst (take u xs))"
  shows "node_level n = l \<and> node_wf C r n \<and> snd (xs ! (u - 1)) = maxkey n
    \<and> tree_leaves n = level_leaves (take u xs) \<and> inner_count n = Suc (level_inners (take u xs))"
proof -
  have nth: "i < length xs \<Longrightarrow> Suc (node_level (fst (xs ! i))) = l \<and> node_wf C False (fst (xs ! i)) \<and> snd (xs ! i) = maxkey (fst (xs ! i))" for i
    using xs nth_mem [of i xs] by (cases "xs ! i") (force simp: level_ok_def)
  have bl: "butlast (map fst (take u xs)) = map fst (take (u - 1) xs)" using u by (simp add: map_butlast [symmetric] butlast_take)
  have keys: "map snd (take (u - 1) xs) = map maxkey (butlast (map fst (take u xs)))"
    unfolding bl by (rule nth_equalityI) (use u nth in auto)
  have ch: "\<forall>c\<in>set (map fst (take u xs)). Suc (node_level c) = l \<and> node_wf C False c"
    using xs by (fastforce simp: level_ok_def dest: in_set_takeD)
  have wf: "node_wf C r n" unfolding n_def node_wf_children children_ok_def using keys ch u by auto
  have tk: "take u xs = take (u - 1) xs @ [xs ! (u - 1)]" using u take_Suc_conv_app_nth [of "u - 1" xs] by (simp add: Suc_diff_Suc numeral_2_eq_2)
  then have lst: "map fst (take u xs) \<noteq> []" "last (map fst (take u xs)) = fst (xs ! (u - 1))" by simp_all
  have "node_wf C False (fst (xs ! (u - 1)))" using nth [of "u - 1"] u by simp
  then have "maxkey n = maxkey (fst (xs ! (u - 1)))"
    unfolding n_def using maxkey_Inner [OF lst(1)] lst(2) node_wf_nonempty by metis
  then show ?thesis using wf nth [of "u - 1"] u
    by (auto simp: n_def level_leaves_def level_inners_def)
qed

lemma bulk_parents_ok:
  assumes "spreads lo (innerslotmax C + 1) n (length xs)" "2 \<le> lo" "r \<or> mininnerslots C \<le> lo - 1" "level_ok C False l xs"
  shows "\<exists>ps. bulk_parents l n xs m = Some (ps, add_inners n m) \<and> length ps = n \<and> level_ok C r (Suc l) ps
    \<and> level_leaves ps = level_leaves xs \<and> level_inners ps = level_inners xs + n"
  using assms
proof (induction n arbitrary: xs m)
  case 0
  then show ?case by (simp add: spreads_def level_ok_def level_leaves_def level_inners_def)
next
  case (Suc n)
  let ?u = "length xs div Suc n"
  note sp = spreads_step [OF Suc.prems(1)]
  have u: "?u \<le> length xs" "2 \<le> ?u" "?u \<le> innerslotmax C + 1" "r \<or> mininnerslots C \<le> ?u - 1"
    using sp(1-3) Suc.prems(2,3) by auto
  let ?n = "Inner l (map snd (take (?u - 1) xs)) (map fst (take ?u xs))"
  note g = bulk_group_ok [OF Suc.prems(4) u]
  have "level_ok C False l (drop ?u xs)" using Suc.prems(4) by (auto simp: level_ok_def dest: in_set_dropD)
  then obtain ps where ps: "bulk_parents l n (drop ?u xs) (allocate_inner m) = Some (ps, add_inners n (allocate_inner m))" "length ps = n"
    "level_ok C r (Suc l) ps" "level_leaves ps = level_leaves (drop ?u xs)" "level_inners ps = level_inners (drop ?u xs) + n"
    using Suc.IH [of "drop ?u xs" "allocate_inner m"] sp(4) Suc.prems(2,3) by auto
  have run: "bulk_parents l (Suc n) xs m = Some ((?n, snd (xs ! (?u - 1))) # ps, add_inners (Suc n) m)"
    using ps(1) u(2) by (simp add: Let_def)
  have "level_leaves xs = level_leaves (take ?u xs) @ level_leaves (drop ?u xs)"
    "level_inners xs = level_inners (take ?u xs) + level_inners (drop ?u xs)"
    unfolding level_leaves_def level_inners_def
    by (metis append_take_drop_id concat_append map_append, metis append_take_drop_id sum_list_append map_append)
  moreover have "level_leaves ((?n, snd (xs ! (?u - 1))) # ps) = tree_leaves ?n @ level_leaves ps"
    "level_inners ((?n, snd (xs ! (?u - 1))) # ps) = inner_count ?n + level_inners ps"
    by (simp_all add: level_leaves_def level_inners_def)
  moreover have "level_ok C r (Suc l) ((?n, snd (xs ! (?u - 1))) # ps)"
    using g ps(3) by (simp add: level_ok_def del: node_wf.simps)
  ultimately show ?case using run g ps(2,4,5) by auto
qed

text \<open>One level: the number of parents the code computes, and what it builds.\<close>

lemma bulk_level_ok:
  assumes ok: "btree_class_ok C" and xs: "level_ok C False l xs" "1 < length xs"
  defines "np \<equiv> (length xs + (innerslotmax C + 1) - 1) div (innerslotmax C + 1)"
  shows "\<exists>ps. bulk_parents l np xs m = Some (ps, add_inners np m) \<and> length ps = np \<and> 0 < np \<and> np < length xs
    \<and> level_ok C (np = 1) (Suc l) ps \<and> level_leaves ps = level_leaves xs \<and> level_inners ps = level_inners xs + np"
proof -
  note I = btree_class_okD(3) [OF ok]
  have hi: "0 < innerslotmax C + 1" "1 < innerslotmax C + 1" using I by simp_all
  note c = spreads_ceil [OF hi(1) np_def [THEN meta_eq_to_obj_eq]]
  have n: "0 < length xs" using xs(2) by linarith
  have np: "0 < np" "np < length xs" using c(5) [OF n] c(4) [OF xs(2) hi(2)] by simp_all
  show ?thesis
  proof (cases "np = 1")
    case True
    then have "spreads 2 (innerslotmax C + 1) np (length xs)" using c(1) xs(2) by (simp add: spreads_def)
    from bulk_parents_ok [OF this _ _ xs(1), of True] show ?thesis using np True by auto
  next
    case False
    let ?lo = "mininnerslots C + 1"
    have "spreads ?lo (innerslotmax C + 1) np (length xs)" using np False by (intro c(3)) (auto simp: mininnerslots_def)
    moreover have "2 \<le> ?lo" using I by (auto simp: mininnerslots_def)
    ultimately show ?thesis using bulk_parents_ok [of ?lo C np xs False l m] xs(1) np False by auto
  qed
qed

lemma bulk_levels_ok:
  assumes ok: "btree_class_ok C"
  shows "xs \<noteq> [] \<Longrightarrow> level_ok C (length xs = 1) l xs \<Longrightarrow> \<exists>root k. bulk_levels C l xs m = Some (root, add_inners k m)
    \<and> node_wf C True root \<and> tree_leaves root = level_leaves xs \<and> inner_count root = level_inners xs + k"
proof (induction "length xs" arbitrary: xs l m rule: less_induct)
  case less
  show ?case
  proof (cases "length xs = 1")
    case True
    then obtain c key where "xs = [(c, key)]" by (cases xs) auto
    then show ?thesis using less.prems(2)
      by (subst bulk_levels.simps) (auto simp: level_ok_def level_leaves_def level_inners_def intro: exI [of _ 0])
  next
    case False
    then have gt: "1 < length xs" using less.prems(1) by (cases xs) auto
    let ?np = "(length xs + (innerslotmax C + 1) - 1) div (innerslotmax C + 1)"
    have lv: "level_ok C False l xs" using less.prems(2) False by simp
    obtain ps where ps: "bulk_parents l ?np xs m = Some (ps, add_inners ?np m)" "length ps = ?np" "0 < ?np" "?np < length xs"
      "level_ok C (?np = 1) (Suc l) ps" "level_leaves ps = level_leaves xs" "level_inners ps = level_inners xs + ?np"
      using bulk_level_ok [OF ok lv gt, of m] by blast
    have "ps \<noteq> []" "length ps < length xs" "level_ok C (length ps = 1) (Suc l) ps" using ps(2-5) by auto
    from less.hyps [OF this(2,1,3), of "add_inners ?np m"] obtain root k where
      r: "bulk_levels C (Suc l) ps (add_inners ?np m) = Some (root, add_inners k (add_inners ?np m))" "node_wf C True root"
      "tree_leaves root = level_leaves ps" "inner_count root = level_inners ps + k" by blast
    have "bulk_levels C l xs m = Some (root, add_inners (?np + k) m)"
      by (subst bulk_levels.simps) (use ps(1) r(1) False in simp)
    then show ?thesis using r ps(6,7) by (intro exI [of _ root] exI [of _ "?np + k"]) simp
  qed
qed

subsection \<open>Bulk loading\<close>

lemma tree_leaves_entries: "node_entries n = concat (map snd (tree_leaves n))" "leaf_ids n = map fst (tree_leaves n)"
  by (simp_all add: node_entries_def leaf_ids_def)

lemma maxkey_pairs:
  assumes "\<forall>c\<in>set ls. node_level c = l \<and> node_wf C r c"
  shows "level_ok C r (Suc l) (map (\<lambda>n. (n, maxkey n)) ls)" "level_leaves (map (\<lambda>n. (n, maxkey n)) ls) = concat (map tree_leaves ls)"
    "level_inners (map (\<lambda>n. (n, maxkey n)) ls) = sum_list (map inner_count ls)"
  using assms by (auto simp: level_ok_def level_leaves_def level_inners_def o_def)

theorem bulk_load_ok:
  assumes ok: "btree_class_ok C" and inv: "btree_inv C t" "m_root t = None" and data: "keys_ok C data"
  shows "\<exists>t'. btree_bulk_load C data t = Some t' \<and> btree_inv C t' \<and> btree_entries t' = data"
proof -
  let ?L = "leafslotmax C" and ?n = "(length data + leafslotmax C - 1) div leafslotmax C"
  let ?m0 = "(m_mem t)\<lparr>m_stats := (m_stats (m_mem t))\<lparr>st_itemcount := length data\<rparr>\<rparr>"
  note ok' = btree_class_okD [OF ok]
  have L: "0 < ?L" using ok'(4) by simp
  note c = spreads_ceil [OF L refl [of ?n]]
  have head: "m_headleaf (m_mem t) = None" "m_tailleaf (m_mem t) = None" "m_stats (m_mem t) = empty_stats"
    using inv by (simp_all add: btree_inv_def)
  obtain ls m1 where ls: "bulk_leaves ?n data ?m0 = (ls, m1)" by fastforce
  show ?thesis
  proof (cases "data = []")
    case True
    then have "btree_bulk_load C data t = Some \<lparr>m_root = None, m_mem = ?m0\<rparr>"
      using head L by (simp add: btree_bulk_load_def Let_def)
    then show ?thesis using True head by (auto simp: btree_inv_def empty_stats_def btree_entries_def root_leaves_def)
  next
    case False
    let ?r = "?n = 1" and ?lo = "if ?n = 1 then 1 else minleafslots C"
    have pos: "0 < ?n" using c(5) False by simp
    have lo: "0 < ?lo" "minleafslots C \<le> ?lo \<or> ?r" using ok'(4) by (auto simp: minleafslots_def)
    have sp: "spreads ?lo ?L ?n (length data)"
    proof (cases "?n = 1")
      case True
      then show ?thesis using c(2) False by simp
    next
      case ne: False
      have "spreads (minleafslots C) ?L ?n (length data)" using pos ne by (intro c(3)) (auto simp: minleafslots_def)
      then show ?thesis using ne by simp
    qed
    have l: "length ls = ?n" "\<forall>c\<in>set ls. node_level c = 0 \<and> node_wf C ?r c" "concat (map node_entries ls) = data"
      "concat (map leaf_ids ls) \<noteq> [] \<longrightarrow> chain_ok m1 (concat (map leaf_ids ls))"
      "m_stats m1 = (m_stats ?m0)\<lparr>st_leaves := st_leaves (m_stats ?m0) + ?n\<rparr>"
      "(\<Sum>c\<leftarrow>ls. length (tree_leaves c)) = ?n" "sum_list (map inner_count ls) = 0"
      using bulk_leaves_ok [OF sp lo _ ls, of "[]"] head by (auto simp: chain_or_none_def)
    have stats: "m_stats m1 = \<lparr>st_itemcount = length data, st_leaves = ?n, st_innernodes = 0\<rparr>"
      using l(5) head(3) by (simp add: empty_stats_def)
    have ids: "length (concat (map leaf_ids ls)) = ?n" using l(6) by (simp add: length_concat length_leaf_ids o_def)
    then have ch: "chain_ok m1 (concat (map leaf_ids ls))" using l(4) pos by (metis list.size(3) less_irrefl)
    have finish: "btree_inv C \<lparr>m_root = Some root, m_mem = add_inners k m1\<rparr> \<and> btree_entries \<lparr>m_root = Some root, m_mem = add_inners k m1\<rparr> = data"
      if r: "node_wf C True root" "tree_leaves root = concat (map tree_leaves ls)" "inner_count root = k" for root k
    proof -
      have "node_entries root = data" using r(2) l(3) entries_of_leaves [of ls] by (simp add: tree_leaves_entries(1))
      moreover have "leaf_ids root = concat (map leaf_ids ls)" using r(2) by (simp add: tree_leaves_entries(2) [abs_def] map_concat o_def)
      moreover have "length (tree_leaves root) = ?n" using r(2) l(6) by (simp add: length_concat o_def)
      ultimately show ?thesis using r(1,3) ch data stats
        by (simp add: btree_inv_def btree_entries_def root_leaves_def stats_of_def add_inners_def tree_leaves_entries(1) chain_ok_cong [of "m1\<lparr>m_stats := _\<rparr>" m1])
    qed
    have ht: "m_headleaf m1 = m_tailleaf m1 \<longleftrightarrow> ?n = 1"
    proof -
      have "m_headleaf m1 = Some (hd (concat (map leaf_ids ls)))" "m_tailleaf m1 = Some (last (concat (map leaf_ids ls)))"
        "distinct (concat (map leaf_ids ls))" using ch by (simp_all add: chain_ok_def)
      then show ?thesis using ids pos
        by (cases "concat (map leaf_ids ls)" rule: list_cases3) (auto simp: last_conv_nth)
    qed
    show ?thesis
    proof (cases "?n = 1")
      case True
      then obtain n where n: "ls = [n]" using l(1) by (cases ls) auto
      then have "btree_bulk_load C data t = Some \<lparr>m_root = Some n, m_mem = add_inners 0 m1\<rparr>"
        using ls ht True by (simp add: btree_bulk_load_def Let_def)
      then show ?thesis using finish [of n 0] l(2,7) n True by simp
    next
      case False
      let ?xs = "map (\<lambda>n. (n, maxkey n)) ls"
      have lv: "level_ok C False 1 ?xs" using maxkey_pairs(1) [of ls 0 C False] l(2) False by simp
      have gt: "1 < length ?xs" using False pos l(1) by simp
      let ?np = "(length ?xs + (innerslotmax C + 1) - 1) div (innerslotmax C + 1)"
      obtain ps where ps: "bulk_parents 1 ?np ?xs m1 = Some (ps, add_inners ?np m1)" "length ps = ?np" "0 < ?np"
        "level_ok C (?np = 1) (Suc 1) ps" "level_leaves ps = level_leaves ?xs" "level_inners ps = level_inners ?xs + ?np"
        using bulk_level_ok [OF ok lv gt, of m1] by blast
      have ne: "ps \<noteq> []" and lvp: "level_ok C (length ps = 1) 2 ps" using ps(2,3,4) by (auto simp: numeral_2_eq_2)
      obtain root k where r: "bulk_levels C 2 ps (add_inners ?np m1) = Some (root, add_inners k (add_inners ?np m1))" "node_wf C True root"
        "tree_leaves root = level_leaves ps" "inner_count root = level_inners ps + k"
        using bulk_levels_ok [OF ok ne lvp] by blast
      have np: "?np = (?n + (innerslotmax C + 1) - 1) div (innerslotmax C + 1)" using l(1) by simp
      have "btree_bulk_load C data t = Some \<lparr>m_root = Some root, m_mem = add_inners (?np + k) m1\<rparr>"
        using ls ht False ps(1) [unfolded np] r(1) [unfolded np] unfolding np by (simp add: btree_bulk_load_def Let_def)
      moreover have "tree_leaves root = concat (map tree_leaves ls)" "inner_count root = ?np + k"
        using r(3,4) ps(5,6) maxkey_pairs(2,3) [OF l(2)] l(7) by simp_all
      ultimately show ?thesis using finish [OF r(2)] by simp
    qed
  qed
qed

end
