(* ===== verification/Btree_Verify.thy ===== *)
theory Btree_Verify
  imports Btree_Search
begin

text \<open>
  The self-check \<open>verify()\<close> of the B+ tree. A failed assertion, and a walk along the leaves
  that does not end, is the value \<open>None\<close>. It is proved to accept every tree that satisfies the
  invariant and holds fewer than 2 to the 32 pairs: the counter of \<open>verify_leaflinks\<close> is an
  \<open>unsigned int\<close>.
\<close>

definition assert_that :: "bool \<Rightarrow> unit option" where
  "assert_that b = (if b then Some () else None)"

lemma assert_that_simps [simp]: "assert_that True = Some ()" "assert_that False = None" "assert_that b = Some u \<longleftrightarrow> b"
  by (simp_all add: assert_that_def)

fun keys_ascending :: "'k::linorder list \<Rightarrow> bool" where
  "keys_ascending (x # y # ys) \<longleftrightarrow> \<not> y < x \<and> keys_ascending (y # ys)"
| "keys_ascending xs \<longleftrightarrow> True"

definition linked :: "tree_mem \<Rightarrow> nat option \<Rightarrow> nat option \<Rightarrow> bool" where
  "linked m a b \<longleftrightarrow> (case (a, b) of (Some i, Some j) \<Rightarrow> nextleaf m i = Some j \<and> prevleaf m j = Some i | _ \<Rightarrow> False)"

fun leaf_ref :: "('k, 'v) bnode \<Rightarrow> nat option" where
  "leaf_ref (Leaf i es) = Some i"
| "leaf_ref (Inner l ks cs) = None"

fun first_leaf_below :: "('k, 'v) bnode \<Rightarrow> nat option" where
  "first_leaf_below (Inner l ks (c # cs)) = leaf_ref c"
| "first_leaf_below n = None"

fun last_leaf_below :: "('k, 'v) bnode \<Rightarrow> nat option" where
  "last_leaf_below (Inner l ks cs) = (if length ks < length cs then leaf_ref (cs ! length ks) else None)"
| "last_leaf_below (Leaf i es) = None"

text \<open>The links checked between two neighbouring children of a node of level one or two\<close>

definition links_between :: "tree_mem \<Rightarrow> nat \<Rightarrow> ('k, 'v) bnode \<Rightarrow> ('k, 'v) bnode \<Rightarrow> bool" where
  "links_between m l a b \<longleftrightarrow> (l = 1 \<longrightarrow> linked m (leaf_ref a) (leaf_ref b))
     \<and> (l = 2 \<longrightarrow> linked m (last_leaf_below a) (first_leaf_below b))"

fun verify_node :: "'k::linorder btree_class \<Rightarrow> tree_mem \<Rightarrow> bool \<Rightarrow> ('k, 'v) bnode \<Rightarrow> tree_stats \<Rightarrow> ('k \<times> 'k \<times> tree_stats) option"
  and verify_children :: "'k btree_class \<Rightarrow> tree_mem \<Rightarrow> nat \<Rightarrow> 'k option \<Rightarrow> 'k list \<Rightarrow> ('k, 'v) bnode list \<Rightarrow> tree_stats
    \<Rightarrow> ('k \<times> 'k \<times> tree_stats) option" where
  "verify_node C m is_root (Leaf i es) vs = do {
     assert_that (is_root \<or> \<not> node_isunderflow C (Leaf i es));
     assert_that (0 < length es);
     assert_that (keys_ascending (map fst es));
     Some (fst (es ! 0), fst (es ! (length es - 1)),
       vs\<lparr>st_leaves := st_leaves vs + 1, st_itemcount := st_itemcount vs + length es\<rparr>) }"
| "verify_node C m is_root (Inner l ks cs) vs = do {
     assert_that (is_root \<or> \<not> node_isunderflow C (Inner l ks cs));
     assert_that (0 < length ks);
     assert_that (keys_ascending ks);
     verify_children C m l None ks cs (vs\<lparr>st_innernodes := st_innernodes vs + 1\<rparr>) }"
| "verify_children C m l prev ks [] vs = None"
| "verify_children C m l prev ks (c # cs) vs = do {
     assert_that (node_level c + 1 = l);
     (submin, submax, vs') \<leftarrow> verify_node C m False c vs;
     assert_that (case prev of None \<Rightarrow> True | Some k \<Rightarrow> \<not> submin < k);
     (case ks of [] \<Rightarrow> Some (submin, submax, vs')
      | k # ks' \<Rightarrow> do {
          assert_that (\<not> k < submax \<and> \<not> submax < k);
          assert_that (case cs of [] \<Rightarrow> False | d # _ \<Rightarrow> links_between m l c d);
          (mn, mx, vs'') \<leftarrow> verify_children C m l (Some k) ks' cs vs';
          Some (submin, mx, vs'') }) }"

partial_function (option) verify_leaves :: "('k::linorder, 'v) btree \<Rightarrow> nat option \<Rightarrow> 32 word \<Rightarrow> 32 word option" where
  [code]: "verify_leaves t n testcount = (case n of None \<Rightarrow> Some testcount
     | Some i \<Rightarrow> do { es \<leftarrow> leaf_at t i;
         assert_that (0 < length es);
         assert_that (keys_ascending (map fst es));
         (case nextleaf (m_mem t) i of
            Some j \<Rightarrow> do { fs \<leftarrow> leaf_at t j; assert_that (fs \<noteq> [] \<and> \<not> fst (fs ! 0) < fst (es ! (length es - 1)));
              assert_that (prevleaf (m_mem t) j = Some i) }
          | None \<Rightarrow> assert_that (m_tailleaf (m_mem t) = Some i));
         verify_leaves t (nextleaf (m_mem t) i) (testcount + of_nat (length es)) })"

definition verify_leaflinks :: "('k::linorder, 'v) btree \<Rightarrow> unit option" where
  "verify_leaflinks t = do { i \<leftarrow> m_headleaf (m_mem t);
     assert_that (prevleaf (m_mem t) i = None);
     testcount \<leftarrow> verify_leaves t (Some i) 0;
     assert_that (unat testcount = st_itemcount (m_stats (m_mem t))) }"

definition btree_verify :: "'k::linorder btree_class \<Rightarrow> ('k, 'v) btree \<Rightarrow> unit option" where
  "btree_verify C t = (case m_root t of None \<Rightarrow> Some ()
     | Some n \<Rightarrow> do { (minkey, maxkey, vs) \<leftarrow> verify_node C (m_mem t) True n empty_stats;
         assert_that (st_itemcount vs = st_itemcount (m_stats (m_mem t)));
         assert_that (st_leaves vs = st_leaves (m_stats (m_mem t)));
         assert_that (st_innernodes vs = st_innernodes (m_stats (m_mem t)));
         verify_leaflinks t })"

subsection \<open>The check of the nodes\<close>

definition add_stats :: "tree_stats \<Rightarrow> nat \<Rightarrow> nat \<Rightarrow> nat \<Rightarrow> tree_stats" where
  "add_stats vs i l n = \<lparr>st_itemcount = st_itemcount vs + i, st_leaves = st_leaves vs + l, st_innernodes = st_innernodes vs + n\<rparr>"

lemma add_stats_simps [simp]:
  "add_stats (add_stats vs a b c) i l n = add_stats vs (a + i) (b + l) (c + n)"
  "vs\<lparr>st_innernodes := Suc (st_innernodes vs)\<rparr> = add_stats vs 0 0 1"
  "vs\<lparr>st_leaves := Suc (st_leaves vs), st_itemcount := st_itemcount vs + k\<rparr> = add_stats vs k 1 0"
  "st_itemcount (add_stats vs i l n) = st_itemcount vs + i" "st_leaves (add_stats vs i l n) = st_leaves vs + l"
  "st_innernodes (add_stats vs i l n) = st_innernodes vs + n"
  by (simp_all add: add_stats_def)

lemma keys_ascending_sorted: "sorted xs \<Longrightarrow> keys_ascending xs"
  by (induction xs rule: keys_ascending.induct) auto

definition links_in :: "tree_mem \<Rightarrow> nat list \<Rightarrow> bool" where
  "links_in m is \<longleftrightarrow> (\<forall>xs i j ys. is = xs @ i # j # ys \<longrightarrow> nextleaf m i = Some j \<and> prevleaf m j = Some i)"

lemma links_in_append: "links_in m (xs @ is @ ys) \<Longrightarrow> links_in m is"
  unfolding links_in_def by (metis append.assoc append_Cons)

lemma chain_ok_links: "chain_ok m is \<Longrightarrow> links_in m is"
  unfolding links_in_def by (auto simp: chain_ok_def chain_seg_append split: if_splits)

lemma links_inD: "links_in m (xs @ i # j # ys) \<Longrightarrow> linked m (Some i) (Some j)"
  unfolding links_in_def linked_def by (simp only: prod.case option.case)

lemma level_zero:
  assumes "node_wf C r n" "node_level n = 0"
  obtains i es where "n = Leaf i es"
proof (cases n)
  case (Inner l ks cs)
  then have "cs \<noteq> []" "\<forall>c\<in>set cs. Suc (node_level c) = 0" using assms by auto
  then show thesis by (cases cs) auto
qed (use that in auto)

lemma links_between_ok:
  assumes links: "links_in m (leaf_ids c @ leaf_ids d @ is)" and wf: "node_wf C r c" "node_wf C r d"
    and lv: "Suc (node_level c) = l" "Suc (node_level d) = l"
  shows "links_between m l c d"
proof -
  have 1: "linked m (leaf_ref c) (leaf_ref d)" if "l = 1"
  proof -
    have lv0: "node_level c = 0" "node_level d = 0" using that lv by simp_all
    obtain i es where "c = Leaf i es" using level_zero [OF wf(1) lv0(1)] by blast
    moreover obtain j fs where "d = Leaf j fs" using level_zero [OF wf(2) lv0(2)] by blast
    ultimately show ?thesis using links_inD [of m "[]" i j "is"] links by simp
  qed
  have 2: "linked m (last_leaf_below c) (first_leaf_below d)" if l2: "l = 2"
  proof -
    obtain lc ks cs where c: "c = Inner lc ks cs" using lv(1) l2 by (cases c) auto
    obtain ld qs ds where d: "d = Inner ld qs ds" using lv(2) l2 by (cases d) auto
    have len: "length cs = Suc (length ks)" "length ds = Suc (length qs)" using node_wf_length wf c d by blast+
    obtain as a where a: "cs = as @ [a]" "length as = length ks" using len(1) by (cases cs rule: rev_cases) auto
    obtain b bs where b: "ds = b # bs" using len(2) by (cases ds) auto
    have lab: "node_wf C False a" "node_wf C False b" "node_level a = 0" "node_level b = 0"
      using wf lv l2 unfolding c d a b by simp_all
    obtain i es where i: "a = Leaf i es" by (rule level_zero [OF lab(1,3)])
    obtain j fs where j: "b = Leaf j fs" by (rule level_zero [OF lab(2,4)])
    have "leaf_ids c @ leaf_ids d @ is = concat (map leaf_ids as) @ i # j # concat (map leaf_ids bs) @ is" using c d a b i j by simp
    then have "linked m (Some i) (Some j)" using links links_inD by metis
    then show ?thesis using c d a b i j by (simp add: nth_append)
  qed
  show ?thesis using 1 2 by (simp add: links_between_def)
qed

lemma verify_nodes_ok:
  fixes C :: "'k::linorder btree_class" and n :: "('k, 'v) bnode" and cs :: "('k, 'v) bnode list"
  shows "node_wf C r n \<Longrightarrow> sorted (map fst (node_entries n)) \<Longrightarrow> links_in m (leaf_ids n)
      \<Longrightarrow> verify_node C m r n vs = Some (fst (hd (node_entries n)), maxkey n,
        add_stats vs (length (node_entries n)) (length (tree_leaves n)) (inner_count n))"
    and "cs \<noteq> [] \<Longrightarrow> ks = map maxkey (butlast cs) \<Longrightarrow> \<forall>c\<in>set cs. Suc (node_level c) = l \<and> node_wf C False c
      \<Longrightarrow> sorted (map fst (concat (map node_entries cs))) \<Longrightarrow> links_in m (concat (map leaf_ids cs))
      \<Longrightarrow> (\<forall>k. prev = Some k \<longrightarrow> (\<forall>e\<in>set (concat (map node_entries cs)). k \<le> fst e))
      \<Longrightarrow> verify_children C m l prev ks cs vs = Some (fst (hd (concat (map node_entries cs))), maxkey (Inner l ks cs),
        add_stats vs (length (concat (map node_entries cs))) (\<Sum>c\<leftarrow>cs. length (tree_leaves c)) (\<Sum>c\<leftarrow>cs. inner_count c))"
proof (induction C m r n vs and C m l prev ks cs vs rule: verify_node_verify_children.induct)
  case (1 C m r i es vs)
  then show ?case by (auto simp: keys_ascending_sorted maxkey_def hd_conv_nth last_conv_nth not_less)
next
  case (2 C m r l ks cs vs)
  have ch: "cs \<noteq> []" "ks = map maxkey (butlast cs)" "\<forall>c\<in>set cs. Suc (node_level c) = l \<and> node_wf C False c" using "2.prems"(1) by auto
  have "keys_ascending ks" using node_wf_separators "2.prems"(1,2) keys_ascending_sorted by blast
  moreover have "ks \<noteq> []" "r \<or> mininnerslots C \<le> length ks" using "2.prems"(1) unfolding node_wf.simps by blast+
  then have "0 < length ks" "r \<or> \<not> node_isunderflow C (Inner l ks cs)" by auto
  moreover have "verify_children C m l None ks cs (add_stats vs 0 0 1) = Some (fst (hd (concat (map node_entries cs))), maxkey (Inner l ks cs),
      add_stats (add_stats vs 0 0 1) (length (concat (map node_entries cs))) (\<Sum>c\<leftarrow>cs. length (tree_leaves c)) (\<Sum>c\<leftarrow>cs. inner_count c))"
    using "2.IH" ch "2.prems" calculation by simp
  ultimately show ?case by (simp add: length_concat o_def)
next
  case (4 C m l prev ks c cs vs)
  have wf: "node_wf C False c" "Suc (node_level c) = l" using "4.prems"(3) by simp_all
  have ne: "node_entries c \<noteq> []" using node_wf_nonempty [OF wf(1)] .
  have sorted: "sorted (map fst (node_entries c))" "sorted (map fst (concat (map node_entries cs)))"
    "\<forall>x\<in>set (node_entries c). \<forall>y\<in>set (concat (map node_entries cs)). fst x \<le> fst y"
    using "4.prems"(4) by (auto simp: sorted_append)
  have links: "links_in m (leaf_ids c)" "links_in m (concat (map leaf_ids cs))"
    using "4.prems"(5) links_in_append [of m "[]" "leaf_ids c"] links_in_append [of m "leaf_ids c" "concat (map leaf_ids cs)" "[]"] by simp_all
  have sub: "verify_node C m False c vs = Some (fst (hd (node_entries c)), maxkey c,
      add_stats vs (length (node_entries c)) (length (tree_leaves c)) (inner_count c))"
    by (rule "4.IH"(1)) (use wf sorted links in auto)
  have prev: "case prev of None \<Rightarrow> True | Some k \<Rightarrow> \<not> fst (hd (node_entries c)) < k"
    using "4.prems"(6) hd_in_set [OF ne] by (auto simp: not_less split: option.split)
  show ?case
  proof (cases cs)
    case Nil
    then have "ks = []" using "4.prems"(2) by simp
    then show ?thesis using sub prev wf(2) Nil ne by (simp add: maxkey_def)
  next
    case (Cons d ds)
    then have ks: "ks = maxkey c # map maxkey (butlast cs)" using "4.prems"(2) by simp
    have d: "node_wf C False d" "Suc (node_level d) = l" using "4.prems"(3) Cons by simp_all
    have lb: "links_between m l c d"
      using links_between_ok [OF _ wf(1) d(1) wf(2) d(2), of m "concat (map leaf_ids ds)"] "4.prems"(5) Cons by simp
    then have lbc: "(case cs of [] \<Rightarrow> False | d # _ \<Rightarrow> links_between m l c d) = True" using Cons by simp
    have "\<forall>e\<in>set (concat (map node_entries cs)). maxkey c \<le> fst e" using sorted(3) last_in_set [OF ne] by (auto simp: maxkey_def)
    then have rest: "verify_children C m l (Some (maxkey c)) (map maxkey (butlast cs)) cs (add_stats vs (length (node_entries c)) (length (tree_leaves c)) (inner_count c))
      = Some (fst (hd (concat (map node_entries cs))), maxkey (Inner l (map maxkey (butlast cs)) cs),
        add_stats (add_stats vs (length (node_entries c)) (length (tree_leaves c)) (inner_count c))
          (length (concat (map node_entries cs))) (\<Sum>c\<leftarrow>cs. length (tree_leaves c)) (\<Sum>c\<leftarrow>cs. inner_count c))"
      using "4.IH"(2) sub prev wf(2) lb ks Cons sorted(2) links(2) "4.prems"(3) by auto
    have "concat (map node_entries cs) \<noteq> []" using node_wf_nonempty [OF d(1)] Cons by simp
    then have "maxkey (Inner l ks (c # cs)) = maxkey (Inner l (map maxkey (butlast cs)) cs)" by (simp add: maxkey_def)
    then show ?thesis using sub prev wf(2) lbc ks rest ne by simp
  qed
qed simp

subsection \<open>The walk along the leaves\<close>

lemma verify_leaves_ok:
  assumes "chain_ok (m_mem t) (map fst (ls @ (i, es) # rs))" "\<forall>(j, fs)\<in>set (root_leaves t). fs \<noteq> []"
    "sorted (map fst (btree_entries t))" "root_leaves t = ls @ (i, es) # rs"
  shows "verify_leaves t (Some i) w = Some (w + of_nat (length (es @ concat (map snd rs))))"
  using assms
proof (induction rs arbitrary: ls i es w)
  case Nil
  have at: "leaf_at t i = Some es" using Nil.prems(1,4) by (rule leaf_at_mid)
  have c: "chain_ok (m_mem t) (map fst ls @ i # [])" using Nil.prems(1) by simp
  have "es \<noteq> []" "sorted (map fst es)" "m_tailleaf (m_mem t) = Some i"
    using Nil.prems by (auto simp: btree_entries_def sorted_append chain_ok_def)
  then show ?case using at chain_next(1) [OF c]
    by (subst verify_leaves.simps) (simp add: keys_ascending_sorted verify_leaves.simps)
next
  case (Cons r rs)
  obtain j fs where r: "r = (j, fs)" by fastforce
  have at: "leaf_at t i = Some es" using Cons.prems(1,4) by (rule leaf_at_mid)
  have eq: "root_leaves t = (ls @ [(i, es)]) @ (j, fs) # rs" using Cons.prems(4) r by simp
  have ch': "chain_ok (m_mem t) (map fst ((ls @ [(i, es)]) @ (j, fs) # rs))" using Cons.prems(1) r by simp
  have at': "leaf_at t j = Some fs" using ch' eq by (rule leaf_at_mid)
  have c: "chain_ok (m_mem t) (map fst ls @ i # j # map fst rs)" "chain_ok (m_mem t) ((map fst ls @ [i]) @ j # map fst rs)"
    using Cons.prems(1) r by simp_all
  have ne: "es \<noteq> []" "fs \<noteq> []" using Cons.prems(2,4) r by auto
  have E: "btree_entries t = concat (map snd ls) @ es @ fs @ concat (map snd rs)" using Cons.prems(4) r by (simp add: btree_entries_def)
  have "sorted (map fst es)" "\<forall>x\<in>set es. \<forall>y\<in>set fs. fst x \<le> fst y" using Cons.prems(3) unfolding E by (auto simp: sorted_append)
  moreover from this have "fst (last es) \<le> fst (hd fs)" using ne by simp
  ultimately have "verify_leaves t (Some i) w = verify_leaves t (Some j) (w + of_nat (length es))"
    using at at' ne chain_next(1) [OF c(1)] chain_next(2) [OF c(2)]
    by (subst verify_leaves.simps) (simp add: keys_ascending_sorted hd_conv_nth last_conv_nth not_less)
  also have "\<dots> = Some (w + of_nat (length es) + of_nat (length (fs @ concat (map snd rs))))"
    using Cons.IH [OF ch' Cons.prems(2,3) eq] .
  finally show ?case using r by (simp add: algebra_simps)
qed

theorem verify_ok:
  assumes inv: "btree_inv C t" and small: "length (btree_entries t) < 2 ^ 32"
  shows "btree_verify C t = Some ()"
proof (cases "m_root t")
  case None
  then show ?thesis by (simp add: btree_verify_def)
next
  case (Some n)
  note r = btree_inv_root [OF inv Some]
  have st: "m_stats (m_mem t) = stats_of n" "chain_ok (m_mem t) (leaf_ids n)" using inv Some by (simp_all add: btree_inv_def)
  have node: "verify_node C (m_mem t) True n empty_stats = Some (fst (hd (node_entries n)), maxkey n,
      add_stats empty_stats (length (node_entries n)) (length (tree_leaves n)) (inner_count n))"
    by (rule verify_nodes_ok(1) [OF r(1,2) chain_ok_links [OF st(2)]])
  obtain i es rs where l: "root_leaves t = [] @ (i, es) # rs" using r(4) node_wf_leaves [OF r(1)] by (metis append_Nil neq_Nil_conv prod.exhaust)
  have s: "sorted (map fst (btree_entries t))" using r(2,5) by simp
  have ch: "chain_ok (m_mem t) (map fst ([] @ (i, es) # rs))" using r(3) l by simp
  have "verify_leaves t (Some i) 0 = Some (of_nat (length (btree_entries t)))"
    using verify_leaves_ok [OF ch r(6) s l, of 0] l by (simp add: btree_entries_def)
  moreover have "unat (of_nat (length (btree_entries t)) :: 32 word) = length (btree_entries t)"
    using small by (simp add: unat_of_nat take_bit_nat_eq_self)
  moreover have "m_headleaf (m_mem t) = Some i" "prevleaf (m_mem t) i = None" using ch by (auto simp: chain_ok_def)
  ultimately have "verify_leaflinks t = Some ()" using st(1) r(5) by (simp add: verify_leaflinks_def stats_of_def)
  then show ?thesis using Some node st(1) by (simp add: btree_verify_def stats_of_def empty_stats_def)
qed

text \<open>Beyond the width of the counter the check fails although nothing is wrong with the tree.\<close>

theorem verify_wraps:
  assumes inv: "btree_inv C t" and large: "2 ^ 32 \<le> length (btree_entries t)"
  shows "btree_verify C t = None"
proof -
  obtain n where Some: "m_root t = Some n" using large by (cases "m_root t") (simp_all add: empty_root)
  note r = btree_inv_root [OF inv Some]
  have st: "st_itemcount (m_stats (m_mem t)) = length (btree_entries t)" using inv Some r(5) by (simp add: btree_inv_def stats_of_def)
  obtain i es rs where l: "root_leaves t = [] @ (i, es) # rs" using r(4) node_wf_leaves [OF r(1)] by (metis append_Nil neq_Nil_conv prod.exhaust)
  have s: "sorted (map fst (btree_entries t))" using r(2,5) by simp
  have ch: "chain_ok (m_mem t) (map fst ([] @ (i, es) # rs))" using r(3) l by simp
  have "verify_leaves t (Some i) 0 = Some (of_nat (length (btree_entries t)))"
    using verify_leaves_ok [OF ch r(6) s l, of 0] l by (simp add: btree_entries_def)
  moreover have "unat (of_nat (length (btree_entries t)) :: 32 word) \<noteq> length (btree_entries t)"
  proof -
    have "unat (of_nat (length (btree_entries t)) :: 32 word) < 2 ^ 32"
      by (rule less_le_trans [OF unsigned_less]) simp
    then show ?thesis using large by linarith
  qed
  moreover have "m_headleaf (m_mem t) = Some i" "prevleaf (m_mem t) i = None" using ch by (auto simp: chain_ok_def)
  ultimately have "verify_leaflinks t = None" using st by (simp add: verify_leaflinks_def)
  then show ?thesis using Some by (auto simp: btree_verify_def split: Option.bind_splits)
qed

end
