(* ===== verification/Btree_Copy.thy ===== *)
theory Btree_Copy
  imports Btree_Insert_Ok
begin

text \<open>
  Clearing, copying and assigning a B+ tree. A copy has leaves of its own, linked as they are
  allocated, and the same entries.
\<close>

fun clear_recursive :: "('k, 'v) bnode \<Rightarrow> tree_mem \<Rightarrow> tree_mem" where
  "clear_recursive (Leaf i es) m = m"
| "clear_recursive (Inner l ks cs) m = fold (\<lambda>c m. free_node c (clear_recursive c m)) cs m"

definition btree_clear :: "('k, 'v) btree \<Rightarrow> ('k, 'v) btree" where
  "btree_clear t = (case m_root t of None \<Rightarrow> t
     | Some n \<Rightarrow> (let m = free_node n (clear_recursive n (m_mem t)) in
         \<lparr>m_root = None, m_mem = m\<lparr>m_headleaf := None, m_tailleaf := None, m_stats := empty_stats\<rparr>\<rparr>))"

fun copy_recursive :: "('k, 'v) bnode \<Rightarrow> tree_mem \<Rightarrow> (('k, 'v) bnode \<times> tree_mem) option"
  and copy_children :: "('k, 'v) bnode list \<Rightarrow> tree_mem \<Rightarrow> (('k, 'v) bnode list \<times> tree_mem) option" where
  "copy_recursive (Leaf i es) m = (let (j, m1) = allocate_leaf m in
     if m_headleaf m1 = None then
       Some (Leaf j es, m1\<lparr>m_headleaf := Some j, m_tailleaf := Some j, prevleaf := (prevleaf m1)(j := None),
         nextleaf := (nextleaf m1)(j := None)\<rparr>)
     else do { k \<leftarrow> m_tailleaf m1;
       Some (Leaf j es, m1\<lparr>prevleaf := (prevleaf m1)(j := Some k), nextleaf := (nextleaf m1)(k := Some j), m_tailleaf := Some j\<rparr>) })"
| "copy_recursive (Inner l ks cs) m = do { (cs', m') \<leftarrow> copy_children cs (allocate_inner m); Some (Inner l ks cs', m') }"
| "copy_children [] m = Some ([], m)"
| "copy_children (c # cs) m = do { (c', m1) \<leftarrow> copy_recursive c m; (cs', m2) \<leftarrow> copy_children cs m1; Some (c' # cs', m2) }"

definition copy_root :: "('k, 'v) btree \<Rightarrow> tree_mem \<Rightarrow> (('k, 'v) bnode option \<times> tree_mem) option" where
  "copy_root other m = (let m0 = m\<lparr>m_stats := (m_stats m)\<lparr>st_leaves := 0, st_innernodes := 0\<rparr>\<rparr> in
     case m_root other of None \<Rightarrow> Some (None, m0)
     | Some n \<Rightarrow> do { (n', m') \<leftarrow> copy_recursive n m0; Some (Some n', m') })"

definition btree_assign :: "('k, 'v) btree \<Rightarrow> ('k, 'v) btree \<Rightarrow> ('k, 'v) btree option" where
  "btree_assign t other = (let t0 = btree_clear t in
     if btree_size other \<noteq> 0 then do { (root, m) \<leftarrow> copy_root other (m_mem t0);
       Some \<lparr>m_root = root, m_mem = m\<lparr>m_stats := m_stats (m_mem other)\<rparr>\<rparr> }
     else Some t0)"

definition btree_copy :: "('k, 'v) btree \<Rightarrow> ('k, 'v) btree option" where
  "btree_copy other = (let m0 = empty_mem\<lparr>m_stats := m_stats (m_mem other)\<rparr> in
     if 0 < btree_size other then do { (root, m) \<leftarrow> copy_root other m0; Some \<lparr>m_root = root, m_mem = m\<rparr> }
     else Some \<lparr>m_root = None, m_mem = m0\<rparr>)"

lemma clear_ok:
  assumes "btree_inv C t"
  shows "btree_inv C (btree_clear t)" "btree_entries (btree_clear t) = []" "m_root (btree_clear t) = None"
  using assms by (auto simp: btree_clear_def btree_inv_def Let_def btree_entries_def root_leaves_def split: option.split)

subsection \<open>Copies\<close>

text \<open>A copy differs from the original in nothing but the leaves it is made of.\<close>

definition same_shape :: "('k, 'v) bnode \<Rightarrow> ('k, 'v) bnode \<Rightarrow> bool" where
  "same_shape n n' \<longleftrightarrow> node_level n' = node_level n \<and> map snd (tree_leaves n') = map snd (tree_leaves n)
     \<and> inner_count n' = inner_count n \<and> (\<forall>C r. node_wf C r n \<longrightarrow> node_wf C r n')"

lemma same_shape_entries: "same_shape n n' \<Longrightarrow> node_entries n' = node_entries n \<and> maxkey n' = maxkey n
    \<and> length (tree_leaves n') = length (tree_leaves n)"
  unfolding same_shape_def node_entries_def maxkey_def by (metis length_map)

definition mem_grown :: "nat \<Rightarrow> nat \<Rightarrow> tree_mem \<Rightarrow> tree_mem \<Rightarrow> bool" where
  "mem_grown l n m m' \<longleftrightarrow> m_stats m' = (m_stats m)\<lparr>st_leaves := st_leaves (m_stats m) + l, st_innernodes := st_innernodes (m_stats m) + n\<rparr>"

lemma same_shape_children:
  assumes "list_all2 same_shape cs cs'"
  shows "map maxkey (butlast cs') = map maxkey (butlast cs)" "concat (map (map snd \<circ> tree_leaves) cs') = concat (map (map snd \<circ> tree_leaves) cs)"
    "sum_list (map inner_count cs') = sum_list (map inner_count cs)"
    "\<forall>c\<in>set cs. Suc (node_level c) = l \<and> node_wf C False c \<Longrightarrow> \<forall>c\<in>set cs'. Suc (node_level c) = l \<and> node_wf C False c"
  using assms
proof (induction rule: list_all2_induct)
  case (Cons c cs c' cs')
  have e: "cs' = [] \<longleftrightarrow> cs = []" using Cons.hyps(2) by auto
  { case 1 show ?case using Cons.IH(1) same_shape_entries [OF Cons.hyps(1)] e by simp }
  { case 2 show ?case using Cons.IH(2) Cons.hyps(1) by (simp add: same_shape_def) }
  { case 3 show ?case using Cons.IH(3) Cons.hyps(1) by (simp add: same_shape_def) }
  { case 4
    then have c: "Suc (node_level c) = l" "node_wf C False c" and cs: "\<forall>c\<in>set cs. Suc (node_level c) = l \<and> node_wf C False c" by simp_all
    have "Suc (node_level c') = l" "node_wf C False c'" using c Cons.hyps(1) unfolding same_shape_def by simp_all
    then show ?case using Cons.IH(4) [OF cs] by simp }
qed simp_all

lemma copy_ok:
  fixes n :: "('k, 'v) bnode" and cs :: "('k, 'v) bnode list"
  shows "chain_or_none m is \<Longrightarrow> \<exists>n' m'. copy_recursive n m = Some (n', m') \<and> same_shape n n'
      \<and> chain_or_none m' (is @ leaf_ids n') \<and> mem_grown (length (tree_leaves n)) (inner_count n) m m'"
    and "chain_or_none m is \<Longrightarrow> \<exists>cs' m'. copy_children cs m = Some (cs', m') \<and> list_all2 same_shape cs cs'
      \<and> chain_or_none m' (is @ concat (map leaf_ids cs')) \<and> mem_grown (\<Sum>c\<leftarrow>cs. length (tree_leaves c)) (\<Sum>c\<leftarrow>cs. inner_count c) m m'"
proof (induction n m and cs m arbitrary: "is" and "is" rule: copy_recursive_copy_children.induct)
  case (1 i es m)
  obtain j m1 where al: "allocate_leaf m = (j, m1)" by fastforce
  have ht: "m_headleaf m = None \<longleftrightarrow> m_tailleaf m = None" using "1.prems" by (auto simp: chain_or_none_def chain_ok_def split: if_splits)
  define m' where "m' = (case m_tailleaf m of
      None \<Rightarrow> m1\<lparr>m_headleaf := Some j, m_tailleaf := Some j, prevleaf := (prevleaf m1)(j := None), nextleaf := (nextleaf m1)(j := None)\<rparr>
    | Some k \<Rightarrow> m1\<lparr>prevleaf := (prevleaf m1)(j := Some k), nextleaf := (nextleaf m1)(k := Some j), m_tailleaf := Some j\<rparr>)"
  have "copy_recursive (Leaf i es) m = Some (Leaf j es, m')"
    using al ht by (auto simp: m'_def allocate_leaf_def Let_def split: option.splits)
  moreover have "leaf_appended m j m'" "mem_grown 1 0 m m'"
    using al by (auto simp: leaf_appended_def mem_grown_def m'_def allocate_leaf_def Let_def split: option.splits)
  ultimately show ?case using chain_appended [OF "1.prems"]
    by (auto simp: same_shape_def chain_or_none_def)
next
  case (2 l ks cs m)
  have "chain_or_none (allocate_inner m) is" using "2.prems" chain_ok_cong [of "allocate_inner m" m "is"]
    by (simp add: chain_or_none_def allocate_inner_def)
  then obtain cs' m' where IH: "copy_children cs (allocate_inner m) = Some (cs', m')" "list_all2 same_shape cs cs'"
    "chain_or_none m' (is @ concat (map leaf_ids cs'))"
    "mem_grown (\<Sum>c\<leftarrow>cs. length (tree_leaves c)) (\<Sum>c\<leftarrow>cs. inner_count c) (allocate_inner m) m'"
    using "2.IH" by blast
  note sh = same_shape_children [OF IH(2)]
  have "cs' = [] \<longleftrightarrow> cs = []" using list_all2_lengthD [OF IH(2)] by auto
  then have "node_wf C r (Inner l ks cs) \<Longrightarrow> node_wf C r (Inner l ks cs')" for C r
    unfolding node_wf_children children_ok_def sh(1) using sh(4) by blast
  then have "same_shape (Inner l ks cs) (Inner l ks cs')"
    unfolding same_shape_def using sh(2,3) by (simp add: map_concat o_def del: node_wf.simps)
  then show ?case using IH by (auto simp: mem_grown_def allocate_inner_def length_concat o_def)
next
  case (4 c cs m)
  obtain c' m1 where c: "copy_recursive c m = Some (c', m1)" "same_shape c c'" "chain_or_none m1 (is @ leaf_ids c')"
    "mem_grown (length (tree_leaves c)) (inner_count c) m m1" using "4.IH"(1) [of "is"] "4.prems" by blast
  obtain cs' m2 where cs: "copy_children cs m1 = Some (cs', m2)" "list_all2 same_shape cs cs'"
    "chain_or_none m2 ((is @ leaf_ids c') @ concat (map leaf_ids cs'))"
    "mem_grown (\<Sum>c\<leftarrow>cs. length (tree_leaves c)) (\<Sum>c\<leftarrow>cs. inner_count c) m1 m2" using "4.IH"(2) [OF c(1) refl c(3)] by blast
  show ?case using c cs by (auto simp: mem_grown_def)
qed (auto simp: mem_grown_def)

lemma chain_or_none_cong:
  assumes "nextleaf m' = nextleaf m" "prevleaf m' = prevleaf m" "fresh_leaf m' = fresh_leaf m"
    "m_headleaf m' = m_headleaf m" "m_tailleaf m' = m_tailleaf m"
  shows "chain_or_none m' is = chain_or_none m is"
  using chain_ok_cong [OF assms] assms(4,5) by (simp add: chain_or_none_def)

lemma copy_root_ok:
  assumes inv: "btree_inv C other" "btree_size other \<noteq> 0" and m: "m_headleaf m = None" "m_tailleaf m = None"
  obtains n' m' where "copy_root other m = Some (Some n', m')" "node_wf C True n'" "node_entries n' = btree_entries other"
    "chain_ok m' (leaf_ids n')" "keys_ok C (node_entries n')" "stats_of n' = m_stats (m_mem other)"
    "m_stats m' = (m_stats m)\<lparr>st_leaves := st_leaves (m_stats (m_mem other)), st_innernodes := st_innernodes (m_stats (m_mem other))\<rparr>"
proof -
  obtain n where n: "m_root other = Some n" using inv by (cases "m_root other") (auto simp: btree_size_def btree_inv_def empty_stats_def)
  note r = btree_inv_root [OF inv(1) n]
  have st: "m_stats (m_mem other) = stats_of n" "keys_ok C (node_entries n)" using inv(1) n by (simp_all add: btree_inv_def)
  let ?m = "m\<lparr>m_stats := (m_stats m)\<lparr>st_leaves := 0, st_innernodes := 0\<rparr>\<rparr>"
  have "chain_or_none ?m []" using m by (simp add: chain_or_none_def)
  then obtain n' m' where c: "copy_recursive n ?m = Some (n', m')" "same_shape n n'" "chain_or_none m' ([] @ leaf_ids n')"
    "mem_grown (length (tree_leaves n)) (inner_count n) ?m m'" using copy_ok(1) by blast
  note e = same_shape_entries [OF c(2)]
  have wf: "node_wf C True n'" using c(2) r(1) by (simp add: same_shape_def)
  then have ch: "chain_ok m' (leaf_ids n')" using c(3) node_wf_leaves [OF wf] by (simp add: chain_or_none_def leaf_ids_def)
  show thesis
    by (rule that [of n' m']) (use n c(1,4) wf e ch r(5) st c(2) in \<open>simp_all add: copy_root_def mem_grown_def stats_of_def same_shape_def\<close>)
qed

theorem assign_ok:
  assumes "btree_inv C t" "btree_inv C other"
  shows "\<exists>t'. btree_assign t other = Some t' \<and> btree_inv C t' \<and> btree_entries t' = btree_entries other"
proof (cases "btree_size other = 0")
  case True
  then show ?thesis using clear_ok [OF assms(1)] btree_inv_size [OF assms(2)] by (simp add: btree_assign_def)
next
  case False
  have m: "m_headleaf (m_mem (btree_clear t)) = None" "m_tailleaf (m_mem (btree_clear t)) = None"
    using clear_ok(1,3) [OF assms(1)] by (simp_all add: btree_inv_def)
  obtain n' m' where c: "copy_root other (m_mem (btree_clear t)) = Some (Some n', m')" "node_wf C True n'" "node_entries n' = btree_entries other"
    "chain_ok m' (leaf_ids n')" "keys_ok C (node_entries n')" "stats_of n' = m_stats (m_mem other)"
    using copy_root_ok [OF assms(2) False m] by metis
  have "btree_assign t other = Some \<lparr>m_root = Some n', m_mem = m'\<lparr>m_stats := m_stats (m_mem other)\<rparr>\<rparr>"
    using c(1) False by (simp add: btree_assign_def Let_def)
  moreover have "chain_ok (m'\<lparr>m_stats := m_stats (m_mem other)\<rparr>) (leaf_ids n')"
    using c(4) chain_ok_cong [of "m'\<lparr>m_stats := m_stats (m_mem other)\<rparr>" m'] by simp
  ultimately show ?thesis using c by (auto simp: btree_inv_def btree_entries_def root_leaves_def node_entries_def)
qed

theorem copy_constructor_ok:
  assumes "btree_inv C other"
  shows "\<exists>t'. btree_copy other = Some t' \<and> btree_inv C t' \<and> btree_entries t' = btree_entries other"
proof (cases "btree_size other = 0")
  case True
  then have "m_root other = None"
    using assms btree_inv_size [OF assms] btree_inv_root(5) [OF assms] node_wf_nonempty [OF btree_inv_root(1) [OF assms]]
    by (cases "m_root other") auto
  then show ?thesis using True assms btree_inv_size [OF assms]
    by (auto simp: btree_copy_def Let_def btree_inv_def btree_entries_def root_leaves_def empty_mem_def)
next
  case False
  let ?m = "empty_mem\<lparr>m_stats := m_stats (m_mem other)\<rparr>"
  have m: "m_headleaf ?m = None" "m_tailleaf ?m = None" by (simp_all add: empty_mem_def)
  obtain n' m' where c: "copy_root other ?m = Some (Some n', m')" "node_wf C True n'" "node_entries n' = btree_entries other"
    "chain_ok m' (leaf_ids n')" "keys_ok C (node_entries n')" "stats_of n' = m_stats (m_mem other)"
    "m_stats m' = (m_stats ?m)\<lparr>st_leaves := st_leaves (m_stats (m_mem other)), st_innernodes := st_innernodes (m_stats (m_mem other))\<rparr>"
    using copy_root_ok [OF assms False m] by metis
  have "btree_copy other = Some \<lparr>m_root = Some n', m_mem = m'\<rparr>" using c(1) False by (simp add: btree_copy_def Let_def)
  moreover have "m_stats m' = stats_of n'" unfolding c(6,7) by simp
  ultimately show ?thesis using c(2-5) by (auto simp: btree_inv_def btree_entries_def root_leaves_def node_entries_def)
qed

end
