(* ===== verification/Btree_Stx.thy ===== *)
theory Btree_Stx
  imports Btree_Bulk Btree_Verify Btree_Copy Index_Base
begin

text \<open>
  The B+ tree as an index of the benchmark (\<open>competitors/stx_btree.h\<close>): a multimap from
  64-bit keys to 64-bit values. A lookup answers with the value inserted last for the key, since an
  insertion puts its pair before the pairs with the same key.
\<close>

type_synonym stx = "(u64, u64) btree"

definition stx_class :: "u64 search_fn \<Rightarrow> u64 search_fn \<Rightarrow> nat \<Rightarrow> u64 btree_class" where
  "stx_class lower upper max_node_logsize = \<lparr>search_lower = lower, search_upper = upper,
     leafslotmax = max 8 (2 ^ max_node_logsize div (8 + 8)), innerslotmax = max 8 (2 ^ max_node_logsize div (8 + 8)),
     allow_duplicates = True\<rparr>"

definition stx_Build :: "u64 btree_class \<Rightarrow> (u64 \<times> u64) list \<Rightarrow> stx \<Rightarrow> stx option" where
  "stx_Build C kvs t = btree_bulk_load C kvs t"

definition stx_EqualityLookup :: "u64 btree_class \<Rightarrow> stx \<Rightarrow> u64 \<Rightarrow> u64 option" where
  "stx_EqualityLookup C t lookup_key = do { it \<leftarrow> btree_find C t lookup_key;
     if is_end t it then Some NOT_FOUND else do { x \<leftarrow> iter_deref t it; Some (snd x) } }"

definition stx_RangeQuery :: "u64 btree_class \<Rightarrow> stx \<Rightarrow> u64 \<Rightarrow> u64 \<Rightarrow> u64 option" where
  "stx_RangeQuery C t lower_key upper_key = do { it \<leftarrow> btree_lower_bound C t lower_key;
     iterate_while (iter_deref t) (iter_incr t) (is_end t) (\<lambda>x. fst x \<le> upper_key) (\<lambda>result x. result + snd x) it 0 }"

definition stx_Insert :: "u64 btree_class \<Rightarrow> u64 \<Rightarrow> u64 \<Rightarrow> stx \<Rightarrow> unit + stx" where
  "stx_Insert C key value t = (case btree_insert_start C key value t of None \<Rightarrow> Inl () | Some (r, t') \<Rightarrow> Inr t')"

subsection \<open>The map a tree stands for\<close>

lemma map_of_ins_list:
  assumes "sorted (map fst es)"
  shows "map_of (ins_list k v es) = (map_of es)(k \<mapsto> v)"
proof (rule ins_list_cases [of es k v])
  fix A B assume 1: "es = A @ B" "ins_list k v es = A @ (k, v) # B" "\<forall>e\<in>set A. fst e < k"
  have "map_of A k = None" using 1(3) by (force simp: map_of_eq_None_iff)
  then show ?thesis unfolding 1(2) by (intro ext) (simp add: 1(1) map_add_def split: option.split)
qed

lemma map_of_first:
  assumes "sorted (map fst es)" "k \<in> fst ` set es"
  shows "map_of es k = Some (snd (es ! length (takeWhile (\<lambda>e. fst e < k) es)))"
  using assms
proof (induction es)
  case (Cons e es)
  show ?case
  proof (cases "fst e < k")
    case False
    then have "fst e = k" using Cons.prems by (auto simp: image_iff not_less)
    then show ?thesis by (cases e) simp
  next
    case True
    then show ?thesis using Cons by (cases e) auto
  qed
qed simp

definition stx_lookup :: "u64 btree_class \<Rightarrow> u64 \<Rightarrow> stx \<Rightarrow> unit + u64 option" where
  "stx_lookup C k t = (case btree_find C t k of None \<Rightarrow> Inl ()
     | Some it \<Rightarrow> if is_end t it then Inr None else (case iter_deref t it of None \<Rightarrow> Inl () | Some x \<Rightarrow> Inr (Some (snd x))))"

lemma stx_lookup_ok:
  assumes ok: "btree_class_ok C" and inv: "btree_inv C t"
  shows "stx_lookup C k t = Inr (map_of (btree_entries t) k)"
proof -
  let ?E = "btree_entries t" and ?w = "entries_while (\<lambda>x. x < k) t"
  obtain it where it: "btree_find C t k = Some it" "btree_at t it (if k \<in> fst ` set ?E then ?w else length ?E)"
    using find_position [OF ok inv] by blast
  note e = btree_at_end [OF inv it(2)]
  show ?thesis
  proof (cases "k \<in> fst ` set ?E")
    case True
    then have w: "?w < length ?E" using sorted_member [OF btree_inv_sorted [OF inv], of k] by (simp add: entries_while_def)
    have "btree_at t it ?w" using it(2) True by simp
    then have "iter_deref t it = Some (?E ! ?w)" using btree_at_deref [OF inv _ w] by blast
    then show ?thesis using it(1) e w True map_of_first [OF btree_inv_sorted [OF inv] True]
      by (simp add: stx_lookup_def entries_while_def)
  next
    case False
    then have "map_of ?E k = None" by (simp add: map_of_eq_None_iff)
    then show ?thesis using it(1) e False by (simp add: stx_lookup_def)
  qed
qed

lemma stx_Insert_ok:
  assumes ok: "btree_class_ok C" "allow_duplicates C" and inv: "btree_inv C t"
  shows "\<exists>t'. stx_Insert C k v t = Inr t' \<and> btree_inv C t' \<and> btree_entries t' = ins_list k v (btree_entries t)"
  using insert_start_ok [OF ok(1) inv, of k v] ok(2) by (auto simp: stx_Insert_def)

definition stx_inv :: "u64 btree_class \<Rightarrow> stx \<Rightarrow> bool" where
  "stx_inv C t \<longleftrightarrow> btree_class_ok C \<and> allow_duplicates C \<and> btree_inv C t"

interpretation stx: total_index "stx_inv C" "\<lambda>t. map_of (btree_entries t)" "\<lambda>k v. True" "stx_lookup C" "stx_Insert C"
  for C :: "u64 btree_class"
proof unfold_locales
  fix s s' :: stx and k v :: u64
  assume inv: "stx_inv C s"
  then have 1: "btree_class_ok C" "allow_duplicates C" "btree_inv C s" by (simp_all add: stx_inv_def)
  show "stx_lookup C k s = Inr (map_of (btree_entries s) k)" using stx_lookup_ok 1 by blast
  show "\<exists>s'. stx_Insert C k v s = Inr s'" using stx_Insert_ok [OF 1] by blast
  show "stx_inv C s' \<and> map_of (btree_entries s') = (map_of (btree_entries s))(k \<mapsto> v)" if "stx_Insert C k v s = Inr s'"
    using stx_Insert_ok [OF 1, of k v] that 1 map_of_ins_list [OF btree_inv_sorted [OF 1(3)]] by (auto simp: stx_inv_def)
qed

lemma stx_EqualityLookup_eq:
  "stx_lookup C k t = Inr r \<Longrightarrow> stx_EqualityLookup C t k = Some (case r of None \<Rightarrow> NOT_FOUND | Some v \<Rightarrow> v)"
  by (auto simp: stx_lookup_def stx_EqualityLookup_def split: option.splits if_splits)

lemma foldl_add: "foldl (\<lambda>r x. r + f x) (a :: u64) xs = a + sum_list (map f xs)"
  by (induction xs arbitrary: a) (simp_all add: add.assoc)

lemma stx_RangeQuery_ok:
  assumes ok: "btree_class_ok C" and inv: "btree_inv C t"
  shows "stx_RangeQuery C t lo hi = Some (range_values lo hi (btree_entries t))"
proof -
  let ?E = "btree_entries t"
  note s = btree_inv_sorted [OF inv]
  obtain it where it: "btree_lower_bound C t lo = Some it" "btree_at t it (entries_while (\<lambda>x. x < lo) t)"
    using lower_bound_position [OF ok inv] by blast
  have d: "drop (entries_while (\<lambda>x. x < lo) t) ?E = dropWhile (\<lambda>x. fst x < lo) ?E"
    by (simp add: entries_while_def dropWhile_eq_drop)
  show ?thesis using it(1) bt.iterate_while_eq [OF inv it(2), of "\<lambda>x. fst x \<le> hi" "\<lambda>r x. r + snd x" 0]
    by (simp add: stx_RangeQuery_def d foldl_add range_values_sorted [OF s])
qed

end
