(* ===== verification/Btree_Props.thy ===== *)
theory Btree_Props
  imports Btree_Stx Binary_Search
begin

text \<open>
  The properties of the B+ tree and of its index, with a sample instance: nodes of eight slots,
  binary search, and a tree loaded with twenty pairs.
\<close>

definition sample_btree_class :: "u64 btree_class" where
  "sample_btree_class = stx_class binary_lower_bound binary_upper_bound 7"

lemma sample_btree_class_ok: "btree_class_ok sample_btree_class" "allow_duplicates sample_btree_class"
  by (simp_all add: sample_btree_class_def stx_class_def btree_class_ok_def binary.search_class_axioms)

definition sample_pairs :: "(u64 \<times> u64) list" where
  "sample_pairs = [(1, 10), (2, 20), (3, 30), (4, 40), (5, 50), (6, 60), (7, 70), (8, 80), (9, 90), (9, 91),
     (11, 110), (12, 120), (13, 130), (14, 140), (15, 150), (16, 160), (17, 170), (18, 180), (19, 190), (20, 200)]"

lemma sample_pairs_ok: "keys_ok sample_btree_class sample_pairs"
  by (simp add: keys_ok_def sample_btree_class_ok sample_pairs_def)

definition sample_tree :: stx where
  "sample_tree = the (btree_bulk_load sample_btree_class sample_pairs btree_new)"

lemma sample_tree_ok: "btree_inv sample_btree_class sample_tree" "btree_entries sample_tree = sample_pairs"
  using bulk_load_ok [OF sample_btree_class_ok(1) btree_new_inv(1) _ sample_pairs_ok]
  by (auto simp: sample_tree_def btree_new_def)

subsection \<open>The index\<close>

text \<open>C21: Loading sorted data into the B+ tree index and inserting any pairs afterwards, with keys
  repeated at will, always succeeds, and from then on \<open>EqualityLookup\<close> answers with the value
  inserted last for the key, with the value loaded first for it if it was never inserted, and with
  \<open>NOT_FOUND\<close> for every other key.\<close>

theorem stx_lookup_after_inserts:
  assumes "btree_class_ok C" "allow_duplicates C" "sorted (map fst kvs)"
  shows "\<exists>t t'. stx_Build C kvs btree_new = Some t \<and> insert_all (stx_Insert C) new t = Inr t'
    \<and> (\<forall>k. stx_EqualityLookup C t' k = Some (case map_of (rev new @ kvs) k of Some v \<Rightarrow> v | None \<Rightarrow> NOT_FOUND))"
proof -
  have "keys_ok C kvs" using assms by (simp add: keys_ok_def)
  then obtain t where t: "btree_bulk_load C kvs btree_new = Some t" "btree_inv C t" "btree_entries t = kvs"
    using bulk_load_ok [OF assms(1) btree_new_inv(1)] by (auto simp: btree_new_def)
  have inv: "stx_inv C t" using assms t by (simp add: stx_inv_def)
  obtain t' where t': "insert_all (stx_Insert C) new t = Inr t'"
    "\<And>k. stx_lookup C k t' = Inr (case map_of (rev new) k of Some v \<Rightarrow> Some v | None \<Rightarrow> map_of kvs k)"
    using stx.lookup_after_all [OF inv, of new] t(3) by auto
  have "stx_EqualityLookup C t' k = Some (case map_of (rev new @ kvs) k of Some v \<Rightarrow> v | None \<Rightarrow> NOT_FOUND)" for k
    using stx_EqualityLookup_eq [OF t'(2) [of k]] by (simp add: map_add_def split: option.splits)
  then show ?thesis using t(1) t'(1) by (auto simp: stx_Build_def)
qed

lemma stx_lookup_after_inserts_witness:
  "\<exists>t t'. stx_Build sample_btree_class sample_pairs btree_new = Some t
    \<and> insert_all (stx_Insert sample_btree_class) [(5, 51), (10, 100), (5, 52)] t = Inr t'
    \<and> stx_EqualityLookup sample_btree_class t' 5 = Some 52 \<and> stx_EqualityLookup sample_btree_class t' 21 = Some NOT_FOUND"
  using stx_lookup_after_inserts [OF sample_btree_class_ok, of sample_pairs "[(5, 51), (10, 100), (5, 52)]"]
  by (auto simp: sample_pairs_def)

text \<open>C25: \<open>RangeQuery\<close> of the B+ tree index terminates and returns the sum, wrapped to 64 bits,
  of the values of exactly the pairs whose key lies in the closed range, repeated keys included.\<close>

theorem stx_range_query_correct:
  assumes "btree_class_ok C" "btree_inv C t"
  shows "stx_RangeQuery C t lo hi = Some (\<Sum>x\<leftarrow>filter (\<lambda>x. lo \<le> fst x \<and> fst x \<le> hi) (btree_entries t). snd x)"
  using stx_RangeQuery_ok [OF assms] by (simp add: range_values_def)

lemma stx_range_query_correct_witness: "stx_RangeQuery sample_btree_class sample_tree 8 11 = Some 371"
proof -
  have "(\<Sum>x\<leftarrow>filter (\<lambda>x. 8 \<le> fst x \<and> fst x \<le> 11) sample_pairs. snd x) = (371 :: u64)" by code_simp
  then show ?thesis
    using stx_range_query_correct [OF sample_btree_class_ok(1) sample_tree_ok(1), of 8 11] by (simp only: sample_tree_ok(2))
qed

subsection \<open>The tree\<close>

text \<open>C22: \<open>insert\<close> keeps the invariant of the B+ tree (node sizes, levels, separators, order,
  leaf chain, statistics), whatever nodes it splits, and refines ordered insertion: the pair goes
  before the first pair whose key is not smaller. Without duplicates a key that is present leaves the
  tree as it was. The iterator it returns stands at that position and the flag says whether the
  pair was inserted.\<close>

theorem btree_insert_refines:
  assumes "btree_class_ok C" "btree_inv C t"
  shows "\<exists>it b t'. btree_insert_start C k v t = Some ((it, b), t') \<and> btree_inv C t'
    \<and> (b \<longleftrightarrow> allow_duplicates C \<or> k \<notin> fst ` set (btree_entries t))
    \<and> btree_entries t' = (if b then ins_list k v (btree_entries t) else btree_entries t)
    \<and> btree_size t' = (if b then btree_size t + 1 else btree_size t)
    \<and> map_option fst (iter_deref t' it) = Some k \<and> (b \<longrightarrow> iter_deref t' it = Some (k, v))"
proof -
  obtain it b t' where i: "btree_insert_start C k v t = Some ((it, b), t')" "btree_inv C t'"
    "b \<longleftrightarrow> allow_duplicates C \<or> k \<notin> fst ` set (btree_entries t)"
    "btree_entries t' = (if b then ins_list k v (btree_entries t) else btree_entries t)"
    "btree_at t' it (entries_while (\<lambda>x. x < k) t)"
    using insert_start_ok [OF assms] by blast
  have size: "btree_size t' = (if b then btree_size t + 1 else btree_size t)"
    using btree_inv_size [OF i(2)] btree_inv_size [OF assms(2)] i(4) by simp
  have w: "entries_while (\<lambda>x. x < k) t < length (btree_entries t')
      \<and> fst (btree_entries t' ! entries_while (\<lambda>x. x < k) t) = k \<and> (b \<longrightarrow> btree_entries t' ! entries_while (\<lambda>x. x < k) t = (k, v))"
  proof (cases b)
    case True
    then show ?thesis using i(4) ins_list_nth [of k v "btree_entries t"] length_takeWhile_le [of "\<lambda>e. fst e < k" "btree_entries t"]
      by (simp add: entries_while_def)
  next
    case False
    then show ?thesis using i(3,4) sorted_member [OF btree_inv_sorted [OF assms(2)], of k] by (simp add: entries_while_def)
  qed
  then have "iter_deref t' it = Some (btree_entries t' ! entries_while (\<lambda>x. x < k) t)"
    using btree_at_deref [OF i(2,5)] by blast
  then have "map_option fst (iter_deref t' it) = Some k" "b \<longrightarrow> iter_deref t' it = Some (k, v)" using w by simp_all
  then show ?thesis using i(1-4) size by blast
qed

lemma btree_insert_refines_witness:
  "\<exists>it b t'. btree_insert_start sample_btree_class 9 92 sample_tree = Some ((it, b), t') \<and> btree_inv sample_btree_class t'
    \<and> btree_entries t' = ins_list 9 92 sample_pairs \<and> iter_deref t' it = Some (9, 92)"
  using btree_insert_refines [OF sample_btree_class_ok(1) sample_tree_ok(1), of 9 92]
  by (auto simp: sample_btree_class_ok(2) sample_tree_ok(2))

text \<open>C23: Bulk loading a sorted sequence into an empty B+ tree terminates, however many levels it
  needs, in a tree that satisfies the whole invariant and holds exactly the sequence.\<close>

theorem btree_bulk_load_correct:
  assumes "btree_class_ok C" "btree_inv C t" "m_root t = None" "keys_ok C kvs"
  shows "\<exists>t'. btree_bulk_load C kvs t = Some t' \<and> btree_inv C t' \<and> btree_entries t' = kvs \<and> btree_size t' = length kvs"
  using bulk_load_ok [OF assms] btree_inv_size by fastforce

lemma btree_bulk_load_correct_witness:
  "\<exists>t'. btree_bulk_load sample_btree_class sample_pairs btree_new = Some t' \<and> btree_inv sample_btree_class t' \<and> btree_size t' = 20"
  using btree_bulk_load_correct [OF sample_btree_class_ok(1) btree_new_inv(1) _ sample_pairs_ok]
  by (auto simp: btree_new_def sample_pairs_def)

lemma find_takeWhile: "length (takeWhile Q xs) < length xs \<Longrightarrow> find (\<lambda>x. \<not> Q x) xs = Some (xs ! length (takeWhile Q xs))"
  by (induction xs) auto

lemma find_sorted:
  "sorted (map fst es) \<Longrightarrow> key \<in> fst ` set es \<Longrightarrow> find (\<lambda>x. \<not> fst x < key) es = find (\<lambda>x. fst x = key) es"
  for key :: "'k::linorder"
  by (induction es) force+

text \<open>C24: The queries of the B+ tree terminate, never read outside a node, and answer for the
  sequence of its entries: \<open>exists\<close> and \<open>count\<close> tell the number of pairs with the key,
  \<open>lower_bound\<close> and \<open>upper_bound\<close> stand on the first pair whose key is not smaller or is
  greater, and are \<open>end()\<close> when there is none.\<close>

theorem btree_queries_correct:
  assumes "btree_class_ok C" "btree_inv C t"
  defines "es \<equiv> btree_entries t"
  shows "btree_exists C t key = Some (key \<in> fst ` set es) \<and> btree_count C t key = Some (count_list (map fst es) key)
    \<and> (\<exists>it. btree_find C t key = Some it \<and> (is_end t it \<longleftrightarrow> key \<notin> fst ` set es)
        \<and> (key \<in> fst ` set es \<longrightarrow> iter_deref t it = find (\<lambda>x. fst x = key) es))
    \<and> (\<exists>lo hi. btree_equal_range C t key = Some (lo, hi)
        \<and> (is_end t lo \<longleftrightarrow> (\<forall>x\<in>set es. fst x < key)) \<and> (is_end t hi \<longleftrightarrow> (\<forall>x\<in>set es. fst x \<le> key))
        \<and> (\<not> is_end t lo \<longrightarrow> iter_deref t lo = find (\<lambda>x. key \<le> fst x) es)
        \<and> (\<not> is_end t hi \<longrightarrow> iter_deref t hi = find (\<lambda>x. key < fst x) es))"
proof -
  note inv = assms(2) and s = btree_inv_sorted [OF assms(2)]
  have pos: "(is_end t it \<longleftrightarrow> (\<forall>x\<in>set es. P (fst x))) \<and> (\<not> is_end t it \<longrightarrow> iter_deref t it = find (\<lambda>x. \<not> P (fst x)) es)"
    if "btree_at t it (entries_while P t)" for it P
  proof -
    have e: "is_end t it \<longleftrightarrow> entries_while P t = length es" using btree_at_end [OF inv that] by (simp add: es_def)
    have f: "entries_while P t < length es \<Longrightarrow> find (\<lambda>x. \<not> P (fst x)) es = Some (es ! entries_while P t)"
      unfolding entries_while_def es_def by (rule find_takeWhile)
    have "entries_while P t \<le> length es" by (simp add: entries_while_def es_def length_takeWhile_le)
    moreover have "entries_while P t = length es \<longleftrightarrow> (\<forall>x\<in>set es. P (fst x))"
      unfolding entries_while_def es_def by (metis takeWhile_eq_all_conv takeWhile_eq_take take_all_iff order_refl)
    ultimately show ?thesis using e f btree_at_deref [OF inv that] by (auto simp: es_def)
  qed
  obtain lo hi where lh: "btree_lower_bound C t key = Some lo" "btree_at t lo (entries_while (\<lambda>x. x < key) t)"
    "btree_upper_bound C t key = Some hi" "btree_at t hi (entries_while (\<lambda>x. x \<le> key) t)"
    using lower_bound_position [OF assms(1,2)] upper_bound_position [OF assms(1,2)] by metis
  obtain it where it: "btree_find C t key = Some it"
    "btree_at t it (if key \<in> fst ` set es then entries_while (\<lambda>x. x < key) t else length es)"
    using find_position [OF assms(1,2)] unfolding es_def by metis
  have find: "(is_end t it \<longleftrightarrow> key \<notin> fst ` set es) \<and> (key \<in> fst ` set es \<longrightarrow> iter_deref t it = find (\<lambda>x. fst x = key) es)"
  proof (cases "key \<in> fst ` set es")
    case False
    then show ?thesis using btree_at_end [OF inv it(2)] by (simp add: es_def)
  next
    case True
    have "find (\<lambda>x. \<not> fst x < key) es = find (\<lambda>x. fst x = key) es"
      using find_sorted s True unfolding es_def by blast
    then show ?thesis using pos [of it "\<lambda>x. x < key"] it(2) True by auto
  qed
  show ?thesis using exists_eq [OF assms(1,2)] count_eq [OF assms(1,2)] it(1) find pos [OF lh(2)] pos [OF lh(4)] lh(1,3)
    by (auto simp: es_def btree_equal_range_def not_less not_le)
qed

lemma btree_queries_correct_witness:
  "btree_count sample_btree_class sample_tree 9 = Some 2 \<and> btree_exists sample_btree_class sample_tree 10 = Some False
    \<and> (\<exists>lo hi. btree_equal_range sample_btree_class sample_tree 10 = Some (lo, hi)
        \<and> iter_deref sample_tree lo = Some (11, 110) \<and> iter_deref sample_tree hi = Some (11, 110))"
proof -
  have c: "count_list (map fst sample_pairs) 9 = 2" "10 \<notin> fst ` set sample_pairs"
    "\<exists>x\<in>set sample_pairs. \<not> fst x < 10" "\<exists>x\<in>set sample_pairs. \<not> fst x \<le> 10"
    by (simp_all add: sample_pairs_def)
  have f: "find (\<lambda>x. 10 \<le> fst x) sample_pairs = Some (11, 110)" "find (\<lambda>x. 10 < fst x) sample_pairs = Some (11, 110)"
    by code_simp+
  show ?thesis
    using btree_queries_correct [OF sample_btree_class_ok(1) sample_tree_ok(1), of 9]
      btree_queries_correct [OF sample_btree_class_ok(1) sample_tree_ok(1), of 10] c f
    unfolding sample_tree_ok(2) by auto
qed

text \<open>C26: The self-check \<open>verify\<close> of the B+ tree terminates and passes on a tree that satisfies the
  invariant exactly if the tree holds fewer than 2 to the 32 pairs: its \<open>unsigned int\<close> counter of
  the leaf entries wraps, and from there on it aborts the program on correct trees.\<close>

theorem btree_verify_exact:
  assumes "btree_inv C t"
  shows "btree_verify C t = Some () \<longleftrightarrow> btree_size t < 2 ^ 32"
  using verify_ok [OF assms] verify_wraps [OF assms] btree_inv_size [OF assms] by (cases "btree_size t < 2 ^ 32") simp_all

lemma btree_verify_exact_witness:
  "btree_verify sample_btree_class sample_tree = Some ()
    \<and> (\<exists>t. btree_bulk_load sample_btree_class (replicate (2 ^ 32) (0, 0 :: u64)) btree_new = Some t \<and> btree_verify sample_btree_class t = None)"
proof -
  have "length sample_pairs < 2 ^ 32" by (simp add: sample_pairs_def)
  then have 1: "btree_verify sample_btree_class sample_tree = Some ()"
    using btree_verify_exact [OF sample_tree_ok(1)] btree_inv_size [OF sample_tree_ok(1)] sample_tree_ok(2) by simp
  have "keys_ok sample_btree_class (replicate (2 ^ 32) (0, 0 :: u64))"
    by (simp add: keys_ok_def sample_btree_class_ok map_replicate sorted_replicate)
  then obtain t where t: "btree_bulk_load sample_btree_class (replicate (2 ^ 32) (0, 0 :: u64)) btree_new = Some t"
    "btree_inv sample_btree_class t" "btree_entries t = replicate (2 ^ 32) (0, 0 :: u64)"
    using bulk_load_ok [OF sample_btree_class_ok(1) btree_new_inv(1)] by (auto simp: btree_new_def)
  have "btree_verify sample_btree_class t \<noteq> Some ()"
    using btree_verify_exact [OF t(2)] btree_inv_size [OF t(2)] unfolding t(3) length_replicate by simp
  then have "btree_verify sample_btree_class t = None" by (cases "btree_verify sample_btree_class t") auto
  then show ?thesis using 1 t(1) by (intro conjI exI [of _ t]) assumption+
qed



end
