(* ===== verification/Btree_Erase.thy ===== *)
theory Btree_Erase
  imports Btree_Insert_Ok
begin

text \<open>
  Erasure from the B+ tree: the descent for a key and the descent for an iterator, the removal from
  the leaf, and the repair of underflowing nodes by shifts and merges. A call works on a node and on
  its surroundings, which the code passes as pointers and changes through them: the keys of the
  parent, the neighbours to the left and the right, and where these hang (\<open>parent_ref\<close>). The value
  \<open>None\<close> stands for a read outside a node and for a restructuring with a neighbour that hangs
  under another parent; the correctness proof shows that neither happens.
\<close>

subsection \<open>Results and surroundings\<close>

record 'k erase_result =
  not_found :: bool
  update_lastkey :: "'k option"
  fixmerge :: bool

definition btree_ok :: "'k erase_result" where
  "btree_ok = \<lparr>not_found = False, update_lastkey = None, fixmerge = False\<rparr>"

definition btree_not_found :: "'k erase_result" where
  "btree_not_found = \<lparr>not_found = True, update_lastkey = None, fixmerge = False\<rparr>"

definition or_result :: "'k erase_result \<Rightarrow> 'k erase_result \<Rightarrow> 'k erase_result" where
  "or_result r s = \<lparr>not_found = (not_found r \<or> not_found s),
     update_lastkey = (case update_lastkey s of Some k \<Rightarrow> Some k | None \<Rightarrow> update_lastkey r),
     fixmerge = (fixmerge r \<or> fixmerge s)\<rparr>"

datatype parent_ref = No_parent | The_parent | Other_parent

record ('k, 'v) around =
  parent_keys_of :: "'k list option"
  parentslot :: nat
  left_node :: "('k, 'v) bnode option"
  right_node :: "('k, 'v) bnode option"
  leftparent :: parent_ref
  rightparent :: parent_ref

definition root_around :: "('k, 'v) around" where
  "root_around = \<lparr>parent_keys_of = None, parentslot = 0, left_node = None, right_node = None,
     leftparent = No_parent, rightparent = No_parent\<rparr>"

fun node_isfew :: "'k btree_class \<Rightarrow> ('k, 'v) bnode \<Rightarrow> bool" where
  "node_isfew C (Leaf i es) = (length es \<le> minleafslots C)"
| "node_isfew C (Inner l ks cs) = (length ks \<le> mininnerslots C)"

text \<open>
  \<open>childid[left->slotuse - 1]\<close>, the last child but one of the left neighbour, and
  \<open>childid[0]\<close>, the first child of the right neighbour, seen from the children of a node.
\<close>

definition cousin_left :: "('k, 'v) bnode option \<Rightarrow> ('k, 'v) bnode option option" where
  "cousin_left n = (case n of None \<Rightarrow> Some None
     | Some (Inner l ks cs) \<Rightarrow> if 0 < length ks \<and> length ks - 1 < length cs then Some (Some (cs ! (length ks - 1))) else None
     | Some (Leaf i es) \<Rightarrow> None)"

definition cousin_right :: "('k, 'v) bnode option \<Rightarrow> ('k, 'v) bnode option option" where
  "cousin_right n = (case n of None \<Rightarrow> Some None
     | Some (Inner l ks cs) \<Rightarrow> if 0 < length cs then Some (Some (cs ! 0)) else None
     | Some (Leaf i es) \<Rightarrow> None)"

definition inherited :: "parent_ref \<Rightarrow> parent_ref" where
  "inherited p = (if p = No_parent then No_parent else Other_parent)"

definition child_around :: "('k, 'v) around \<Rightarrow> 'k list \<Rightarrow> ('k, 'v) bnode list \<Rightarrow> nat \<Rightarrow> ('k, 'v) around option" where
  "child_around arr ks cs slot = do {
     (myleft, lp) \<leftarrow> (if slot = 0 then do { c \<leftarrow> cousin_left (left_node arr); Some (c, inherited (leftparent arr)) }
        else Some (Some (cs ! (slot - 1)), The_parent));
     (myright, rp) \<leftarrow> (if slot = length ks then do { c \<leftarrow> cousin_right (right_node arr); Some (c, inherited (rightparent arr)) }
        else if slot + 1 < length cs then Some (Some (cs ! (slot + 1)), The_parent) else None);
     Some \<lparr>parent_keys_of = Some ks, parentslot = slot, left_node = myleft, right_node = myright,
       leftparent = lp, rightparent = rp\<rparr> }"

text \<open>The key of the node in its parent, if it has one there, or else the flag\<close>

definition set_lastkey :: "'k \<Rightarrow> ('k, 'v) around \<Rightarrow> ('k, 'v) around \<times> 'k erase_result" where
  "set_lastkey k arr = (case parent_keys_of arr of
       Some ks \<Rightarrow> if parentslot arr < length ks then (arr\<lparr>parent_keys_of := Some (ks[parentslot arr := k])\<rparr>, btree_ok)
         else (arr, btree_ok\<lparr>update_lastkey := Some k\<rparr>)
     | None \<Rightarrow> (arr, btree_ok\<lparr>update_lastkey := Some k\<rparr>))"

subsection \<open>Choosing the repair\<close>

datatype repair = Trim_root | Merge_left | Merge_right | Shift_from_right | Shift_from_left

definition choose_repair :: "'k btree_class \<Rightarrow> ('k, 'v) around \<Rightarrow> repair option" where
  "choose_repair C arr =
     (let L = left_node arr; R = right_node arr; few = (\<lambda>n. \<exists>x\<in>set_option n. node_isfew C x) in
      if L = None \<and> R = None then Some Trim_root
      else if (L = None \<or> few L) \<and> (R = None \<or> few R) then
        Some (if leftparent arr = The_parent then Merge_left else Merge_right)
      else if (L \<noteq> None \<and> few L) \<and> (R \<noteq> None \<and> \<not> few R) then
        Some (if rightparent arr = The_parent then Shift_from_right else Merge_left)
      else if (L \<noteq> None \<and> \<not> few L) \<and> (R \<noteq> None \<and> few R) then
        Some (if leftparent arr = The_parent then Shift_from_left else Merge_right)
      else if leftparent arr = rightparent arr then
        (case (L, R) of (Some x, Some y) \<Rightarrow> Some (if node_slotuse x \<le> node_slotuse y then Shift_from_right else Shift_from_left)
         | _ \<Rightarrow> None)
      else Some (if leftparent arr = The_parent then Shift_from_left else Shift_from_right))"

subsection \<open>Moving entries between two neighbours\<close>

fun merge_leaves :: "('k, 'v) bnode \<Rightarrow> ('k, 'v) bnode \<Rightarrow> tree_mem \<Rightarrow> (('k, 'v) bnode \<times> ('k, 'v) bnode \<times> tree_mem) option" where
  "merge_leaves (Leaf i as) (Leaf j bs) m = (let nx = nextleaf m j; m1 = m\<lparr>nextleaf := (nextleaf m)(i := nx)\<rparr>
     in Some (Leaf i (as @ bs), Leaf j [],
       case nx of Some k \<Rightarrow> m1\<lparr>prevleaf := (prevleaf m1)(k := Some i)\<rparr> | None \<Rightarrow> m1\<lparr>m_tailleaf := Some i\<rparr>))"
| "merge_leaves _ _ m = None"

fun merge_inner :: "'k \<Rightarrow> ('k, 'v) bnode \<Rightarrow> ('k, 'v) bnode \<Rightarrow> (('k, 'v) bnode \<times> ('k, 'v) bnode) option" where
  "merge_inner decision (Inner l ka ca) (Inner l' kb cb) = Some (Inner l (ka @ decision # kb) (ca @ cb), Inner l' [] [])"
| "merge_inner decision _ _ = None"

fun shift_left_leaf :: "('k, 'v) bnode \<Rightarrow> ('k, 'v) bnode \<Rightarrow> (('k, 'v) bnode \<times> ('k, 'v) bnode \<times> 'k) option" where
  "shift_left_leaf (Leaf i as) (Leaf j bs) = (let shiftnum = (length bs - length as) div 2; as' = as @ take shiftnum bs
     in if as' = [] then None else Some (Leaf i as', Leaf j (drop shiftnum bs), fst (last as')))"
| "shift_left_leaf _ _ = None"

fun shift_right_leaf :: "('k, 'v) bnode \<Rightarrow> ('k, 'v) bnode \<Rightarrow> (('k, 'v) bnode \<times> ('k, 'v) bnode \<times> 'k) option" where
  "shift_right_leaf (Leaf i as) (Leaf j bs) = (let shiftnum = (length as - length bs) div 2;
     as' = take (length as - shiftnum) as
     in if as' = [] then None else Some (Leaf i as', Leaf j (drop (length as - shiftnum) as @ bs), fst (last as')))"
| "shift_right_leaf _ _ = None"

fun shift_left_inner :: "'k \<Rightarrow> ('k, 'v) bnode \<Rightarrow> ('k, 'v) bnode \<Rightarrow> (('k, 'v) bnode \<times> ('k, 'v) bnode \<times> 'k) option" where
  "shift_left_inner decision (Inner l ka ca) (Inner l' kb cb) = (let shiftnum = (length kb - length ka) div 2 in
     if shiftnum = 0 then None
     else Some (Inner l (ka @ decision # take (shiftnum - 1) kb) (ca @ take shiftnum cb),
       Inner l' (drop shiftnum kb) (drop shiftnum cb), kb ! (shiftnum - 1)))"
| "shift_left_inner decision _ _ = None"

fun shift_right_inner :: "'k \<Rightarrow> ('k, 'v) bnode \<Rightarrow> ('k, 'v) bnode \<Rightarrow> (('k, 'v) bnode \<times> ('k, 'v) bnode \<times> 'k) option" where
  "shift_right_inner decision (Inner l ka ca) (Inner l' kb cb) = (let shiftnum = (length ka - length kb) div 2;
     p = length ka - shiftnum in
     if shiftnum = 0 then None
     else Some (Inner l (take p ka) (take (p + 1) ca),
       Inner l' (drop (p + 1) ka @ decision # kb) (drop (p + 1) ca @ cb), ka ! p))"
| "shift_right_inner decision _ _ = None"

subsection \<open>Repairing a node\<close>

type_synonym ('k, 'v) erase_out = "'k erase_result \<times> ('k, 'v) bnode option \<times> ('k, 'v) around \<times> tree_mem"

definition merged :: "'k erase_result" where
  "merged = btree_ok\<lparr>fixmerge := True\<rparr>"

definition set_parent_key :: "nat \<Rightarrow> 'k \<Rightarrow> ('k, 'v) around \<Rightarrow> ('k, 'v) around" where
  "set_parent_key j k arr = arr\<lparr>parent_keys_of := map_option (\<lambda>ks. ks[j := k]) (parent_keys_of arr)\<rparr>"

definition parent_key :: "nat \<Rightarrow> ('k, 'v) around \<Rightarrow> 'k option" where
  "parent_key j arr = do { ks \<leftarrow> parent_keys_of arr; if j < length ks then Some (ks ! j) else None }"

definition repair_leaf :: "'k btree_class \<Rightarrow> 'k erase_result \<Rightarrow> ('k, 'v) around \<Rightarrow> nat \<Rightarrow> ('k \<times> 'v) list \<Rightarrow> tree_mem
    \<Rightarrow> ('k, 'v) erase_out option" where
  "repair_leaf C myres arr i es m = do { how \<leftarrow> choose_repair C arr;
     (case how of
        Trim_root \<Rightarrow> Some (btree_ok, None, arr, (free_node (Leaf i es) m)\<lparr>m_headleaf := None, m_tailleaf := None\<rparr>)
      | Merge_left \<Rightarrow> if leftparent arr = The_parent then do { left \<leftarrow> left_node arr; (a, b, m') \<leftarrow> merge_leaves left (Leaf i es) m;
          Some (or_result myres merged, Some b, arr\<lparr>left_node := Some a\<rparr>, m') } else None
      | Merge_right \<Rightarrow> if rightparent arr = The_parent then do { right \<leftarrow> right_node arr; (a, b, m') \<leftarrow> merge_leaves (Leaf i es) right m;
          Some (or_result myres merged, Some a, arr\<lparr>right_node := Some b\<rparr>, m') } else None
      | Shift_from_right \<Rightarrow> if rightparent arr = The_parent then do { right \<leftarrow> right_node arr; (a, b, k) \<leftarrow> shift_left_leaf (Leaf i es) right;
          (case set_lastkey k arr of (arr', r) \<Rightarrow> Some (or_result myres r, Some a, arr'\<lparr>right_node := Some b\<rparr>, m)) } else None
      | Shift_from_left \<Rightarrow> if leftparent arr = The_parent then do { left \<leftarrow> left_node arr; (a, b, k) \<leftarrow> shift_right_leaf left (Leaf i es);
          Some (myres, Some b, set_parent_key (parentslot arr - 1) k (arr\<lparr>left_node := Some a\<rparr>), m) } else None) }"

definition repair_inner :: "'k btree_class \<Rightarrow> 'k erase_result \<Rightarrow> ('k, 'v) around \<Rightarrow> nat \<Rightarrow> 'k list \<Rightarrow> ('k, 'v) bnode list \<Rightarrow> tree_mem
    \<Rightarrow> ('k, 'v) erase_out option" where
  "repair_inner C myres arr l ks cs m = do { how \<leftarrow> choose_repair C arr;
     (case how of
        Trim_root \<Rightarrow> if cs = [] then None else Some (btree_ok, Some (cs ! 0), arr, free_node (Inner l [] cs) m)
      | Merge_left \<Rightarrow> if leftparent arr = The_parent then do { left \<leftarrow> left_node arr; k \<leftarrow> parent_key (parentslot arr - 1) arr;
          (a, b) \<leftarrow> merge_inner k left (Inner l ks cs);
          Some (or_result myres merged, Some b, arr\<lparr>left_node := Some a\<rparr>, m) } else None
      | Merge_right \<Rightarrow> if rightparent arr = The_parent then do { right \<leftarrow> right_node arr; k \<leftarrow> parent_key (parentslot arr) arr;
          (a, b) \<leftarrow> merge_inner k (Inner l ks cs) right;
          Some (or_result myres merged, Some a, arr\<lparr>right_node := Some b\<rparr>, m) } else None
      | Shift_from_right \<Rightarrow> if rightparent arr = The_parent then do { right \<leftarrow> right_node arr; k \<leftarrow> parent_key (parentslot arr) arr;
          (a, b, k') \<leftarrow> shift_left_inner k (Inner l ks cs) right;
          Some (myres, Some a, set_parent_key (parentslot arr) k' (arr\<lparr>right_node := Some b\<rparr>), m) } else None
      | Shift_from_left \<Rightarrow> if leftparent arr = The_parent then do { left \<leftarrow> left_node arr; k \<leftarrow> parent_key (parentslot arr - 1) arr;
          (a, b, k') \<leftarrow> shift_right_inner k left (Inner l ks cs);
          Some (myres, Some b, set_parent_key (parentslot arr - 1) k' (arr\<lparr>left_node := Some a\<rparr>), m) } else None) }"

subsection \<open>Removal from a leaf, and the parent after the call\<close>

text \<open>A node is the root if it has no parent.\<close>

definition erase_from_leaf :: "'k btree_class \<Rightarrow> ('k, 'v) around \<Rightarrow> nat \<Rightarrow> ('k \<times> 'v) list \<Rightarrow> nat \<Rightarrow> tree_mem
    \<Rightarrow> ('k, 'v) erase_out option" where
  "erase_from_leaf C arr i es slot m = (let es' = take slot es @ drop (slot + 1) es; root = (parent_keys_of arr = None);
     (arr', myres) = (if slot = length es' \<and> es' \<noteq> [] then set_lastkey (fst (last es')) arr else (arr, btree_ok))
     in if slot = length es' \<and> es' = [] \<and> \<not> root then None
        else if node_isunderflow C (Leaf i es') \<and> \<not> (root \<and> 1 \<le> length es') then repair_leaf C myres arr' i es' m
        else Some (myres, Some (Leaf i es'), arr', m))"

text \<open>The changes the call made to the children and keys of this node\<close>

definition write_back :: "('k, 'v) around \<Rightarrow> ('k, 'v) bnode \<Rightarrow> nat \<Rightarrow> ('k, 'v) bnode list \<Rightarrow> ('k, 'v) bnode list" where
  "write_back arr c slot cs = (let cs1 = cs[slot := c];
     cs2 = (case (leftparent arr, left_node arr) of (The_parent, Some a) \<Rightarrow> cs1[slot - 1 := a] | _ \<Rightarrow> cs1)
     in (case (rightparent arr, right_node arr) of (The_parent, Some b) \<Rightarrow> cs2[slot + 1 := b] | _ \<Rightarrow> cs2))"

definition remove_merged :: "nat \<Rightarrow> 'k list \<Rightarrow> ('k, 'v) bnode list \<Rightarrow> nat \<Rightarrow> tree_mem
    \<Rightarrow> ('k list \<times> ('k, 'v) bnode list \<times> tree_mem) option" where
  "remove_merged l ks cs slot0 m = (if slot0 < length cs then
       let slot = (if node_slotuse (cs ! slot0) \<noteq> 0 then slot0 + 1 else slot0) in
       if slot < length cs \<and> 0 < slot then
         let m' = free_node (cs ! slot) m; ks' = take (slot - 1) ks @ drop slot ks; cs' = take slot cs @ drop (slot + 1) cs in
         if l = 1 then
           (case cs' ! (slot - 1) of Leaf i es \<Rightarrow> if es = [] then None else Some (ks'[slot - 1 := fst (last es)], cs', m') | _ \<Rightarrow> None)
         else Some (ks', cs', m')
       else None
     else None)"

definition erase_in_parent :: "'k btree_class \<Rightarrow> ('k, 'v) around \<Rightarrow> nat \<Rightarrow> ('k, 'v) bnode list \<Rightarrow> nat \<Rightarrow> ('k, 'v) erase_out
    \<Rightarrow> ('k, 'v) erase_out option" where
  "erase_in_parent C arr l cs slot out = (case out of (res, c, carr, m) \<Rightarrow> do {
     c' \<leftarrow> c; ks1 \<leftarrow> parent_keys_of carr;
     let cs1 = write_back carr c' slot cs;
     let (arr', myres) = (case update_lastkey res of Some k \<Rightarrow> set_lastkey k arr | None \<Rightarrow> (arr, btree_ok));
     (ks2, cs2, m2) \<leftarrow> (if fixmerge res then remove_merged l ks1 cs1 slot m else Some (ks1, cs1, m));
     if node_isunderflow C (Inner l ks2 cs2) \<and> \<not> (parent_keys_of arr = None \<and> 1 \<le> length ks2)
     then repair_inner C myres arr' l ks2 cs2 m2
     else Some (myres, Some (Inner l ks2 cs2), arr', m2) })"

subsection \<open>Erasing by key\<close>

fun erase_one_descend :: "'k::linorder btree_class \<Rightarrow> 'k \<Rightarrow> ('k, 'v) bnode \<Rightarrow> ('k, 'v) around \<Rightarrow> tree_mem
    \<Rightarrow> ('k, 'v) erase_out option" where
  "erase_one_descend C key (Leaf i es) arr m = do { slot \<leftarrow> find_lower C (map fst es) key;
     if length es \<le> slot \<or> \<not> key_equal key (fst (es ! slot)) then Some (btree_not_found, Some (Leaf i es), arr, m)
     else erase_from_leaf C arr i es slot m }"
| "erase_one_descend C key (Inner l ks cs) arr m = do { slot \<leftarrow> find_lower C ks key;
     carr \<leftarrow> child_around arr ks cs slot;
     if slot < length cs then do {
       out \<leftarrow> erase_one_descend C key (cs ! slot) carr m;
       if not_found (fst out) then Some (fst out, Some (Inner l ks cs), arr, m)
       else erase_in_parent C arr l cs slot out }
     else None }"

definition dec_itemcount :: "tree_mem \<Rightarrow> tree_mem" where
  "dec_itemcount m = m\<lparr>m_stats := (m_stats m)\<lparr>st_itemcount := st_itemcount (m_stats m) - 1\<rparr>\<rparr>"

definition btree_erase_one :: "'k::linorder btree_class \<Rightarrow> 'k \<Rightarrow> ('k, 'v) btree \<Rightarrow> (bool \<times> ('k, 'v) btree) option" where
  "btree_erase_one C key t = (case m_root t of None \<Rightarrow> Some (False, t)
     | Some n \<Rightarrow> do { (res, root, arr, m) \<leftarrow> erase_one_descend C key n root_around (m_mem t);
         Some (\<not> not_found res, \<lparr>m_root = root, m_mem = (if not_found res then m else dec_itemcount m)\<rparr>) })"

partial_function (option) btree_erase_loop :: "'k::linorder btree_class \<Rightarrow> 'k \<Rightarrow> nat \<Rightarrow> ('k, 'v) btree \<Rightarrow> (nat \<times> ('k, 'v) btree) option" where
  [code]: "btree_erase_loop C key c t = do { (found, t') \<leftarrow> btree_erase_one C key t;
     if \<not> found then Some (c, t') else if \<not> allow_duplicates C then Some (c + 1, t')
     else btree_erase_loop C key (c + 1) t' }"

definition btree_erase :: "'k::linorder btree_class \<Rightarrow> 'k \<Rightarrow> ('k, 'v) btree \<Rightarrow> (nat \<times> ('k, 'v) btree) option" where
  "btree_erase C key t = btree_erase_loop C key 0 t"

subsection \<open>Erasing at an iterator\<close>

text \<open>
  \<open>iter.key()\<close> reads the slot the iterator points to, which no call changes before the leaf is
  found: the descent gets its value, \<open>None\<close> for a slot outside the used part of a leaf.
\<close>

function (sequential) erase_iter_descend :: "'k::linorder btree_class \<Rightarrow> titer \<Rightarrow> 'k option \<Rightarrow> ('k, 'v) bnode \<Rightarrow> ('k, 'v) around \<Rightarrow> tree_mem
    \<Rightarrow> ('k, 'v) erase_out option"
  and erase_iter_slots :: "'k::linorder btree_class \<Rightarrow> titer \<Rightarrow> 'k \<Rightarrow> nat \<Rightarrow> 'k list \<Rightarrow> ('k, 'v) bnode list \<Rightarrow> nat \<Rightarrow> ('k, 'v) around \<Rightarrow> tree_mem
    \<Rightarrow> ('k, 'v) erase_out option" where
  "erase_iter_descend C it key (Leaf i es) arr m =
     (if currnode it \<noteq> Some i then Some (btree_not_found, Some (Leaf i es), arr, m)
      else if length es \<le> currslot it then Some (btree_not_found, Some (Leaf i es), arr, m)
      else erase_from_leaf C arr i es (currslot it) m)"
| "erase_iter_descend C it key (Inner l ks cs) arr m = do { k \<leftarrow> key; slot \<leftarrow> find_lower C ks k; erase_iter_slots C it k l ks cs slot arr m }"
| "erase_iter_slots C it k l ks cs slot arr m =
     (if \<not> slot \<le> length ks then Some (btree_not_found, Some (Inner l ks cs), arr, m)
      else if slot < length cs then do {
        carr \<leftarrow> child_around arr ks cs slot;
        out \<leftarrow> erase_iter_descend C it (Some k) (cs ! slot) carr m;
        if \<not> not_found (fst out) then erase_in_parent C arr l cs slot out
        else if slot < length ks \<and> ks ! slot < k then Some (btree_not_found, Some (Inner l ks cs), arr, m)
        else erase_iter_slots C it k l ks cs (slot + 1) arr m }
      else None)"
  by pat_completeness auto
termination
  by (relation "measures [\<lambda>x. case x of Inl (C, it, key, n, arr, m) \<Rightarrow> 2 * size n | Inr (C, it, k, l, ks, cs, slot, arr, m) \<Rightarrow> Suc (2 * size_list size cs),
      \<lambda>x. case x of Inl _ \<Rightarrow> 0 | Inr (C, it, k, l, ks, cs, slot, arr, m) \<Rightarrow> length cs - slot]")
    (use child_size [where n = 0] in \<open>auto simp: less_Suc_eq_le\<close>)

definition btree_erase_iter :: "'k::linorder btree_class \<Rightarrow> titer \<Rightarrow> ('k, 'v) btree \<Rightarrow> ('k, 'v) btree option" where
  "btree_erase_iter C it t = (case m_root t of None \<Rightarrow> Some t
     | Some n \<Rightarrow> do { (res, root, arr, m) \<leftarrow> erase_iter_descend C it (map_option fst (iter_deref t it)) n root_around (m_mem t);
         Some \<lparr>m_root = root, m_mem = (if not_found res then m else dec_itemcount m)\<rparr> })"

end
