(* ===== verification/Btree_Repair.thy ===== *)
theory Btree_Repair
  imports Btree_Erase
begin

text \<open>
  The repair of a node that lost an entry: whatever shift or merge the code chooses, the parent
  ends with well-formed children, the right separators, the same entries and a correct chain and
  statistics. The choice depends only on the neighbours that hang under the same parent.
\<close>

subsection \<open>What the chain and the statistics say of a part of the tree\<close>

text \<open>
  \<open>pre\<close> and \<open>post\<close> are the leaves before and behind the part, \<open>lc\<close> and \<open>ic\<close> the numbers of the other
  leaves and inner nodes.
\<close>

definition mem_holds :: "tree_mem \<Rightarrow> nat list \<Rightarrow> nat list \<Rightarrow> nat \<Rightarrow> nat \<Rightarrow> nat \<Rightarrow> ('k, 'v) bnode list \<Rightarrow> bool" where
  "mem_holds m pre post n lc ic ns \<longleftrightarrow> chain_ok m (pre @ concat (map leaf_ids ns) @ post)
     \<and> st_itemcount (m_stats m) = n
     \<and> st_leaves (m_stats m) = lc + sum_list (map (length \<circ> tree_leaves) ns)
     \<and> st_innernodes (m_stats m) = ic + sum_list (map inner_count ns)"

lemma mem_holds_Inner: "mem_holds m pre post n lc ic [Inner l ks cs] = mem_holds m pre post n lc (Suc ic) cs"
  by (simp add: mem_holds_def length_concat o_def)

lemma mem_holds_append:
  "mem_holds m pre post n lc ic (A @ ns @ B) = mem_holds m (pre @ concat (map leaf_ids A)) (concat (map leaf_ids B) @ post) n
     (lc + sum_list (map (length \<circ> tree_leaves) A) + sum_list (map (length \<circ> tree_leaves) B))
     (ic + sum_list (map inner_count A) + sum_list (map inner_count B)) ns"
  by (auto simp: mem_holds_def)

lemma mem_holds_cong:
  assumes "concat (map leaf_ids ns) = concat (map leaf_ids ns')"
    "sum_list (map (length \<circ> tree_leaves) ns) = sum_list (map (length \<circ> tree_leaves) ns')"
    "sum_list (map inner_count ns) = sum_list (map inner_count ns')"
  shows "mem_holds m pre post n lc ic ns = mem_holds m pre post n lc ic ns'"
  using assms by (simp add: mem_holds_def)

subsection \<open>Nodes with one slot less than they need\<close>

fun almost_wf :: "'k btree_class \<Rightarrow> bool \<Rightarrow> ('k, 'v) bnode \<Rightarrow> bool" where
  "almost_wf C r (Leaf i es) \<longleftrightarrow> length es \<le> leafslotmax C \<and> (r \<or> minleafslots C \<le> Suc (length es))"
| "almost_wf C r (Inner l ks cs) \<longleftrightarrow> length ks \<le> innerslotmax C \<and> (r \<or> mininnerslots C \<le> Suc (length ks)) \<and> children_ok C l ks cs"

lemma min_slots:
  assumes "btree_class_ok C"
  shows "4 \<le> minleafslots C" "2 * minleafslots C \<le> leafslotmax C" "4 \<le> mininnerslots C" "2 * mininnerslots C \<le> innerslotmax C"
  using btree_class_okD(3,4) [OF assms] by (auto simp: minleafslots_def mininnerslots_def)

lemma almost_wf_settled:
  assumes "btree_class_ok C" "almost_wf C r n" "\<not> node_isunderflow C n"
  shows "node_wf C r n"
  using assms min_slots [OF assms(1)] by (cases n) (auto simp: node_wf_children simp del: node_wf.simps(2))

lemma children_ok_nonempty: "children_ok C l ks cs \<Longrightarrow> c \<in> set cs \<Longrightarrow> node_entries c \<noteq> []"
  using node_wf_nonempty by (fastforce simp: children_ok_def)

lemma almost_wf_nonempty:
  assumes "btree_class_ok C" "almost_wf C False n"
  shows "node_entries n \<noteq> []" "0 < node_slotuse n"
proof -
  show "0 < node_slotuse n" using assms min_slots [OF assms(1)] by (cases n) auto
  show "node_entries n \<noteq> []"
  proof (cases n)
    case (Leaf i es)
    then show ?thesis using assms min_slots [OF assms(1)] by auto
  next
    case (Inner l ks cs)
    then have ch: "children_ok C l ks cs" and ne: "cs \<noteq> []" using assms(2) by (auto simp: children_ok_def)
    then have "node_entries (last cs) \<noteq> []" by (intro children_ok_nonempty [OF ch]) simp
    then show ?thesis using Inner ne by auto
  qed
qed

lemma node_wf_almost: "node_wf C r n \<Longrightarrow> almost_wf C r n"
  by (cases n) (auto simp: children_ok_def)

lemma children_ok_append:
  assumes "children_ok C l ka ca" "children_ok C l kb cb"
  shows "children_ok C l (ka @ maxkey (Inner l ka ca) # kb) (ca @ cb)"
proof -
  have ne: "ca \<noteq> []" "cb \<noteq> []" and ks: "ka = map maxkey (butlast ca)" "kb = map maxkey (butlast cb)"
    using assms by (simp_all add: children_ok_def)
  have "maxkey (Inner l ka ca) = maxkey (last ca)"
    by (rule maxkey_Inner [OF ne(1)]) (rule children_ok_nonempty [OF assms(1)], use ne in simp)
  then have "map maxkey ca = ka @ [maxkey (Inner l ka ca)]"
    using arg_cong [OF append_butlast_last_id [OF ne(1)], of "map maxkey"] ks(1) by simp
  then have "map maxkey (butlast (ca @ cb)) = ka @ maxkey (Inner l ka ca) # kb" using ks(2) ne(2) by (simp add: butlast_append)
  then show ?thesis using assms by (auto simp: children_ok_def)
qed

subsection \<open>Joining and rebalancing two neighbours\<close>

definition same_pair :: "('k, 'v) bnode list \<Rightarrow> ('k, 'v) bnode list \<Rightarrow> bool" where
  "same_pair ns ns' \<longleftrightarrow> concat (map node_entries ns) = concat (map node_entries ns')
     \<and> concat (map leaf_ids ns) = concat (map leaf_ids ns')
     \<and> sum_list (map (length \<circ> tree_leaves) ns) = sum_list (map (length \<circ> tree_leaves) ns')
     \<and> sum_list (map inner_count ns) = sum_list (map inner_count ns')"

definition shift_ok :: "'k btree_class \<Rightarrow> ('k, 'v) bnode \<Rightarrow> ('k, 'v) bnode \<Rightarrow> ('k, 'v) bnode \<times> ('k, 'v) bnode \<times> 'k \<Rightarrow> bool" where
  "shift_ok C a b s \<longleftrightarrow> (case s of (a', b', k) \<Rightarrow> same_pair [a, b] [a', b'] \<and> node_level a' = node_level a
     \<and> node_level b' = node_level b \<and> node_wf C False a' \<and> node_wf C False b' \<and> k = maxkey a')"

lemma leaf_split_ok:
  assumes "btree_class_ok C" "as @ bs = as' @ bs'" "minleafslots C \<le> length as'" "minleafslots C \<le> length bs'"
    "length as' \<le> leafslotmax C" "length bs' \<le> leafslotmax C"
  shows "shift_ok C (Leaf i as) (Leaf j bs) (Leaf i as', Leaf j bs', fst (last as'))"
  using assms min_slots(1) [OF assms(1)] by (auto simp: shift_ok_def same_pair_def maxkey_def)

lemma half_shift:
  assumes "(m :: nat) \<le> Suc a" "a < m" "m < b"
  shows "0 < (b - a) div 2" "m \<le> a + (b - a) div 2" "m \<le> b - (b - a) div 2" "a + (b - a) div 2 \<le> b" "(b - a) div 2 \<le> b" "b - (b - a) div 2 \<le> b"
proof -
  have m: "m = Suc a" using assms by simp
  obtain d where "b = Suc (Suc (a + d))" using assms(3) m less_iff_Suc_add [of m b] by auto
  then show "0 < (b - a) div 2" "m \<le> a + (b - a) div 2" "m \<le> b - (b - a) div 2" "a + (b - a) div 2 \<le> b" "(b - a) div 2 \<le> b" "b - (b - a) div 2 \<le> b"
    using m by simp_all
qed

lemma shift_left_leaf_ok:
  assumes "btree_class_ok C" "almost_wf C False (Leaf i as)" "node_isunderflow C (Leaf i as)" "node_wf C False (Leaf j bs)"
    "\<not> node_isfew C (Leaf j bs)"
  shows "\<exists>s. shift_left_leaf (Leaf i as) (Leaf j bs) = Some s \<and> shift_ok C (Leaf i as) (Leaf j bs) s"
proof -
  have l: "minleafslots C \<le> Suc (length as)" "length as < minleafslots C" "minleafslots C < length bs" "length bs \<le> leafslotmax C"
    using assms by simp_all
  define n where "n = (length bs - length as) div 2"
  note n = half_shift [OF l(1-3), folded n_def]
  have len: "length (as @ take n bs) = length as + n" "length (drop n bs) = length bs - n" using n(5) by simp_all
  have "shift_ok C (Leaf i as) (Leaf j bs) (Leaf i (as @ take n bs), Leaf j (drop n bs), fst (last (as @ take n bs)))"
    by (rule leaf_split_ok [OF assms(1)], simp, unfold len)
      (fact n(2) n(3) order_trans [OF n(4) l(4)] order_trans [OF n(6) l(4)])+
  moreover have "as @ take n bs \<noteq> []" using n(1) l(3) by auto
  ultimately show ?thesis unfolding shift_left_leaf.simps n_def [symmetric] Let_def by (simp only: if_False) blast
qed

lemma shift_right_leaf_ok:
  assumes "btree_class_ok C" "almost_wf C False (Leaf j bs)" "node_isunderflow C (Leaf j bs)" "node_wf C False (Leaf i as)"
    "\<not> node_isfew C (Leaf i as)"
  shows "\<exists>s. shift_right_leaf (Leaf i as) (Leaf j bs) = Some s \<and> shift_ok C (Leaf i as) (Leaf j bs) s"
proof -
  have l: "minleafslots C \<le> Suc (length bs)" "length bs < minleafslots C" "minleafslots C < length as" "length as \<le> leafslotmax C"
    using assms by simp_all
  define n where "n = (length as - length bs) div 2"
  note n = half_shift [OF l(1-3), folded n_def]
  define p where "p = length as - n"
  have len: "length (take p as) = length as - n" "length (drop p as @ bs) = length bs + n" using n(5) by (simp_all add: p_def)
  have "shift_ok C (Leaf i as) (Leaf j bs) (Leaf i (take p as), Leaf j (drop p as @ bs), fst (last (take p as)))"
    by (rule leaf_split_ok [OF assms(1)], simp, unfold len)
      (fact n(3) n(2) order_trans [OF n(6) l(4)] order_trans [OF n(4) l(4)])+
  moreover have "length (take p as) \<noteq> 0" using n(3) l(2) unfolding len by simp
  ultimately show ?thesis unfolding shift_right_leaf.simps n_def [symmetric] Let_def p_def [symmetric]
    by (simp only: length_0_conv if_False) blast
qed

lemma inner_split_ok:
  assumes "children_ok C l ka ca" "children_ok C l kb cb" "K = ka @ maxkey (Inner l ka ca) # kb" "S = ca @ cb"
    "d < length K" "0 < mininnerslots C" "mininnerslots C \<le> d" "mininnerslots C \<le> length K - Suc d" "d \<le> innerslotmax C" "length K - Suc d \<le> innerslotmax C"
  shows "shift_ok C (Inner l ka ca) (Inner l kb cb) (Inner l (take d K) (take (d + 1) S), Inner l (drop (d + 1) K) (drop (d + 1) S), K ! d)"
proof -
  have ch: "children_ok C l K S" using children_ok_append [OF assms(1,2)] assms(3,4) by simp
  note s = children_ok_split [OF ch assms(5)]
  have f: "concat (map f (take (d + 1) S)) @ concat (map f (drop (d + 1) S)) = concat (map f ca) @ concat (map f cb)" for f :: "('a, 'b) bnode \<Rightarrow> 'c list"
    using arg_cong [OF append_take_drop_id [of "d + 1" S], of "\<lambda>S. concat (map f S)"] assms(4) by simp
  have g: "sum_list (map f (take (d + 1) S)) + sum_list (map f (drop (d + 1) S)) = sum_list (map f ca) + sum_list (map f cb)" for f :: "('a, 'b) bnode \<Rightarrow> nat"
    using arg_cong [OF append_take_drop_id [of "d + 1" S], of "\<lambda>S. sum_list (map f S)"] assms(4) by simp
  have "same_pair [Inner l ka ca, Inner l kb cb] [Inner l (take d K) (take (d + 1) S), Inner l (drop (d + 1) K) (drop (d + 1) S)]"
    unfolding same_pair_def
    using f [of node_entries] f [of leaf_ids] g [of inner_count] g [of "\<lambda>n. length (tree_leaves n)"] by (simp add: length_concat o_def)
  moreover have "take d K \<noteq> []" "drop (d + 1) K \<noteq> []" using assms(5-8) by auto
  ultimately show ?thesis unfolding shift_ok_def prod.case node_wf_children using s assms(5-10) by simp
qed

lemma shift_left_inner_ok:
  assumes ok: "btree_class_ok C" and a: "almost_wf C False (Inner l ka ca)" "node_isunderflow C (Inner l ka ca)"
    and b: "node_wf C False (Inner l kb cb)" "\<not> node_isfew C (Inner l kb cb)"
  shows "\<exists>s. shift_left_inner (maxkey (Inner l ka ca)) (Inner l ka ca) (Inner l kb cb) = Some s
    \<and> shift_ok C (Inner l ka ca) (Inner l kb cb) s"
proof -
  have l: "mininnerslots C \<le> Suc (length ka)" "length ka < mininnerslots C" "mininnerslots C < length kb" "length kb \<le> innerslotmax C"
    using a b unfolding node_wf_children by simp_all
  have ch: "children_ok C l ka ca" "children_ok C l kb cb" using a(1) b(1) unfolding node_wf_children by simp_all
  have lca: "length ca = Suc (length ka)" using ch(1) by (cases ca) (simp_all add: children_ok_def)
  define d where "d = maxkey (Inner l ka ca)"
  define n where "n = (length kb - length ka) div 2"
  note n = half_shift [OF l(1-3), folded n_def]
  then obtain n' where n': "n = Suc n'" "n' < length kb" using l(3) by (cases n) simp_all
  let ?K = "ka @ d # kb" and ?S = "ca @ cb" and ?d = "length ka + n"
  have len: "length ?K - Suc ?d = length kb - n" "?d < length ?K" using n' by simp_all
  have "shift_ok C (Inner l ka ca) (Inner l kb cb)
      (Inner l (take ?d ?K) (take (?d + 1) ?S), Inner l (drop (?d + 1) ?K) (drop (?d + 1) ?S), ?K ! ?d)"
    using n(2,3) order_trans [OF n(4) l(4)] order_trans [OF n(6) l(4)] min_slots(3) [OF ok]
    by (intro inner_split_ok [OF ch]) (simp_all only: d_def len, simp_all)
  moreover have "take ?d ?K = ka @ d # take (n - 1) kb" "take (?d + 1) ?S = ca @ take n cb" "drop (?d + 1) ?K = drop n kb"
    "drop (?d + 1) ?S = drop n cb" "?K ! ?d = kb ! (n - 1)" using lca n' by (simp_all add: nth_append)
  moreover have "shift_left_inner d (Inner l ka ca) (Inner l kb cb) = Some (Inner l (ka @ d # take (n - 1) kb) (ca @ take n cb),
       Inner l (drop n kb) (drop n cb), kb ! (n - 1))" using n(1) unfolding shift_left_inner.simps n_def [symmetric] Let_def by simp
  ultimately show ?thesis unfolding d_def [symmetric] by (metis (no_types))
qed

lemma shift_right_inner_ok:
  assumes ok: "btree_class_ok C" and b: "almost_wf C False (Inner l kb cb)" "node_isunderflow C (Inner l kb cb)"
    and a: "node_wf C False (Inner l ka ca)" "\<not> node_isfew C (Inner l ka ca)"
  shows "\<exists>s. shift_right_inner (maxkey (Inner l ka ca)) (Inner l ka ca) (Inner l kb cb) = Some s
    \<and> shift_ok C (Inner l ka ca) (Inner l kb cb) s"
proof -
  have l: "mininnerslots C \<le> Suc (length kb)" "length kb < mininnerslots C" "mininnerslots C < length ka" "length ka \<le> innerslotmax C"
    using a b unfolding node_wf_children by simp_all
  have ch: "children_ok C l ka ca" "children_ok C l kb cb" using a(1) b(1) unfolding node_wf_children by simp_all
  have lca: "length ca = Suc (length ka)" using ch(1) by (cases ca) (simp_all add: children_ok_def)
  define d where "d = maxkey (Inner l ka ca)"
  define n where "n = (length ka - length kb) div 2"
  note n = half_shift [OF l(1-3), folded n_def]
  define p where "p = length ka - n"
  let ?K = "ka @ d # kb" and ?S = "ca @ cb"
  have p: "p < length ka" using n(1) l(3) by (simp add: p_def)
  have len: "length ?K - Suc p = length kb + n" "p < length ?K" using n(5) p by (simp_all add: p_def)
  have "shift_ok C (Inner l ka ca) (Inner l kb cb)
      (Inner l (take p ?K) (take (p + 1) ?S), Inner l (drop (p + 1) ?K) (drop (p + 1) ?S), ?K ! p)"
    using n(2,3) order_trans [OF n(4) l(4)] order_trans [OF n(6) l(4)] min_slots(3) [OF ok]
    by (intro inner_split_ok [OF ch]) (simp_all only: d_def len, simp_all add: p_def)
  moreover have "take p ?K = take p ka" "take (p + 1) ?S = take (p + 1) ca" "drop (p + 1) ?K = drop (p + 1) ka @ d # kb"
    "drop (p + 1) ?S = drop (p + 1) ca @ cb" "?K ! p = ka ! p" using lca p by (simp_all add: nth_append)
  moreover have "shift_right_inner d (Inner l ka ca) (Inner l kb cb) = Some (Inner l (take p ka) (take (p + 1) ca),
       Inner l (drop (p + 1) ka @ d # kb) (drop (p + 1) ca @ cb), ka ! p)"
    using n(1) unfolding shift_right_inner.simps n_def [symmetric] Let_def p_def by simp
  ultimately show ?thesis unfolding d_def [symmetric] by (metis (no_types))
qed

definition join_ok :: "'k btree_class \<Rightarrow> ('k, 'v) bnode \<Rightarrow> ('k, 'v) bnode \<Rightarrow> ('k, 'v) bnode \<Rightarrow> bool" where
  "join_ok C a b c \<longleftrightarrow> node_entries c = node_entries a @ node_entries b \<and> node_level c = node_level a \<and> node_wf C False c"

lemma merge_inner_ok:
  assumes ok: "btree_class_ok C" and a: "almost_wf C False (Inner l ka ca)" "node_isfew C (Inner l ka ca)"
    and b: "almost_wf C False (Inner l kb cb)" "node_isfew C (Inner l kb cb)"
    and u: "node_isunderflow C (Inner l ka ca) \<or> node_isunderflow C (Inner l kb cb)"
  shows "join_ok C (Inner l ka ca) (Inner l kb cb) (Inner l (ka @ maxkey (Inner l ka ca) # kb) (ca @ cb))"
  using assms min_slots [OF ok] unfolding join_ok_def node_wf_children by (simp add: children_ok_append) linarith

lemma merge_leaves_ok:
  assumes ok: "btree_class_ok C" and a: "almost_wf C False (Leaf i as)" "node_isfew C (Leaf i as)"
    and b: "almost_wf C False (Leaf j bs)" "node_isfew C (Leaf j bs)"
    and u: "node_isunderflow C (Leaf i as) \<or> node_isunderflow C (Leaf j bs)"
  shows "join_ok C (Leaf i as) (Leaf j bs) (Leaf i (as @ bs))"
proof -
  have "as \<noteq> []" using assms min_slots(1) [OF ok] by auto
  then have "as @ bs \<noteq> []" by simp
  then show ?thesis using assms min_slots [OF ok] unfolding join_ok_def by auto
qed

lemma merge_leaves_chain:
  assumes "merge_leaves (Leaf i as) (Leaf j bs) m = Some (a, b, m')" "chain_ok m (P @ i # j # Q)"
  shows "chain_ok m' (P @ i # Q)" "m_stats m' = m_stats m"
proof -
  have c: "distinct (P @ i # j # Q)" "\<forall>x\<in>set (P @ i # j # Q). x < fresh_leaf m"
    "chain_seg m None P (Some i)" "prevleaf m i = (if P = [] then None else Some (last P))"
    "nextleaf m j = (if Q = [] then None else Some (hd Q))" "chain_seg m (Some j) Q None"
    "m_headleaf m = Some (hd (P @ [i]))" "m_tailleaf m = Some (last (j # Q))"
    using assms(2) by (auto simp: chain_ok_def chain_seg_append hd_append)
  have m': "nextleaf m' = (nextleaf m)(i := nextleaf m j)" "prevleaf m' = (case Q of [] \<Rightarrow> prevleaf m | q # _ \<Rightarrow> (prevleaf m)(q := Some i))"
    "m_headleaf m' = m_headleaf m" "m_tailleaf m' = (if Q = [] then Some i else m_tailleaf m)" "fresh_leaf m' = fresh_leaf m" "m_stats m' = m_stats m"
    using assms(1) c(5) by (cases Q; auto simp: Let_def)+
  then show "m_stats m' = m_stats m" by simp
  have P: "chain_seg m' None P (Some i)"
    using c(1,3) by (subst chain_seg_cong [where m = m]) (auto simp: m'(1,2) split: list.split)
  have Q: "chain_seg m' (Some i) Q None"
  proof (cases Q)
    case (Cons q qs)
    have "chain_seg m' (Some q) qs None = chain_seg m (Some q) qs None"
      using c(1) Cons by (intro chain_seg_cong) (auto simp: m'(1,2))
    then show ?thesis using c(1,6) Cons by (auto simp: m'(1,2))
  qed simp
  have "prevleaf m' i = prevleaf m i" using c(1) by (auto simp: m'(2) split: list.split)
  then have "chain_seg m' None (P @ i # Q) None" unfolding chain_seg_append using P Q c(4,5) by (simp add: m'(1))
  moreover have "m_headleaf m' = Some (hd (P @ i # Q))" "m_tailleaf m' = Some (last (P @ i # Q))"
    using c(7,8) by (simp_all add: m'(3,4) hd_append)
  ultimately show "chain_ok m' (P @ i # Q)" unfolding chain_ok_def using c(1,2) m'(5) by simp
qed

subsection \<open>The choice of the repair\<close>

definition hangs_at :: "('k, 'v) around \<Rightarrow> nat \<Rightarrow> 'k list \<Rightarrow> ('k, 'v) bnode list \<Rightarrow> bool" where
  "hangs_at arr slot ks cs \<longleftrightarrow> parent_keys_of arr = Some ks \<and> parentslot arr = slot \<and> slot < length cs \<and> length cs = Suc (length ks)
     \<and> (if slot = 0 then leftparent arr \<noteq> The_parent else leftparent arr = The_parent \<and> left_node arr = Some (cs ! (slot - 1)))
     \<and> (if slot = length ks then rightparent arr \<noteq> The_parent else rightparent arr = The_parent \<and> right_node arr = Some (cs ! (slot + 1)))"

fun repair_fits :: "'k btree_class \<Rightarrow> nat \<Rightarrow> ('k, 'v) bnode list \<Rightarrow> repair \<Rightarrow> bool" where
  "repair_fits C slot cs Trim_root = False"
| "repair_fits C slot cs Merge_left = (0 < slot \<and> node_isfew C (cs ! (slot - 1)))"
| "repair_fits C slot cs Merge_right = (Suc slot < length cs \<and> node_isfew C (cs ! Suc slot))"
| "repair_fits C slot cs Shift_from_right = (Suc slot < length cs \<and> \<not> node_isfew C (cs ! Suc slot))"
| "repair_fits C slot cs Shift_from_left = (0 < slot \<and> \<not> node_isfew C (cs ! (slot - 1)))"

lemma choose_repair_fits:
  assumes "hangs_at arr slot ks cs" "ks \<noteq> []"
  shows "\<exists>how. choose_repair C arr = Some how \<and> repair_fits C slot cs how"
proof -
  note h = assms(1) [unfolded hangs_at_def]
  consider (first) "slot = 0" "slot < length ks" | (last) "0 < slot" "slot = length ks" | (mid) "0 < slot" "slot < length ks"
    using h assms(2) by fastforce
  then show ?thesis
  proof cases
    case first
    then show ?thesis using h by (cases "left_node arr") (auto simp: choose_repair_def Let_def)
  next
    case last
    then show ?thesis using h by (cases "right_node arr") (auto simp: choose_repair_def Let_def)
  next
    case mid
    then show ?thesis using h by (auto simp: choose_repair_def Let_def)
  qed
qed

lemma list_pair:
  assumes "Suc i < length xs"
  obtains A B where "xs = A @ xs ! i # xs ! Suc i # B" "length A = i"
  using that [of "take i xs" "drop (Suc (Suc i)) xs"] assms id_take_nth_drop [of i xs] Cons_nth_drop_Suc [of "Suc i" xs] by simp

subsection \<open>The children after a shift or a merge\<close>

definition pair_at :: "'k btree_class \<Rightarrow> nat \<Rightarrow> 'k list \<Rightarrow> ('k, 'v) bnode list \<Rightarrow> ('k, 'v) bnode \<Rightarrow> ('k, 'v) bnode \<Rightarrow> ('k, 'v) bnode list \<Rightarrow> bool" where
  "pair_at C l ks A a b B \<longleftrightarrow> ks = map maxkey (butlast (A @ a # b # B)) \<and> (\<forall>c\<in>set A \<union> set B. Suc (node_level c) = l \<and> node_wf C False c)
     \<and> Suc (node_level a) = l \<and> Suc (node_level b) = l \<and> node_entries b \<noteq> []"

lemma shift_children:
  assumes s: "shift_ok C a b (a', b', k)" and p: "pair_at C l ks A a b B"
  shows "children_ok C l (ks[length A := k]) (A @ a' # b' # B)"
    "concat (map node_entries (A @ a' # b' # B)) = concat (map node_entries (A @ a # b # B))"
    "mem_holds m pre post n lc ic (A @ a' # b' # B) = mem_holds m pre post n lc ic (A @ a # b # B)"
proof -
  note p' = p [unfolded pair_at_def]
  have w: "node_wf C False a'" "node_wf C False b'" "node_level a' = node_level a" "node_level b' = node_level b" "k = maxkey a'"
    and sp: "same_pair [a, b] [a', b']" using s by (simp_all add: shift_ok_def)
  have e: "node_entries a' @ node_entries b' = node_entries a @ node_entries b" using sp by (simp add: same_pair_def)
  have "maxkey b' = maxkey b" using arg_cong [OF e, of last] p' node_wf_nonempty [OF w(2)] by (simp add: maxkey_def)
  then have "ks[length A := k] = map maxkey (butlast (A @ a' # b' # B))"
    using p' w(5) list_update_length [of "map maxkey A" "maxkey a" _ k] by (auto simp: butlast_append)
  then show "children_ok C l (ks[length A := k]) (A @ a' # b' # B)" using p' w by (auto simp: children_ok_def)
  show "concat (map node_entries (A @ a' # b' # B)) = concat (map node_entries (A @ a # b # B))" using e by simp
  show "mem_holds m pre post n lc ic (A @ a' # b' # B) = mem_holds m pre post n lc ic (A @ a # b # B)"
    by (rule mem_holds_cong) (use sp in \<open>simp_all add: same_pair_def\<close>)
qed

lemma join_children:
  assumes j: "join_ok C a b c" and p: "pair_at C l ks A a b B"
  shows "children_ok C l (take (length A) ks @ drop (Suc (length A)) ks) (A @ c # B)"
    "concat (map node_entries (A @ c # B)) = concat (map node_entries (A @ a # b # B))"
proof -
  note p' = p [unfolded pair_at_def]
  have "maxkey c = maxkey b" using j p' by (simp add: join_ok_def maxkey_def)
  then have "take (length A) ks @ drop (Suc (length A)) ks = map maxkey (butlast (A @ c # B))" using p' by (auto simp: butlast_append)
  then show "children_ok C l (take (length A) ks @ drop (Suc (length A)) ks) (A @ c # B)"
    using p' j by (auto simp: children_ok_def join_ok_def)
  show "concat (map node_entries (A @ c # B)) = concat (map node_entries (A @ a # b # B))" using j by (simp add: join_ok_def)
qed

lemma remove_merged_ok:
  assumes ch: "children_ok C l (take (length A) ks @ drop (Suc (length A)) ks) (A @ c # B)" and wf: "node_wf C False c"
    and use: "node_slotuse b' = 0" "node_slotuse c \<noteq> 0" and slot: "slot = length A \<or> slot = Suc (length A)"
  shows "remove_merged l ks (A @ c # b' # B) slot m
    = Some (take (length A) ks @ drop (Suc (length A)) ks, A @ c # B, free_node b' m)"
proof -
  let ?ks = "take (length A) ks @ drop (Suc (length A)) ks"
  have s: "(if node_slotuse ((A @ c # b' # B) ! slot) \<noteq> 0 then slot + 1 else slot) = Suc (length A)"
    using slot use by (auto simp: nth_append)
  have "?ks[length A := maxkey c] = ?ks"
  proof (cases "length A < length ?ks")
    case True
    have "?ks = map maxkey (butlast (A @ c # B))" using ch by (simp add: children_ok_def)
    then show ?thesis using True list_update_length [of "map maxkey A" "maxkey c" _ "maxkey c"] by (auto simp: butlast_append)
  qed (simp only: list_update_beyond not_less)
  moreover have "\<exists>i es. c = Leaf i es \<and> es \<noteq> [] \<and> fst (last es) = maxkey c" if "l = 1"
  proof (cases c)
    case (Leaf i es)
    then show ?thesis using wf by (simp add: maxkey_def)
  next
    case (Inner l' ks' cs')
    then show ?thesis using ch that wf by (cases cs') (auto simp: children_ok_def)
  qed
  ultimately show ?thesis using slot s unfolding remove_merged_def Let_def by (auto simp: nth_append)
qed

subsection \<open>The parent after the repair\<close>

lemma write_back_overwrite: "write_back arr c slot (cs[slot := x]) = write_back arr c slot cs"
  by (simp add: write_back_def)

lemma write_back_same:
  assumes "hangs_at arr slot ks cs"
  shows "write_back arr (cs ! slot) slot cs = cs"
  using assms by (auto simp: write_back_def hangs_at_def Let_def list_update_same_conv split: parent_ref.split if_splits)

lemma write_back_left:
  assumes "hangs_at arr (Suc (length A)) ks (A @ a # b # B)" "leftparent arr' = leftparent arr" "rightparent arr' = rightparent arr"
    "left_node arr' = Some a'" "right_node arr' = right_node arr"
  shows "write_back arr' b' (Suc (length A)) (A @ a # b # B) = A @ a' # b' # B"
  using assms by (cases B; cases ks) (auto simp: write_back_def hangs_at_def Let_def list_update_append nth_append split: parent_ref.split)

lemma write_back_right:
  assumes "hangs_at arr (length A) ks (A @ a # b # B)" "leftparent arr' = leftparent arr" "rightparent arr' = rightparent arr"
    "right_node arr' = Some b'" "left_node arr' = left_node arr"
  shows "write_back arr' a' (length A) (A @ a # b # B) = A @ a' # b' # B"
  using assms by (cases A rule: rev_cases; cases ks)
    (auto simp: write_back_def hangs_at_def Let_def list_update_append nth_append split: parent_ref.split)

definition parent_repaired :: "'k btree_class \<Rightarrow> nat \<Rightarrow> 'k list \<Rightarrow> ('k, 'v) bnode list \<Rightarrow> nat \<Rightarrow> nat list \<Rightarrow> nat list \<Rightarrow> nat \<Rightarrow> nat \<Rightarrow> nat
    \<Rightarrow> 'k option \<Rightarrow> ('k, 'v) erase_out \<Rightarrow> bool" where
  "parent_repaired C l ks cs slot pre post n lc ic upd out \<longleftrightarrow> (case out of (res, c, arr, m) \<Rightarrow>
     \<not> not_found res \<and> update_lastkey res = upd
     \<and> (\<exists>c' ks1 ks2 cs2 m2. c = Some c' \<and> parent_keys_of arr = Some ks1
       \<and> (if fixmerge res then remove_merged l ks1 (write_back arr c' slot cs) slot m else Some (ks1, write_back arr c' slot cs, m)) = Some (ks2, cs2, m2)
       \<and> children_ok C l ks2 cs2 \<and> length ks2 \<le> length ks \<and> length ks \<le> Suc (length ks2)
       \<and> concat (map node_entries cs2) = concat (map node_entries cs) \<and> mem_holds m2 pre post n lc ic cs2))"

lemma repaired_shift:
  assumes "shift_ok C a b (a', b', k)" "pair_at C l ks A a b B" "mem_holds m pre post n lc ic (A @ a # b # B)"
    "\<not> not_found res" "\<not> fixmerge res" "parent_keys_of arr = Some (ks[length A := k])"
    "write_back arr c slot (A @ a # b # B) = A @ a' # b' # B"
  shows "parent_repaired C l ks (A @ a # b # B) slot pre post n lc ic (update_lastkey res) (res, Some c, arr, m)"
  using assms(3-7) shift_children [OF assms(1,2)] unfolding parent_repaired_def by simp

lemma repaired_join:
  assumes j: "join_ok C a b c" and p: "pair_at C l ks A a b B" and m: "mem_holds (free_node b' m) pre post n lc ic (A @ c # B)"
    and res: "\<not> not_found res" "fixmerge res" "parent_keys_of arr = Some ks"
    and w: "write_back arr c' slot (A @ a # b # B) = A @ c # b' # B" "node_slotuse b' = 0" "slot = length A \<or> slot = Suc (length A)"
  shows "parent_repaired C l ks (A @ a # b # B) slot pre post n lc ic (update_lastkey res) (res, Some c', arr, m)"
proof -
  have wf: "node_wf C False c" using j by (simp add: join_ok_def)
  then have "node_slotuse c \<noteq> 0" by (cases c) (auto simp: node_wf_children simp del: node_wf.simps(2))
  note ch = join_children [OF j p]
  note r = remove_merged_ok [OF ch(1) wf w(2) \<open>node_slotuse c \<noteq> 0\<close> w(3), of m]
  have "length ks = Suc (length A + length B)" using p by (simp add: pair_at_def)
  then show ?thesis using m res w(1) r ch unfolding parent_repaired_def by simp
qed

lemma mem_holds_merge_leaves:
  assumes "merge_leaves (Leaf i as) (Leaf j bs) m = Some (a', b', m')" "mem_holds m pre post n lc ic (A @ Leaf i as # Leaf j bs # B)"
  shows "a' = Leaf i (as @ bs)" "b' = Leaf j []" "mem_holds (free_node b' m') pre post n lc ic (A @ a' # B)"
proof -
  show 1: "a' = Leaf i (as @ bs)" "b' = Leaf j []" using assms(1) by (auto simp: Let_def)
  have "chain_ok m ((pre @ concat (map leaf_ids A)) @ i # j # (concat (map leaf_ids B) @ post))"
    using assms(2) by (simp add: mem_holds_def)
  note c = merge_leaves_chain [OF assms(1) this]
  then show "mem_holds (free_node b' m') pre post n lc ic (A @ a' # B)"
    using assms(2) chain_ok_cong [of "free_node b' m'" m'] by (simp add: mem_holds_def 1)
qed

lemma mem_holds_merge_inner:
  fixes ca cb :: "('k, 'v) bnode list"
  assumes "mem_holds m pre post n lc ic (A @ Inner l ka ca # Inner l' kb cb # B)"
  shows "mem_holds (free_node (Inner l' [] [] :: ('k, 'v) bnode) m) pre post n lc ic (A @ Inner l k (ca @ cb) # B)"
  using assms chain_ok_cong [of "free_node (Inner l' [] [] :: ('k, 'v) bnode) m" m] by (simp add: mem_holds_def length_concat o_def)

subsection \<open>Settling a child\<close>

definition settle :: "'k btree_class \<Rightarrow> ('k, 'v) around \<Rightarrow> 'k erase_result \<Rightarrow> ('k, 'v) bnode \<Rightarrow> tree_mem \<Rightarrow> ('k, 'v) erase_out option" where
  "settle C arr res n m = (if node_isunderflow C n \<and> \<not> (parent_keys_of arr = None \<and> 1 \<le> node_slotuse n)
     then (case n of Leaf i es \<Rightarrow> repair_leaf C res arr i es m | Inner l ks cs \<Rightarrow> repair_inner C res arr l ks cs m)
     else Some (res, Some n, arr, m))"

lemma same_kind:
  assumes "node_level a = node_level b" "almost_wf C False a" "almost_wf C False b"
  obtains (leaves) i as j bs where "a = Leaf i as" "b = Leaf j bs"
    | (inners) l ka ca kb cb where "a = Inner l ka ca" "b = Inner l kb cb" "children_ok C l ka ca" "children_ok C l kb cb"
proof (cases a; cases b)
  fix i as l kb cb assume "a = Leaf i as" "b = Inner l kb cb"
  then show thesis using assms by (cases cb) (auto simp: children_ok_def)
next
  fix i as l kb cb assume "b = Leaf i as" "a = Inner l kb cb"
  then show thesis using assms by (cases cb) (auto simp: children_ok_def)
qed (use leaves inners assms in auto)

lemma or_result_simps [simp]:
  "not_found (or_result r btree_ok) = not_found r" "fixmerge (or_result r btree_ok) = fixmerge r"
  "update_lastkey (or_result r btree_ok) = update_lastkey r"
  "not_found (or_result r merged) = not_found r" "fixmerge (or_result r merged)" "update_lastkey (or_result r merged) = update_lastkey r"
  by (simp_all add: or_result_def btree_ok_def merged_def)

lemma settle_left:
  assumes ok: "btree_class_ok C" and h: "hangs_at arr (Suc (length A)) ks (A @ a # b # B)" and p: "pair_at C l ks A a b B"
    and m: "mem_holds m pre post n lc ic (A @ a # b # B)" and wf: "node_wf C False a" "almost_wf C False b" "node_isunderflow C b"
    and res: "\<not> not_found res" "\<not> fixmerge res"
    and how: "choose_repair C arr = Some (if node_isfew C a then Merge_left else Shift_from_left)"
  shows "\<exists>out. settle C arr res b m = Some out
    \<and> parent_repaired C l ks (A @ a # b # B) (Suc (length A)) pre post n lc ic (update_lastkey res) out"
proof -
  note h' = h [unfolded hangs_at_def] and w = write_back_left [OF h]
  have lp: "leftparent arr = The_parent" "left_node arr = Some a" "parent_keys_of arr = Some ks" "parentslot arr = Suc (length A)"
    using h' by (auto simp: nth_append)
  have k: "ks ! length A = maxkey a" "length A < length ks" using p by (simp_all add: pair_at_def butlast_append nth_append)
  have lev: "node_level a = node_level b" using p by (simp add: pair_at_def)
  show ?thesis
  using lev node_wf_almost [OF wf(1)] wf(2)
  proof (cases rule: same_kind)
    case (leaves i as j bs)
    have s: "settle C arr res b m = repair_leaf C res arr j bs m" using wf(3) leaves lp(3) by (simp add: settle_def)
    show ?thesis
    proof (cases "node_isfew C a")
      case True
      obtain a' b' m' where g: "merge_leaves (Leaf i as) (Leaf j bs) m = Some (a', b', m')" by (auto simp: Let_def)
      note mm = mem_holds_merge_leaves [OF g m [unfolded leaves]]
      have j: "join_ok C a b a'" using merge_leaves_ok [OF ok, of i as j bs] wf True leaves node_wf_almost [OF wf(1)] mm(1) by simp
      have "parent_repaired C l ks (A @ a # b # B) (Suc (length A)) pre post n lc ic (update_lastkey (or_result res merged))
          (or_result res merged, Some b', arr\<lparr>left_node := Some a'\<rparr>, m')"
        by (rule repaired_join [OF j p mm(3)]) (use mm(2) w res lp in \<open>simp_all\<close>)
      moreover have "settle C arr res b m = Some (or_result res merged, Some b', arr\<lparr>left_node := Some a'\<rparr>, m')"
        unfolding s repair_leaf_def using how True lp g leaves by (simp del: merge_leaves.simps)
      ultimately show ?thesis by simp
    next
      case False
      obtain a' b' k' where g: "shift_right_leaf a b = Some (a', b', k')" "shift_ok C a b (a', b', k')"
        using shift_right_leaf_ok [OF ok, of j bs i as] wf False leaves by (metis prod_cases3)
      let ?arr = "set_parent_key (length A) k' (arr\<lparr>left_node := Some a'\<rparr>)"
      have "parent_repaired C l ks (A @ a # b # B) (Suc (length A)) pre post n lc ic (update_lastkey res) (res, Some b', ?arr, m)"
        by (rule repaired_shift [OF g(2) p m res]) (use w lp in \<open>simp_all add: set_parent_key_def\<close>)
      moreover have "settle C arr res b m = Some (res, Some b', ?arr, m)"
        unfolding s repair_leaf_def using how False lp g(1) leaves by (simp del: shift_right_leaf.simps)
      ultimately show ?thesis by blast
    qed
  next
    case (inners l' ka ca kb cb)
    have s: "settle C arr res b m = repair_inner C res arr l' kb cb m" using wf(3) inners lp(3) by (simp add: settle_def)
    have pk: "parent_key (length A) arr = Some (maxkey a)" using k lp by (simp add: parent_key_def)
    show ?thesis
    proof (cases "node_isfew C a")
      case True
      let ?a = "Inner l' (ka @ maxkey a # kb) (ca @ cb)" and ?b = "Inner l' [] []"
      have j: "join_ok C a b ?a" using merge_inner_ok [OF ok, of l' ka ca kb cb] wf True inners node_wf_almost [OF wf(1)] by simp
      have "parent_repaired C l ks (A @ a # b # B) (Suc (length A)) pre post n lc ic (update_lastkey (or_result res merged))
          (or_result res merged, Some ?b, arr\<lparr>left_node := Some ?a\<rparr>, m)"
        by (rule repaired_join [OF j p mem_holds_merge_inner [OF m [unfolded inners]]]) (use w res lp in \<open>simp_all\<close>)
      moreover have "settle C arr res b m = Some (or_result res merged, Some ?b, arr\<lparr>left_node := Some ?a\<rparr>, m)"
        unfolding s repair_inner_def using how True lp pk inners by simp
      ultimately show ?thesis by simp
    next
      case False
      obtain a' b' k' where g: "shift_right_inner (maxkey a) a b = Some (a', b', k')" "shift_ok C a b (a', b', k')"
        using shift_right_inner_ok [OF ok, of l' kb cb ka ca] wf False inners by (metis prod_cases3)
      let ?arr = "set_parent_key (length A) k' (arr\<lparr>left_node := Some a'\<rparr>)"
      have "parent_repaired C l ks (A @ a # b # B) (Suc (length A)) pre post n lc ic (update_lastkey res) (res, Some b', ?arr, m)"
        by (rule repaired_shift [OF g(2) p m res]) (use w lp in \<open>simp_all add: set_parent_key_def\<close>)
      moreover have "settle C arr res b m = Some (res, Some b', ?arr, m)"
        unfolding s repair_inner_def using how False lp pk g(1) inners by (simp del: shift_right_inner.simps)
      ultimately show ?thesis by blast
    qed
  qed
qed

lemma settle_right:
  assumes ok: "btree_class_ok C" and h: "hangs_at arr (length A) ks (A @ a # b # B)" and p: "pair_at C l ks A a b B"
    and m: "mem_holds m pre post n lc ic (A @ a # b # B)" and wf: "node_wf C False b" "almost_wf C False a" "node_isunderflow C a"
    and res: "\<not> not_found res" "\<not> fixmerge res"
    and how: "choose_repair C arr = Some (if node_isfew C b then Merge_right else Shift_from_right)"
  shows "\<exists>out. settle C arr res a m = Some out
    \<and> parent_repaired C l ks (A @ a # b # B) (length A) pre post n lc ic (update_lastkey res) out"
proof -
  note h' = h [unfolded hangs_at_def] and w = write_back_right [OF h]
  have k: "ks ! length A = maxkey a" "length A < length ks" using p by (simp_all add: pair_at_def butlast_append nth_append)
  have rp: "rightparent arr = The_parent" "right_node arr = Some b" "parent_keys_of arr = Some ks" "parentslot arr = length A"
    using h' k(2) by (auto simp: nth_append)
  have lev: "node_level a = node_level b" using p by (simp add: pair_at_def)
  show ?thesis
    using lev wf(2) node_wf_almost [OF wf(1)]
  proof (cases rule: same_kind)
    case (leaves i as j bs)
    have s: "settle C arr res a m = repair_leaf C res arr i as m" using wf(3) leaves rp(3) by (simp add: settle_def)
    show ?thesis
    proof (cases "node_isfew C b")
      case True
      obtain a' b' m' where g: "merge_leaves (Leaf i as) (Leaf j bs) m = Some (a', b', m')" by (auto simp: Let_def)
      note mm = mem_holds_merge_leaves [OF g m [unfolded leaves]]
      have j: "join_ok C a b a'" using merge_leaves_ok [OF ok, of i as j bs] wf True leaves node_wf_almost [OF wf(1)] mm(1) by simp
      have "parent_repaired C l ks (A @ a # b # B) (length A) pre post n lc ic (update_lastkey (or_result res merged))
          (or_result res merged, Some a', arr\<lparr>right_node := Some b'\<rparr>, m')"
        by (rule repaired_join [OF j p mm(3)]) (use mm(2) w res rp in \<open>simp_all\<close>)
      moreover have "settle C arr res a m = Some (or_result res merged, Some a', arr\<lparr>right_node := Some b'\<rparr>, m')"
        unfolding s repair_leaf_def using how True rp g leaves by (simp del: merge_leaves.simps)
      ultimately show ?thesis by simp
    next
      case False
      obtain a' b' k' where g: "shift_left_leaf a b = Some (a', b', k')" "shift_ok C a b (a', b', k')"
        using shift_left_leaf_ok [OF ok, of i as j bs] wf False leaves by (metis prod_cases3)
      let ?arr = "arr\<lparr>parent_keys_of := Some (ks[length A := k']), right_node := Some b'\<rparr>"
      have "parent_repaired C l ks (A @ a # b # B) (length A) pre post n lc ic (update_lastkey (or_result res btree_ok)) (or_result res btree_ok, Some a', ?arr, m)"
        by (rule repaired_shift [OF g(2) p m]) (use res w rp in \<open>simp_all\<close>)
      moreover have "settle C arr res a m = Some (or_result res btree_ok, Some a', ?arr, m)"
        unfolding s repair_leaf_def set_lastkey_def using how False rp k g(1) leaves by (simp del: shift_left_leaf.simps)
      ultimately show ?thesis by simp
    qed
  next
    case (inners l' ka ca kb cb)
    have s: "settle C arr res a m = repair_inner C res arr l' ka ca m" using wf(3) inners rp(3) by (simp add: settle_def)
    have pk: "parent_key (length A) arr = Some (maxkey a)" using k rp by (simp add: parent_key_def)
    show ?thesis
    proof (cases "node_isfew C b")
      case True
      let ?a = "Inner l' (ka @ maxkey a # kb) (ca @ cb)" and ?b = "Inner l' [] []"
      have j: "join_ok C a b ?a" using merge_inner_ok [OF ok, of l' ka ca kb cb] wf True inners node_wf_almost [OF wf(1)] by simp
      have "parent_repaired C l ks (A @ a # b # B) (length A) pre post n lc ic (update_lastkey (or_result res merged))
          (or_result res merged, Some ?a, arr\<lparr>right_node := Some ?b\<rparr>, m)"
        by (rule repaired_join [OF j p mem_holds_merge_inner [OF m [unfolded inners]]]) (use w res rp in \<open>simp_all\<close>)
      moreover have "settle C arr res a m = Some (or_result res merged, Some ?a, arr\<lparr>right_node := Some ?b\<rparr>, m)"
        unfolding s repair_inner_def using how True rp pk inners by simp
      ultimately show ?thesis by simp
    next
      case False
      obtain a' b' k' where g: "shift_left_inner (maxkey a) a b = Some (a', b', k')" "shift_ok C a b (a', b', k')"
        using shift_left_inner_ok [OF ok, of l' ka ca kb cb] wf False inners by (metis prod_cases3)
      let ?arr = "set_parent_key (length A) k' (arr\<lparr>right_node := Some b'\<rparr>)"
      have "parent_repaired C l ks (A @ a # b # B) (length A) pre post n lc ic (update_lastkey res) (res, Some a', ?arr, m)"
        by (rule repaired_shift [OF g(2) p m res]) (use w rp in \<open>simp_all add: set_parent_key_def\<close>)
      moreover have "settle C arr res a m = Some (res, Some a', ?arr, m)"
        unfolding s repair_inner_def using how False rp pk g(1) inners by (simp del: shift_left_inner.simps)
      ultimately show ?thesis by blast
    qed
  qed
qed

definition one_almost :: "'k btree_class \<Rightarrow> nat \<Rightarrow> nat \<Rightarrow> 'k list \<Rightarrow> ('k, 'v) bnode list \<Rightarrow> bool" where
  "one_almost C l slot ks cs \<longleftrightarrow> ks = map maxkey (butlast cs) \<and> (\<forall>i<length cs. Suc (node_level (cs ! i)) = l
     \<and> (if i = slot then almost_wf C False (cs ! i) else node_wf C False (cs ! i)))"

lemma one_almost_pair:
  assumes ok: "btree_class_ok C" and o: "one_almost C l slot ks (A @ a # b # B)" and slot: "slot = length A \<or> slot = Suc (length A)"
  shows "pair_at C l ks A a b B"
proof -
  note o' = o [unfolded one_almost_def]
  have at: "Suc (node_level ((A @ a # b # B) ! i)) = l" "if i = slot then almost_wf C False ((A @ a # b # B) ! i) else node_wf C False ((A @ a # b # B) ! i)"
    if "i < length (A @ a # b # B)" for i using o' that by blast+
  have "Suc (node_level c) = l \<and> node_wf C False c" if "c \<in> set A \<union> set B" for c
  proof -
    have "\<exists>i<length (A @ a # b # B). (A @ a # b # B) ! i = c \<and> i \<noteq> length A \<and> i \<noteq> Suc (length A)"
    proof (cases "c \<in> set A")
      case True
      then obtain i where i: "i < length A" "A ! i = c" by (auto simp: in_set_conv_nth)
      then show ?thesis by (intro exI [of _ i]) (simp add: nth_append)
    next
      case False
      then have "c \<in> set B" using that by simp
      then obtain i where i: "i < length B" "B ! i = c" unfolding in_set_conv_nth by blast
      then show ?thesis by (intro exI [of _ "Suc (Suc (length A + i))"]) (simp add: nth_append)
    qed
    then show ?thesis using at slot by (metis (no_types))
  qed
  moreover have "Suc (node_level a) = l" "Suc (node_level b) = l"
    using at(1) [of "length A"] at(1) [of "Suc (length A)"] by (simp_all add: nth_append)
  moreover have "almost_wf C False b" using at(2) [of "Suc (length A)"] node_wf_almost by (simp add: nth_append split: if_splits)
  then have "node_entries b \<noteq> []" by (rule almost_wf_nonempty(1) [OF ok])
  ultimately show ?thesis using o' by (simp add: pair_at_def)
qed

lemma one_almost_settled:
  assumes "one_almost C l slot ks cs" "slot < length cs" "node_wf C False (cs ! slot)"
  shows "children_ok C l ks cs"
proof -
  have "Suc (node_level c) = l \<and> node_wf C False c" if c: "c \<in> set cs" for c
  proof -
    obtain i where "i < length cs" "cs ! i = c" using c by (auto simp: in_set_conv_nth)
    then show ?thesis using assms(1,3) by (cases "i = slot") (auto simp: one_almost_def)
  qed
  then show ?thesis using assms(1,2) by (auto simp: children_ok_def one_almost_def)
qed

lemma settle_child:
  assumes ok: "btree_class_ok C" and h: "hangs_at arr slot ks cs" "ks \<noteq> []" and o: "one_almost C l slot ks cs"
    and m: "mem_holds m pre post n lc ic cs" and res: "\<not> not_found res" "\<not> fixmerge res"
  shows "\<exists>out. settle C arr res (cs ! slot) m = Some out \<and> parent_repaired C l ks cs slot pre post n lc ic (update_lastkey res) out"
proof (cases "node_isunderflow C (cs ! slot)")
  case False
  have lt: "slot < length cs" and pk: "parent_keys_of arr = Some ks" using h by (simp_all add: hangs_at_def)
  have "node_wf C False (cs ! slot)" using almost_wf_settled [OF ok _ False] o lt by (auto simp: one_almost_def)
  then have "children_ok C l ks cs" by (rule one_almost_settled [OF o lt])
  then have "parent_repaired C l ks cs slot pre post n lc ic (update_lastkey res) (res, Some (cs ! slot), arr, m)"
    using m res pk write_back_same [OF h(1)] by (simp add: parent_repaired_def)
  then show ?thesis using False by (simp add: settle_def)
next
  case True
  obtain how where how: "choose_repair C arr = Some how" "repair_fits C slot cs how" using choose_repair_fits [OF h] by blast
  have len: "slot < length cs" using h(1) by (simp add: hangs_at_def)
  consider (left) "0 < slot" "how = (if node_isfew C (cs ! (slot - 1)) then Merge_left else Shift_from_left)"
    | (right) "Suc slot < length cs" "how = (if node_isfew C (cs ! Suc slot) then Merge_right else Shift_from_right)"
    using how(2) by (cases how) auto
  then show ?thesis
  proof cases
    case left
    then have slot: "Suc (slot - 1) = slot" by simp
    obtain A B where cs: "cs = A @ cs ! (slot - 1) # cs ! slot # B" "length A = slot - 1"
      using list_pair [of "slot - 1" cs, unfolded slot, OF len] .
    define a b where "a = cs ! (slot - 1)" and "b = cs ! slot"
    have s: "slot = Suc (length A)" using cs(2) left(1) by simp
    have cs': "cs = A @ a # b # B" unfolding a_def b_def by (rule cs(1))
    have "node_wf C False a" "almost_wf C False b" using o len s by (auto simp: one_almost_def a_def b_def)
    then show ?thesis using settle_left [OF ok h(1) [unfolded cs' s] one_almost_pair [OF ok o [unfolded cs']] m [unfolded cs'], of res] True how(1) left(2) res
      unfolding a_def [symmetric] b_def [symmetric] using s cs' by simp
  next
    case right
    obtain A B where cs: "cs = A @ cs ! slot # cs ! Suc slot # B" "length A = slot"
      using list_pair [OF right(1)] .
    define a b where "a = cs ! slot" and "b = cs ! Suc slot"
    have s: "slot = length A" using cs(2) by simp
    have cs': "cs = A @ a # b # B" unfolding a_def b_def by (rule cs(1))
    have "node_wf C False b" "almost_wf C False a" using o right(1) s by (auto simp: one_almost_def a_def b_def)
    then show ?thesis using settle_right [OF ok h(1) [unfolded cs' s] one_almost_pair [OF ok o [unfolded cs']] m [unfolded cs'], of res] True how(1) right(2) res
      unfolding a_def [symmetric] b_def [symmetric] using s cs' by simp
  qed
qed

end
