(* ===== verification/Btree_Erase_Ok.thy ===== *)
theory Btree_Erase_Ok
  imports Btree_Repair
begin

text \<open>
  The erasure keeps the invariant of the tree and removes exactly one entry from the list of its
  entries. One step up from a repaired child is proved once, for both descents.
\<close>

subsection \<open>One step up\<close>

definition note_lastkey :: "bool \<Rightarrow> 'k \<Rightarrow> ('k, 'v) around \<Rightarrow> ('k, 'v) around \<times> 'k erase_result" where
  "note_lastkey flag k arr = (if flag then set_lastkey k arr else (arr, btree_ok))"

definition erased :: "'k btree_class \<Rightarrow> bool \<Rightarrow> ('k, 'v) bnode \<Rightarrow> ('k, 'v) bnode \<Rightarrow> bool \<Rightarrow> bool" where
  "erased C r n n0 flag \<longleftrightarrow> node_level n0 = node_level n \<and> almost_wf C r n0 \<and> (flag \<longrightarrow> node_entries n0 \<noteq> [])
     \<and> (\<not> flag \<longrightarrow> node_entries n0 = [] \<or> maxkey n0 = maxkey n)"

definition siblings_wf :: "'k btree_class \<Rightarrow> nat \<Rightarrow> ('k, 'v) around \<Rightarrow> bool" where
  "siblings_wf C l arr \<longleftrightarrow> (\<forall>x. left_node arr = Some x \<or> right_node arr = Some x \<longrightarrow> node_level x = l \<and> node_wf C False x)"

lemma cousin_ok:
  assumes "\<And>x. c = Some x \<Longrightarrow> node_level x = Suc l \<and> node_wf C False x"
  shows "\<exists>y. cousin_left c = Some y \<and> (\<forall>x. y = Some x \<longrightarrow> node_level x = l \<and> node_wf C False x)"
    "\<exists>y. cousin_right c = Some y \<and> (\<forall>x. y = Some x \<longrightarrow> node_level x = l \<and> node_wf C False x)"
proof -
  consider "c = None" | l' ks cs where "c = Some (Inner l' ks cs)" "node_wf C False (Inner l' ks cs)" "l' = Suc l"
    using assms by (cases c; cases "the c") fastforce+
  then have "(\<exists>y. cousin_left c = Some y \<and> (\<forall>x. y = Some x \<longrightarrow> node_level x = l \<and> node_wf C False x))
    \<and> (\<exists>y. cousin_right c = Some y \<and> (\<forall>x. y = Some x \<longrightarrow> node_level x = l \<and> node_wf C False x))"
  proof cases
    case 2
    have "length cs = Suc (length ks)" using node_wf_length [OF 2(2)] .
    moreover have "ks \<noteq> []" using 2(2) unfolding node_wf.simps by (rule conjunct1)
    ultimately have "cs ! (length ks - 1) \<in> set cs" "cs ! 0 \<in> set cs" "0 < length ks" "0 < length cs" "length ks - 1 < length cs" by auto
    then show ?thesis using 2 by (simp add: cousin_left_def cousin_right_def del: nth_mem)
  qed (simp add: cousin_left_def cousin_right_def)
  then show "\<exists>y. cousin_left c = Some y \<and> (\<forall>x. y = Some x \<longrightarrow> node_level x = l \<and> node_wf C False x)"
    "\<exists>y. cousin_right c = Some y \<and> (\<forall>x. y = Some x \<longrightarrow> node_level x = l \<and> node_wf C False x)" by blast+
qed

lemma child_around_ok:
  assumes wf: "node_wf C r (Inner l ks cs)" and slot: "slot < length cs" and s: "siblings_wf C l arr"
  shows "\<exists>carr. child_around arr ks cs slot = Some carr \<and> hangs_at carr slot ks cs \<and> siblings_wf C (node_level (cs ! slot)) carr"
proof -
  let ?l = "node_level (cs ! slot)"
  have len: "length cs = Suc (length ks)" using node_wf_length [OF wf] .
  have all: "node_level (cs ! i) = ?l \<and> node_wf C False (cs ! i)" if "i < length cs" for i
  proof -
    have a: "\<forall>c\<in>set cs. Suc (node_level c) = l \<and> node_wf C False c" using wf by simp
    show ?thesis using bspec [OF a nth_mem [OF that]] bspec [OF a nth_mem [OF slot]] by simp
  qed
  have l: "l = Suc ?l" using wf slot by simp
  obtain y where y: "cousin_left (left_node arr) = Some y" "\<forall>x. y = Some x \<longrightarrow> node_level x = ?l \<and> node_wf C False x"
    using cousin_ok(1) [of "left_node arr" ?l C] s l by (auto simp: siblings_wf_def)
  obtain z where z: "cousin_right (right_node arr) = Some z" "\<forall>x. z = Some x \<longrightarrow> node_level x = ?l \<and> node_wf C False x"
    using cousin_ok(2) [of "right_node arr" ?l C] s l by (auto simp: siblings_wf_def)
  define L where "L = (if slot = 0 then (y, inherited (leftparent arr)) else (Some (cs ! (slot - 1)), The_parent))"
  define R where "R = (if slot = length ks then (z, inherited (rightparent arr)) else (Some (cs ! (slot + 1)), The_parent))"
  define carr where "carr = \<lparr>parent_keys_of = Some ks, parentslot = slot, left_node = fst L, right_node = fst R,
       leftparent = snd L, rightparent = snd R\<rparr>"
  have "child_around arr ks cs slot = Some carr"
    using y(1) z(1) slot len by (simp add: child_around_def L_def R_def carr_def)
  moreover have "inherited p \<noteq> The_parent" for p by (simp add: inherited_def)
  then have "hangs_at carr slot ks cs" using slot len by (simp add: hangs_at_def carr_def L_def R_def)
  moreover have "\<forall>x. fst L = Some x \<longrightarrow> node_level x = ?l \<and> node_wf C False x"
    unfolding L_def using y(2) all [of "slot - 1"] slot by simp
  moreover have "\<forall>x. fst R = Some x \<longrightarrow> node_level x = ?l \<and> node_wf C False x"
    unfolding R_def using z(2) all [of "slot + 1"] slot len by simp
  ultimately show ?thesis by (auto simp: siblings_wf_def carr_def)
qed

lemma note_lastkey_child:
  assumes h: "hangs_at carr slot ks cs" and n: "note_lastkey flag k carr = (carr0, res0)"
  shows "hangs_at carr0 slot (if flag then ks[slot := k] else ks) (cs[slot := c])" "\<not> not_found res0" "\<not> fixmerge res0"
    "update_lastkey res0 = (if flag \<and> slot = length ks then Some k else None)"
  using assms by (auto simp: note_lastkey_def set_lastkey_def hangs_at_def btree_ok_def list_update_beyond split: if_splits)

lemma note_lastkey_root: "note_lastkey flag k arr = (arr', res) \<Longrightarrow> parent_keys_of arr' = None \<longleftrightarrow> parent_keys_of arr = None"
  by (auto simp: note_lastkey_def set_lastkey_def split: option.splits if_splits)

lemma one_almost_update:
  assumes ok: "btree_class_ok C" and wf: "node_wf C r (Inner l ks cs)" and slot: "slot < length cs" and e: "erased C False (cs ! slot) c0 flag"
  shows "one_almost C l slot (if flag then ks[slot := maxkey c0] else ks) (cs[slot := c0])"
proof -
  have a: "\<forall>c\<in>set cs. Suc (node_level c) = l \<and> node_wf C False c" and ks: "ks = map maxkey (butlast cs)" using wf by simp_all
  have at: "Suc (node_level (cs ! i)) = l \<and> node_wf C False (cs ! i)" if "i < length cs" for i using bspec [OF a nth_mem [OF that]] .
  have c0: "node_level c0 = node_level (cs ! slot)" "almost_wf C False c0" using e by (simp_all add: erased_def)
  have "map maxkey (butlast (cs[slot := c0])) = (if flag then ks[slot := maxkey c0] else ks)"
  proof (cases "slot = length cs - 1")
    case True
    then show ?thesis using ks by (auto simp: butlast_list_update list_update_beyond)
  next
    case False
    then have "slot < length (butlast cs)" using slot by simp
    then have "\<not> flag \<Longrightarrow> ks[slot := maxkey c0] = ks"
      using e almost_wf_nonempty(1) [OF ok c0(2)] ks by (auto simp: erased_def nth_butlast list_update_same_conv)
    then show ?thesis using False ks by (auto simp: butlast_list_update map_update)
  qed
  then show ?thesis using at c0 slot by (auto simp: one_almost_def nth_list_update)
qed

lemma last_child_key:
  assumes "\<forall>c\<in>set cs. node_entries c \<noteq> []" "cs \<noteq> []"
  shows "fst (last (concat (map node_entries cs))) = maxkey (last cs)"
  using maxkey_Inner [of cs 0 "[]"] assms by (simp add: maxkey_def)

theorem erase_parent_step:
  assumes ok: "btree_class_ok C" and wf: "node_wf C r (Inner l ks cs)" and slot: "slot < length cs"
    and h: "hangs_at carr slot ks cs" and e: "erased C False (cs ! slot) c0 flag"
    and nl: "note_lastkey flag (maxkey c0) carr = (carr0, res0)" and m: "mem_holds m0 pre post n lc (Suc ic) (cs[slot := c0])"
  shows "\<exists>out n0 m2 flag' arr' myres. settle C carr0 res0 c0 m0 = Some out \<and> \<not> not_found (fst out)
    \<and> note_lastkey flag' (maxkey n0) arr = (arr', myres) \<and> erase_in_parent C arr l cs slot out = settle C arr' myres n0 m2
    \<and> erased C r (Inner l ks cs) n0 flag' \<and> node_entries n0 = concat (map node_entries (cs[slot := c0])) \<and> mem_holds m2 pre post n lc ic [n0]"
proof -
  let ?ks = "if flag then ks[slot := maxkey c0] else ks" and ?cs = "cs[slot := c0]"
  note nc = note_lastkey_child(1) [OF h nl, of c0] note_lastkey_child(2-4) [OF h nl]
  have "ks \<noteq> []" using wf unfolding node_wf.simps by (rule conjunct1)
  then have ne: "?ks \<noteq> []" and lks: "length ?ks = length ks" by simp_all
  have c0: "almost_wf C False c0" using e by (simp add: erased_def)
  obtain out where out: "settle C carr0 res0 c0 m0 = Some out" "parent_repaired C l ?ks ?cs slot pre post n lc (Suc ic) (update_lastkey res0) out"
    using settle_child [OF ok nc(1) ne one_almost_update [OF ok wf slot e] m nc(2,3)] slot by auto
  obtain res c' arr1 m1 where o: "out = (res, c', arr1, m1)" by (metis prod_cases4)
  obtain c1 ks1 ks2 cs2 m2 where p: "\<not> not_found res" "update_lastkey res = update_lastkey res0" "c' = Some c1" "parent_keys_of arr1 = Some ks1"
    "(if fixmerge res then remove_merged l ks1 (write_back arr1 c1 slot cs) slot m1 else Some (ks1, write_back arr1 c1 slot cs, m1)) = Some (ks2, cs2, m2)"
    "children_ok C l ks2 cs2" "length ks2 \<le> length ks" "length ks \<le> Suc (length ks2)" "concat (map node_entries cs2) = concat (map node_entries ?cs)"
    "mem_holds m2 pre post n lc (Suc ic) cs2"
    using out(2) unfolding o parent_repaired_def write_back_overwrite lks prod.case by blast
  let ?n0 = "Inner l ks2 cs2"
  define flag' where "flag' = (flag \<and> slot = length ks)"
  have len: "length cs = Suc (length ks)" using node_wf_length [OF wf] .
  have full: "node_entries x \<noteq> []" if "x \<in> set ?cs" for x
  proof -
    have "x = c0 \<or> x \<in> set cs" using that set_update_subset_insert [of cs slot c0] by auto
    then show ?thesis using almost_wf_nonempty(1) [OF ok c0] wf node_wf_nonempty by fastforce
  qed
  have cne: "?cs \<noteq> []" using slot by auto
  have max0: "maxkey ?n0 = maxkey (last ?cs)" using last_child_key [OF ballI [OF full] cne] p(9) by (simp add: maxkey_def)
  have csne: "cs \<noteq> []" using slot by auto
  then have "node_wf C False (last cs)" using wf by simp
  then have max: "maxkey (Inner l ks cs) = maxkey (last cs)" by (intro maxkey_Inner [OF csne] node_wf_nonempty)
  have last: "last ?cs = (if slot = length ks then c0 else last cs)" using len slot by (simp add: last_list_update [OF csne])
  obtain arr' myres where nt: "note_lastkey flag' (maxkey ?n0) arr = (arr', myres)" by fastforce
  have case_eq: "(case update_lastkey res of Some k \<Rightarrow> set_lastkey k arr | None \<Rightarrow> (arr, btree_ok)) = (arr', myres)"
    using nt p(2) nc(4) max0 last unfolding flag'_def note_lastkey_def by (auto split: if_splits)
  have "erase_in_parent C arr l cs slot out = settle C arr' myres ?n0 m2"
    using p(3-5) case_eq note_lastkey_root [OF nt] unfolding o erase_in_parent_def settle_def by (auto simp: Let_def)
  moreover have "erased C r (Inner l ks cs) ?n0 flag'"
  proof -
    have "almost_wf C r ?n0" using wf p(6-8) by auto
    moreover have "node_entries ?n0 \<noteq> []" using p(9) full cne by (cases ?cs) auto
    moreover have "\<not> flag' \<Longrightarrow> maxkey ?n0 = maxkey (Inner l ks cs)"
      using e almost_wf_nonempty(1) [OF ok c0] last last_conv_nth [OF csne] len unfolding max0 max erased_def flag'_def by auto
    ultimately show ?thesis unfolding erased_def by simp
  qed
  moreover have "mem_holds m2 pre post n lc ic [?n0]" using p(10) by (simp add: mem_holds_Inner)
  moreover have "node_entries ?n0 = concat (map node_entries ?cs)" using p(9) by simp
  ultimately show ?thesis using out(1) p(1) nt o by (metis fst_conv)
qed

subsection \<open>Removal from a leaf\<close>

definition without_nth :: "nat \<Rightarrow> 'a list \<Rightarrow> 'a list" where
  "without_nth p xs = take p xs @ drop (Suc p) xs"

lemma length_without_nth [simp]: "p < length xs \<Longrightarrow> length (without_nth p xs) = length xs - 1"
  by (simp add: without_nth_def)

lemma without_nth_append: "p < length xs \<Longrightarrow> without_nth (length A + p) (A @ xs @ B) = A @ without_nth p xs @ B"
  by (simp add: without_nth_def)

lemma keys_ok_without: "keys_ok C es \<Longrightarrow> keys_ok C (without_nth p es)"
proof -
  assume k: "keys_ok C es"
  have "map fst es = map fst (take p es) @ map fst (take 1 (drop p es)) @ map fst (drop (Suc p) es)"
    by (metis One_nat_def append_take_drop_id drop_drop map_append plus_1_eq_Suc)
  then show "keys_ok C (without_nth p es)" using k by (auto simp: keys_ok_def without_nth_def sorted_append)
qed

definition subtree_erased :: "'k btree_class \<Rightarrow> bool \<Rightarrow> ('k, 'v) bnode \<Rightarrow> ('k, 'v) around \<Rightarrow> nat list \<Rightarrow> nat list \<Rightarrow> nat \<Rightarrow> nat \<Rightarrow> nat
    \<Rightarrow> ('k \<times> 'v) list \<Rightarrow> ('k, 'v) erase_out option \<Rightarrow> bool" where
  "subtree_erased C r n arr pre post cnt lc ic es out \<longleftrightarrow> (\<exists>n0 m0 flag arr' res. out = settle C arr' res n0 m0
     \<and> note_lastkey flag (maxkey n0) arr = (arr', res) \<and> erased C r n n0 flag \<and> node_entries n0 = es \<and> mem_holds m0 pre post cnt lc ic [n0])"

lemma erase_from_leaf_ok:
  assumes ok: "btree_class_ok C" and wf: "node_wf C r (Leaf i es)" and r: "r = (parent_keys_of arr = None)" and slot: "slot < length es"
    and m: "mem_holds m pre post cnt lc ic [Leaf i es]"
  shows "subtree_erased C r (Leaf i es) arr pre post cnt lc ic (without_nth slot es) (erase_from_leaf C arr i es slot m)"
proof -
  let ?es = "without_nth slot es"
  define flag where "flag = (slot = length ?es \<and> ?es \<noteq> [])"
  have len: "length ?es = length es - 1" using slot by simp
  obtain arr' res where nl: "note_lastkey flag (maxkey (Leaf i ?es)) arr = (arr', res)" by fastforce
  have root: "?es = [] \<Longrightarrow> parent_keys_of arr = None" using wf r len min_slots [OF ok] by auto
  have nl': "(if slot = length ?es \<and> ?es \<noteq> [] then set_lastkey (fst (last ?es)) arr else (arr, btree_ok)) = (arr', res)"
    using nl by (simp add: note_lastkey_def flag_def maxkey_def)
  have "erase_from_leaf C arr i es slot m = settle C arr' res (Leaf i ?es) m"
    using root note_lastkey_root [OF nl] nl' unfolding erase_from_leaf_def settle_def without_nth_def [symmetric] Suc_eq_plus1 [symmetric] Let_def
    by auto
  moreover have "erased C r (Leaf i es) (Leaf i ?es) flag"
  proof -
    have "?es = [] \<or> maxkey (Leaf i ?es) = maxkey (Leaf i es)" if "\<not> flag"
    proof (cases "?es = []")
      case False
      then have "Suc slot < length es" using that len slot by (simp add: flag_def)
      then show ?thesis by (simp add: without_nth_def maxkey_def)
    qed simp
    then show ?thesis using wf len by (auto simp: erased_def flag_def)
  qed
  moreover have "mem_holds m pre post cnt lc ic [Leaf i ?es]" using m by (simp add: mem_holds_def)
  ultimately show ?thesis unfolding subtree_erased_def using nl by (intro exI conjI) (assumption | simp)+
qed

subsection \<open>The descent for a key\<close>

definition child_erased :: "'k btree_class \<Rightarrow> nat \<Rightarrow> ('k, 'v) bnode list \<Rightarrow> ('k, 'v) around \<Rightarrow> nat list \<Rightarrow> nat list \<Rightarrow> nat \<Rightarrow> nat \<Rightarrow> nat
    \<Rightarrow> ('k \<times> 'v) list \<Rightarrow> ('k, 'v) erase_out option \<Rightarrow> bool" where
  "child_erased C slot cs carr pre post cnt lc ic es out \<longleftrightarrow> subtree_erased C False (cs ! slot) carr
     (pre @ concat (map leaf_ids (take slot cs))) (concat (map leaf_ids (drop (Suc slot) cs)) @ post) cnt
     (lc + sum_list (map (length \<circ> tree_leaves) (take slot cs)) + sum_list (map (length \<circ> tree_leaves) (drop (Suc slot) cs)))
     (Suc ic + sum_list (map inner_count (take slot cs)) + sum_list (map inner_count (drop (Suc slot) cs))) es out"

lemma child_erased_up:
  assumes ok: "btree_class_ok C" and wf: "node_wf C r (Inner l ks cs)" and slot: "slot < length cs" and h: "hangs_at carr slot ks cs"
    and c: "child_erased C slot cs carr pre post cnt lc ic es' x"
  obtains out where "x = Some out" "\<not> not_found (fst out)" "subtree_erased C r (Inner l ks cs) arr pre post cnt lc ic
    (concat (map node_entries (take slot cs)) @ es' @ concat (map node_entries (drop (Suc slot) cs))) (erase_in_parent C arr l cs slot out)"
proof -
  obtain n0 m0 flag carr' res where c': "x = settle C carr' res n0 m0" "note_lastkey flag (maxkey n0) carr = (carr', res)"
    "erased C False (cs ! slot) n0 flag" "node_entries n0 = es'" and m0: "mem_holds m0 (pre @ concat (map leaf_ids (take slot cs)))
       (concat (map leaf_ids (drop (Suc slot) cs)) @ post) cnt
       (lc + sum_list (map (length \<circ> tree_leaves) (take slot cs)) + sum_list (map (length \<circ> tree_leaves) (drop (Suc slot) cs)))
       (Suc ic + sum_list (map inner_count (take slot cs)) + sum_list (map inner_count (drop (Suc slot) cs))) [n0]"
    using c unfolding child_erased_def subtree_erased_def by blast
  have cs: "cs[slot := n0] = take slot cs @ [n0] @ drop (Suc slot) cs" using slot by (simp add: upd_conv_take_nth_drop)
  have m: "mem_holds m0 pre post cnt lc (Suc ic) (cs[slot := n0])" unfolding cs mem_holds_append using m0 .
  have es: "concat (map node_entries (cs[slot := n0])) = concat (map node_entries (take slot cs)) @ es' @ concat (map node_entries (drop (Suc slot) cs))"
    unfolding cs using c'(4) by simp
  obtain out p m2 flag' arr' myres where s: "settle C carr' res n0 m0 = Some out" "\<not> not_found (fst out)"
    "note_lastkey flag' (maxkey p) arr = (arr', myres)" "erase_in_parent C arr l cs slot out = settle C arr' myres p m2"
    "erased C r (Inner l ks cs) p flag'" "node_entries p = concat (map node_entries (cs[slot := n0]))" "mem_holds m2 pre post cnt lc ic [p]"
    using erase_parent_step [OF ok wf slot h c'(3,2) m, of arr] by blast
  have "subtree_erased C r (Inner l ks cs) arr pre post cnt lc ic
    (concat (map node_entries (take slot cs)) @ es' @ concat (map node_entries (drop (Suc slot) cs))) (erase_in_parent C arr l cs slot out)"
    unfolding subtree_erased_def using s(3-7) es by metis
  with s(1,2) c'(1) that show thesis by simp
qed

lemma child_mem:
  assumes "mem_holds m pre post cnt lc ic [Inner l ks cs]" "slot < length cs"
  shows "mem_holds m (pre @ concat (map leaf_ids (take slot cs))) (concat (map leaf_ids (drop (Suc slot) cs)) @ post) cnt
     (lc + sum_list (map (length \<circ> tree_leaves) (take slot cs)) + sum_list (map (length \<circ> tree_leaves) (drop (Suc slot) cs)))
     (Suc ic + sum_list (map inner_count (take slot cs)) + sum_list (map inner_count (drop (Suc slot) cs))) [cs ! slot]"
proof -
  have "cs = take slot cs @ [cs ! slot] @ drop (Suc slot) cs" using id_take_nth_drop [OF assms(2)] by simp
  then show ?thesis using assms(1) mem_holds_append mem_holds_Inner by metis
qed

theorem erase_one_descend_ok:
  fixes key :: "'k::linorder"
  assumes ok: "btree_class_ok C"
  shows "node_wf C r n \<Longrightarrow> sorted (map fst (node_entries n)) \<Longrightarrow> r = (parent_keys_of arr = None) \<Longrightarrow> siblings_wf C (node_level n) arr
    \<Longrightarrow> mem_holds m pre post cnt lc ic [n]
    \<Longrightarrow> (if key \<in> fst ` set (node_entries n)
         then subtree_erased C r n arr pre post cnt lc ic
           (without_nth (length (takeWhile (\<lambda>e. fst e < key) (node_entries n))) (node_entries n)) (erase_one_descend C key n arr m)
         else erase_one_descend C key n arr m = Some (btree_not_found, Some n, arr, m))"
proof (induction n arbitrary: r arr pre post lc ic)
  case (Leaf i es)
  define slot where "slot = length (takeWhile (\<lambda>e. fst e < key) es)"
  have sorted: "sorted (map fst es)" using Leaf.prems(2) by simp
  have f: "find_lower C (map fst es) key = Some slot"
    using find_lower_eq [OF ok sorted, of key] Leaf.prems(1) btree_class_okD(2) [OF ok] takeWhile_fst [of "\<lambda>x. x < key" es] by (simp add: slot_def)
  have mem: "key \<in> fst ` set es \<longleftrightarrow> slot < length es \<and> fst (es ! slot) = key" unfolding slot_def by (rule sorted_member [OF sorted])
  show ?case
  proof (cases "key \<in> fst ` set es")
    case True
    then show ?thesis using f mem erase_from_leaf_ok [OF ok Leaf.prems(1,3) _ Leaf.prems(5), of slot] by (simp add: slot_def [symmetric])
  next
    case False
    then show ?thesis using f mem by auto
  qed
next
  case (Inner l ks cs)
  note wf = Inner.prems(1) and sorted = Inner.prems(2)
  define slot where "slot = length (takeWhile (\<lambda>x. x < key) ks)"
  note cp = child_position [OF wf sorted downward_intros(1) slot_def]
  note ce = child_entries [OF wf sorted slot_def]
  have ksl: "length ks \<le> innerslotmax C" using wf node_wf_children by blast
  have f: "find_lower C ks key = Some slot"
    unfolding slot_def by (rule find_lower_eq [OF ok node_wf_separators [OF wf sorted]]) (use ksl btree_class_okD(1) [OF ok] in simp)
  have c: "cs ! slot \<in> set cs" using cp(1) by simp
  have cwf: "node_wf C False (cs ! slot)" and csort: "sorted (map fst (node_entries (cs ! slot)))"
    using wf c sorted ce(1) by (simp, simp add: sorted_append)
  obtain carr where carr: "child_around arr ks cs slot = Some carr" "hangs_at carr slot ks cs" "siblings_wf C (node_level (cs ! slot)) carr"
    using child_around_ok [OF wf cp(1)] Inner.prems(4) by auto
  have nr: "False = (parent_keys_of carr = None)" using carr(2) by (simp add: hangs_at_def)
  note IH = Inner.IH [OF c cwf csort nr carr(3) child_mem [OF Inner.prems(5) cp(1)]]
  show ?case
  proof (cases "key \<in> fst ` set (node_entries (cs ! slot))")
    case True
    let ?p = "length (takeWhile (\<lambda>e. fst e < key) (node_entries (cs ! slot)))"
    let ?A = "concat (map node_entries (take slot cs))" and ?B = "concat (map node_entries (drop (Suc slot) cs))"
    have "child_erased C slot cs carr pre post cnt lc ic (without_nth ?p (node_entries (cs ! slot))) (erase_one_descend C key (cs ! slot) carr m)"
      unfolding child_erased_def using IH True by (simp only: if_True)
    then obtain out where out: "erase_one_descend C key (cs ! slot) carr m = Some out" "\<not> not_found (fst out)"
      "subtree_erased C r (Inner l ks cs) arr pre post cnt lc ic (?A @ without_nth ?p (node_entries (cs ! slot)) @ ?B) (erase_in_parent C arr l cs slot out)"
      by (rule child_erased_up [OF ok wf cp(1) carr(2)])
    have p: "?p < length (node_entries (cs ! slot))" using sorted_member [OF csort, of key] True by simp
    have "length (takeWhile (\<lambda>e. fst e < key) (node_entries (Inner l ks cs))) = length ?A + ?p"
      unfolding ce(1) ins_list_append(2) [OF ce(2,3)] by simp
    then have "without_nth (length (takeWhile (\<lambda>e. fst e < key) (node_entries (Inner l ks cs)))) (node_entries (Inner l ks cs))
        = ?A @ without_nth ?p (node_entries (cs ! slot)) @ ?B"
      using without_nth_append [OF p, of ?A ?B] unfolding ce(1) by simp
    moreover have "erase_one_descend C key (Inner l ks cs) arr m = erase_in_parent C arr l cs slot out"
      using f carr(1) cp(1) out(1,2) by simp
    ultimately show ?thesis using out(3) True ce(4) by (simp only: if_True)
  next
    case False
    then have "erase_one_descend C key (Inner l ks cs) arr m = Some (btree_not_found, Some (Inner l ks cs), arr, m)"
      using f carr(1) cp(1) IH by (simp add: btree_not_found_def)
    then show ?thesis using False ce(4) by (simp only: if_False)
  qed
qed

subsection \<open>The root\<close>

lemma siblings_root: "siblings_wf C l root_around"
  by (simp add: siblings_wf_def root_around_def)

lemma note_lastkey_root_around:
  assumes "note_lastkey flag k root_around = (arr', res)"
  shows "arr' = root_around" "\<not> not_found res"
  using assms by (auto simp: note_lastkey_def set_lastkey_def root_around_def btree_ok_def split: if_splits)

lemma choose_root: "choose_repair C root_around = Some Trim_root"
  by (simp add: choose_repair_def root_around_def)

lemma settle_root:
  assumes ok: "btree_class_ok C" and e: "erased C True n n0 flag" and k: "keys_ok C (node_entries n0)"
    and m: "mem_holds m [] [] (Suc (length (node_entries n0))) 0 0 [n0]" and res: "\<not> not_found res"
  shows "\<exists>res' root m'. settle C root_around res n0 m = Some (res', root, root_around, m') \<and> \<not> not_found res'
    \<and> btree_inv C \<lparr>m_root = root, m_mem = dec_itemcount m'\<rparr>
    \<and> btree_entries \<lparr>m_root = root, m_mem = dec_itemcount m'\<rparr> = node_entries n0"
proof -
  note m' = m [unfolded mem_holds_def]
  have al: "almost_wf C True n0" using e by (simp add: erased_def)
  have dec: "chain_ok (dec_itemcount q) is = chain_ok q is" for q "is" by (rule chain_ok_cong) (simp_all add: dec_itemcount_def)
  have kept: ?thesis if wf: "node_wf C True n0" and use: "1 \<le> node_slotuse n0"
  proof -
    have "settle C root_around res n0 m = Some (res, Some n0, root_around, m)" using use by (simp add: settle_def root_around_def)
    moreover have "m_stats (dec_itemcount m) = stats_of n0" using m' by (simp add: dec_itemcount_def stats_of_def)
    ultimately show ?thesis using res wf k m' dec by (simp add: btree_inv_def btree_entries_def root_leaves_def node_entries_def)
  qed
  have empty: "parent_keys_of root_around = None" by (simp add: root_around_def)
  show ?thesis
  proof (cases n0)
    case (Leaf i es)
    show ?thesis
    proof (cases "es = []")
      case True
      have "node_isunderflow C n0" using Leaf True min_slots(1) [OF ok] by simp
      then have "settle C root_around res n0 m = Some (btree_ok, None, root_around, (free_node n0 m)\<lparr>m_headleaf := None, m_tailleaf := None\<rparr>)"
        using Leaf True by (simp add: settle_def repair_leaf_def empty choose_root)
      then show ?thesis using m' Leaf True
        by (auto simp: btree_inv_def dec_itemcount_def empty_stats_def btree_ok_def btree_entries_def root_leaves_def)
    next
      case False
      then have "1 \<le> length es" by (cases es) simp_all
      then show ?thesis using kept Leaf False al by simp
    qed
  next
    case (Inner l ks cs)
    have ch: "children_ok C l ks cs" "length ks \<le> innerslotmax C" using al Inner by simp_all
    show ?thesis
    proof (cases "ks = []")
      case True
      then obtain c where c: "cs = [c]" "node_wf C False c" using ch(1) by (cases cs rule: rev_cases) (auto simp: children_ok_def)
      have "node_isunderflow C n0" using Inner True min_slots(3) [OF ok] by simp
      then have "settle C root_around res n0 m = Some (btree_ok, Some c, root_around, free_node (Inner l [] cs) m)"
        using Inner True c by (simp add: settle_def repair_inner_def empty choose_root)
      moreover have "chain_ok (free_node (Inner l [] cs) m) is = chain_ok m is" for "is" by (rule chain_ok_cong) simp_all
      then have "chain_ok (dec_itemcount (free_node (Inner l [] cs) m)) (leaf_ids c)" using m' Inner c unfolding dec by simp
      moreover have "m_stats (dec_itemcount (free_node (Inner l [] cs) m)) = stats_of c"
        using m' Inner c by (simp add: dec_itemcount_def stats_of_def)
      ultimately show ?thesis using k Inner c node_wf_mono [OF c(2), of True]
        by (simp add: btree_inv_def btree_ok_def btree_entries_def root_leaves_def node_entries_def [symmetric] del: free_node.simps)
    next
      case False
      then have "1 \<le> length ks" by (cases ks) simp_all
      then show ?thesis using kept Inner False ch node_wf_children [of C True l ks cs] by (simp del: node_wf.simps)
    qed
  qed
qed

lemma root_erased:
  assumes ok: "btree_class_ok C" and inv: "btree_inv C t" and n: "m_root t = Some n" and p: "p < length (node_entries n)"
    and x: "subtree_erased C True n root_around [] [] (length (node_entries n)) 0 0 (without_nth p (node_entries n)) x"
  obtains res root m where "x = Some (res, root, root_around, m)" "\<not> not_found res" "btree_inv C \<lparr>m_root = root, m_mem = dec_itemcount m\<rparr>"
    "btree_entries \<lparr>m_root = root, m_mem = dec_itemcount m\<rparr> = without_nth p (btree_entries t)"
proof -
  obtain n0 m0 flag arr' res where s: "x = settle C arr' res n0 m0"
    "note_lastkey flag (maxkey n0) root_around = (arr', res)" "erased C True n n0 flag"
    "node_entries n0 = without_nth p (node_entries n)" "mem_holds m0 [] [] (length (node_entries n)) 0 0 [n0]"
    using x unfolding subtree_erased_def by blast
  note nl = note_lastkey_root_around [OF s(2)]
  have len: "Suc (length (node_entries n0)) = length (node_entries n)" using s(4) p by simp
  have "keys_ok C (node_entries n)" using inv n by (simp add: btree_inv_def)
  then have k: "keys_ok C (node_entries n0)" unfolding s(4) by (rule keys_ok_without)
  from settle_root [OF ok s(3) k s(5) [folded len] nl(2)] that s(1,4) nl(1) btree_inv_root(5) [OF inv n] show thesis by metis
qed

lemma root_mem:
  assumes "btree_inv C t" "m_root t = Some n"
  shows "mem_holds (m_mem t) [] [] (length (node_entries n)) 0 0 [n]" "True = (parent_keys_of root_around = None)"
  using assms by (simp_all add: btree_inv_def mem_holds_def stats_of_def root_around_def)

theorem erase_one_ok:
  assumes ok: "btree_class_ok C" and inv: "btree_inv C t"
  shows "if key \<in> fst ` set (btree_entries t)
    then \<exists>t'. btree_erase_one C key t = Some (True, t') \<and> btree_inv C t'
      \<and> btree_entries t' = without_nth (length (takeWhile (\<lambda>e. fst e < key) (btree_entries t))) (btree_entries t)
    else btree_erase_one C key t = Some (False, t)"
proof (cases "m_root t")
  case None
  then show ?thesis by (simp add: btree_erase_one_def empty_root)
next
  case (Some n)
  note b = btree_inv_root [OF inv Some]
  note d = erase_one_descend_ok [OF ok b(1,2) root_mem(2) [OF inv Some] siblings_root root_mem(1) [OF inv Some], of key]
  let ?p = "length (takeWhile (\<lambda>e. fst e < key) (node_entries n))"
  show ?thesis
  proof (cases "key \<in> fst ` set (btree_entries t)")
    case True
    then have p: "?p < length (node_entries n)" using sorted_member [OF b(2), of key] b(5) by simp
    have "subtree_erased C True n root_around [] [] (length (node_entries n)) 0 0 (without_nth ?p (node_entries n)) (erase_one_descend C key n root_around (m_mem t))"
      using d True b(5) by (simp only: if_True)
    then obtain res root m where "erase_one_descend C key n root_around (m_mem t) = Some (res, root, root_around, m)" "\<not> not_found res"
      "btree_inv C \<lparr>m_root = root, m_mem = dec_itemcount m\<rparr>" "btree_entries \<lparr>m_root = root, m_mem = dec_itemcount m\<rparr> = without_nth ?p (btree_entries t)"
      by (rule root_erased [OF ok inv Some p])
    then show ?thesis using True Some b(5) by (simp add: btree_erase_one_def)
  next
    case False
    then have "erase_one_descend C key n root_around (m_mem t) = Some (btree_not_found, Some n, root_around, m_mem t)"
      using d b(5) by (simp only: if_False)
    then have "btree_erase_one C key t = Some (False, t)" using Some by (simp add: btree_erase_one_def btree_not_found_def)
    then show ?thesis using False by simp
  qed
qed

subsection \<open>All entries of a key\<close>

lemma filter_without:
  fixes es :: "('k::linorder \<times> 'v) list" and key :: 'k
  assumes "sorted (map fst es)" "key \<in> fst ` set es"
  defines "p \<equiv> length (takeWhile (\<lambda>e. fst e < key) es)"
  shows "filter (\<lambda>e. fst e \<noteq> key) (without_nth p es) = filter (\<lambda>e. fst e \<noteq> key) es"
    "count_list (map fst es) key = Suc (count_list (map fst (without_nth p es)) key)"
proof -
  have p: "p < length es" "fst (es ! p) = key" unfolding p_def using sorted_member [OF assms(1), of key] assms(2) by auto
  have es: "es = take p es @ es ! p # drop (Suc p) es" by (rule id_take_nth_drop [OF p(1)])
  have "filter (\<lambda>e. fst e \<noteq> key) (take p es @ es ! p # drop (Suc p) es) = filter (\<lambda>e. fst e \<noteq> key) (without_nth p es)"
    using p(2) by (simp add: without_nth_def)
  then show "filter (\<lambda>e. fst e \<noteq> key) (without_nth p es) = filter (\<lambda>e. fst e \<noteq> key) es" using es by simp
  have "count_list (map fst (take p es @ es ! p # drop (Suc p) es)) key = Suc (count_list (map fst (without_nth p es)) key)"
    using p(2) by (simp add: without_nth_def)
  then show "count_list (map fst es) key = Suc (count_list (map fst (without_nth p es)) key)" using es by simp
qed

lemma count_list_distinct: "distinct xs \<Longrightarrow> count_list xs x \<le> 1"
  by (induction xs) (auto simp: count_list_0_iff)

theorem erase_loop_ok:
  assumes ok: "btree_class_ok C"
  shows "btree_inv C t \<Longrightarrow> \<exists>t'. btree_erase_loop C key c t = Some (c + count_list (map fst (btree_entries t)) key, t') \<and> btree_inv C t'
    \<and> btree_entries t' = filter (\<lambda>e. fst e \<noteq> key) (btree_entries t)"
proof (induction "count_list (map fst (btree_entries t)) key" arbitrary: c t)
  case 0
  then have none: "key \<notin> fst ` set (btree_entries t)" by (simp add: count_list_0_iff)
  then have "btree_erase_one C key t = Some (False, t)" using erase_one_ok [OF ok 0(2), of key] by (simp only: if_False)
  moreover have "filter (\<lambda>e. fst e \<noteq> key) (btree_entries t) = btree_entries t" using none by (intro filter_True) auto
  ultimately show ?case using 0 by (subst btree_erase_loop.simps) simp
next
  case (Suc q)
  have has: "key \<in> fst ` set (btree_entries t)" using Suc(2) count_list_0_iff [of "map fst (btree_entries t)" key] by fastforce
  obtain t1 where t1: "btree_erase_one C key t = Some (True, t1)" "btree_inv C t1"
    "btree_entries t1 = without_nth (length (takeWhile (\<lambda>e. fst e < key) (btree_entries t))) (btree_entries t)"
    using erase_one_ok [OF ok Suc(3), of key] has by auto
  note fw = filter_without [OF btree_inv_sorted [OF Suc(3)] has, folded t1(3)]
  have q: "q = count_list (map fst (btree_entries t1)) key" using Suc(2) fw(2) by simp
  show ?case
  proof (cases "allow_duplicates C")
    case True
    then show ?thesis using Suc.hyps(1) [OF q t1(2), of "c + 1"] t1(1) fw q Suc(2) by (subst btree_erase_loop.simps) auto
  next
    case False
    then have "distinct (map fst (btree_entries t))" using Suc(3) by (cases "m_root t") (auto simp: btree_inv_def keys_ok_def btree_inv_root(5) [OF Suc(3)] empty_root)
    then have "count_list (map fst (btree_entries t)) key \<le> 1" by (rule count_list_distinct)
    then have q0: "q = 0" using Suc(2) by simp
    then have "key \<notin> fst ` set (btree_entries t1)" using q by (simp add: count_list_0_iff)
    then have "filter (\<lambda>e. fst e \<noteq> key) (btree_entries t1) = btree_entries t1" by (intro filter_True) auto
    then show ?thesis using False t1(1,2) fw(1) q0 Suc(2) by (subst btree_erase_loop.simps) simp
  qed
qed

end
