(* ===== verification/Btree_Erase_Iter.thy ===== *)
theory Btree_Erase_Iter
  imports Btree_Erase_Ok
begin

text \<open>
  Erasing at an iterator removes exactly the entry it points to: the search through the children
  from the lower bound of the key on reaches the leaf of the iterator, and passes no other.
\<close>

declare erase_iter_slots.simps [simp del]

lemma slots_not_found:
  assumes "\<And>s carr. slot \<le> s \<Longrightarrow> s < length cs \<Longrightarrow> hangs_at carr s ks cs \<Longrightarrow> siblings_wf C (node_level (cs ! s)) carr
      \<Longrightarrow> erase_iter_descend C it (Some k) (cs ! s) carr m = Some (btree_not_found, Some (cs ! s), carr, m)"
    and wf: "node_wf C r (Inner l ks cs)" and s: "siblings_wf C l arr"
  shows "erase_iter_slots C it k l ks cs slot arr m = Some (btree_not_found, Some (Inner l ks cs), arr, m)"
  using assms(1)
proof (induction "length cs - slot" arbitrary: slot rule: less_induct)
  case less
  have len: "length cs = Suc (length ks)" using node_wf_length [OF wf] .
  show ?case
  proof (cases "slot \<le> length ks")
    case True
    then have lt: "slot < length cs" using len by simp
    obtain carr where carr: "child_around arr ks cs slot = Some carr" "hangs_at carr slot ks cs" "siblings_wf C (node_level (cs ! slot)) carr"
      using child_around_ok [OF wf lt s] by blast
    have "erase_iter_descend C it (Some k) (cs ! slot) carr m = Some (btree_not_found, Some (cs ! slot), carr, m)"
      by (rule less.prems [OF order_refl lt carr(2,3)])
    moreover have "erase_iter_slots C it k l ks cs (slot + 1) arr m = Some (btree_not_found, Some (Inner l ks cs), arr, m)"
      by (rule less.hyps) (use lt less.prems in auto)
    ultimately show ?thesis using lt carr(1) by (subst erase_iter_slots.simps) (simp add: btree_not_found_def)
  qed (simp add: erase_iter_slots.simps)
qed

lemma slots_found:
  assumes "\<And>s carr. slot \<le> s \<Longrightarrow> s < j \<Longrightarrow> hangs_at carr s ks cs \<Longrightarrow> siblings_wf C (node_level (cs ! s)) carr
      \<Longrightarrow> erase_iter_descend C it (Some k) (cs ! s) carr m = Some (btree_not_found, Some (cs ! s), carr, m)"
    and keys: "\<And>s. slot \<le> s \<Longrightarrow> s < length ks \<Longrightarrow> \<not> ks ! s < k"
    and j: "slot \<le> j" "j < length cs" and wf: "node_wf C r (Inner l ks cs)" and s: "siblings_wf C l arr"
    and out: "child_around arr ks cs j = Some carr'" "erase_iter_descend C it (Some k) (cs ! j) carr' m = Some out" "\<not> not_found (fst out)"
  shows "erase_iter_slots C it k l ks cs slot arr m = erase_in_parent C arr l cs j out"
  using assms(1) keys j(1)
proof (induction "j - slot" arbitrary: slot rule: less_induct)
  case less
  have len: "length cs = Suc (length ks)" using node_wf_length [OF wf] .
  show ?case
  proof (cases "slot = j")
    case True
    then show ?thesis using out j(2) len by (subst erase_iter_slots.simps) simp
  next
    case False
    then have lt: "slot < j" "slot < length ks" "slot < length cs" using less.prems(3) j(2) len by simp_all
    obtain carr where carr: "child_around arr ks cs slot = Some carr" "hangs_at carr slot ks cs" "siblings_wf C (node_level (cs ! slot)) carr"
      using child_around_ok [OF wf lt(3) s] by blast
    have "erase_iter_descend C it (Some k) (cs ! slot) carr m = Some (btree_not_found, Some (cs ! slot), carr, m)"
      by (rule less.prems(1) [OF order_refl lt(1) carr(2,3)])
    moreover have "erase_iter_slots C it k l ks cs (slot + 1) arr m = erase_in_parent C arr l cs j out"
      by (rule less.hyps) (use lt less.prems in auto)
    moreover have "\<not> ks ! slot < k" using less.prems(2) [OF order_refl lt(2)] .
    ultimately show ?thesis using lt carr(1) by (subst erase_iter_slots.simps) (simp add: btree_not_found_def)
  qed
qed

lemma unique_split:
  assumes "xs @ (i, e) # ys = xs' @ (i, e') # ys'" "distinct (map fst (xs @ (i, e) # ys))"
  shows "xs = xs'" "e = e'"
proof -
  have "xs = xs' \<and> e = e'" using assms
  proof (induction xs arbitrary: xs')
    case Nil
    then show ?case by (cases xs') auto
  next
    case (Cons x xs)
    then show ?case by (cases xs') auto
  qed
  then show "xs = xs'" "e = e'" by simp_all
qed

lemma leaf_in_child:
  assumes "concat (map tree_leaves cs) = ls @ (i, es) # rs" "distinct (map fst (concat (map tree_leaves cs)))"
  obtains j ls' rs' where "j < length cs" "tree_leaves (cs ! j) = ls' @ (i, es) # rs'" "ls = concat (map tree_leaves (take j cs)) @ ls'"
    "\<And>s. s < length cs \<Longrightarrow> i \<in> set (leaf_ids (cs ! s)) \<Longrightarrow> s = j"
proof -
  have "(i, es) \<in> set (concat (map tree_leaves cs))" unfolding assms(1) by simp
  then obtain c where "c \<in> set cs" "(i, es) \<in> set (tree_leaves c)" by auto
  then obtain j where j: "j < length cs" "(i, es) \<in> set (tree_leaves (cs ! j))" by (auto simp: in_set_conv_nth [of _ cs])
  then obtain ls' rs' where l: "tree_leaves (cs ! j) = ls' @ (i, es) # rs'" by (auto simp: in_set_conv_decomp)
  have cs: "concat (map tree_leaves cs) = (concat (map tree_leaves (take j cs)) @ ls') @ (i, es) # rs' @ concat (map tree_leaves (drop (Suc j) cs))"
    using entries_take_drop(2) [OF j(1), of 0 "[]"] l by simp
  have "ls = concat (map tree_leaves (take j cs)) @ ls'"
    using unique_split(1) [of "concat (map tree_leaves (take j cs)) @ ls'" i es _ ls es] assms cs by metis
  moreover have "s = j" if s: "s < length cs" "i \<in> set (leaf_ids (cs ! s))" for s
  proof (rule ccontr)
    assume ne: "s \<noteq> j"
    have d: "distinct (map fst (concat (map tree_leaves cs)))" by (rule assms(2))
    have i: "i \<notin> fst ` set (concat (map tree_leaves (take j cs)))" "i \<notin> fst ` set (concat (map tree_leaves (drop (Suc j) cs)))"
      using d unfolding cs by auto
    have "cs ! s \<in> set (take j cs) \<or> cs ! s \<in> set (drop (Suc j) cs)"
    proof (cases "s < j")
      case True
      then show ?thesis using s(1) j(1) by (auto simp: in_set_conv_nth intro!: exI [of _ s])
    next
      case False
      then have "drop (Suc j) cs ! (s - Suc j) = cs ! s" "s - Suc j < length (drop (Suc j) cs)" using ne s(1) j(1) by simp_all
      then show ?thesis by (metis nth_mem)
    qed
    then show False using i s(2) by (auto simp: leaf_ids_def)
  qed
  ultimately show thesis using that j(1) l by blast
qed

theorem erase_iter_descend_ok:
  fixes k :: "'k::linorder"
  assumes ok: "btree_class_ok C" and it: "currnode it = Some i"
  shows "node_wf C r n \<Longrightarrow> sorted (map fst (node_entries n)) \<Longrightarrow> r = (parent_keys_of arr = None) \<Longrightarrow> siblings_wf C (node_level n) arr
    \<Longrightarrow> mem_holds m pre post cnt lc ic [n]
    \<Longrightarrow> (i \<notin> set (leaf_ids n) \<longrightarrow> erase_iter_descend C it (Some k) n arr m = Some (btree_not_found, Some n, arr, m))
      \<and> (\<forall>ls es rs. tree_leaves n = ls @ (i, es) # rs \<longrightarrow> currslot it < length es \<longrightarrow> fst (es ! currslot it) = k \<longrightarrow>
         subtree_erased C r n arr pre post cnt lc ic (without_nth (length (concat (map snd ls)) + currslot it) (node_entries n))
           (erase_iter_descend C it (Some k) n arr m))"
proof (induction n arbitrary: r arr pre post lc ic)
  case (Leaf i' es)
  then show ?case using it erase_from_leaf_ok [OF ok Leaf.prems(1,3) _ Leaf.prems(5), of "currslot it"] by (auto simp: Cons_eq_append_conv)
next
  case (Inner l ks cs)
  note wf = Inner.prems(1) and sorted = Inner.prems(2) and sib = Inner.prems(4) [unfolded node_level.simps]
  define slot where "slot = length (takeWhile (\<lambda>x. x < k) ks)"
  note cp = child_position [OF wf sorted downward_intros(1) slot_def]
  have len: "length cs = Suc (length ks)" using node_wf_length [OF wf] .
  have ksl: "length ks \<le> innerslotmax C" using wf node_wf_children by blast
  have kss: "sorted ks" by (rule node_wf_separators [OF wf sorted])
  have f: "find_lower C ks k = Some slot"
    unfolding slot_def by (rule find_lower_eq [OF ok kss]) (use ksl btree_class_okD(1) [OF ok] in simp)
  have go: "erase_iter_descend C it (Some k) (Inner l ks cs) arr m = erase_iter_slots C it k l ks cs slot arr m" using f by simp
  have child: "(i \<notin> set (leaf_ids (cs ! s)) \<longrightarrow> erase_iter_descend C it (Some k) (cs ! s) carr m = Some (btree_not_found, Some (cs ! s), carr, m))
      \<and> (\<forall>ls es rs. tree_leaves (cs ! s) = ls @ (i, es) # rs \<longrightarrow> currslot it < length es \<longrightarrow> fst (es ! currslot it) = k \<longrightarrow>
         child_erased C s cs carr pre post cnt lc ic (without_nth (length (concat (map snd ls)) + currslot it) (node_entries (cs ! s)))
           (erase_iter_descend C it (Some k) (cs ! s) carr m))"
    if "s < length cs" "hangs_at carr s ks cs" "siblings_wf C (node_level (cs ! s)) carr" for s carr
  proof -
    have c: "cs ! s \<in> set cs" using that(1) by simp
    have cwf: "node_wf C False (cs ! s)" and csort: "sorted (map fst (node_entries (cs ! s)))"
      using wf c sorted entries_take_drop(1) [OF that(1), of l ks] by (simp, simp add: sorted_append)
    have nr: "False = (parent_keys_of carr = None)" using that(2) by (simp add: hangs_at_def)
    show ?thesis unfolding child_erased_def by (rule Inner.IH [OF c cwf csort nr that(3) child_mem [OF Inner.prems(5) that(1)]])
  qed
  show ?case
  proof (intro conjI impI allI)
    assume "i \<notin> set (leaf_ids (Inner l ks cs))"
    then have "i \<notin> set (leaf_ids (cs ! s))" if "s < length cs" for s using that by auto
    then show "erase_iter_descend C it (Some k) (Inner l ks cs) arr m = Some (btree_not_found, Some (Inner l ks cs), arr, m)"
      unfolding go using child by (intro slots_not_found [OF _ wf sib]) blast
  next
    fix ls es rs
    assume leaf: "tree_leaves (Inner l ks cs) = ls @ (i, es) # rs" and lt: "currslot it < length es" and k: "fst (es ! currslot it) = k"
    have "distinct (leaf_ids (Inner l ks cs))" using Inner.prems(5) by (simp add: mem_holds_def chain_ok_def)
    then have d: "distinct (map fst (concat (map tree_leaves cs)))" by (simp only: leaf_ids_def tree_leaves.simps)
    obtain j ls' rs' where j: "j < length cs" "tree_leaves (cs ! j) = ls' @ (i, es) # rs'" "ls = concat (map tree_leaves (take j cs)) @ ls'"
      "\<And>s. s < length cs \<Longrightarrow> i \<in> set (leaf_ids (cs ! s)) \<Longrightarrow> s = j"
      using leaf_in_child [OF leaf [unfolded tree_leaves.simps] d] by metis
    have E: "node_entries (cs ! j) = concat (map snd ls') @ es @ concat (map snd rs')" unfolding node_entries_def j(2) by simp
    have p: "length (concat (map snd ls')) + currslot it < length (node_entries (cs ! j))" unfolding E using lt by simp
    have ge: "slot \<le> j"
    proof (rule ccontr)
      assume "\<not> slot \<le> j"
      then have "cs ! j \<in> set (take slot cs)" using j(1) by (auto simp: in_set_conv_nth intro!: exI [of _ j])
      moreover have "es ! currslot it \<in> set (node_entries (cs ! j))" unfolding E using lt by simp
      ultimately show False using cp(2) k by blast
    qed
    obtain carr where carr: "child_around arr ks cs j = Some carr" "hangs_at carr j ks cs" "siblings_wf C (node_level (cs ! j)) carr"
      using child_around_ok [OF wf j(1) sib] by blast
    let ?A = "concat (map node_entries (take j cs))" and ?B = "concat (map node_entries (drop (Suc j) cs))"
    let ?e = "without_nth (length (concat (map snd ls')) + currslot it) (node_entries (cs ! j))"
    have "child_erased C j cs carr pre post cnt lc ic ?e (erase_iter_descend C it (Some k) (cs ! j) carr m)"
      using child [OF j(1) carr(2,3)] j(2) lt k by blast
    then obtain out where out: "erase_iter_descend C it (Some k) (cs ! j) carr m = Some out" "\<not> not_found (fst out)"
      "subtree_erased C r (Inner l ks cs) arr pre post cnt lc ic (?A @ ?e @ ?B) (erase_in_parent C arr l cs j out)"
      by (rule child_erased_up [OF ok wf j(1) carr(2)])
    have "erase_iter_slots C it k l ks cs slot arr m = erase_in_parent C arr l cs j out"
    proof (rule slots_found [OF _ _ ge j(1) wf sib carr(1) out(1,2)])
      fix s carr' assume "slot \<le> s" "s < j" and c: "hangs_at carr' s ks cs" "siblings_wf C (node_level (cs ! s)) carr'"
      then have "s < length cs" "i \<notin> set (leaf_ids (cs ! s))" using j(1) j(4) [of s] by auto
      then show "erase_iter_descend C it (Some k) (cs ! s) carr' m = Some (btree_not_found, Some (cs ! s), carr', m)" using child c by blast
    next
      fix s assume s: "slot \<le> s" "s < length ks"
      then have "\<not> ks ! slot < k" using nth_length_takeWhile [of "\<lambda>x. x < k" ks] by (simp add: slot_def)
      then show "\<not> ks ! s < k" using sorted_nth_mono [OF kss s] by auto
    qed
    moreover have "length (concat (map snd ls)) = length ?A + length (concat (map snd ls'))"
      unfolding j(3) map_append concat_append length_append entries_of_leaves ..
    then have "without_nth (length (concat (map snd ls)) + currslot it) (node_entries (Inner l ks cs)) = ?A @ ?e @ ?B"
      using without_nth_append [OF p, of ?A ?B] unfolding entries_take_drop(1) [OF j(1)] by (simp add: add.assoc)
    ultimately show "subtree_erased C r (Inner l ks cs) arr pre post cnt lc ic (without_nth (length (concat (map snd ls)) + currslot it) (node_entries (Inner l ks cs)))
        (erase_iter_descend C it (Some k) (Inner l ks cs) arr m)" unfolding go using out(3) by simp
  qed
qed

theorem erase_iter_ok:
  assumes ok: "btree_class_ok C" and inv: "btree_inv C t" and at: "btree_at t it p" and p: "p < length (btree_entries t)"
  shows "\<exists>t'. btree_erase_iter C it t = Some t' \<and> btree_inv C t' \<and> btree_entries t' = without_nth p (btree_entries t)"
  using inv at
proof (cases rule: btree_at_cases)
  case empty
  then show ?thesis using p by (simp add: empty_root)
next
  case (leaf ls i es rs)
  obtain n where n: "m_root t = Some n" using leaf(1) by blast
  note b = btree_inv_root [OF inv n]
  have leaves: "tree_leaves n = ls @ (i, es) # rs" and it: "currnode it = Some i" and pos: "p = length (concat (map snd ls)) + currslot it"
    using leaf b(4) by simp_all
  have E: "btree_entries t = concat (map snd ls) @ es @ concat (map snd rs)" unfolding b(5) node_entries_def leaves by simp
  have lt: "currslot it < length es"
  proof (rule ccontr)
    assume "\<not> currslot it < length es"
    then have "currslot it = length es" "rs = []" using leaf by auto
    then show False using p pos E by simp
  qed
  have d: "iter_deref t it = Some (es ! currslot it)" using btree_at_deref [OF inv at p] unfolding E pos using lt by (simp add: nth_append)
  let ?k = "fst (es ! currslot it)"
  have "subtree_erased C True n root_around [] [] (length (node_entries n)) 0 0 (without_nth p (node_entries n))
      (erase_iter_descend C it (Some ?k) n root_around (m_mem t))"
    using erase_iter_descend_ok [OF ok it b(1,2) root_mem(2) [OF inv n] siblings_root root_mem(1) [OF inv n], of ?k] leaves lt pos by blast
  then obtain res root m where "erase_iter_descend C it (Some ?k) n root_around (m_mem t) = Some (res, root, root_around, m)" "\<not> not_found res"
      "btree_inv C \<lparr>m_root = root, m_mem = dec_itemcount m\<rparr>" "btree_entries \<lparr>m_root = root, m_mem = dec_itemcount m\<rparr> = without_nth p (btree_entries t)"
    by (rule root_erased [OF ok inv n p [unfolded b(5)]])
  then show ?thesis using n d by (simp add: btree_erase_iter_def)
qed

end
