(* ===== verification/Btree_Erase_Props.thy ===== *)
theory Btree_Erase_Props
  imports Btree_Props Btree_Erase_Iter
begin

text \<open>The properties of the erasure from the B+ tree.\<close>

text \<open>C28: \<open>erase_one\<close> always returns. If the key is present, it removes the first pair with it and
  nothing else, whatever shifts and merges of leaves and inner nodes follow, up to a new root or an
  empty tree, and keeps the whole invariant: no repair ever involves two nodes of different parents,
  and no merge writes outside a node. If the key is absent, it says so and leaves the tree as it was.\<close>

theorem btree_erase_one_refines:
  assumes "btree_class_ok C" "btree_inv C t"
  shows "\<exists>t'. btree_erase_one C key t = Some (key \<in> fst ` set (btree_entries t), t') \<and> btree_inv C t'
    \<and> (key \<in> fst ` set (btree_entries t) \<longrightarrow> (\<exists>A v B. btree_entries t = A @ (key, v) # B \<and> key \<notin> fst ` set A
         \<and> btree_entries t' = A @ B \<and> btree_size t = Suc (btree_size t')))
    \<and> (key \<notin> fst ` set (btree_entries t) \<longrightarrow> t' = t)"
proof (cases "key \<in> fst ` set (btree_entries t)")
  case True
  let ?es = "btree_entries t"
  let ?p = "length (takeWhile (\<lambda>e. fst e < key) ?es)"
  obtain t' where t': "btree_erase_one C key t = Some (True, t')" "btree_inv C t'" "btree_entries t' = without_nth ?p ?es"
    using erase_one_ok [OF assms, of key] True by auto
  have p: "?p < length ?es" "fst (?es ! ?p) = key" using sorted_member [OF btree_inv_sorted [OF assms(2)], of key] True by auto
  then have es: "?es = take ?p ?es @ (key, snd (?es ! ?p)) # drop (Suc ?p) ?es" using id_take_nth_drop [OF p(1)] by (metis prod.collapse)
  have A: "key \<notin> fst ` set (take ?p ?es)" by (auto simp: takeWhile_eq_take [symmetric] dest: set_takeWhileD)
  have size: "btree_size t = Suc (btree_size t')" using btree_inv_size [OF assms(2)] btree_inv_size [OF t'(2)] t'(3) p(1) by simp
  have "btree_entries t' = take ?p ?es @ drop (Suc ?p) ?es" unfolding t'(3) without_nth_def ..
  then have "\<exists>A v B. btree_entries t = A @ (key, v) # B \<and> key \<notin> fst ` set A \<and> btree_entries t' = A @ B \<and> btree_size t = Suc (btree_size t')"
    using es A size by metis
  then show ?thesis using True t'(1,2) by auto
next
  case False
  then show ?thesis using erase_one_ok [OF assms, of key] assms(2) by auto
qed

lemma btree_erase_one_refines_witness:
  "\<exists>t'. btree_erase_one sample_btree_class 9 sample_tree = Some (True, t') \<and> btree_inv sample_btree_class t' \<and> btree_size t' = 19
    \<and> btree_erase_one sample_btree_class 10 sample_tree = Some (False, sample_tree)"
proof -
  have k: "9 \<in> fst ` set sample_pairs" "10 \<notin> fst ` set sample_pairs" by (simp_all add: sample_pairs_def)
  have "btree_size sample_tree = 20" using btree_inv_size [OF sample_tree_ok(1)] by (simp add: sample_tree_ok(2) sample_pairs_def)
  then show ?thesis
    using btree_erase_one_refines [OF sample_btree_class_ok(1) sample_tree_ok(1), of 9]
      btree_erase_one_refines [OF sample_btree_class_ok(1) sample_tree_ok(1), of 10] k
    unfolding sample_tree_ok(2) by auto
qed

text \<open>C29: \<open>erase\<close> of a key terminates, removes all pairs with the key and only these, in a good
  tree again, and returns how many there were.\<close>

theorem btree_erase_correct:
  assumes "btree_class_ok C" "btree_inv C t"
  shows "\<exists>t'. btree_erase C key t = Some (count_list (map fst (btree_entries t)) key, t') \<and> btree_inv C t'
    \<and> btree_entries t' = filter (\<lambda>x. fst x \<noteq> key) (btree_entries t)"
  using erase_loop_ok [OF assms, of key 0] by (simp add: btree_erase_def)

lemma btree_erase_correct_witness:
  "\<exists>t'. btree_erase sample_btree_class 9 sample_tree = Some (2, t') \<and> btree_inv sample_btree_class t' \<and> length (btree_entries t') = 18"
proof -
  have "count_list (map fst sample_pairs) 9 = 2" "length (filter (\<lambda>x. fst x \<noteq> 9) sample_pairs) = 18" by (simp_all add: sample_pairs_def)
  then show ?thesis using btree_erase_correct [OF sample_btree_class_ok(1) sample_tree_ok(1), of 9]
    unfolding sample_tree_ok(2) by metis
qed

text \<open>C30: \<open>erase\<close> of an iterator that stands on a pair terminates and removes exactly this pair,
  also among pairs with the same key in other leaves, in a good tree again. Together with the
  iterator that \<open>insert\<close> returns this undoes an insertion.\<close>

theorem btree_erase_iter_correct:
  assumes "btree_class_ok C" "btree_inv C t" "btree_at t it p" "p < length (btree_entries t)"
  shows "\<exists>t'. btree_erase_iter C it t = Some t' \<and> btree_inv C t' \<and> Suc (btree_size t') = btree_size t
    \<and> btree_entries t' = take p (btree_entries t) @ drop (Suc p) (btree_entries t)"
proof -
  obtain t' where t': "btree_erase_iter C it t = Some t'" "btree_inv C t'" "btree_entries t' = without_nth p (btree_entries t)"
    using erase_iter_ok [OF assms] by blast
  then have "Suc (btree_size t') = btree_size t" using btree_inv_size [OF assms(2)] btree_inv_size [OF t'(2)] assms(4) by simp
  then show ?thesis using t' by (simp add: without_nth_def)
qed

lemma btree_erase_iter_correct_witness:
  "\<exists>it t'. btree_lower_bound sample_btree_class sample_tree 9 = Some it \<and> iter_deref sample_tree it = Some (9, 90)
    \<and> btree_erase_iter sample_btree_class it sample_tree = Some t' \<and> btree_inv sample_btree_class t' \<and> btree_size t' = 19"
proof -
  have p: "entries_while (\<lambda>x. x < 9) sample_tree = 8" by (simp add: entries_while_def sample_tree_ok(2) sample_pairs_def)
  obtain it where it: "btree_lower_bound sample_btree_class sample_tree 9 = Some it" "btree_at sample_tree it 8"
    using lower_bound_position [OF sample_btree_class_ok(1) sample_tree_ok(1), of 9] p by auto
  have len: "8 < length (btree_entries sample_tree)" "btree_entries sample_tree ! 8 = (9, 90)" by (simp_all add: sample_tree_ok(2) sample_pairs_def)
  have "btree_size sample_tree = 20" using btree_inv_size [OF sample_tree_ok(1)] by (simp add: sample_tree_ok(2) sample_pairs_def)
  then show ?thesis using it btree_at_deref [OF sample_tree_ok(1) it(2) len(1)] len(2)
      btree_erase_iter_correct [OF sample_btree_class_ok(1) sample_tree_ok(1) it(2) len(1)] by auto
qed

text \<open>C31: Inserting a pair that the tree accepts and erasing it again at the iterator that
  \<open>insert\<close> returned gives a good tree with the same sequence of pairs and the same size as before.\<close>

theorem btree_insert_erase_roundtrip:
  assumes "btree_class_ok C" "btree_inv C t" "btree_insert_start C k v t = Some ((it, True), t1)"
  shows "\<exists>t'. btree_erase_iter C it t1 = Some t' \<and> btree_inv C t' \<and> btree_entries t' = btree_entries t \<and> btree_size t' = btree_size t"
proof -
  let ?p = "entries_while (\<lambda>x. x < k) t"
  have i: "btree_inv C t1" "btree_entries t1 = ins_list k v (btree_entries t)" "btree_at t1 it ?p"
    using insert_start_ok [OF assms(1,2), of k v] assms(3) by auto
  have "?p \<le> length (btree_entries t)" by (simp add: entries_while_def length_takeWhile_le)
  then have p: "?p < length (btree_entries t1)" by (simp add: i(2))
  have "without_nth ?p (btree_entries t1) = btree_entries t"
    unfolding i(2) entries_while_def ins_list_def without_nth_def by simp
  then obtain t' where "btree_erase_iter C it t1 = Some t'" "btree_inv C t'" "btree_entries t' = btree_entries t"
    using erase_iter_ok [OF assms(1) i(1,3) p] by auto
  then show ?thesis using btree_inv_size assms(2) by metis
qed

lemma btree_insert_erase_roundtrip_witness:
  "\<exists>it t1 t'. btree_insert_start sample_btree_class 9 92 sample_tree = Some ((it, True), t1)
    \<and> btree_erase_iter sample_btree_class it t1 = Some t' \<and> btree_entries t' = sample_pairs"
proof -
  obtain it t1 where "btree_insert_start sample_btree_class 9 92 sample_tree = Some ((it, True), t1)"
    using insert_start_ok [OF sample_btree_class_ok(1) sample_tree_ok(1), of 9 92] sample_btree_class_ok(2) by auto
  then show ?thesis using btree_insert_erase_roundtrip [OF sample_btree_class_ok(1) sample_tree_ok(1)] sample_tree_ok(2) by metis
qed

end
