(* ===== verification/Workload.thy ===== *)
theory Workload
  imports Floats
begin

unbundle bit_operations_syntax

text \<open>
  The data the benchmark works on (\<open>src/util.h\<close>): pairs of a key and a value, the operations of
  a workload, the binary files they are stored in, and the random numbers of the generator. A file
  is the list of its bytes; the structs are packed and little-endian.
\<close>

subsection \<open>Pairs and operations\<close>

type_synonym key_value = "u64 \<times> u64"

record 'k operation =
  op_kind :: u8
  lo_key :: 'k
  hi_key :: 'k
  op_result :: u64

definition LOOKUP :: u8 where "LOOKUP = 0"
definition RANGE_QUERY :: u8 where "RANGE_QUERY = 1"
definition INSERT :: u8 where "INSERT = 2"

lemmas op_kinds = LOOKUP_def RANGE_QUERY_def INSERT_def

definition add_values :: "'k list \<Rightarrow> ('k \<times> u64) list" where
  "add_values keys = map (\<lambda>i. (keys ! i, of_nat i)) [0..<length keys]"

fun is_unique :: "'k list \<Rightarrow> bool" where
  "is_unique (x # y # zs) = (if y = x then False else is_unique (y # zs))"
| "is_unique zs = True"

lemma is_unique_distinct: "sorted (ks :: 'k::linorder list) \<Longrightarrow> is_unique ks = distinct ks"
  by (induction ks rule: is_unique.induct) (auto simp: order.antisym)

subsection \<open>Binary files\<close>

definition u32_bytes :: "32 word \<Rightarrow> u8 list" where
  "u32_bytes w = map (\<lambda>i. ucast (drop_bit (8 * i) w)) [0..<4]"

definition u64_bytes :: "u64 \<Rightarrow> u8 list" where
  "u64_bytes w = map (\<lambda>i. ucast (drop_bit (8 * i) w)) [0..<8]"

fun bytes_word :: "u8 list \<Rightarrow> 'w::len word" where
  "bytes_word [] = 0"
| "bytes_word (b # bs) = ucast b OR push_bit 8 (bytes_word bs)"

type_synonym 'a reader = "u8 list \<Rightarrow> ('a \<times> u8 list) option"

text \<open>\<open>in.read(..., n)\<close>; a file that ends too early is \<open>None\<close>.\<close>

definition read_bytes :: "nat \<Rightarrow> u8 list reader" where
  "read_bytes n bs = (if n \<le> length bs then Some (take n bs, drop n bs) else None)"

definition read_u8 :: "u8 reader" where
  "read_u8 bs = do { (b, bs) \<leftarrow> read_bytes 1 bs; Some (hd b, bs) }"

definition read_u32 :: "32 word reader" where
  "read_u32 bs = do { (b, bs) \<leftarrow> read_bytes 4 bs; Some (bytes_word b, bs) }"

definition read_u64 :: "u64 reader" where
  "read_u64 bs = do { (b, bs) \<leftarrow> read_bytes 8 bs; Some (bytes_word b, bs) }"

text \<open>The packed structs, and the layout of the items with string keys\<close>

definition kv_bytes :: "key_value \<Rightarrow> u8 list" where
  "kv_bytes kv = u64_bytes (fst kv) @ u64_bytes (snd kv)"

definition read_kv :: "key_value reader" where
  "read_kv bs = do { (k, bs) \<leftarrow> read_u64 bs; (v, bs) \<leftarrow> read_u64 bs; Some ((k, v), bs) }"

definition op_bytes :: "u64 operation \<Rightarrow> u8 list" where
  "op_bytes x = op_kind x # u64_bytes (lo_key x) @ u64_bytes (hi_key x) @ u64_bytes (op_result x)"

definition read_op :: "u64 operation reader" where
  "read_op bs = do { (o', bs) \<leftarrow> read_u8 bs; (lo, bs) \<leftarrow> read_u64 bs; (hi, bs) \<leftarrow> read_u64 bs; (r, bs) \<leftarrow> read_u64 bs;
     Some (\<lparr>op_kind = o', lo_key = lo, hi_key = hi, op_result = r\<rparr>, bs) }"

definition string_bytes :: "u8 list \<Rightarrow> u8 list" where
  "string_bytes s = (let len = of_nat (length s) :: 32 word in u32_bytes len @ take (unat len) s)"

definition read_string :: "u8 list reader" where
  "read_string bs = do { (len, bs) \<leftarrow> read_u32 bs; read_bytes (unat len) bs }"

definition string_kv_bytes :: "u8 list \<times> u64 \<Rightarrow> u8 list" where
  "string_kv_bytes kv = u64_bytes (snd kv) @ string_bytes (fst kv)"

definition read_string_kv :: "(u8 list \<times> u64) reader" where
  "read_string_kv bs = do { (v, bs) \<leftarrow> read_u64 bs; (k, bs) \<leftarrow> read_string bs; Some ((k, v), bs) }"

definition string_op_bytes :: "u8 list operation \<Rightarrow> u8 list" where
  "string_op_bytes x = op_kind x # u64_bytes (op_result x) @ string_bytes (lo_key x) @ string_bytes (hi_key x)"

definition read_string_op :: "u8 list operation reader" where
  "read_string_op bs = do { (o', bs) \<leftarrow> read_u8 bs; (r, bs) \<leftarrow> read_u64 bs; (lo, bs) \<leftarrow> read_string bs; (hi, bs) \<leftarrow> read_string bs;
     Some (\<lparr>op_kind = o', lo_key = lo, hi_key = hi, op_result = r\<rparr>, bs) }"

fun read_items :: "'a reader \<Rightarrow> nat \<Rightarrow> 'a list reader" where
  "read_items rd 0 bs = Some ([], bs)"
| "read_items rd (Suc n) bs = do { (x, bs) \<leftarrow> rd bs; (xs, bs) \<leftarrow> read_items rd n bs; Some (x # xs, bs) }"

definition out_data :: "('a \<Rightarrow> u8 list) \<Rightarrow> 'a list \<Rightarrow> u8 list" where
  "out_data wr data = u64_bytes (of_nat (length data)) @ concat (map wr data)"

definition in_data :: "'a reader \<Rightarrow> 'a list reader" where
  "in_data rd bs = do { (size, bs) \<leftarrow> read_u64 bs; read_items rd (unat size) bs }"

definition write_data :: "('a \<Rightarrow> u8 list) \<Rightarrow> 'a list \<Rightarrow> u8 list" where
  "write_data wr data = out_data wr data"

definition load_data :: "'a reader \<Rightarrow> u8 list \<Rightarrow> 'a list option" where
  "load_data rd file = do { (data, bs) \<leftarrow> in_data rd file; Some data }"

definition write_data_multithread :: "('a \<Rightarrow> u8 list) \<Rightarrow> 'a list list \<Rightarrow> u8 list" where
  "write_data_multithread wr data = u64_bytes (of_nat (length data)) @ concat (map (out_data wr) data)"

definition load_data_multithread :: "'a reader \<Rightarrow> u8 list \<Rightarrow> 'a list list option" where
  "load_data_multithread rd file = do { (len, bs) \<leftarrow> read_u64 file; (data, bs) \<leftarrow> read_items (in_data rd) (unat len) bs; Some data }"

subsection \<open>Reading back what was written\<close>

text \<open>A reader that gives back every item in \<open>ok\<close> and the bytes behind it\<close>

locale codec =
  fixes ok :: "'a \<Rightarrow> bool" and wr :: "'a \<Rightarrow> u8 list" and rd :: "'a reader"
  assumes read_back: "ok x \<Longrightarrow> rd (wr x @ bs) = Some (x, bs)"
begin

lemma read_items_back: "\<forall>x\<in>set xs. ok x \<Longrightarrow> read_items rd (length xs) (concat (map wr xs) @ bs) = Some (xs, bs)"
  by (induction xs) (simp_all add: read_back)

end

lemma length_bytes [simp]: "length (u32_bytes w) = 4" "length (u64_bytes v) = 8"
  by (simp_all add: u32_bytes_def u64_bytes_def)

lemma bytes_word_take:
  fixes w :: "'w::len word"
  shows "bytes_word (map (\<lambda>i. ucast (drop_bit (8 * i) w)) [0..<n]) = take_bit (8 * n) w"
proof (induction n arbitrary: w)
  case (Suc n)
  have upt: "[0..<Suc n] = 0 # map Suc [0..<n]" by (simp add: map_Suc_upt upt_conv_Cons del: upt_Suc)
  have low: "ucast (ucast w :: u8) OR push_bit 8 (take_bit (8 * n) (drop_bit 8 w)) = take_bit (8 * Suc n) w"
    by (rule bit_word_eqI) (auto simp: bit_simps)
  have step: "(\<lambda>i. ucast (drop_bit (8 * i) w) :: u8) \<circ> Suc = (\<lambda>i. ucast (drop_bit (8 * i) (drop_bit 8 w)))"
    by (simp add: fun_eq_iff drop_bit_drop_bit add.commute)
  show ?case unfolding upt list.map list.map_comp step bytes_word.simps Suc.IH [of "drop_bit 8 w"] using low by simp
qed simp

lemma bytes_word_u32: "bytes_word (u32_bytes w) = w" and bytes_word_u64: "bytes_word (u64_bytes v) = v"
  using bytes_word_take [of w 4] bytes_word_take [of v 8]
  by (simp_all add: u32_bytes_def u64_bytes_def take_bit_word_eq_self del: upt_Suc)

lemma read_bytes_append: "length xs = n \<Longrightarrow> read_bytes n (xs @ bs) = Some (xs, bs)"
  by (simp add: read_bytes_def)

lemma read_u8_back: "read_u8 (b # bs) = Some (b, bs)"
  by (simp add: read_u8_def read_bytes_def)

lemma read_u32_back: "read_u32 (u32_bytes w @ bs) = Some (w, bs)"
  by (simp add: read_u32_def read_bytes_append bytes_word_u32)

lemma read_u64_back: "read_u64 (u64_bytes w @ bs) = Some (w, bs)"
  by (simp add: read_u64_def read_bytes_append bytes_word_u64)

definition fits_u32 :: "u8 list \<Rightarrow> bool" where
  "fits_u32 s \<longleftrightarrow> length s < 2 ^ 32"

lemma read_string_back: "fits_u32 s \<Longrightarrow> read_string (string_bytes s @ bs) = Some (s, bs)"
  by (simp add: read_string_def string_bytes_def Let_def read_u32_back read_bytes_append fits_u32_def unat_of_nat take_bit_nat_eq_self)

lemmas read_backs = read_u8_back read_u64_back read_string_back

interpretation keys: codec "\<lambda>_. True" u64_bytes read_u64
  by unfold_locales (simp add: read_backs)

interpretation kvs: codec "\<lambda>_. True" kv_bytes read_kv
  by unfold_locales (simp add: kv_bytes_def read_kv_def read_backs)

interpretation ops: codec "\<lambda>_. True" op_bytes read_op
  by unfold_locales (simp add: op_bytes_def read_op_def read_backs)

interpretation strings: codec fits_u32 string_bytes read_string
  by unfold_locales (rule read_string_back)

interpretation string_kvs: codec "\<lambda>x. fits_u32 (fst x)" string_kv_bytes read_string_kv
  by unfold_locales (simp add: string_kv_bytes_def read_string_kv_def read_backs)

interpretation string_ops: codec "\<lambda>x. fits_u32 (lo_key x) \<and> fits_u32 (hi_key x)" string_op_bytes read_string_op
  by unfold_locales (simp add: string_op_bytes_def read_string_op_def read_backs)

definition fits_u64 :: "'a list \<Rightarrow> bool" where
  "fits_u64 xs \<longleftrightarrow> length xs < 2 ^ 64"

lemma fits_u64_unat: "fits_u64 xs \<Longrightarrow> unat (of_nat (length xs) :: u64) = length xs"
  by (simp add: fits_u64_def unat_of_nat take_bit_nat_eq_self)

context codec
begin

lemma in_data_back: "fits_u64 xs \<Longrightarrow> \<forall>x\<in>set xs. ok x \<Longrightarrow> in_data rd (out_data wr xs @ bs) = Some (xs, bs)"
  by (simp add: in_data_def out_data_def read_u64_back fits_u64_unat read_items_back)

lemma load_data_back: "fits_u64 xs \<Longrightarrow> \<forall>x\<in>set xs. ok x \<Longrightarrow> load_data rd (write_data wr xs) = Some xs"
  using in_data_back [of xs "[]"] by (simp add: load_data_def write_data_def)

lemma load_multithread_back:
  assumes "fits_u64 xss" "\<forall>xs\<in>set xss. fits_u64 xs \<and> (\<forall>x\<in>set xs. ok x)"
  shows "load_data_multithread rd (write_data_multithread wr xss) = Some xss"
proof -
  have "\<forall>xs\<in>set xss. fits_u64 xs \<and> (\<forall>x\<in>set xs. ok x) \<Longrightarrow> read_items (in_data rd) (length xss) (concat (map (out_data wr) xss) @ []) = Some (xss, [])" for xss
    by (induction xss) (simp_all add: in_data_back)
  then show ?thesis using assms
    by (simp add: load_data_multithread_def write_data_multithread_def read_u64_back fits_u64_unat)
qed

end

subsection \<open>Random numbers\<close>

text \<open>\<open>FastRandom\<close>: the state is the seed. Results of type \<open>float\<close> are rounded to 24 bits.\<close>

type_synonym fast_random = u64

abbreviation flt :: "rat \<Rightarrow> rat" where "flt \<equiv> fl 24"

definition RandUint32 :: "fast_random \<Rightarrow> 32 word \<times> fast_random" where
  "RandUint32 seed = (let s1 = seed XOR push_bit 13 seed; s2 = s1 XOR drop_bit 15 s1; s3 = s2 XOR push_bit 5 s2 in (ucast s3, s3))"

text \<open>The same on integers, for evaluation\<close>

lemma RandUint32_code [code]:
  "RandUint32 seed = (let u = uint seed; s1 = u XOR (u * 8192 mod 2 ^ 64); s2 = s1 XOR s1 div 32768; s3 = s2 XOR (s2 * 32 mod 2 ^ 64)
     in (word_of_int (s3 mod 2 ^ 32), word_of_int s3))"
proof -
  define s1 where "s1 = seed XOR push_bit 13 seed"
  define s2 where "s2 = s1 XOR drop_bit 15 s1"
  define s3 where "s3 = s2 XOR push_bit 5 s2"
  have push: "uint (push_bit n w) = uint w * 2 ^ n mod 2 ^ 64" for n and w :: u64
    unfolding unsigned_push_bit_eq by (simp add: push_bit_eq_mult take_bit_eq_mod)
  have drop: "uint (drop_bit n w) = uint w div 2 ^ n" for n and w :: u64
    unfolding unsigned_drop_bit_eq using uint_lt2p [of w] by (simp add: drop_bit_eq_div take_bit_eq_mod)
  have u: "uint s1 = uint seed XOR (uint seed * 8192 mod 2 ^ 64)" "uint s2 = uint s1 XOR uint s1 div 32768"
    "uint s3 = uint s2 XOR (uint s2 * 32 mod 2 ^ 64)"
    unfolding s3_def s2_def s1_def unsigned_xor_eq push drop by simp_all
  have low: "word_of_int (uint s3 mod 2 ^ 32) = (ucast s3 :: 32 word)"
    unfolding word_uint_eq_iff uint_word_of_int unsigned_ucast_eq take_bit_eq_mod by simp
  have "RandUint32 seed = (ucast s3, s3)" by (simp add: RandUint32_def Let_def s1_def s2_def s3_def)
  then show ?thesis unfolding Let_def u(1) [symmetric] u(2) [symmetric] u(3) [symmetric] low word_of_int_uint .
qed

text \<open>A division by zero (the full range of 32 bits) stops the program.\<close>

definition RandUint32_in :: "32 word \<Rightarrow> 32 word \<Rightarrow> fast_random \<Rightarrow> (32 word \<times> fast_random) option" where
  "RandUint32_in inclusive_min inclusive_max seed = (case RandUint32 seed of (r, seed') \<Rightarrow>
     if inclusive_max - inclusive_min + 1 = 0 then None
     else Some (inclusive_min + r mod (inclusive_max - inclusive_min + 1), seed'))"

definition ScaleFactor :: "fast_random \<Rightarrow> rat \<times> fast_random" where
  "ScaleFactor seed = (case RandUint32 seed of (r, seed') \<Rightarrow> (flt (flt (of_int (uint r)) / flt (of_int (2 ^ 32 - 1))), seed'))"

end
