(* ===== verification/Benchmark.thy ===== *)
theory Benchmark
  imports Binary_Search Workload
begin

text \<open>
  The driver of the benchmark (\<open>src/benchmark.h\<close>) for one thread and 64-bit keys: the checks of the
  constructor, the split of the workload into the phases that are measured, the loop over the
  operations with its verification, and the repeated runs. An index is its five operations;
  \<open>None\<close> is an index operation that stops the program, or a read outside an array.
\<close>

subsection \<open>The interface of an index\<close>

record 's index_ops =
  ix_new :: 's
  ix_applicable :: "bool \<Rightarrow> bool \<Rightarrow> bool \<Rightarrow> bool \<Rightarrow> bool"
  ix_Build :: "key_value list \<Rightarrow> 's \<Rightarrow> 's option"
  ix_EqualityLookup :: "u64 \<Rightarrow> 's \<Rightarrow> u64 option"
  ix_RangeQuery :: "u64 \<Rightarrow> u64 \<Rightarrow> 's \<Rightarrow> u64 option"
  ix_Insert :: "u64 \<Rightarrow> u64 \<Rightarrow> 's \<Rightarrow> 's option"

text \<open>The template parameters of the loop that have an effect on the results\<close>

record loop_mode =
  time_each :: bool
  verify :: bool

subsection \<open>The loop over the operations\<close>

definition checked :: "loop_mode \<Rightarrow> bool" where
  "checked m \<longleftrightarrow> time_each m \<and> verify m"

definition lookup_wrong :: "u64 list \<Rightarrow> u64 \<Rightarrow> u64 \<Rightarrow> u64 \<Rightarrow> bool" where
  "lookup_wrong keys lo expected idx \<longleftrightarrow> (expected = NOT_FOUND \<and> idx \<noteq> OVERFLOW)
     \<or> (expected = 0 \<and> (length keys \<le> unat idx \<or> keys ! unat idx \<noteq> lo))"

text \<open>The index after the operation, and \<open>run_failed\<close>\<close>

definition do_op :: "'s index_ops \<Rightarrow> loop_mode \<Rightarrow> u64 list \<Rightarrow> u64 operation \<Rightarrow> 's \<Rightarrow> ('s \<times> bool) option" where
  "do_op I m keys x s =
     (if op_kind x = LOOKUP then do { idx \<leftarrow> ix_EqualityLookup I (lo_key x) s; Some (s, checked m \<and> lookup_wrong keys (lo_key x) (op_result x) idx) }
      else if op_kind x = RANGE_QUERY then do { actual \<leftarrow> ix_RangeQuery I (lo_key x) (hi_key x) s; Some (s, checked m \<and> actual \<noteq> op_result x) }
      else if op_kind x = INSERT then do { s \<leftarrow> ix_Insert I (lo_key x) (op_result x) s; Some (s, False) }
      else Some (s, True))"

text \<open>The operations \<open>start \<le> idx < limit\<close>; the loop stops at the first failure.\<close>

fun do_ops_loop :: "'s index_ops \<Rightarrow> loop_mode \<Rightarrow> u64 list \<Rightarrow> u64 operation list \<Rightarrow> 's \<Rightarrow> ('s \<times> bool) option" where
  "do_ops_loop I m keys [] s = Some (s, False)"
| "do_ops_loop I m keys (x # xs) s = do { (s, failed) \<leftarrow> do_op I m keys x s; if failed then Some (s, True) else do_ops_loop I m keys xs s }"

definition DoOpsCoreLoop :: "'s index_ops \<Rightarrow> loop_mode \<Rightarrow> u64 list \<Rightarrow> u64 operation list \<Rightarrow> nat \<Rightarrow> nat \<Rightarrow> 's \<Rightarrow> ('s \<times> bool) option" where
  "DoOpsCoreLoop I m keys ops start limit s =
     (if length ops < limit then None else do_ops_loop I m keys (drop start (take limit ops)) s)"

subsection \<open>The phases\<close>

text \<open>What the constructor reads from the name of the workload file\<close>

record workload_name =
  is_mix :: bool
  num_blocks :: nat
  is_range_query :: bool
  insert_part :: rat
  has_bulkload :: bool

definition flag :: "workload_name \<Rightarrow> bool" where
  "flag w \<longleftrightarrow> is_mix w \<or> insert_part w = 0 \<or> insert_part w = 1"

text \<open>\<open>std::lower_bound\<close> for the first operation that is no insertion\<close>

definition leading_inserts :: "u64 operation list \<Rightarrow> nat option" where
  "leading_inserts ops = do { i \<leftarrow> lower_bound_loop (vec_at (\<lambda>x. if op_kind x \<noteq> INSERT then 1 else 0 :: int) ops) (<) 1 0 (length ops); Some (nat i) }"

text \<open>The end of phase \<open>j\<close> of a block-wise workload: the phases are insertions and other operations in turn.\<close>

definition phase_end :: "u64 operation list \<Rightarrow> nat \<Rightarrow> nat \<Rightarrow> nat" where
  "phase_end ops j cur = cur + length (takeWhile (\<lambda>x. (op_kind x = INSERT) = odd j) (drop cur ops))"

fun phase_ends :: "u64 operation list \<Rightarrow> nat \<Rightarrow> nat \<Rightarrow> nat \<Rightarrow> nat list" where
  "phase_ends ops j 0 cur = []"
| "phase_ends ops j (Suc n) cur = (let e = phase_end ops j cur in e # phase_ends ops (Suc j) n e)"

definition bound_points :: "workload_name \<Rightarrow> u64 operation list \<Rightarrow> nat list option" where
  "bound_points w ops =
     (if num_blocks w > 1 then Some (0 # phase_ends ops 1 (2 * num_blocks w) 0)
      else if flag w then Some [0, 0, length ops]
      else do { i \<leftarrow> leading_inserts ops; Some [0, i, length ops] })"

text \<open>The first and the last operation of every phase\<close>

definition phases :: "workload_name \<Rightarrow> nat list \<Rightarrow> (nat \<times> nat) list" where
  "phases w ps = (let f = (if flag w then 1 else 0) in
     map (\<lambda>i. if num_blocks w > 1 then (ps ! i, ps ! (i + 1)) else (ps ! i, ps ! (i + 1 + f))) [0..<(2 - f) * num_blocks w])"

text \<open>The latency statistics read the last measurement of a phase, which has to have one.\<close>

fun run_phases :: "'s index_ops \<Rightarrow> loop_mode \<Rightarrow> u64 list \<Rightarrow> u64 operation list \<Rightarrow> (nat \<times> nat) list \<Rightarrow> 's \<Rightarrow> ('s \<times> bool) option" where
  "run_phases I m keys ops [] s = Some (s, False)"
| "run_phases I m keys ops ((start, limit) # ps) s = do {
     (s, failed) \<leftarrow> DoOpsCoreLoop I m keys ops start limit s;
     if failed then Some (s, True)
     else if time_each m \<and> limit \<le> start then None
     else run_phases I m keys ops ps s }"

subsection \<open>The benchmark\<close>

record benchmark =
  b_keys :: "u64 list"
  b_ops :: "u64 operation list"
  b_index_data :: "key_value list"
  b_name :: workload_name
  b_points :: "nat list"

record options =
  o_repeats :: nat
  o_through :: bool
  o_build :: bool
  o_verify :: bool

text \<open>The files of the data set and of the workload, and the file of the pairs to load, which is read
  only for a workload with insertions or with a chosen number of pairs to load\<close>

definition Benchmark :: "workload_name \<Rightarrow> u8 list \<Rightarrow> u8 list \<Rightarrow> u8 list \<Rightarrow> benchmark option" where
  "Benchmark w data_file ops_file bulk_file = do {
     keys \<leftarrow> load_data read_u64 data_file;
     ops \<leftarrow> load_data read_op ops_file;
     if num_blocks w > 1 \<and> flag w then None
     else do {
       index_data \<leftarrow> (if insert_part w > 0 \<or> has_bulkload w then load_data read_kv bulk_file
         else if \<not> sorted keys then None else Some (add_values keys));
       ps \<leftarrow> bound_points w ops;
       Some \<lparr>b_keys = keys, b_ops = ops, b_index_data = index_data, b_name = w, b_points = ps\<rparr> } }"

definition mode_of :: "options \<Rightarrow> loop_mode" where
  "mode_of opt = \<lparr>time_each = \<not> o_through opt, verify = \<not> o_through opt \<and> o_verify opt\<rparr>"

definition DoOps :: "'s index_ops \<Rightarrow> options \<Rightarrow> benchmark \<Rightarrow> 's \<Rightarrow> ('s \<times> bool) option" where
  "DoOps I opt b s = (if o_build opt then Some (s, False)
     else run_phases I (mode_of opt) (b_keys b) (b_ops b) (phases (b_name b) (b_points b)) s)"

datatype outcome = Not_Applicable | Failed | Printed

fun repeat_runs :: "'s index_ops \<Rightarrow> options \<Rightarrow> benchmark \<Rightarrow> nat \<Rightarrow> outcome option" where
  "repeat_runs I opt b 0 = Some Printed"
| "repeat_runs I opt b (Suc n) = do {
     s \<leftarrow> ix_Build I (b_index_data b) (ix_new I);
     (s, failed) \<leftarrow> DoOps I opt b s;
     if failed then Some Failed else repeat_runs I opt b n }"

definition Run :: "'s index_ops \<Rightarrow> options \<Rightarrow> benchmark \<Rightarrow> outcome option" where
  "Run I opt b = (if \<not> ix_applicable I (is_unique (b_keys b)) (is_range_query (b_name b)) (insert_part (b_name b) > 0) False
     then Some Not_Applicable else repeat_runs I opt b (o_repeats opt))"

end
