(* ===== verification/Generate.thy ===== *)
theory Generate
  imports Workload "HOL-Library.Sublist" "HOL-Library.Multiset"
begin

text \<open>
  The workload generator (\<open>src/generate.cc\<close>) for 64-bit keys and one thread: the order of the
  operations, the choice of the inserted and the bulk-loaded pairs, and the keys and expected
  results of lookups and range queries, computed on the pairs present at that point. \<open>None\<close> stands
  for \<open>util::fail\<close> and for a read outside a container. The results of \<open>std::shuffle\<close> and
  \<open>std::sample\<close> depend on the library and are parameters.
\<close>

subsection \<open>The order of the operations\<close>

datatype InsertPat = Equality | Delta | Hotspot

text \<open>The shuffles of a run, by the number of the call\<close>

type_synonym shuffles = "nat \<Rightarrow> nat list \<Rightarrow> nat list"

definition generate_permute :: "shuffles \<Rightarrow> nat \<Rightarrow> nat \<Rightarrow> nat \<Rightarrow> bool \<Rightarrow> nat list" where
  "generate_permute shuffle call lo hi is_shuffle = (let permute = [lo..<hi] in if is_shuffle then shuffle call permute else permute)"

text \<open>\<open>for (j < n) permute[pos++] = cur++\<close>\<close>

definition place_block :: "nat \<Rightarrow> nat \<Rightarrow> nat \<Rightarrow> nat list \<Rightarrow> nat list" where
  "place_block pos cur n permute = fold (\<lambda>j p. p[pos + j := cur + j]) [0..<n] permute"

fun permute_blocks :: "nat \<Rightarrow> nat \<Rightarrow> nat \<Rightarrow> nat \<Rightarrow> nat \<Rightarrow> nat \<Rightarrow> nat \<Rightarrow> nat \<Rightarrow> nat \<Rightarrow> nat \<Rightarrow> nat list \<Rightarrow> nat list" where
  "permute_blocks op_cnt insert_cnt range_query_cnt lookup_cnt block_num 0 cur insert_cur lookup_cur range_query_cur permute = permute"
| "permute_blocks op_cnt insert_cnt range_query_cnt lookup_cnt block_num (Suc left) cur insert_cur lookup_cur range_query_cur permute =
     (let block_insert_cnt = (if left \<noteq> 0 then insert_cnt div block_num else insert_cnt - insert_cur);
        block_range_query_cnt = (if left \<noteq> 0 then range_query_cnt div block_num else op_cnt - range_query_cur);
        block_lookup_cnt = (if left \<noteq> 0 then lookup_cnt div block_num else insert_cnt + lookup_cnt - lookup_cur);
        p1 = place_block insert_cur cur block_insert_cnt permute;
        p2 = place_block lookup_cur (cur + block_insert_cnt) block_lookup_cnt p1;
        p3 = place_block range_query_cur (cur + block_insert_cnt + block_lookup_cnt) block_range_query_cnt p2
      in permute_blocks op_cnt insert_cnt range_query_cnt lookup_cnt block_num left
           (cur + block_insert_cnt + block_lookup_cnt + block_range_query_cnt)
           (insert_cur + block_insert_cnt) (lookup_cur + block_lookup_cnt) (range_query_cur + block_range_query_cnt) p3)"

definition generate_permute_blockwise :: "nat \<Rightarrow> nat \<Rightarrow> nat \<Rightarrow> nat \<Rightarrow> nat \<Rightarrow> nat list" where
  "generate_permute_blockwise op_cnt insert_cnt range_query_cnt lookup_cnt block_num =
     permute_blocks op_cnt insert_cnt range_query_cnt lookup_cnt block_num block_num 0 0 insert_cnt (insert_cnt + lookup_cnt) (replicate op_cnt 0)"

subsection \<open>Insertions and bulk loading\<close>

text \<open>\<open>size_t\<close> of a \<open>double\<close>\<close>

definition size_of_dbl :: "rat \<Rightarrow> nat" where
  "size_of_dbl x = nat \<lfloor>x\<rfloor>"

fun set_inserts :: "(nat \<times> key_value) list \<Rightarrow> u64 operation list \<Rightarrow> u64 operation list" where
  "set_inserts [] ops = ops"
| "set_inserts ((i, kv) # xs) ops = set_inserts xs (ops[i := (ops ! i)\<lparr>op_kind := INSERT, lo_key := fst kv, op_result := snd kv\<rparr>])"

text \<open>The part of the data the insertions are taken from: everything, the end, or a range behind
  the first three tenths\<close>

definition insert_range :: "InsertPat \<Rightarrow> nat \<Rightarrow> nat \<Rightarrow> rat \<Rightarrow> nat \<times> nat" where
  "insert_range pat n insert_cnt hotspot_ratio = (case pat of Equality \<Rightarrow> (0, n) | Delta \<Rightarrow> (n - insert_cnt, n)
     | Hotspot \<Rightarrow> let lo = size_of_dbl (dbl (dbl (3 / 10) * dbl (of_nat n)))
         in (lo, size_of_dbl (dbl (dbl (of_nat lo) + dbl (hotspot_ratio * dbl (of_nat n))))))"

definition generate_inserts :: "shuffles \<Rightarrow> u64 operation list \<Rightarrow> nat list \<Rightarrow> key_value list \<Rightarrow> nat \<Rightarrow> InsertPat \<Rightarrow> rat
    \<Rightarrow> (u64 operation list \<times> key_value list) option" where
  "generate_inserts shuffle ops op_id data_vec insert_cnt pat hotspot_ratio =
     (let n = length data_vec; (lo, hi) = insert_range pat n insert_cnt hotspot_ratio
      in if (pat = Delta \<and> n < insert_cnt) \<or> n < hi \<or> hi < lo then None
         else if pat = Delta then
           Some (set_inserts (zip (take insert_cnt op_id) (drop lo data_vec)) ops, take lo data_vec @ drop hi data_vec)
         else
           let kvs = map (\<lambda>i. data_vec ! i) (generate_permute shuffle 1 lo hi True) in
             Some (set_inserts (zip (take insert_cnt op_id) (take insert_cnt kvs)) ops,
               take lo data_vec @ sort_key fst (drop insert_cnt kvs) @ drop hi data_vec))"

subsection \<open>Lookups and range queries\<close>

definition max_num_retries :: nat where "max_num_retries = 100"
definition max_num :: nat where "max_num = 100"
definition error :: rat where "error = dbl (5 / 100)"
definition min_num :: nat where "min_num = size_of_dbl (dbl (dbl (1 - error) * dbl (of_nat max_num)))"

text \<open>\<open>std::multimap\<close> in the order of its keys: \<open>emplace\<close>, and the insertion of ascending keys with
  the last position as the hint\<close>

definition map_emplace :: "key_value \<Rightarrow> key_value list \<Rightarrow> key_value list" where
  "map_emplace kv m = takeWhile (\<lambda>e. fst e \<le> fst kv) m @ kv # dropWhile (\<lambda>e. fst e \<le> fst kv) m"

definition map_insert_hint :: "key_value \<Rightarrow> key_value list \<Rightarrow> key_value list" where
  "map_insert_hint kv m = takeWhile (\<lambda>e. fst e < fst kv) m @ kv # dropWhile (\<lambda>e. fst e < fst kv) m"

definition lower_bound_in :: "u64 \<Rightarrow> key_value list \<Rightarrow> nat" where
  "lower_bound_in k m = length (takeWhile (\<lambda>e. fst e < k) m)"

text \<open>\<open>(ranny.ScaleFactor() * (max_key - min_key)) + min_key\<close> in \<open>float\<close>, converted to a key\<close>

definition draw_key :: "u64 \<Rightarrow> u64 \<Rightarrow> fast_random \<Rightarrow> (u64 \<times> fast_random) option" where
  "draw_key min_key max_key ranny = (case ScaleFactor ranny of (f, ranny) \<Rightarrow>
     let x = flt (flt (f * flt (of_int (uint (max_key - min_key)))) + flt (of_int (uint min_key)))
     in if x < 2 ^ 64 then Some (of_int \<lfloor>x\<rfloor>, ranny) else None)"

partial_function (option) draw_negative :: "key_value list \<Rightarrow> u64 \<Rightarrow> u64 \<Rightarrow> fast_random \<Rightarrow> (u64 \<times> fast_random) option" where
  [code]: "draw_negative pairs min_key max_key ranny = do { (key, ranny) \<leftarrow> draw_key min_key max_key ranny;
     let i = lower_bound_in key pairs in
     if i < length pairs \<and> fst (pairs ! i) = key then draw_negative pairs min_key max_key ranny else Some (key, ranny) }"

record gen_params =
  is_insert :: bool
  negative_ratio :: rat
  capped_data :: bool

record gen_state =
  g_ranny :: fast_random
  data_map :: "key_value list"
  data_vec :: "key_value list"

definition searched :: "gen_params \<Rightarrow> gen_state \<Rightarrow> key_value list" where
  "searched P s = (if is_insert P then data_map s else data_vec s)"

definition generate_lookup :: "gen_params \<Rightarrow> u64 operation \<Rightarrow> gen_state \<Rightarrow> (u64 operation \<times> gen_state) option" where
  "generate_lookup P x s = (let pairs = searched P s in
     if pairs = [] then None
     else let min_key = fst (hd pairs); max_key0 = fst (last pairs);
            max_key = (if capped_data P \<and> max_key0 > 77308821508 then 77308821508 else max_key0);
            (f, ranny1) = ScaleFactor (g_ranny s)
       in if negative_ratio P > 0 \<and> f < negative_ratio P then do {
            (key, ranny) \<leftarrow> draw_negative pairs min_key max_key ranny1;
            Some (x\<lparr>lo_key := key, op_result := NOT_FOUND\<rparr>, s\<lparr>g_ranny := ranny\<rparr>) }
          else do {
            (offset, ranny) \<leftarrow> RandUint32_in 0 (of_nat (length (data_vec s)) - 1) (if negative_ratio P > 0 then ranny1 else g_ranny s);
            if unat offset < length (data_vec s) then
              Some (x\<lparr>lo_key := fst (data_vec s ! unat offset), op_result := 0\<rparr>, s\<lparr>g_ranny := ranny\<rparr>)
            else None })"

function draw_range :: "key_value list \<Rightarrow> nat \<Rightarrow> fast_random \<Rightarrow> ((u64 \<times> u64 \<times> u64) \<times> fast_random) option" where
  "draw_range pairs num_retries ranny = (if length pairs < max_num + 1 then None
     else do { (lo, ranny1) \<leftarrow> draw_key (fst (hd pairs)) (fst (pairs ! (length pairs - max_num - 1))) ranny;
       let p = lower_bound_in lo pairs; (f, ranny2) = ScaleFactor ranny1;
         q = p + size_of_dbl (dbl (dbl (1 - dbl (f * error)) * dbl (of_nat max_num)))
       in if length pairs \<le> q then None
          else let hi = fst (pairs ! q); qualifying = takeWhile (\<lambda>e. fst e \<le> hi) (drop p pairs)
            in if max_num < length qualifying \<or> length qualifying < min_num then
                 if max_num_retries < Suc num_retries then None else draw_range pairs (Suc num_retries) ranny2
               else Some ((lo, hi, sum_list (map snd qualifying)), ranny2) })"
  by pat_completeness auto
termination
  by (relation "measure (\<lambda>(pairs, n, ranny). max_num_retries - n)") auto

definition generate_op :: "gen_params \<Rightarrow> u64 operation \<Rightarrow> gen_state \<Rightarrow> (u64 operation \<times> gen_state) option" where
  "generate_op P x s =
     (if op_kind x = INSERT then
        Some (x, s\<lparr>data_map := map_emplace (lo_key x, op_result x) (data_map s), data_vec := data_vec s @ [(lo_key x, op_result x)]\<rparr>)
      else if op_kind x = LOOKUP then generate_lookup P x s
      else if op_kind x = RANGE_QUERY then do {
        ((lo, hi, r), ranny) \<leftarrow> draw_range (searched P s) 0 (g_ranny s);
        Some (x\<lparr>lo_key := lo, hi_key := hi, op_result := r\<rparr>, s\<lparr>g_ranny := ranny\<rparr>) }
      else None)"

fun generate_equality_lookups :: "gen_params \<Rightarrow> u64 operation list \<Rightarrow> gen_state \<Rightarrow> (u64 operation list \<times> gen_state) option" where
  "generate_equality_lookups P [] s = Some ([], s)"
| "generate_equality_lookups P (x # xs) s = do { (y, s) \<leftarrow> generate_op P x s; (ys, s) \<leftarrow> generate_equality_lookups P xs s; Some (y # ys, s) }"

subsection \<open>The generator\<close>

record gen_args =
  op_cnt :: nat
  range_query_ratio :: rat
  negative_lookup_ratio :: rat
  insert_ratio :: rat
  insert_pattern :: InsertPat
  hotspot_ratio :: rat
  mix :: bool
  block_num :: nat
  bulkload_cnt :: "nat option"
  fb_data :: bool

definition insert_count :: "gen_args \<Rightarrow> nat" where
  "insert_count a = size_of_dbl (dbl (dbl (of_nat (op_cnt a)) * insert_ratio a))"

definition range_query_count :: "gen_args \<Rightarrow> nat" where
  "range_query_count a = (if dbl (insert_ratio a + range_query_ratio a) \<ge> 1 then op_cnt a - insert_count a
     else size_of_dbl (dbl (dbl (of_nat (op_cnt a)) * range_query_ratio a)))"

definition lookup_count :: "gen_args \<Rightarrow> nat" where
  "lookup_count a = op_cnt a - insert_count a - range_query_count a"

definition empty_op :: "u64 operation" where
  "empty_op = \<lparr>op_kind = 0, lo_key = 0, hi_key = 0, op_result = 0\<rparr>"

definition set_kinds :: "u8 \<Rightarrow> nat list \<Rightarrow> u64 operation list \<Rightarrow> u64 operation list" where
  "set_kinds kind is ops = fold (\<lambda>i xs. xs[i := (xs ! i)\<lparr>op_kind := kind\<rparr>]) is ops"

text \<open>\<open>op_id\<close>, the positions of the insertions, of the lookups and of the range queries\<close>

definition op_order :: "shuffles \<Rightarrow> gen_args \<Rightarrow> nat list" where
  "op_order shuffle a = (let ic = insert_count a;
       op_id = (if block_num a = 1 then generate_permute shuffle 0 0 (op_cnt a) (mix a)
         else generate_permute_blockwise (op_cnt a) ic (range_query_count a) (lookup_count a) (block_num a))
     in if insert_ratio a > 0 \<and> mix a then sort (take ic op_id) @ drop ic op_id else op_id)"

text \<open>\<open>sample n xs\<close> stands for \<open>std::sample\<close>, which is not called without a number of pairs.\<close>

type_synonym samples = "nat \<Rightarrow> key_value list \<Rightarrow> key_value list"

definition choose_bulk :: "samples \<Rightarrow> gen_args \<Rightarrow> key_value list \<Rightarrow> key_value list" where
  "choose_bulk sample a xs = (case bulkload_cnt a of Some n \<Rightarrow> sample n xs | None \<Rightarrow> xs)"

text \<open>The operations with their kinds, and the pairs to load\<close>

definition prepare_ops :: "shuffles \<Rightarrow> samples \<Rightarrow> gen_args \<Rightarrow> key_value list \<Rightarrow> (u64 operation list \<times> key_value list) option" where
  "prepare_ops shuffle sample a org_vec = (let tot_ops = replicate (op_cnt a) empty_op; op_id = op_order shuffle a;
       ic = insert_count a; lc = lookup_count a
     in do {
       (ops1, bulk) \<leftarrow> (if insert_ratio a > 0 then generate_inserts shuffle tot_ops op_id org_vec ic (insert_pattern a) (hotspot_ratio a)
         else Some (tot_ops, org_vec));
       Some (set_kinds RANGE_QUERY (drop (ic + lc) op_id) (set_kinds LOOKUP (take lc (drop ic op_id)) ops1), choose_bulk sample a bulk) })"

definition gen_config :: "gen_args \<Rightarrow> gen_params" where
  "gen_config a = \<lparr>is_insert = insert_ratio a > 0, negative_ratio = negative_lookup_ratio a, capped_data = fb_data a\<rparr>"

definition first_state :: "gen_args \<Rightarrow> key_value list \<Rightarrow> gen_state" where
  "first_state a bulk_loads = \<lparr>g_ranny = 42, data_map = (if insert_ratio a > 0 then fold map_insert_hint bulk_loads [] else []), data_vec = bulk_loads\<rparr>"

text \<open>
  Reserving a negative number of pairs for the bulk load throws; more insertions and range queries
  than operations would make the number of lookups wrap.\<close>

definition generate :: "shuffles \<Rightarrow> samples \<Rightarrow> gen_args \<Rightarrow> u64 list \<Rightarrow> (key_value list \<times> u64 operation list) option" where
  "generate shuffle sample a keys = (let ic = insert_count a in
     if \<not> sorted keys then None
     else if length keys < ic then None
     else if bulkload_cnt a \<noteq> None \<and> length keys < ic + the (bulkload_cnt a) then None
     else if op_cnt a < ic + range_query_count a then None
     else do {
       (tot_ops, bulk_loads) \<leftarrow> prepare_ops shuffle sample a (add_values keys);
       (ops, s) \<leftarrow> generate_equality_lookups (gen_config a) tot_ops (first_state a bulk_loads);
       Some (bulk_loads, ops) })"

end
