(* ===== verification/Generate_Ok.thy ===== *)
theory Generate_Ok
  imports Generate
begin

text \<open>
  A workload the generator returns is right: the pairs to load are sorted pairs of the data set,
  and every operation carries the answer that the pairs present at its turn give.
\<close>

subsection \<open>What a right workload is\<close>

text \<open>The value of a pair is the position of its key in the data set.\<close>

definition valid_pair :: "u64 list \<Rightarrow> key_value \<Rightarrow> bool" where
  "valid_pair keys kv \<longleftrightarrow> unat (snd kv) < length keys \<and> keys ! unat (snd kv) = fst kv"

definition op_right :: "u64 list \<Rightarrow> key_value list \<Rightarrow> u64 operation \<Rightarrow> bool" where
  "op_right keys M x \<longleftrightarrow>
     (if op_kind x = INSERT then valid_pair keys (lo_key x, op_result x)
      else if op_kind x = LOOKUP then op_result x = (if lo_key x \<in> fst ` set M then 0 else NOT_FOUND)
      else op_kind x = RANGE_QUERY \<and> op_result x = range_values (lo_key x) (hi_key x) M)"

definition pairs_after :: "key_value list \<Rightarrow> u64 operation \<Rightarrow> key_value list" where
  "pairs_after M x = (if op_kind x = INSERT then (lo_key x, op_result x) # M else M)"

fun workload_right :: "u64 list \<Rightarrow> key_value list \<Rightarrow> u64 operation list \<Rightarrow> bool" where
  "workload_right keys M [] = True"
| "workload_right keys M (x # xs) \<longleftrightarrow> op_right keys M x \<and> workload_right keys (pairs_after M x) xs"

lemma range_values_mset:
  assumes "mset M = mset M'"
  shows "range_values lo hi M = range_values lo hi M'"
proof -
  have "range_values lo hi M = sum_mset (image_mset snd (filter_mset (\<lambda>x. lo \<le> fst x \<and> fst x \<le> hi) (mset M)))" for M
    unfolding range_values_def by (simp flip: sum_mset_sum_list)
  then show ?thesis using assms by simp
qed

lemma op_right_mset:
  assumes "mset M = mset M'"
  shows "op_right keys M x = op_right keys M' x"
  using range_values_mset [OF assms] mset_eq_setD [OF assms] by (simp add: op_right_def)

lemma workload_right_mset: "mset M = mset M' \<Longrightarrow> workload_right keys M xs = workload_right keys M' xs"
proof (induction xs arbitrary: M M')
  case (Cons x xs)
  have "mset (pairs_after M x) = mset (pairs_after M' x)" using Cons.prems by (simp add: pairs_after_def)
  from Cons.IH [OF this] op_right_mset [OF Cons.prems] show ?case by simp
qed simp

subsection \<open>Lookups and range queries\<close>

lemma draw_negative_absent:
  assumes s: "sorted (map fst pairs)" and r: "draw_negative pairs min_key max_key ranny = Some (key, ranny')"
  shows "key \<notin> fst ` set pairs"
proof (rule draw_negative.raw_induct [OF _ r, of "\<lambda>pairs _ _ _ y. sorted (map fst pairs) \<longrightarrow> fst y \<notin> fst ` set pairs", simplified, rule_format, OF _ s])
  fix f pairs min_key max_key ranny y
  assume IH: "\<And>pairs a b c y. f pairs a b c = Some y \<Longrightarrow> sorted (map fst pairs) \<Longrightarrow> fst y \<notin> fst ` set pairs"
    and body: "do { (key, ranny) \<leftarrow> draw_key min_key max_key ranny; let i = lower_bound_in key pairs in
       if i < length pairs \<and> fst (pairs ! i) = key then f pairs min_key max_key ranny else Some (key, ranny) } = Some y"
    and s: "sorted (map fst pairs)"
  from body obtain key r1 where d: "draw_key min_key max_key ranny = Some (key, r1)" by (auto split: Option.bind_splits)
  show "fst y \<notin> fst ` set pairs"
  proof (cases "key \<in> fst ` set pairs")
    case True
    then have "f pairs min_key max_key r1 = Some y" using body d sorted_member [OF s, of key] by (simp add: lower_bound_in_def)
    then show ?thesis using IH s by blast
  next
    case False
    then have "fst y = key" using body d sorted_member [OF s, of key] by (auto simp: lower_bound_in_def)
    then show ?thesis using False by simp
  qed
qed

lemma draw_range_right:
  "sorted (map fst pairs) \<Longrightarrow> draw_range pairs n ranny = Some ((lo, hi, r), ranny') \<Longrightarrow> r = range_values lo hi pairs"
proof (induction pairs n ranny rule: draw_range.induct)
  case (1 pairs n ranny)
  from 1(3) obtain l r1 where l: "draw_key (fst (hd pairs)) (fst (pairs ! (length pairs - max_num - 1))) ranny = Some (l, r1)" "\<not> length pairs < max_num + 1"
    by (subst (asm) draw_range.simps) (auto split: if_splits Option.bind_splits)
  obtain f r2 where f: "ScaleFactor r1 = (f, r2)" by fastforce
  define p q where "p = lower_bound_in l pairs" and "q = p + size_of_dbl (dbl (dbl (1 - dbl (f * error)) * dbl (of_nat max_num)))"
  define hi' where "hi' = fst (pairs ! q)"
  let ?ys = "takeWhile (\<lambda>e. fst e \<le> hi') (drop p pairs)"
  have step: "draw_range pairs n ranny = (if length pairs \<le> q then None
     else if max_num < length ?ys \<or> length ?ys < min_num then if max_num_retries < Suc n then None else draw_range pairs (Suc n) r2
     else Some ((l, hi', sum_list (map snd ?ys)), r2))"
    by (subst draw_range.simps) (use l f in \<open>simp add: p_def q_def hi'_def Let_def\<close>)
  show ?case
  proof (cases "max_num < length ?ys \<or> length ?ys < min_num")
    case True
    then have q: "\<not> length pairs \<le> q" "\<not> max_num_retries < Suc n" "draw_range pairs (Suc n) r2 = Some ((lo, hi, r), ranny')"
      using 1(3) step by (auto split: if_splits)
    show ?thesis
      by (rule 1(1) [OF l(2,1) refl p_def refl f [symmetric] q_def q(1) hi'_def refl True q(2) 1(2) q(3)])
  next
    case False
    then have "lo = l" "hi = hi'" "r = sum_list (map snd ?ys)" using 1(3) step by (auto split: if_splits)
    moreover have "drop p pairs = dropWhile (\<lambda>e. fst e < l) pairs" by (simp add: p_def lower_bound_in_def dropWhile_eq_drop)
    ultimately show ?thesis using range_values_sorted [OF 1(2)] by simp
  qed
qed

subsection \<open>One operation after the other\<close>

definition state_right :: "gen_params \<Rightarrow> key_value list \<Rightarrow> gen_state \<Rightarrow> bool" where
  "state_right P M s \<longleftrightarrow> mset (data_vec s) = mset M
     \<and> (if is_insert P then mset (data_map s) = mset M \<and> sorted (map fst (data_map s)) else sorted (map fst (data_vec s)))"

lemma state_right_searched: "state_right P M s \<Longrightarrow> sorted (map fst (searched P s)) \<and> mset (searched P s) = mset M"
  by (simp add: state_right_def searched_def)

lemma map_emplace_ok: "mset (map_emplace kv m) = add_mset kv (mset m)" "sorted (map fst m) \<Longrightarrow> sorted (map fst (map_emplace kv m))"
proof -
  have "mset m = mset (takeWhile (\<lambda>e. fst e \<le> fst kv) m) + mset (dropWhile (\<lambda>e. fst e \<le> fst kv) m)"
    by (metis mset_append takeWhile_dropWhile_id)
  then show "mset (map_emplace kv m) = add_mset kv (mset m)" by (simp add: map_emplace_def)
  assume s: "sorted (map fst m)"
  have "sorted (map fst (takeWhile (\<lambda>e. fst e \<le> fst kv) m))" "\<forall>e\<in>set (takeWhile (\<lambda>e. fst e \<le> fst kv) m). fst e \<le> fst kv"
    using s sorted_takeWhile [of "map fst m" "\<lambda>k. k \<le> fst kv"] by (simp_all add: takeWhile_map o_def) (auto dest: set_takeWhileD)
  moreover have "dropWhile (\<lambda>e. fst e \<le> fst kv) m = filter (\<lambda>e. \<not> fst e \<le> fst kv) m"
    using s by (induction m) (auto intro!: filter_True [symmetric])
  ultimately show "sorted (map fst (map_emplace kv m))" using s
    by (auto simp: map_emplace_def sorted_append sorted_filter intro: order_trans less_imp_le)
qed

lemma generate_lookup_right:
  assumes s: "state_right P M s" and x: "op_kind x = LOOKUP" and g: "generate_lookup P x s = Some (y, s')"
  shows "op_right keys M y \<and> op_kind y = op_kind x \<and> state_right P (pairs_after M y) s'"
proof -
  let ?pairs = "searched P s"
  note sp = state_right_searched [OF s]
  have sets: "set ?pairs = set M" "set (data_vec s) = set M" using sp s mset_eq_setD by (auto simp: state_right_def)
  have kinds: "LOOKUP \<noteq> INSERT" by (simp add: op_kinds)
  have st: "state_right P (pairs_after M y') (s\<lparr>g_ranny := r\<rparr>)" if "op_kind y' = LOOKUP" for y' r
    using s that kinds by (simp add: state_right_def pairs_after_def)
  define max_key where "max_key = (if capped_data P \<and> fst (last ?pairs) > 77308821508 then 77308821508 else fst (last ?pairs))"
  obtain f ranny1 where f: "ScaleFactor (g_ranny s) = (f, ranny1)" by fastforce
  have ne: "?pairs \<noteq> []" using g by (auto simp: generate_lookup_def)
  show ?thesis
  proof (cases "negative_ratio P > 0 \<and> f < negative_ratio P")
    case True
    then obtain key r where k: "draw_negative ?pairs (fst (hd ?pairs)) max_key ranny1 = Some (key, r)"
      "y = x\<lparr>lo_key := key, op_result := NOT_FOUND\<rparr>" "s' = s\<lparr>g_ranny := r\<rparr>"
      using g ne f by (auto simp: generate_lookup_def Let_def max_key_def split: Option.bind_splits)
    have "key \<notin> fst ` set M" using draw_negative_absent [OF conjunct1 [OF sp] k(1)] sets(1) by simp
    then show ?thesis using k(2,3) x kinds st [of y r] by (simp add: op_right_def)
  next
    case False
    define seed where "seed = (if negative_ratio P > 0 then ranny1 else g_ranny s)"
    have e: "do { (offset, ranny) \<leftarrow> RandUint32_in 0 (of_nat (length (data_vec s)) - 1) seed;
            if unat offset < length (data_vec s) then
              Some (x\<lparr>lo_key := fst (data_vec s ! unat offset), op_result := 0\<rparr>, s\<lparr>g_ranny := ranny\<rparr>)
            else None } = Some (y, s')"
      using g ne f False by (simp add: generate_lookup_def Let_def seed_def)
    then obtain p where p: "RandUint32_in 0 (of_nat (length (data_vec s)) - 1) seed = Some p" by (cases "RandUint32_in 0 (of_nat (length (data_vec s)) - 1) seed") simp_all
    define offset r where "offset = fst p" and "r = snd p"
    have k: "unat offset < length (data_vec s)"
      "y = x\<lparr>lo_key := fst (data_vec s ! unat offset), op_result := 0\<rparr>" "s' = s\<lparr>g_ranny := r\<rparr>"
      using e unfolding p by (simp_all add: offset_def r_def case_prod_beta split: if_splits)
    have "fst (data_vec s ! unat offset) \<in> fst ` set M" using nth_mem [OF k(1)] sets(2) by auto
    then show ?thesis using k(2,3) x kinds st [of y r] by (simp add: op_right_def)
  qed
qed

lemma generate_op_right:
  assumes s: "state_right P M s" and x: "op_kind x = INSERT \<Longrightarrow> is_insert P \<and> valid_pair keys (lo_key x, op_result x)"
    and g: "generate_op P x s = Some (y, s')"
  shows "op_right keys M y \<and> op_kind y = op_kind x \<and> state_right P (pairs_after M y) s'"
proof -
  have kinds: "RANGE_QUERY \<noteq> INSERT" "RANGE_QUERY \<noteq> LOOKUP" by (simp_all add: op_kinds)
  consider (ins) "op_kind x = INSERT" | (look) "op_kind x = LOOKUP" "op_kind x \<noteq> INSERT" | (rng) "op_kind x = RANGE_QUERY"
    using g by (auto simp: generate_op_def split: if_splits)
  then show ?thesis
  proof cases
    case ins
    then show ?thesis using g s x map_emplace_ok
      by (auto simp: generate_op_def op_right_def pairs_after_def state_right_def)
  next
    case look
    then show ?thesis using generate_lookup_right [OF s look(1), of y s' keys] g by (simp add: generate_op_def)
  next
    case rng
    then obtain lo hi r ranny where d: "draw_range (searched P s) 0 (g_ranny s) = Some ((lo, hi, r), ranny)"
      "y = x\<lparr>lo_key := lo, hi_key := hi, op_result := r\<rparr>" "s' = s\<lparr>g_ranny := ranny\<rparr>"
      using g kinds by (auto simp: generate_op_def split: Option.bind_splits)
    have "r = range_values lo hi M"
      using draw_range_right [OF _ d(1)] state_right_searched [OF s] range_values_mset by metis
    then show ?thesis using d rng kinds s by (simp add: op_right_def pairs_after_def state_right_def)
  qed
qed

lemma generate_lookups_right:
  "state_right P M s \<Longrightarrow> \<forall>x\<in>set xs. op_kind x = INSERT \<longrightarrow> is_insert P \<and> valid_pair keys (lo_key x, op_result x)
   \<Longrightarrow> generate_equality_lookups P xs s = Some (ys, s') \<Longrightarrow> workload_right keys M ys \<and> map op_kind ys = map op_kind xs"
proof (induction xs arbitrary: M s ys)
  case (Cons x xs)
  obtain y s1 zs where g: "generate_op P x s = Some (y, s1)" "generate_equality_lookups P xs s1 = Some (zs, s')" "ys = y # zs"
    using Cons.prems(3) by (auto split: Option.bind_splits)
  have x: "op_kind x = INSERT \<Longrightarrow> is_insert P \<and> valid_pair keys (lo_key x, op_result x)" using Cons.prems(2) by simp
  note 1 = generate_op_right [OF Cons.prems(1) x g(1)]
  have st: "state_right P (pairs_after M y) s1" using 1 by blast
  have xs: "\<forall>x\<in>set xs. op_kind x = INSERT \<longrightarrow> is_insert P \<and> valid_pair keys (lo_key x, op_result x)" using Cons.prems(2) by simp
  from Cons.IH [OF st xs g(2)] 1 g(3) show ?case by simp
qed simp

subsection \<open>The operations before their keys are drawn\<close>

definition inserts_valid :: "u64 list \<Rightarrow> u64 operation list \<Rightarrow> bool" where
  "inserts_valid keys ops \<longleftrightarrow> (\<forall>x\<in>set ops. op_kind x = INSERT \<longrightarrow> valid_pair keys (lo_key x, op_result x))"

lemma inserts_valid_update: "inserts_valid keys ops \<Longrightarrow> op_kind y = INSERT \<Longrightarrow> valid_pair keys (lo_key y, op_result y) \<Longrightarrow> inserts_valid keys (ops[i := y])"
  and inserts_valid_kind: "inserts_valid keys ops \<Longrightarrow> op_kind y \<noteq> INSERT \<Longrightarrow> inserts_valid keys (ops[i := y])"
  using set_update_subset_insert [of ops i y] by (auto simp: inserts_valid_def)

lemma set_inserts_ok: "inserts_valid keys ops \<Longrightarrow> \<forall>e\<in>set xs. valid_pair keys (snd e) \<Longrightarrow>
  inserts_valid keys (set_inserts xs ops) \<and> length (set_inserts xs ops) = length ops"
  by (induction xs ops rule: set_inserts.induct) (simp_all add: inserts_valid_update)

lemma set_kinds_ok: "inserts_valid keys ops \<Longrightarrow> kind \<noteq> INSERT \<Longrightarrow>
  inserts_valid keys (set_kinds kind js ops) \<and> length (set_kinds kind js ops) = length ops"
  unfolding set_kinds_def by (induction js arbitrary: ops) (simp_all add: inserts_valid_kind)

lemma set_kinds_no_insert: "kind \<noteq> INSERT \<Longrightarrow> \<forall>x\<in>set ops. op_kind x \<noteq> INSERT \<Longrightarrow> \<forall>x\<in>set (set_kinds kind js ops). op_kind x \<noteq> INSERT"
proof (induction js arbitrary: ops)
  case (Cons j js)
  have "\<forall>x\<in>set (ops[j := (ops ! j)\<lparr>op_kind := kind\<rparr>]). op_kind x \<noteq> INSERT"
    using Cons.prems set_update_subset_insert [of ops j "(ops ! j)\<lparr>op_kind := kind\<rparr>"] by auto
  then show ?case using Cons by (simp add: set_kinds_def)
qed (simp add: set_kinds_def)

lemma empty_ops_valid: "inserts_valid keys (replicate n empty_op)" "\<forall>x\<in>set (replicate n empty_op). op_kind x \<noteq> INSERT"
  by (auto simp: inserts_valid_def empty_op_def INSERT_def)

lemma add_values_valid:
  assumes "fits_u64 keys" "kv \<in> set (add_values keys)"
  shows "valid_pair keys kv"
  using assms by (auto simp: add_values_def valid_pair_def fits_u64_def unat_of_nat take_bit_nat_eq_self)

lemma add_values_fst: "map fst (add_values keys) = keys"
  by (rule nth_equalityI) (simp_all add: add_values_def)

lemma set_range_pairs:
  assumes "hi \<le> length dv" "mset is = mset [lo..<hi]"
  shows "set (map ((!) dv) is) = set (drop lo (take hi dv))"
proof -
  have "set is = {lo..<hi}" using mset_eq_setD [OF assms(2)] by simp
  moreover have "set (drop lo (take hi dv)) = (!) dv ` {lo..<hi}"
  proof -
    have "drop lo (take hi dv) = map ((!) dv) [lo..<hi]" by (rule nth_equalityI) (use assms(1) in simp_all)
    then show ?thesis by simp
  qed
  ultimately show ?thesis by simp
qed

lemma bulk_sorted:
  assumes s: "sorted (map fst dv)" and le: "lo \<le> hi" "hi \<le> length dv" and sub: "set kvs \<subseteq> set (drop lo (take hi dv))"
  shows "sorted (map fst (take lo dv @ sort_key fst kvs @ drop hi dv)) \<and> set (take lo dv @ sort_key fst kvs @ drop hi dv) \<subseteq> set dv"
proof -
  have e: "dv = take lo dv @ drop lo (take hi dv) @ drop hi dv" (is "_ = ?A @ ?B @ ?C")
    using le by (metis append_assoc append_take_drop_id min.absorb1 take_take)
  have "sorted (map fst (?A @ ?B @ ?C))" using s e by simp
  then show ?thesis using sub
  proof -
    assume "sorted (map fst (?A @ ?B @ ?C))"
    then have 1: "sorted (map fst ?A)" "sorted (map fst ?C)" "\<forall>x\<in>set ?A. \<forall>y\<in>set ?B \<union> set ?C. fst x \<le> fst y" "\<forall>x\<in>set ?B. \<forall>y\<in>set ?C. fst x \<le> fst y"
      by (simp_all add: sorted_append) (auto simp: ball_Un)
    have "set dv = set (?A @ ?B @ ?C)" using e by (rule arg_cong)
    then have "set dv = set ?A \<union> set ?B \<union> set ?C" by (simp only: set_append Un_assoc)
    then show ?thesis using 1 sub by (simp add: sorted_append ball_Un) (meson subset_iff le_supI1 le_supI2 subset_trans Un_upper1 Un_upper2)
  qed
qed

subsection \<open>The whole workload\<close>

text \<open>What the generator relies on of \<open>std::shuffle\<close> and \<open>std::sample\<close>: a permutation, and a
  selection that keeps the order.\<close>

definition shuffle_ok :: "shuffles \<Rightarrow> bool" where
  "shuffle_ok shuffle \<longleftrightarrow> (\<forall>c xs. mset (shuffle c xs) = mset xs)"

definition sample_ok :: "samples \<Rightarrow> bool" where
  "sample_ok sample \<longleftrightarrow> (\<forall>n xs. subseq (sample n xs) xs)"

definition bulk_ok :: "u64 list \<Rightarrow> key_value list \<Rightarrow> bool" where
  "bulk_ok keys bulk \<longleftrightarrow> sorted (map fst bulk) \<and> (\<forall>kv\<in>set bulk. valid_pair keys kv)"

lemma subseq_set: "subseq xs ys \<Longrightarrow> set xs \<subseteq> set ys"
  by (auto elim: list_emb_set)

lemma bulk_ok_subseq:
  assumes "bulk_ok keys bulk" "subseq xs bulk"
  shows "bulk_ok keys xs"
  using assms(2,1)
proof induction
  case (list_emb_Cons2 x y xs ys)
  then show ?case using subseq_set [of xs ys] by (auto simp: bulk_ok_def)
qed (simp_all add: bulk_ok_def)

lemma bulk_ok_all: "sorted keys \<Longrightarrow> fits_u64 keys \<Longrightarrow> bulk_ok keys (add_values keys)"
  by (simp add: bulk_ok_def add_values_fst add_values_valid)

lemma zip_snd_subset: "e \<in> set (zip xs ys) \<Longrightarrow> snd e \<in> set ys"
  by (cases e) (auto dest: set_zip_rightD)

lemma generate_inserts_ok:
  assumes sh: "shuffle_ok shuffle" and dv: "bulk_ok keys dv" and ops: "inserts_valid keys ops"
    and g: "generate_inserts shuffle ops op_id dv ic pat hr = Some (ops', bulk)"
  shows "inserts_valid keys ops' \<and> length ops' = length ops \<and> bulk_ok keys bulk"
proof -
  have dvs: "sorted (map fst dv)" and val: "\<forall>kv\<in>set dv. valid_pair keys kv" using dv by (simp_all add: bulk_ok_def)
  obtain lo hi where r: "insert_range pat (length dv) ic hr = (lo, hi)" by fastforce
  note g' = g [unfolded generate_inserts_def Let_def r prod.case]
  have lh: "hi \<le> length dv" "lo \<le> hi" using g' by (simp_all add: not_less split: if_splits)
  show ?thesis
  proof (cases "pat = Delta")
    case True
    have v: "\<forall>e\<in>set (zip (take ic op_id) (drop lo dv)). valid_pair keys (snd e)" using val zip_snd_subset in_set_dropD by fast
    have b: "ops' = set_inserts (zip (take ic op_id) (drop lo dv)) ops" "bulk = take lo dv @ drop hi dv"
      using g' True by (simp_all split: if_splits)
    have "sorted (map fst bulk) \<and> set bulk \<subseteq> set dv" unfolding b(2) using bulk_sorted [OF dvs lh(2,1), of "[]"] by simp
    then show ?thesis using set_inserts_ok [OF ops v] b(1) val by (auto simp: bulk_ok_def)
  next
    case False
    define kvs where "kvs = map (\<lambda>i. dv ! i) (generate_permute shuffle 1 lo hi True)"
    have b: "ops' = set_inserts (zip (take ic op_id) (take ic kvs)) ops" "bulk = take lo dv @ sort_key fst (drop ic kvs) @ drop hi dv"
      using g' False by (simp_all add: kvs_def split: if_splits)
    have "mset (generate_permute shuffle 1 lo hi True) = mset [lo..<hi]" using sh by (simp add: generate_permute_def shuffle_ok_def)
    from set_range_pairs [OF lh(1) this] have k: "set kvs = set (drop lo (take hi dv))" unfolding kvs_def .
    then have kd: "set kvs \<subseteq> set dv" by (auto dest!: in_set_dropD in_set_takeD)
    have v: "\<forall>e\<in>set (zip (take ic op_id) (take ic kvs)). valid_pair keys (snd e)"
      using val kd zip_snd_subset by (metis in_set_takeD subsetD)
    have "set (drop ic kvs) \<subseteq> set (drop lo (take hi dv))" using k set_drop_subset by fastforce
    from bulk_sorted [OF dvs lh(2,1) this] have "sorted (map fst bulk) \<and> set bulk \<subseteq> set dv" using b(2) by simp
    then show ?thesis using set_inserts_ok [OF ops v] b(1) val by (auto simp: bulk_ok_def)
  qed
qed

lemma map_insert_hint_ok:
  "mset (map_insert_hint kv m) = add_mset kv (mset m)" "sorted (map fst m) \<Longrightarrow> sorted (map fst (map_insert_hint kv m))"
proof -
  have "mset m = mset (takeWhile (\<lambda>e. fst e < fst kv) m) + mset (dropWhile (\<lambda>e. fst e < fst kv) m)"
    by (metis mset_append takeWhile_dropWhile_id)
  then show "mset (map_insert_hint kv m) = add_mset kv (mset m)" by (simp add: map_insert_hint_def)
  assume s: "sorted (map fst m)"
  have "sorted (map fst (takeWhile (\<lambda>e. fst e < fst kv) m))" "\<forall>e\<in>set (takeWhile (\<lambda>e. fst e < fst kv) m). fst e < fst kv"
    using s sorted_takeWhile [of "map fst m" "\<lambda>k. k < fst kv"] by (simp_all add: takeWhile_map o_def) (auto dest: set_takeWhileD)
  then show "sorted (map fst (map_insert_hint kv m))" using s
    by (auto simp: map_insert_hint_def dropWhile_filter_sorted sorted_append sorted_filter intro: order_trans less_imp_le)
qed

lemma map_insert_hints_ok:
  "sorted (map fst m) \<Longrightarrow> mset (fold map_insert_hint kvs m) = mset kvs + mset m \<and> sorted (map fst (fold map_insert_hint kvs m))"
  by (induction kvs arbitrary: m) (simp_all add: map_insert_hint_ok)

lemma choose_bulk_ok: "sample_ok sample \<Longrightarrow> bulk_ok keys xs \<Longrightarrow> bulk_ok keys (choose_bulk sample a xs)"
  using bulk_ok_subseq by (auto simp: sample_ok_def choose_bulk_def split: option.split)

lemma prepare_ops_ok:
  assumes sh: "shuffle_ok shuffle" and sa: "sample_ok sample" and dv: "bulk_ok keys org_vec"
    and p: "prepare_ops shuffle sample a org_vec = Some (ops, bulk)"
  shows "inserts_valid keys ops \<and> length ops = op_cnt a \<and> (insert_ratio a > 0 \<or> (\<forall>x\<in>set ops. op_kind x \<noteq> INSERT)) \<and> bulk_ok keys bulk"
proof -
  let ?tot = "replicate (op_cnt a) empty_op"
  note empty = empty_ops_valid(1) [of keys "op_cnt a"] empty_ops_valid(2) [of "op_cnt a"]
  have kinds: "LOOKUP \<noteq> INSERT" "RANGE_QUERY \<noteq> INSERT" by (simp_all add: op_kinds)
  obtain ops1 bulk1 js ks where 1: "(if insert_ratio a > 0 then generate_inserts shuffle ?tot (op_order shuffle a) org_vec
      (insert_count a) (insert_pattern a) (hotspot_ratio a) else Some (?tot, org_vec)) = Some (ops1, bulk1)"
    "ops = set_kinds RANGE_QUERY js (set_kinds LOOKUP ks ops1)" "bulk = choose_bulk sample a bulk1"
    using p by (auto simp: prepare_ops_def Let_def split: Option.bind_splits)
  have "inserts_valid keys ops1 \<and> length ops1 = op_cnt a \<and> bulk_ok keys bulk1"
    using 1(1) generate_inserts_ok [OF sh dv empty(1)] dv empty by (auto split: if_splits)
  moreover have "insert_ratio a > 0 \<or> (\<forall>x\<in>set ops. op_kind x \<noteq> INSERT)"
  proof (cases "insert_ratio a > 0")
    case False
    then have "ops1 = ?tot" using 1(1) by simp
    then show ?thesis using set_kinds_no_insert [OF kinds(2) set_kinds_no_insert [OF kinds(1) empty(2)]] 1(2) by blast
  qed simp
  ultimately show ?thesis using 1(2,3) kinds set_kinds_ok choose_bulk_ok [OF sa] by metis
qed

lemma length_set_inserts [simp]: "length (set_inserts zs ops) = length ops"
  by (induction zs ops rule: set_inserts.induct) simp_all

lemma length_set_kinds [simp]: "length (set_kinds kind js ops) = length ops"
  unfolding set_kinds_def by (induction js arbitrary: ops) simp_all

lemma generate_inserts_form:
  "generate_inserts shuffle ops op_id dv ic pat hr = Some (ops', bulk) \<Longrightarrow> \<exists>vals. ops' = set_inserts (zip (take ic op_id) vals) ops"
  by (cases "insert_range pat (length dv) ic hr") (auto simp: generate_inserts_def Let_def split: if_splits)

lemma prepare_ops_length: "prepare_ops shuffle sample a org_vec = Some (ops, bulk) \<Longrightarrow> length ops = op_cnt a"
  by (auto simp: prepare_ops_def Let_def split: if_splits Option.bind_splits dest!: generate_inserts_form)

lemma first_state_right:
  assumes "bulk_ok keys bulk"
  shows "state_right (gen_config a) bulk (first_state a bulk)"
  using assms map_insert_hints_ok [of "[]" bulk] by (simp add: state_right_def gen_config_def first_state_def bulk_ok_def)

lemma generate_drawn:
  assumes sh: "shuffle_ok shuffle" and sa: "sample_ok sample" and n: "fits_u64 keys"
    and g: "generate shuffle sample a keys = Some (bulk, ops)"
  shows "\<exists>tot_ops. prepare_ops shuffle sample a (add_values keys) = Some (tot_ops, bulk)
    \<and> map op_kind ops = map op_kind tot_ops \<and> bulk_ok keys bulk \<and> workload_right keys bulk ops"
proof -
  have s: "sorted keys" using g by (simp add: generate_def Let_def split: if_splits)
  obtain tot_ops s' where p: "prepare_ops shuffle sample a (add_values keys) = Some (tot_ops, bulk)"
    and l: "generate_equality_lookups (gen_config a) tot_ops (first_state a bulk) = Some (ops, s')"
    using g by (auto simp: generate_def Let_def split: if_splits Option.bind_splits)
  note 1 = prepare_ops_ok [OF sh sa bulk_ok_all [OF s n] p]
  have "\<forall>x\<in>set tot_ops. op_kind x = INSERT \<longrightarrow> is_insert (gen_config a) \<and> valid_pair keys (lo_key x, op_result x)"
    using 1 by (auto simp: inserts_valid_def gen_config_def)
  from generate_lookups_right [OF first_state_right [of keys bulk a] this l] 1 p show ?thesis by auto
qed

lemma generate_ok:
  assumes "shuffle_ok shuffle" "sample_ok sample" "fits_u64 keys" "generate shuffle sample a keys = Some (bulk, ops)"
  shows "bulk_ok keys bulk \<and> length ops = op_cnt a \<and> workload_right keys bulk ops"
  using generate_drawn [OF assms] prepare_ops_length map_eq_imp_length_eq [of op_kind ops op_kind] by metis

end
