(* ===== verification/Benchmark_Ok.thy ===== *)
theory Benchmark_Ok
  imports Benchmark Generate_Ok
begin

text \<open>
  The contract an index has to keep for the benchmark to pass, and the proof that it then does: on a
  right workload no lookup and no range query is reported as wrong, in any split into phases.
\<close>

subsection \<open>The phases\<close>

lemma lower_bound_loop_bounds:
  assumes "readable rd f a b" "a \<le> first" "first + int len \<le> b"
  shows "\<exists>r. lower_bound_loop rd lt key first len = Some r \<and> first \<le> r \<and> r \<le> first + int len"
  using assms(2,3)
proof (induction len arbitrary: first rule: less_induct)
  case (less len)
  show ?case
  proof (cases "len = 0")
    case True
    then show ?thesis by (subst lower_bound_loop.simps) simp
  next
    case False
    let ?h = "len div 2" and ?m = "first + int (len div 2)"
    have m: "rd ?m = Some (f ?m)" using assms(1) less.prems False by (auto simp: readable_def)
    have 1: "\<exists>r. lower_bound_loop rd lt key (?m + 1) (len - ?h - 1) = Some r \<and> ?m + 1 \<le> r \<and> r \<le> ?m + 1 + int (len - ?h - 1)"
      by (rule less.IH) (use less.prems False in auto)
    have 2: "\<exists>r. lower_bound_loop rd lt key first ?h = Some r \<and> first \<le> r \<and> r \<le> first + int ?h"
      by (rule less.IH) (use less.prems False in auto)
    show ?thesis using 1 2 m False by (subst lower_bound_loop.simps) (force simp: Let_def)
  qed
qed

lemma leading_inserts_ok: "\<exists>i. leading_inserts ops = Some i \<and> i \<le> length ops"
proof -
  have "readable (vec_at (\<lambda>x. if op_kind x \<noteq> INSERT then 1 else 0 :: int) ops) (\<lambda>i. if op_kind (ops ! nat i) \<noteq> INSERT then 1 else 0) 0 (int (length ops))"
    by (rule readable_vec_at)
  from lower_bound_loop_bounds [OF this, of 0 "length ops" "(<)" 1] show ?thesis by (auto simp: leading_inserts_def)
qed

text \<open>Phases that follow one another without a gap\<close>

fun consecutive :: "nat \<Rightarrow> (nat \<times> nat) list \<Rightarrow> nat \<Rightarrow> bool" where
  "consecutive p [] q \<longleftrightarrow> p = q"
| "consecutive p ((a, b) # ps) q \<longleftrightarrow> a = p \<and> a \<le> b \<and> consecutive b ps q"

lemma consecutive_le: "consecutive p ps q \<Longrightarrow> p \<le> q"
  by (induction p ps q rule: consecutive.induct) auto

lemma phase_end_bounds: "cur \<le> length ops \<Longrightarrow> cur \<le> phase_end ops j cur \<and> phase_end ops j cur \<le> length ops"
  using length_takeWhile_le [of "\<lambda>x. (op_kind x = INSERT) = odd j" "drop cur ops"] by (simp add: phase_end_def)

lemma length_phase_ends: "length (phase_ends ops j n cur) = n"
  by (induction n arbitrary: j cur) (simp_all add: Let_def)

lemma phase_ends_consecutive:
  "cur \<le> length ops \<Longrightarrow> let ps = cur # phase_ends ops j n cur in
     consecutive cur (map (\<lambda>i. (ps ! i, ps ! (i + 1))) [0..<n]) (last ps) \<and> last ps \<le> length ops"
proof (induction n arbitrary: j cur)
  case (Suc n)
  let ?e = "phase_end ops j cur"
  have e: "cur \<le> ?e" "?e \<le> length ops" using phase_end_bounds [OF Suc.prems] by simp_all
  have u: "[0..<Suc n] = 0 # map Suc [0..<n]" by (simp add: map_Suc_upt upt_conv_Cons del: upt_Suc)
  show ?case using Suc.IH [OF e(2), of "Suc j"] e unfolding u by (simp add: Let_def o_def)
qed simp

lemma phases_ok:
  assumes "bound_points w ops = Some ps" "num_blocks w > 1 \<longrightarrow> \<not> flag w"
  shows "\<exists>q\<le>length ops. consecutive 0 (phases w ps) q \<and> (num_blocks w = 1 \<longrightarrow> q = length ops)"
proof -
  consider (blk) "num_blocks w > 1" | (none) "num_blocks w = 0" | (flag) "num_blocks w = 1" "flag w" | (two) "num_blocks w = 1" "\<not> flag w"
    by (metis One_nat_def Suc_lessI gr0I)
  then show ?thesis
  proof cases
    case blk
    then show ?thesis using assms phase_ends_consecutive [of 0 ops 1 "2 * num_blocks w"]
      by (auto simp: bound_points_def phases_def Let_def simp del: upt_Suc phase_ends.simps)
  next
    case none
    then show ?thesis by (auto simp: phases_def Let_def)
  next
    case flag
    then show ?thesis using assms by (auto simp: bound_points_def phases_def)
  next
    case two
    then show ?thesis using assms leading_inserts_ok [of ops] by (auto simp: bound_points_def phases_def numeral_2_eq_2)
  qed
qed

subsection \<open>The contract of an index\<close>

text \<open>An index stands for a multiset of pairs; what its operations return is right when they return.\<close>

locale bench_index =
  fixes I :: "'s index_ops" and ok :: "'s \<Rightarrow> bool" and contents :: "'s \<Rightarrow> key_value list" and loadable :: "key_value list \<Rightarrow> bool"
  assumes Build_ok: "loadable kvs \<Longrightarrow> sorted (map fst kvs) \<Longrightarrow> ix_Build I kvs (ix_new I) = Some s \<Longrightarrow> ok s \<and> mset (contents s) = mset kvs"
    and Lookup_ok: "ok s \<Longrightarrow> ix_EqualityLookup I k s = Some v \<Longrightarrow> if k \<in> fst ` set (contents s) then (k, v) \<in> set (contents s) else v = NOT_FOUND"
    and RangeQuery_ok: "ok s \<Longrightarrow> ix_RangeQuery I lo hi s = Some r \<Longrightarrow> r = range_values lo hi (contents s)"
    and Insert_ok: "ok s \<Longrightarrow> ix_Insert I k v s = Some s' \<Longrightarrow> ok s' \<and> mset (contents s') = add_mset (k, v) (mset (contents s))"
begin

text \<open>The index stands for the pairs \<open>M\<close>, all of them from the data set.\<close>

definition holds :: "u64 list \<Rightarrow> key_value list \<Rightarrow> 's \<Rightarrow> bool" where
  "holds keys M s \<longleftrightarrow> ok s \<and> mset (contents s) = mset M \<and> (\<forall>kv\<in>set M. valid_pair keys kv)"

lemma do_op_right:
  assumes h: "holds keys M s" and r: "op_right keys M x" and d: "do_op I m keys x s = Some (s', failed)"
  shows "\<not> failed \<and> holds keys (pairs_after M x) s'"
proof -
  have k: "LOOKUP \<noteq> INSERT" "RANGE_QUERY \<noteq> INSERT" "LOOKUP \<noteq> RANGE_QUERY" by (simp_all add: op_kinds)
  have s: "ok s" "mset (contents s) = mset M" "set (contents s) = set M" using h mset_eq_setD by (auto simp: holds_def)
  consider (look) "op_kind x = LOOKUP" | (rng) "op_kind x = RANGE_QUERY" | (ins) "op_kind x = INSERT"
    using r by (auto simp: op_right_def split: if_splits)
  then show ?thesis
  proof cases
    case look
    then obtain idx where idx: "ix_EqualityLookup I (lo_key x) s = Some idx" "s' = s" "failed = (checked m \<and> lookup_wrong keys (lo_key x) (op_result x) idx)"
      using d by (auto simp: do_op_def split: Option.bind_splits)
    have "\<not> lookup_wrong keys (lo_key x) (op_result x) idx"
      using Lookup_ok [OF s(1) idx(1)] look r h k unfolding s(3)
      by (auto simp: op_right_def lookup_wrong_def holds_def valid_pair_def NOT_FOUND_def OVERFLOW_def not_le split: if_splits)
    then show ?thesis using idx h look k by (simp add: pairs_after_def)
  next
    case rng
    then obtain a where a: "ix_RangeQuery I (lo_key x) (hi_key x) s = Some a" "s' = s" "failed = (checked m \<and> a \<noteq> op_result x)"
      using d k by (auto simp: do_op_def split: Option.bind_splits)
    have "a = range_values (lo_key x) (hi_key x) M" using RangeQuery_ok [OF s(1) a(1)] range_values_mset [OF s(2)] by simp
    then show ?thesis using a h rng k r by (simp add: pairs_after_def op_right_def)
  next
    case ins
    then have a: "ix_Insert I (lo_key x) (op_result x) s = Some s'" "\<not> failed" using d k by (auto simp: do_op_def split: Option.bind_splits)
    show ?thesis using Insert_ok [OF s(1) a(1)] a(2) s(2) h ins r by (simp add: holds_def pairs_after_def op_right_def)
  qed
qed

lemma loop_right:
  "holds keys M s \<Longrightarrow> workload_right keys M xs \<Longrightarrow> do_ops_loop I m keys xs s = Some (s', failed)
   \<Longrightarrow> \<not> failed \<and> holds keys (foldl pairs_after M xs) s'"
proof (induction xs arbitrary: M s)
  case (Cons x xs)
  obtain s1 f1 where d: "do_op I m keys x s = Some (s1, f1)"
    using Cons.prems(3) by (cases "do_op I m keys x s") auto
  have "op_right keys M x" using Cons.prems(2) by simp
  note 1 = do_op_right [OF Cons.prems(1) this d]
  show ?case using Cons.IH [of "pairs_after M x" s1] 1 Cons.prems(2,3) d by simp
qed simp

end

lemma workload_right_append:
  "workload_right keys M (xs @ ys) \<longleftrightarrow> workload_right keys M xs \<and> workload_right keys (foldl pairs_after M xs) ys"
  by (induction xs arbitrary: M) simp_all

lemma workload_right_segment:
  assumes "workload_right keys M ops" "a \<le> b"
  shows "workload_right keys (foldl pairs_after M (take a ops)) (drop a (take b ops))"
    "foldl pairs_after (foldl pairs_after M (take a ops)) (drop a (take b ops)) = foldl pairs_after M (take b ops)"
proof -
  have e: "take b ops = take a ops @ drop a (take b ops)" using assms(2) by (metis append_take_drop_id min.absorb1 take_take)
  have "workload_right keys M (take b ops)" using assms(1) workload_right_append [of keys M "take b ops" "drop b ops"] by simp
  then show "workload_right keys (foldl pairs_after M (take a ops)) (drop a (take b ops))"
    using e workload_right_append by metis
  show "foldl pairs_after (foldl pairs_after M (take a ops)) (drop a (take b ops)) = foldl pairs_after M (take b ops)"
    using e by (metis foldl_append)
qed

context bench_index
begin

lemma phases_right:
  "consecutive p ps q \<Longrightarrow> workload_right keys M ops \<Longrightarrow> holds keys (foldl pairs_after M (take p ops)) s
   \<Longrightarrow> run_phases I m keys ops ps s = Some (s', failed) \<Longrightarrow> \<not> failed \<and> holds keys (foldl pairs_after M (take q ops)) s'"
proof (induction ps arbitrary: p s)
  case (Cons ab ps)
  obtain a b where ab: "ab = (a, b)" by fastforce
  have c: "a = p" "a \<le> b" "consecutive b ps q" using Cons.prems(1) ab by simp_all
  obtain s1 f1 where d: "do_ops_loop I m keys (drop a (take b ops)) s = Some (s1, f1)"
    using Cons.prems(4) ab by (cases "DoOpsCoreLoop I m keys ops a b s") (auto simp: DoOpsCoreLoop_def split: if_splits)
  note seg = workload_right_segment [OF Cons.prems(2) c(2)]
  have "holds keys (foldl pairs_after M (take a ops)) s" using Cons.prems(3) c(1) by simp
  from loop_right [OF this seg(1) d] have 1: "\<not> f1 \<and> holds keys (foldl pairs_after M (take b ops)) s1" unfolding seg(2) .
  show ?case using Cons.IH [OF c(3) Cons.prems(2), of s1] 1 Cons.prems(4) ab d
    by (auto simp: DoOpsCoreLoop_def split: if_splits)
qed simp

text \<open>A benchmark with a right workload\<close>

definition benchmark_right :: "benchmark \<Rightarrow> bool" where
  "benchmark_right b \<longleftrightarrow> bulk_ok (b_keys b) (b_index_data b) \<and> workload_right (b_keys b) (b_index_data b) (b_ops b)
     \<and> loadable (b_index_data b) \<and> bound_points (b_name b) (b_ops b) = Some (b_points b) \<and> (num_blocks (b_name b) > 1 \<longrightarrow> \<not> flag (b_name b))"

lemma built_holds:
  assumes "benchmark_right b" "ix_Build I (b_index_data b) (ix_new I) = Some s"
  shows "holds (b_keys b) (b_index_data b) s"
  using assms Build_ok [of "b_index_data b" s] by (simp add: benchmark_right_def holds_def bulk_ok_def)

lemma DoOps_right:
  assumes b: "benchmark_right b" and s: "holds (b_keys b) (b_index_data b) s" and d: "DoOps I opt b s = Some (s', failed)"
  shows "\<not> failed"
proof -
  obtain q where "consecutive 0 (phases (b_name b) (b_points b)) q" using phases_ok [of "b_name b"] b by (auto simp: benchmark_right_def)
  then show ?thesis using phases_right [of 0 _ q "b_keys b" "b_index_data b" "b_ops b" s "mode_of opt" s' failed] b s d
    by (auto simp: DoOps_def benchmark_right_def split: if_splits)
qed

lemma repeat_runs_right: "benchmark_right b \<Longrightarrow> repeat_runs I opt b n = Some r \<Longrightarrow> r = Printed"
proof (induction n)
  case (Suc n)
  obtain s s' f where s: "ix_Build I (b_index_data b) (ix_new I) = Some s" "DoOps I opt b s = Some (s', f)"
    using Suc.prems(2) by (auto split: Option.bind_splits)
  have "\<not> f" using DoOps_right [OF Suc.prems(1) built_holds [OF Suc.prems(1) s(1)] s(2)] .
  then show ?case using Suc s by simp
qed simp

lemma Run_right: "benchmark_right b \<Longrightarrow> Run I opt b = Some r \<Longrightarrow> r \<noteq> Failed"
  using repeat_runs_right by (auto simp: Run_def split: if_splits)

end

text \<open>An index whose operations always return\<close>

locale total_bench_index = bench_index I ok contents loadable
  for I :: "'s index_ops" and ok :: "'s \<Rightarrow> bool" and contents :: "'s \<Rightarrow> key_value list" and loadable :: "key_value list \<Rightarrow> bool" +
  assumes Build_total: "loadable kvs \<Longrightarrow> sorted (map fst kvs) \<Longrightarrow> \<exists>s. ix_Build I kvs (ix_new I) = Some s"
    and Lookup_total: "ok s \<Longrightarrow> \<exists>v. ix_EqualityLookup I k s = Some v"
    and RangeQuery_total: "ok s \<Longrightarrow> \<exists>r. ix_RangeQuery I lo hi s = Some r"
    and Insert_total: "ok s \<Longrightarrow> \<exists>s'. ix_Insert I k v s = Some s'"
begin

lemma do_op_total: "ok s \<Longrightarrow> \<exists>s' f. do_op I m keys x s = Some (s', f)"
  using Lookup_total [of s "lo_key x"] RangeQuery_total [of s "lo_key x" "hi_key x"] Insert_total [of s "lo_key x" "op_result x"]
  by (auto simp: do_op_def)

lemma loop_total:
  "holds keys M s \<Longrightarrow> workload_right keys M xs \<Longrightarrow> \<exists>s'. do_ops_loop I m keys xs s = Some (s', False)"
proof (induction xs arbitrary: M s)
  case (Cons x xs)
  obtain s1 f1 where d: "do_op I m keys x s = Some (s1, f1)" using do_op_total Cons.prems(1) unfolding holds_def by blast
  have "op_right keys M x" using Cons.prems(2) by simp
  note 1 = do_op_right [OF Cons.prems(1) this d]
  show ?case using Cons.IH [of "pairs_after M x" s1] 1 Cons.prems(2) d by simp
qed simp

lemma phases_total:
  "consecutive p ps q \<Longrightarrow> q \<le> length ops \<Longrightarrow> workload_right keys M ops \<Longrightarrow> holds keys (foldl pairs_after M (take p ops)) s
   \<Longrightarrow> time_each m \<longrightarrow> list_all (\<lambda>(a, b). a < b) ps \<Longrightarrow> \<exists>s'. run_phases I m keys ops ps s = Some (s', False)"
proof (induction ps arbitrary: p s)
  case (Cons ab ps)
  obtain a b where ab: "ab = (a, b)" by fastforce
  have c: "a = p" "a \<le> b" "consecutive b ps q" using Cons.prems(1) ab by simp_all
  have le: "b \<le> length ops" using consecutive_le [OF c(3)] Cons.prems(2) by simp
  note seg = workload_right_segment [OF Cons.prems(3) c(2)]
  have h: "holds keys (foldl pairs_after M (take a ops)) s" using Cons.prems(4) c(1) by simp
  obtain s1 where d: "do_ops_loop I m keys (drop a (take b ops)) s = Some (s1, False)" using loop_total [OF h seg(1)] by blast
  have 1: "holds keys (foldl pairs_after M (take b ops)) s1" using loop_right [OF h seg(1) d] unfolding seg(2) by simp
  have "time_each m \<longrightarrow> list_all (\<lambda>(a, b). a < b) ps" "time_each m \<longrightarrow> a < b" using Cons.prems(5) ab by simp_all
  then show ?case using Cons.IH [OF c(3) Cons.prems(2,3) 1] d le ab by (auto simp: DoOpsCoreLoop_def)
qed simp

lemma DoOps_total:
  assumes b: "benchmark_right b" and s: "holds (b_keys b) (b_index_data b) s"
    and m: "o_through opt \<or> o_build opt \<or> list_all (\<lambda>(a, b). a < b) (phases (b_name b) (b_points b))"
  shows "\<exists>s'. DoOps I opt b s = Some (s', False)"
proof -
  obtain q where "consecutive 0 (phases (b_name b) (b_points b)) q" "q \<le> length (b_ops b)"
    using phases_ok [of "b_name b"] b by (auto simp: benchmark_right_def)
  then show ?thesis
    using phases_total [of 0 _ q "b_ops b" "b_keys b" "b_index_data b" s "mode_of opt"] b s m
    by (auto simp: DoOps_def benchmark_right_def mode_of_def)
qed

lemma repeat_runs_total:
  assumes b: "benchmark_right b" and m: "o_through opt \<or> o_build opt \<or> list_all (\<lambda>(a, b). a < b) (phases (b_name b) (b_points b))"
  shows "repeat_runs I opt b n = Some Printed"
proof (induction n)
  case (Suc n)
  obtain s where s: "ix_Build I (b_index_data b) (ix_new I) = Some s"
    using Build_total b by (auto simp: benchmark_right_def bulk_ok_def)
  from DoOps_total [OF b built_holds [OF b s] m] Suc s show ?case by auto
qed simp

end

subsection \<open>The workload the generator wrote\<close>

text \<open>\<open>std::to_string\<close> of a ratio, which prints six decimals, and what \<open>std::stod\<close> makes of it\<close>

definition printed :: "rat \<Rightarrow> rat" where
  "printed r = dbl (of_int (round_half_even (r * 10 ^ 6)) / 10 ^ 6)"

text \<open>What the driver reads from the name the generator gives the workload of \<open>a\<close> (a data set whose
  own name does not look like one of these parts)\<close>

definition name_of :: "gen_args \<Rightarrow> workload_name" where
  "name_of a = \<lparr>is_mix = mix a, num_blocks = (if block_num a > 1 then block_num a else 1),
     is_range_query = printed (range_query_ratio a) > 0, insert_part = printed (insert_ratio a), has_bulkload = bulkload_cnt a \<noteq> None\<rparr>"

definition load_generated :: "gen_args \<Rightarrow> u64 list \<Rightarrow> key_value list \<Rightarrow> u64 operation list \<Rightarrow> benchmark option" where
  "load_generated a keys bulk ops = Benchmark (name_of a) (write_data u64_bytes keys) (write_data op_bytes ops) (write_data kv_bytes bulk)"

text \<open>The files hold fewer than 2 to the 64 items, the driver sees insertions exactly when there are
  some, and a block-wise workload is not mixed.\<close>

definition loads_back :: "gen_args \<Rightarrow> u64 list \<Rightarrow> key_value list \<Rightarrow> u64 operation list \<Rightarrow> bool" where
  "loads_back a keys bulk ops \<longleftrightarrow> fits_u64 keys \<and> fits_u64 bulk \<and> fits_u64 ops
     \<and> (insert_ratio a > 0 \<longleftrightarrow> printed (insert_ratio a) > 0) \<and> (block_num a > 1 \<longrightarrow> \<not> flag (name_of a))"

lemma generate_no_inserts:
  assumes "generate shuffle sample a keys = Some (bulk, ops)" "\<not> insert_ratio a > 0" "bulkload_cnt a = None"
  shows "bulk = add_values keys"
  using assms by (auto simp: generate_def prepare_ops_def choose_bulk_def Let_def split: if_splits Option.bind_splits)

lemma load_generated_ok:
  assumes "shuffle_ok shuffle" "sample_ok sample" and g: "generate shuffle sample a keys = Some (bulk, ops)"
    and l: "loads_back a keys bulk ops"
  shows "\<exists>ps. bound_points (name_of a) ops = Some ps
    \<and> load_generated a keys bulk ops = Some \<lparr>b_keys = keys, b_ops = ops, b_index_data = bulk, b_name = name_of a, b_points = ps\<rparr>"
proof -
  have files: "load_data read_u64 (write_data u64_bytes keys) = Some keys" "load_data read_op (write_data op_bytes ops) = Some ops"
    "load_data read_kv (write_data kv_bytes bulk) = Some bulk"
    using l keys.load_data_back [of keys] ops.load_data_back [of ops] kvs.load_data_back [of bulk] by (simp_all add: loads_back_def)
  have nb: "\<not> (num_blocks (name_of a) > 1 \<and> flag (name_of a))" using l by (auto simp: loads_back_def name_of_def)
  have "sorted keys" using g by (simp add: generate_def Let_def split: if_splits)
  then have d: "(if insert_part (name_of a) > 0 \<or> has_bulkload (name_of a) then load_data read_kv (write_data kv_bytes bulk)
      else if \<not> sorted keys then None else Some (add_values keys)) = Some bulk"
    using files(3) l generate_no_inserts [OF g] by (auto simp: loads_back_def name_of_def)
  have "bound_points (name_of a) ops \<noteq> None" using leading_inserts_ok [of ops] by (auto simp: bound_points_def)
  then obtain ps where ps: "bound_points (name_of a) ops = Some ps" by blast
  show ?thesis using ps by (simp only: load_generated_def Benchmark_def files(1,2) d nb if_False Option.bind.bind_lunit) simp
qed

definition all_measured :: "benchmark \<Rightarrow> bool" where
  "all_measured b \<longleftrightarrow> list_all (\<lambda>(i, j). i < j) (phases (b_name b) (b_points b))"

context bench_index
begin

lemma generated_right:
  assumes "shuffle_ok shuffle" "sample_ok sample" and g: "generate shuffle sample a keys = Some (bulk, ops)"
    and l: "loads_back a keys bulk ops" and "loadable bulk"
  shows "\<exists>b. load_generated a keys bulk ops = Some b \<and> benchmark_right b"
proof -
  have "fits_u64 keys" using l by (simp add: loads_back_def)
  from generate_ok [OF assms(1,2) this g] have "bulk_ok keys bulk \<and> workload_right keys bulk ops" by blast
  moreover have "num_blocks (name_of a) > 1 \<longrightarrow> \<not> flag (name_of a)" using l by (auto simp: loads_back_def name_of_def)
  ultimately show ?thesis using load_generated_ok [OF assms(1-4)] assms(5) by (auto simp: benchmark_right_def)
qed

lemma generated_never_fails:
  assumes "shuffle_ok shuffle" "sample_ok sample" "generate shuffle sample a keys = Some (bulk, ops)"
    and "loads_back a keys bulk ops" "loadable bulk"
  shows "\<exists>b. load_generated a keys bulk ops = Some b \<and> Run I opt b \<noteq> Some Failed"
  using generated_right [OF assms] Run_right by blast

end

context total_bench_index
begin

lemma generated_passes:
  assumes "shuffle_ok shuffle" "sample_ok sample" "generate shuffle sample a keys = Some (bulk, ops)"
    and "loads_back a keys bulk ops" "loadable bulk"
    and app: "\<And>u r i. ix_applicable I u r i False"
  shows "\<exists>b. load_generated a keys bulk ops = Some b
    \<and> (o_through opt \<or> o_build opt \<or> all_measured b \<longrightarrow> Run I opt b = Some Printed)"
  using generated_right [OF assms(1-5)] repeat_runs_total app by (auto simp: all_measured_def Run_def)

end

end
