(* ===== verification/Benchmark_Index.thy ===== *)
theory Benchmark_Index
  imports Benchmark_Ok Btree_Stx Lipp_Iter
begin

text \<open>
  The indexes the driver runs on: the B+ tree, which keeps the whole contract, and \<open>LIPP\<close>, which
  keeps it whenever its operations return (\<open>competitors/stx_btree.h\<close>, \<open>competitors/lipp.h\<close>).
\<close>

definition stx_ops :: "u64 btree_class \<Rightarrow> stx index_ops" where
  "stx_ops C = \<lparr>ix_new = btree_new,
     ix_applicable = (\<lambda>unique range_query insert multithread. \<not> multithread),
     ix_Build = stx_Build C,
     ix_EqualityLookup = (\<lambda>k t. stx_EqualityLookup C t k),
     ix_RangeQuery = (\<lambda>lo hi t. stx_RangeQuery C t lo hi),
     ix_Insert = (\<lambda>k v t. case stx_Insert C k v t of Inl _ \<Rightarrow> None | Inr t \<Rightarrow> Some t)\<rparr>"

definition lipp_ops :: "u64 lipp index_ops" where
  "lipp_ops = \<lparr>ix_new = lipp_new,
     ix_applicable = (\<lambda>unique range_query insert multithread. unique \<and> \<not> multithread),
     ix_Build = (\<lambda>kvs st. case lipp_bulk_load std_opts kvs st of Inl _ \<Rightarrow> None | Inr st \<Rightarrow> Some st),
     ix_EqualityLookup = (\<lambda>k st. case lipp_EqualityLookup st k of Inl _ \<Rightarrow> None | Inr v \<Rightarrow> Some v),
     ix_RangeQuery = (\<lambda>lo hi st. case lipp_RangeQuery st lo hi of Some (Inr r) \<Rightarrow> Some r | _ \<Rightarrow> None),
     ix_Insert = (\<lambda>k v st. case lipp_insert std_opts k v st of Inl _ \<Rightarrow> None | Inr st \<Rightarrow> Some st)\<rparr>"

lemma map_of_answer:
  "v = (case map_of es k of None \<Rightarrow> d | Some v \<Rightarrow> v) \<Longrightarrow> if k \<in> fst ` set es then (k, v) \<in> set es else v = d"
  by (force split: option.splits dest: map_of_SomeD simp: map_of_eq_None_iff)

subsection \<open>The B+ tree\<close>

lemma mset_ins_list: "mset (ins_list k v es) = add_mset (k, v) (mset es)"
proof (rule ins_list_cases [of es k v])
  fix A B assume "es = A @ B" "ins_list k v es = A @ (k, v) # B"
  then show ?thesis by simp
qed

lemma stx_build: "stx_inv C btree_new \<Longrightarrow> sorted (map fst kvs) \<Longrightarrow> \<exists>t. stx_Build C kvs btree_new = Some t \<and> stx_inv C t \<and> btree_entries t = kvs"
  using bulk_load_ok [of C btree_new kvs] by (auto simp: stx_inv_def stx_Build_def keys_ok_def btree_new_def)

lemma stx_answer:
  assumes "stx_inv C t"
  shows "stx_EqualityLookup C t k = Some (case map_of (btree_entries t) k of None \<Rightarrow> NOT_FOUND | Some v \<Rightarrow> v)"
  using assms stx_EqualityLookup_eq [OF stx_lookup_ok, of C t k] by (simp add: stx_inv_def)

text \<open>An empty tree keeps the invariant whenever the constants of its class are right.\<close>

definition stx_class_ok :: "u64 btree_class \<Rightarrow> bool" where
  "stx_class_ok C \<longleftrightarrow> btree_class_ok C \<and> allow_duplicates C"

lemma stx_new: "stx_class_ok C \<Longrightarrow> stx_inv C btree_new"
  by (simp add: stx_class_ok_def stx_inv_def btree_new_inv)

interpretation stx_bench: total_bench_index "stx_ops C" "stx_inv C" btree_entries "\<lambda>kvs. stx_class_ok C"
  for C :: "u64 btree_class"
proof unfold_locales
  fix kvs :: "key_value list" and s s' :: stx and k v lo hi r :: u64
  show "stx_inv C s \<and> mset (btree_entries s) = mset kvs"
    if "stx_class_ok C" "sorted (map fst kvs)" "ix_Build (stx_ops C) kvs (ix_new (stx_ops C)) = Some s"
    using stx_build [OF stx_new [OF that(1)] that(2)] that(3) by (auto simp: stx_ops_def)
  show "\<exists>s. ix_Build (stx_ops C) kvs (ix_new (stx_ops C)) = Some s" if "stx_class_ok C" "sorted (map fst kvs)"
    using stx_build [OF stx_new [OF that(1)] that(2)] by (auto simp: stx_ops_def)
  assume inv: "stx_inv C s"
  note ok = inv [unfolded stx_inv_def]
  show "if k \<in> fst ` set (btree_entries s) then (k, v) \<in> set (btree_entries s) else v = NOT_FOUND"
    if "ix_EqualityLookup (stx_ops C) k s = Some v"
    by (rule map_of_answer) (use that stx_answer [OF inv, of k] in \<open>simp add: stx_ops_def\<close>)
  show "\<exists>v. ix_EqualityLookup (stx_ops C) k s = Some v" using stx_answer [OF inv] by (simp add: stx_ops_def)
  show "r = range_values lo hi (btree_entries s)" if "ix_RangeQuery (stx_ops C) lo hi s = Some r"
    using that ok stx_RangeQuery_ok by (simp add: stx_ops_def)
  show "\<exists>r. ix_RangeQuery (stx_ops C) lo hi s = Some r" using ok stx_RangeQuery_ok by (simp add: stx_ops_def)
  obtain s1 where s1: "stx_Insert C k v s = Inr s1" "btree_inv C s1" "btree_entries s1 = ins_list k v (btree_entries s)"
    using stx_Insert_ok [of C s k v] ok by blast
  show "\<exists>s'. ix_Insert (stx_ops C) k v s = Some s'" using s1 by (simp add: stx_ops_def)
  show "stx_inv C s' \<and> mset (btree_entries s') = add_mset (k, v) (mset (btree_entries s))" if "ix_Insert (stx_ops C) k v s = Some s'"
    using that s1 ok by (auto simp: stx_ops_def stx_inv_def mset_ins_list)
qed

subsection \<open>LIPP\<close>

definition lipp_ok :: "u64 lipp \<Rightarrow> bool" where
  "lipp_ok st \<longleftrightarrow> lipp_inv st \<and> num_items (hdr (root_node st)) \<noteq> 1"

interpretation lipp_bench: bench_index lipp_ops lipp_ok "\<lambda>st. entries (root_node st)" "\<lambda>kvs. 2 \<le> length kvs"
proof unfold_locales
  fix kvs :: "key_value list" and s s' :: "u64 lipp" and k v lo hi r :: u64
  show "lipp_ok s \<and> mset (entries (root_node s)) = mset kvs"
    if "2 \<le> length kvs" "sorted (map fst kvs)" "ix_Build lipp_ops kvs (ix_new lipp_ops) = Some s"
    using lipp_bulk_load_ok [OF lipp_new_inv, of std_opts kvs s] that
    by (simp add: lipp_ops_def lipp_ok_def std_opts_def split: sum.splits)
  assume ok: "lipp_ok s"
  then have inv: "lipp_inv s" "lipp_wf (root_node s)" by (simp_all add: lipp_ok_def lipp_inv_def)
  have m: "lipp_map (root_node s) k = map_of (entries (root_node s)) k" by (simp add: lipp_map_def)
  show "if k \<in> fst ` set (entries (root_node s)) then (k, v) \<in> set (entries (root_node s)) else v = NOT_FOUND"
    if "ix_EqualityLookup lipp_ops k s = Some v"
    by (rule map_of_answer) (use that lipp.lookup_ok [OF inv(1), of k] in \<open>simp add: lipp_ops_def lipp_EqualityLookup_def m\<close>)
  show "r = range_values lo hi (entries (root_node s))" if "ix_RangeQuery lipp_ops lo hi s = Some r"
    using that ok lipp_RangeQuery_ok by (simp add: lipp_ops_def lipp_ok_def range_values_def)
  show "lipp_ok s' \<and> mset (entries (root_node s')) = add_mset (k, v) (mset (entries (root_node s)))"
    if "ix_Insert lipp_ops k v s = Some s'"
    using lipp_insert_ok [OF inv(1), of std_opts k v s'] that ok
    by (simp add: lipp_ops_def lipp_ok_def std_opts_def split: sum.splits)
qed

end
