(* ===== verification/Block_Phases.thy ===== *)
theory Block_Phases
  imports Benchmark_Ok
begin

text \<open>
  Block-wise workloads: where the generator puts the insertions, lookups and range queries of every
  block, and that the phases of the driver, which it finds again by scanning for insertions, run
  through all of them.
\<close>

subsection \<open>The slots of the blocks\<close>

text \<open>A block is the numbers of its insertions, lookups and range queries, which lie in this order.\<close>

type_synonym block = "nat \<times> nat \<times> nat"

fun block_size :: "block \<Rightarrow> nat" where
  "block_size (x, y, z) = x + y + z"

fun ins_slots :: "nat \<Rightarrow> block list \<Rightarrow> nat list" where
  "ins_slots c [] = []"
| "ins_slots c ((x, y, z) # bs) = [c..<c + x] @ ins_slots (c + x + y + z) bs"

fun look_slots :: "nat \<Rightarrow> block list \<Rightarrow> nat list" where
  "look_slots c [] = []"
| "look_slots c ((x, y, z) # bs) = [c + x..<c + x + y] @ look_slots (c + x + y + z) bs"

fun range_slots :: "nat \<Rightarrow> block list \<Rightarrow> nat list" where
  "range_slots c [] = []"
| "range_slots c ((x, y, z) # bs) = [c + x + y..<c + x + y + z] @ range_slots (c + x + y + z) bs"

fun blocks :: "nat \<Rightarrow> nat \<Rightarrow> nat \<Rightarrow> nat \<Rightarrow> nat \<Rightarrow> nat \<Rightarrow> nat \<Rightarrow> block list" where
  "blocks qx qy qz 0 x y z = []"
| "blocks qx qy qz (Suc l) x y z = (if l = 0 then [(x, y, z)] else (qx, qy, qz) # blocks qx qy qz l (x - qx) (y - qy) (z - qz))"

lemma slots_bounds:
  "p \<in> set (ins_slots c bs) \<union> set (look_slots c bs) \<union> set (range_slots c bs) \<Longrightarrow> c \<le> p \<and> p < c + sum_list (map block_size bs)"
proof (induction bs arbitrary: c)
  case (Cons b bs)
  obtain x y z where b: "b = (x, y, z)" by (cases b)
  show ?case using Cons.IH [of "c + x + y + z"] Cons.prems by (auto simp: b)
qed simp

lemma slots_disjoint:
  "set (ins_slots c bs) \<inter> (set (look_slots c bs) \<union> set (range_slots c bs)) = {}"
proof (induction bs arbitrary: c)
  case (Cons b bs)
  obtain x y z where b: "b = (x, y, z)" by (cases b)
  have "c + x + y + z \<le> p" if "p \<in> set (ins_slots (c + x + y + z) bs) \<union> set (look_slots (c + x + y + z) bs) \<union> set (range_slots (c + x + y + z) bs)" for p
    using slots_bounds [OF that] by simp
  then show ?case using Cons.IH [of "c + x + y + z"] by (fastforce simp: b)
qed simp

lemma sum_blocks:
  "(l - 1) * qx \<le> x \<Longrightarrow> (l - 1) * qy \<le> y \<Longrightarrow> (l - 1) * qz \<le> z \<Longrightarrow> 0 < l \<Longrightarrow>
   sum_list (map block_size (blocks qx qy qz l x y z)) = x + y + z \<and> length (blocks qx qy qz l x y z) = l"
proof (induction l arbitrary: x y z)
  case (Suc l)
  show ?case
  proof (cases l)
    case (Suc k)
    have q: "qx + k * qx \<le> x" "qy + k * qy \<le> y" "qz + k * qz \<le> z" using Suc.prems Suc by simp_all
    then have "sum_list (map block_size (blocks qx qy qz l (x - qx) (y - qy) (z - qz))) = (x - qx) + (y - qy) + (z - qz)
        \<and> length (blocks qx qy qz l (x - qx) (y - qy) (z - qz)) = l"
      by (intro Suc.IH) (use Suc in auto)
    then show ?thesis using q Suc by simp
  qed simp
qed simp

subsection \<open>The permutation of a block-wise workload\<close>

lemma place_block_append:
  assumes "n \<le> length X"
  shows "place_block (length A) cur n (A @ X @ W) = A @ [cur..<cur + n] @ drop n X @ W"
  using assms
proof (induction n)
  case (Suc n)
  then have "drop n X = X ! n # drop (Suc n) X" by (simp add: Cons_nth_drop_Suc)
  then show ?case using Suc by (simp add: place_block_def list_update_append)
qed (simp add: place_block_def)

lemma permute_blocks_append:
  assumes "length A + length X = ic" "length B + length Y = lc" "length C + length Z = rq" "n = ic + lc + rq"
    and "(l - 1) * (ic div N) \<le> length X" "(l - 1) * (lc div N) \<le> length Y" "(l - 1) * (rq div N) \<le> length Z" "0 < l"
  shows "permute_blocks n ic rq lc N l cur (length A) (ic + length B) (ic + lc + length C) (A @ X @ B @ Y @ C @ Z)
    = (let bs = blocks (ic div N) (lc div N) (rq div N) l (length X) (length Y) (length Z) in
       A @ ins_slots cur bs @ B @ look_slots cur bs @ C @ range_slots cur bs)"
  using assms
proof (induction l arbitrary: A B C X Y Z cur)
  case (Suc l)
  define x y z where "x = (if l \<noteq> 0 then ic div N else length X)" and "y = (if l \<noteq> 0 then lc div N else length Y)"
    and "z = (if l \<noteq> 0 then rq div N else length Z)"
  have le: "x \<le> length X" "y \<le> length Y" "z \<le> length Z"
    using Suc.prems(5-7) by (cases l; simp add: x_def y_def z_def)+
  have cnt: "(if l \<noteq> 0 then ic div N else ic - length A) = x" "(if l \<noteq> 0 then lc div N else ic + lc - (ic + length B)) = y"
    "(if l \<noteq> 0 then rq div N else n - (ic + lc + length C)) = z"
    using Suc.prems(1-4) by (auto simp: x_def y_def z_def)
  let ?A = "A @ [cur..<cur + x]" and ?X = "drop x X"
  let ?B = "B @ [cur + x..<cur + x + y]" and ?Y = "drop y Y"
  let ?C = "C @ [cur + x + y..<cur + x + y + z]" and ?Z = "drop z Z"
  have p1: "place_block (length A) cur x (A @ X @ B @ Y @ C @ Z) = ?A @ ?X @ B @ Y @ C @ Z"
    using place_block_append [OF le(1), of A cur "B @ Y @ C @ Z"] by simp
  have p2: "place_block (ic + length B) (cur + x) y (?A @ ?X @ B @ Y @ C @ Z) = ?A @ ?X @ ?B @ ?Y @ C @ Z"
    using place_block_append [OF le(2), of "?A @ ?X @ B" "cur + x" "C @ Z"] le(1)
    by (simp add: Suc.prems(1) [symmetric] add.assoc)
  have p3: "place_block (ic + lc + length C) (cur + x + y) z (?A @ ?X @ ?B @ ?Y @ C @ Z) = ?A @ ?X @ ?B @ ?Y @ ?C @ ?Z"
    using place_block_append [OF le(3), of "?A @ ?X @ ?B @ ?Y @ C" "cur + x + y" "[]"] le(1,2)
    by (simp add: Suc.prems(1,2) [symmetric] add.assoc)
  have step: "permute_blocks n ic rq lc N (Suc l) cur (length A) (ic + length B) (ic + lc + length C) (A @ X @ B @ Y @ C @ Z)
      = permute_blocks n ic rq lc N l (cur + x + y + z) (length ?A) (ic + length ?B) (ic + lc + length ?C) (?A @ ?X @ ?B @ ?Y @ ?C @ ?Z)"
    by (simp only: permute_blocks.simps Let_def cnt p1 p2 p3) (simp add: add.assoc)
  show ?case
  proof (cases l)
    case 0
    then show ?thesis unfolding step by (simp add: x_def y_def z_def)
  next
    case (Suc k)
    then have xyz: "x = ic div N" "y = lc div N" "z = rq div N" by (simp_all add: x_def y_def z_def)
    have "permute_blocks n ic rq lc N l (cur + x + y + z) (length ?A) (ic + length ?B) (ic + lc + length ?C) (?A @ ?X @ ?B @ ?Y @ ?C @ ?Z)
      = (let bs = blocks (ic div N) (lc div N) (rq div N) l (length ?X) (length ?Y) (length ?Z) in
         ?A @ ins_slots (cur + x + y + z) bs @ ?B @ look_slots (cur + x + y + z) bs @ ?C @ range_slots (cur + x + y + z) bs)"
      by (rule Suc.IH) (use Suc.prems Suc le xyz in auto)
    then show ?thesis unfolding step using Suc by (simp add: xyz Let_def)
  qed
qed simp

definition blocks_of :: "nat \<Rightarrow> nat \<Rightarrow> nat \<Rightarrow> nat \<Rightarrow> block list" where
  "blocks_of ic lc rq N = blocks (ic div N) (lc div N) (rq div N) N ic lc rq"

lemma div_part: "(N - 1) * (m div N) \<le> (m :: nat)"
  by (metis diff_le_self mult_le_mono1 order_trans times_div_less_eq_dividend)

lemma generate_permute_blockwise_eq:
  assumes "n = ic + lc + rq" "0 < N"
  shows "generate_permute_blockwise n ic rq lc N =
    ins_slots 0 (blocks_of ic lc rq N) @ look_slots 0 (blocks_of ic lc rq N) @ range_slots 0 (blocks_of ic lc rq N)"
  using permute_blocks_append [of "[]" "replicate ic 0" ic "[]" "replicate lc 0" lc "[]" "replicate rq 0" rq n N N 0] assms div_part [of N]
  by (simp add: generate_permute_blockwise_def blocks_of_def Let_def replicate_add)

lemma blocks_of_size: "0 < N \<Longrightarrow> sum_list (map block_size (blocks_of ic lc rq N)) = ic + lc + rq \<and> length (blocks_of ic lc rq N) = N"
  unfolding blocks_of_def by (intro sum_blocks div_part)

lemma length_ins_slots: "length (ins_slots c bs) = sum_list (map fst bs)"
  by (induction c bs rule: ins_slots.induct) auto

lemma sum_ins_blocks: "(l - 1) * qx \<le> x \<Longrightarrow> 0 < l \<Longrightarrow> sum_list (map fst (blocks qx qy qz l x y z)) = x"
proof (induction l arbitrary: x y z)
  case (Suc l)
  show ?case
  proof (cases l)
    case (Suc k)
    have q: "qx + k * qx \<le> x" using Suc.prems Suc by simp
    then have "sum_list (map fst (blocks qx qy qz l (x - qx) (y - qy) (z - qz))) = x - qx"
      by (intro Suc.IH) (use Suc in auto)
    then show ?thesis using q Suc by simp
  qed simp
qed simp

lemma sum_look_blocks: "(l - 1) * qy \<le> y \<Longrightarrow> 0 < l \<Longrightarrow> length (look_slots c (blocks qx qy qz l x y z)) = y"
proof (induction l arbitrary: c x y z)
  case (Suc l)
  show ?case
  proof (cases l)
    case (Suc k)
    have q: "qy + k * qy \<le> y" using Suc.prems Suc by simp
    then have "length (look_slots (c + qx + qy + qz) (blocks qx qy qz l (x - qx) (y - qy) (z - qz))) = y - qy"
      by (intro Suc.IH) (use Suc in auto)
    then show ?thesis using q Suc by simp
  qed simp
qed simp

text \<open>The parts of \<open>op_id\<close> that the generator uses for the three kinds\<close>

lemma op_order_blocks:
  fixes a defines "bs \<equiv> blocks_of (insert_count a) (lookup_count a) (range_query_count a) (block_num a)"
  assumes "insert_count a + range_query_count a \<le> op_cnt a" "1 < block_num a" "\<not> mix a"
  shows "take (insert_count a) (op_order shuffle a) = ins_slots 0 bs"
    "take (lookup_count a) (drop (insert_count a) (op_order shuffle a)) = look_slots 0 bs"
    "drop (insert_count a + lookup_count a) (op_order shuffle a) = range_slots 0 bs"
    "sum_list (map block_size bs) = op_cnt a" "length bs = block_num a"
proof -
  have n: "op_cnt a = insert_count a + lookup_count a + range_query_count a" using assms(2) by (simp add: lookup_count_def)
  have N: "0 < block_num a" using assms(3) by simp
  have o: "op_order shuffle a = ins_slots 0 bs @ look_slots 0 bs @ range_slots 0 bs"
    using generate_permute_blockwise_eq [OF n N] assms(3,4) by (simp add: op_order_def Let_def bs_def)
  have l: "length (ins_slots 0 bs) = insert_count a" "length (look_slots 0 bs) = lookup_count a"
    using sum_ins_blocks [OF div_part N] sum_look_blocks [OF div_part N] by (simp_all add: length_ins_slots bs_def blocks_of_def)
  show "take (insert_count a) (op_order shuffle a) = ins_slots 0 bs"
    "take (lookup_count a) (drop (insert_count a) (op_order shuffle a)) = look_slots 0 bs"
    "drop (insert_count a + lookup_count a) (op_order shuffle a) = range_slots 0 bs"
    unfolding o l [symmetric] by (simp_all add: l)
  show "sum_list (map block_size bs) = op_cnt a" "length bs = block_num a"
    using blocks_of_size [OF N] n by (simp_all add: bs_def)
qed

subsection \<open>The kinds of the operations\<close>

lemma set_kinds_nth:
  "p < length ops \<Longrightarrow> op_kind (set_kinds kind js ops ! p) = (if p \<in> set js then kind else op_kind (ops ! p)) \<and> length (set_kinds kind js ops) = length ops"
proof (induction js arbitrary: ops)
  case (Cons j js)
  show ?case using Cons.IH [of "ops[j := (ops ! j)\<lparr>op_kind := kind\<rparr>]"] Cons.prems
    by (auto simp: set_kinds_def nth_list_update)
qed (simp add: set_kinds_def)

lemma set_inserts_nth:
  "p < length ops \<Longrightarrow> op_kind (set_inserts zs ops ! p) = (if p \<in> fst ` set zs then INSERT else op_kind (ops ! p)) \<and> length (set_inserts zs ops) = length ops"
proof (induction zs arbitrary: ops)
  case (Cons z zs)
  obtain i kv where z: "z = (i, kv)" by (cases z)
  show ?case using Cons.IH [of "ops[i := (ops ! i)\<lparr>op_kind := INSERT, lo_key := fst kv, op_result := snd kv\<rparr>]"] Cons.prems
    by (auto simp: z nth_list_update)
qed simp

lemma fst_zip_take: "fst ` set (zip xs ys) = set (take (length ys) xs)"
proof -
  have "map fst (zip xs ys) = take (length ys) xs" by (simp add: map_fst_zip_take min_def)
  then show ?thesis by (metis list.set_map)
qed

lemma prepared_kinds:
  assumes p: "prepare_ops shuffle sample a org_vec = Some (ops, bulk)"
    and c: "insert_count a + range_query_count a \<le> op_cnt a" "1 < block_num a" "\<not> mix a"
  shows "\<exists>m. \<forall>i<op_cnt a. op_kind (ops ! i) = INSERT \<longleftrightarrow>
    i \<in> set (take m (ins_slots 0 (blocks_of (insert_count a) (lookup_count a) (range_query_count a) (block_num a))))"
proof -
  let ?bs = "blocks_of (insert_count a) (lookup_count a) (range_query_count a) (block_num a)" and ?tot = "replicate (op_cnt a) empty_op"
  note o = op_order_blocks(1-3) [OF c, of shuffle]
  obtain ops1 bulk1 where 1: "(if insert_ratio a > 0 then generate_inserts shuffle ?tot (op_order shuffle a) org_vec
      (insert_count a) (insert_pattern a) (hotspot_ratio a) else Some (?tot, org_vec)) = Some (ops1, bulk1)"
    "ops = set_kinds RANGE_QUERY (range_slots 0 ?bs) (set_kinds LOOKUP (look_slots 0 ?bs) ops1)"
    using p by (auto simp: prepare_ops_def Let_def o(2,3) split: Option.bind_splits)
  obtain vals where v: "ops1 = set_inserts (zip (ins_slots 0 ?bs) vals) ?tot"
  proof (cases "insert_ratio a > 0")
    case True
    then have "generate_inserts shuffle ?tot (op_order shuffle a) org_vec (insert_count a) (insert_pattern a) (hotspot_ratio a) = Some (ops1, bulk1)"
      using 1(1) by simp
    from generate_inserts_form [OF this] show ?thesis using that unfolding o(1) by blast
  next
    case False
    then show ?thesis using that [of "[]"] 1(1) by simp
  qed
  have "op_kind (ops ! i) = INSERT \<longleftrightarrow> i \<in> set (take (length vals) (ins_slots 0 ?bs))" if "i < op_cnt a" for i
  proof -
    have k: "op_kind (ops1 ! i) = (if i \<in> set (take (length vals) (ins_slots 0 ?bs)) then INSERT else 0)" "length ops1 = op_cnt a"
      using set_inserts_nth [of i ?tot "zip (ins_slots 0 ?bs) vals"] that unfolding fst_zip_take v by (simp_all add: empty_op_def)
    have d: "i \<notin> set (look_slots 0 ?bs) \<and> i \<notin> set (range_slots 0 ?bs)" if "i \<in> set (take (length vals) (ins_slots 0 ?bs))"
      using in_set_takeD [OF that] slots_disjoint [of 0 ?bs] by blast
    have "i < length ops1" using k(2) that by simp
    note s = set_kinds_nth [OF this, of LOOKUP "look_slots 0 ?bs"]
    have "i < length (set_kinds LOOKUP (look_slots 0 ?bs) ops1)" using s k(2) that by simp
    from set_kinds_nth [OF this, of RANGE_QUERY "range_slots 0 ?bs"] s k(1) d
    show ?thesis unfolding 1(2) by (auto simp: op_kinds)
  qed
  then show ?thesis by blast
qed

subsection \<open>The phases reach the end\<close>

lemma phase_end_reaches:
  assumes "cur \<le> length ops" "t \<le> length ops" "\<forall>p. cur \<le> p \<and> p < t \<longrightarrow> (op_kind (ops ! p) = INSERT) = odd j"
  shows "t \<le> phase_end ops j cur"
proof (cases "t \<le> cur")
  case True
  then show ?thesis using phase_end_bounds [OF assms(1), of j] by linarith
next
  case False
  let ?P = "\<lambda>x. (op_kind x = INSERT) = odd j"
  have "drop cur ops = drop cur (take t ops @ drop t ops)" by simp
  also have "\<dots> = drop cur (take t ops) @ drop t ops" unfolding drop_append using False assms(2) by simp
  finally have "drop cur ops = drop cur (take t ops) @ drop t ops" .
  moreover have "?P x" if x: "x \<in> set (drop cur (take t ops))" for x
  proof -
    obtain i where i: "i < t - cur" "x = ops ! (cur + i)" using x assms(2) by (auto simp: in_set_conv_nth)
    then show ?thesis using assms(3) by simp
  qed
  ultimately have "takeWhile ?P (drop cur ops) = drop cur (take t ops) @ takeWhile ?P (drop t ops)" by simp
  then show ?thesis using False assms(2) by (simp add: phase_end_def)
qed

lemma block_phases_reach:
  "\<forall>p. c \<le> p \<and> p < length ops \<longrightarrow> (op_kind (ops ! p) = INSERT) = (p \<in> set (take m (ins_slots c bs)))
   \<Longrightarrow> c + sum_list (map block_size bs) = length ops \<Longrightarrow> c \<le> cur \<Longrightarrow> cur \<le> length ops \<Longrightarrow> odd j
   \<Longrightarrow> last (cur # phase_ends ops j (2 * length bs) cur) = length ops"
proof (induction bs arbitrary: c m cur j)
  case (Cons b bs)
  obtain x y z where b: "b = (x, y, z)" by (cases b)
  define c' where "c' = c + x + y + z"
  define e where "e = c + min x m"
  have len: "c' + sum_list (map block_size bs) = length ops" using Cons.prems(2) by (simp add: b c'_def)
  have tk: "take m (ins_slots c (b # bs)) = [c..<e] @ take (m - x) (ins_slots c' bs)"
    by (auto simp: b e_def c'_def take_upt min_def)
  have above: "c' \<le> p" if "p \<in> set (take (m - x) (ins_slots c' bs))" for p
    using slots_bounds [of p c' bs] in_set_takeD [OF that] by blast
  have ee: "e \<le> c'" "c \<le> e" by (simp_all add: e_def c'_def)
  have ins: "op_kind (ops ! p) = INSERT" if "c \<le> p" "p < e" for p
    using Cons.prems(1) [rule_format, of p] that ee len tk by auto
  have others: "op_kind (ops ! p) \<noteq> INSERT" if "e \<le> p" "p < c'" for p
    using Cons.prems(1) [rule_format, of p] that ee len tk above [of p] by auto
  define e1 e2 where "e1 = phase_end ops j cur" and "e2 = phase_end ops (Suc j) e1"
  have 1: "cur \<le> e1" "e1 \<le> length ops" "e \<le> e1"
    using phase_end_bounds [OF Cons.prems(4), of j] phase_end_reaches [OF Cons.prems(4), of e j] ins Cons.prems(3,5) ee len
    by (auto simp: e1_def)
  have 2: "e2 \<le> length ops" "c' \<le> e2"
    using phase_end_bounds [OF 1(2), of "Suc j"] phase_end_reaches [OF 1(2), of c' "Suc j"] others 1(3) Cons.prems(5) len
    by (auto simp: e2_def)
  have "last (e2 # phase_ends ops (Suc (Suc j)) (2 * length bs) e2) = length ops"
  proof (rule Cons.IH [OF _ len 2(2,1)])
    show "\<forall>p. c' \<le> p \<and> p < length ops \<longrightarrow> (op_kind (ops ! p) = INSERT) = (p \<in> set (take (m - x) (ins_slots c' bs)))"
      using Cons.prems(1) tk ee by auto
    show "odd (Suc (Suc j))" using Cons.prems(5) by simp
  qed
  then show ?case by (simp add: Let_def e1_def e2_def)
qed simp

lemma generated_blocks_covered:
  assumes g: "shuffle_ok shuffle" "sample_ok sample" "fits_u64 keys" "generate shuffle sample a keys = Some (bulk, ops)"
    and m: "1 < block_num a" "\<not> mix a"
  shows "last (0 # phase_ends ops 1 (2 * block_num a) 0) = length ops"
proof -
  let ?bs = "blocks_of (insert_count a) (lookup_count a) (range_query_count a) (block_num a)"
  have c: "insert_count a + range_query_count a \<le> op_cnt a" using g(4) by (simp add: generate_def Let_def split: if_splits)
  obtain tot where p: "prepare_ops shuffle sample a (add_values keys) = Some (tot, bulk)" and kinds: "map op_kind ops = map op_kind tot"
    using generate_drawn [OF g] by blast
  obtain k where k: "\<forall>i<op_cnt a. op_kind (tot ! i) = INSERT \<longleftrightarrow> i \<in> set (take k (ins_slots 0 ?bs))"
    using prepared_kinds [OF p c m] by blast
  have len: "length ops = length tot" by (rule map_eq_imp_length_eq [OF kinds])
  have tl: "length tot = op_cnt a" by (rule prepare_ops_length [OF p])
  have "op_kind (ops ! i) = op_kind (tot ! i)" if "i < length ops" for i
    using kinds that len by (metis nth_map)
  then have "\<forall>p. 0 \<le> p \<and> p < length ops \<longrightarrow> (op_kind (ops ! p) = INSERT) = (p \<in> set (take k (ins_slots 0 ?bs)))"
    using k len tl by simp
  from block_phases_reach [OF this, of 0 1] op_order_blocks(4,5) [OF c m] len tl show ?thesis by simp
qed

lemma consecutive_segments:
  "consecutive p ps q \<Longrightarrow> q \<le> length ops \<Longrightarrow> concat (map (\<lambda>(i, j). drop i (take j ops)) ps) = drop p (take q ops)"
proof (induction p ps q rule: consecutive.induct)
  case (2 p a b ps q)
  have c: "a = p" "a \<le> b" "consecutive b ps q" using 2(2) by simp_all
  have "take q ops = take b ops @ drop b (take q ops)" using consecutive_le [OF c(3)] by (metis append_take_drop_id min.absorb1 take_take)
  then have "drop p (take q ops) = drop p (take b ops @ drop b (take q ops))" by (rule arg_cong)
  also have "\<dots> = drop p (take b ops) @ drop b (take q ops)"
    unfolding drop_append using c(1,2) consecutive_le [OF c(3)] 2(3) by simp
  finally show ?case using 2(1) [OF c(3) 2(3)] c(1) by simp
qed simp

lemma generated_phases_cover:
  assumes "shuffle_ok shuffle" "sample_ok sample" "generate shuffle sample a keys = Some (bulk, ops)"
    and l: "loads_back a keys bulk ops" and b: "bound_points (name_of a) ops = Some ps"
  shows "consecutive 0 (phases (name_of a) ps) (length ops)"
proof (cases "1 < block_num a")
  case True
  have f: "\<not> flag (name_of a)" "\<not> mix a" using l True by (auto simp: loads_back_def flag_def name_of_def)
  have nb: "num_blocks (name_of a) = block_num a" using True by (simp add: name_of_def)
  have ps: "ps = 0 # phase_ends ops 1 (2 * block_num a) 0" using b True by (simp add: bound_points_def nb)
  have "fits_u64 keys" using l by (simp add: loads_back_def)
  note last = generated_blocks_covered [OF assms(1,2) this assms(3) True f(2)]
  show ?thesis using phase_ends_consecutive [of 0 ops 1 "2 * block_num a"] last f(1) True
    by (simp add: phases_def nb ps Let_def del: upt_Suc phase_ends.simps)
next
  case False
  then have nb: "num_blocks (name_of a) = 1" by (simp add: name_of_def)
  then show ?thesis using phases_ok [OF b] by auto
qed

end
