(* ===== verification/Benchmark_Props.thy ===== *)
theory Benchmark_Props
  imports Benchmark_Index Block_Phases Btree_Props
begin

text \<open>
  The properties of the workload files, of the generator and of the driver, ending in the
  composition of all of them with an index.
\<close>

subsection \<open>Files\<close>



subsection \<open>The generator\<close>

definition sample_args :: gen_args where
  "sample_args = \<lparr>op_cnt = 4, range_query_ratio = 0, negative_lookup_ratio = 1 / 2, insert_ratio = 1 / 2,
     insert_pattern = Equality, hotspot_ratio = 1 / 8, mix = True, block_num = 1, bulkload_cnt = None, fb_data = False\<rparr>"

definition sample_keys :: "u64 list" where
  "sample_keys = [10, 20, 20, 30, 40, 50, 60, 70]"

definition sample_workload :: "key_value list \<times> u64 operation list" where
  "sample_workload = the (generate (\<lambda>c. rev) (\<lambda>n xs. take n xs) sample_args sample_keys)"

lemma sample_generated: "generate (\<lambda>c. rev) (\<lambda>n xs. take n xs) sample_args sample_keys = Some (fst sample_workload, snd sample_workload)"
proof -
  have "generate (\<lambda>c. rev) (\<lambda>n xs. take n xs) sample_args sample_keys \<noteq> None" by code_simp
  then show ?thesis by (auto simp: sample_workload_def)
qed

lemma rev_take_ok: "shuffle_ok (\<lambda>c. rev)" "sample_ok (\<lambda>n xs. take n xs)"
  by (simp_all add: shuffle_ok_def sample_ok_def take_is_prefix prefix_imp_subseq)

text \<open>C11: A workload the generator returns is right, whatever the shuffles and samples are: the pairs to
  load are sorted pairs of the data set, every insertion is a pair of the data set, a lookup expects
  success exactly if its key is among the pairs loaded or inserted before it, a range query
  expects the sum of the values of these pairs that lie in its range, and the number of operations is
  the one asked for.\<close>

theorem generator_right:
  assumes "shuffle_ok shuffle" "sample_ok sample" "fits_u64 keys"
    and "generate shuffle sample a keys = Some (bulk, ops)"
  shows "sorted (map fst bulk) \<and> (\<forall>kv\<in>set bulk. valid_pair keys kv) \<and> length ops = op_cnt a \<and> workload_right keys bulk ops"
  using generate_ok [OF assms] by (simp add: bulk_ok_def)

lemma generator_right_witness:
  "workload_right sample_keys (fst sample_workload) (snd sample_workload) \<and> length (snd sample_workload) = 4"
proof -
  have "fits_u64 sample_keys" by (simp add: sample_keys_def fits_u64_def)
  from generator_right [OF rev_take_ok this sample_generated] show ?thesis by (simp add: sample_args_def)
qed

subsection \<open>The driver\<close>

text \<open>C1: The benchmark passes end to end on the B+ tree: on the files of a workload the generator
  returned, with verification switched on or off, in any mode, every run loads the data, executes
  all phases and prints its result, and no answer is reported as wrong, provided that a phase
  whose latencies are measured has an operation.\<close>

theorem benchmark_stx_passes:
  assumes "shuffle_ok shuffle" "sample_ok sample" "generate shuffle sample a keys = Some (bulk, ops)"
    and "loads_back a keys bulk ops" "btree_class_ok C" "allow_duplicates C"
  shows "\<exists>b. load_generated a keys bulk ops = Some b
    \<and> (o_through opt \<or> o_build opt \<or> all_measured b \<longrightarrow> Run (stx_ops C) opt b = Some Printed)"
  by (rule stx_bench.generated_passes [OF assms(1-4)]) (use assms(5,6) in \<open>simp_all add: stx_class_ok_def stx_ops_def\<close>)

lemma sample_loads_back: "loads_back sample_args sample_keys (fst sample_workload) (snd sample_workload)"
proof -
  have n: "length (fst sample_workload) = 6" "length (snd sample_workload) = 4" by code_simp+
  have r: "insert_ratio sample_args > 0 \<longleftrightarrow> printed (insert_ratio sample_args) > 0" by code_simp
  have "fits_u64 sample_keys" by (simp add: sample_keys_def fits_u64_def)
  moreover have "\<not> block_num sample_args > 1" by (simp add: sample_args_def)
  ultimately show ?thesis unfolding loads_back_def using r by (simp add: fits_u64_def n)
qed

lemma benchmark_stx_passes_witness:
  "\<exists>b. load_generated sample_args sample_keys (fst sample_workload) (snd sample_workload) = Some b
    \<and> Run (stx_ops sample_btree_class) \<lparr>o_repeats = 1, o_through = False, o_build = False, o_verify = True\<rparr> b = Some Printed"
proof -
  obtain b where b: "load_generated sample_args sample_keys (fst sample_workload) (snd sample_workload) = Some b"
    "all_measured b \<longrightarrow> Run (stx_ops sample_btree_class) \<lparr>o_repeats = 1, o_through = False, o_build = False, o_verify = True\<rparr> b = Some Printed"
    using benchmark_stx_passes [OF rev_take_ok sample_generated sample_loads_back sample_btree_class_ok] by blast
  have "case load_generated sample_args sample_keys (fst sample_workload) (snd sample_workload) of None \<Rightarrow> False | Some b \<Rightarrow> all_measured b"
    by code_simp
  then show ?thesis using b by auto
qed



text \<open>C12: The driver executes every operation of a generated workload exactly once and in order: the
  phases it cuts the workload into, one for a mixed or uniform workload and two for every block
  otherwise, found again by scanning for insertions, lie end to end.\<close>

theorem phases_cover_workload:
  assumes "shuffle_ok shuffle" "sample_ok sample" "generate shuffle sample a keys = Some (bulk, ops)"
    and "loads_back a keys bulk ops" "bound_points (name_of a) ops = Some ps"
  shows "concat (map (\<lambda>(i, j). drop i (take j ops)) (phases (name_of a) ps)) = ops
    \<and> length (phases (name_of a) ps) = (if flag (name_of a) then num_blocks (name_of a) else 2 * num_blocks (name_of a))"
proof
  show "concat (map (\<lambda>(i, j). drop i (take j ops)) (phases (name_of a) ps)) = ops"
    using consecutive_segments [OF generated_phases_cover [OF assms], of ops] by simp
qed (simp add: phases_def Let_def)

definition block_args :: gen_args where
  "block_args = sample_args\<lparr>mix := False, block_num := 2\<rparr>"

definition block_workload :: "key_value list \<times> u64 operation list" where
  "block_workload = the (generate (\<lambda>c. rev) (\<lambda>n xs. take n xs) block_args sample_keys)"

lemma block_generated: "generate (\<lambda>c. rev) (\<lambda>n xs. take n xs) block_args sample_keys = Some (fst block_workload, snd block_workload)"
proof -
  have "generate (\<lambda>c. rev) (\<lambda>n xs. take n xs) block_args sample_keys \<noteq> None" by code_simp
  then show ?thesis by (auto simp: block_workload_def)
qed

lemma block_points: "bound_points (name_of block_args) (snd block_workload) = Some [0, 1, 2, 3, 4]"
  by code_simp

lemma phases_cover_workload_witness:
  "map op_kind (concat (map (\<lambda>(i, j). drop i (take j (snd block_workload))) (phases (name_of block_args) [0, 1, 2, 3, 4]))) = [2, 0, 2, 0]"
proof -
  have n: "length (fst block_workload) = 6" "length (snd block_workload) = 4" by code_simp+
  have r: "insert_ratio block_args > 0 \<longleftrightarrow> printed (insert_ratio block_args) > 0" "\<not> flag (name_of block_args)" by code_simp+
  have "fits_u64 sample_keys" by (simp add: sample_keys_def fits_u64_def)
  then have l: "loads_back block_args sample_keys (fst block_workload) (snd block_workload)"
    unfolding loads_back_def using r by (simp add: fits_u64_def n)
  have "map op_kind (snd block_workload) = [2, 0, 2, 0]" by code_simp
  then show ?thesis using phases_cover_workload [OF rev_take_ok block_generated l block_points] by simp
qed

text \<open>With \<open>--through\<close> the option \<open>--verify\<close> has no effect: whatever the index answers, a run in this
  mode on known operations does not fail.\<close>

lemma through_skips_verification:
  assumes "\<forall>x\<in>set (b_ops b). op_kind x \<in> {LOOKUP, RANGE_QUERY, INSERT}" "o_through opt"
  shows "Run I opt b \<noteq> Some Failed"
proof -
  have op: "\<not> f" if "do_op I (mode_of opt) keys x s = Some (s', f)" "op_kind x \<in> {LOOKUP, RANGE_QUERY, INSERT}" for keys x s s' f
    using that assms(2) by (auto simp: do_op_def checked_def mode_of_def split: Option.bind_splits if_splits)
  have loop: "\<not> f" if "do_ops_loop I (mode_of opt) keys xs s = Some (s', f)" "\<forall>x\<in>set xs. op_kind x \<in> {LOOKUP, RANGE_QUERY, INSERT}" for keys xs s s' f
    using that
  proof (induction xs arbitrary: s)
    case (Cons x xs)
    then show ?case using op [of keys x s] by (fastforce split: Option.bind_splits if_splits)
  qed simp
  have phase: "\<not> f" if "DoOpsCoreLoop I (mode_of opt) (b_keys b) (b_ops b) i j s = Some (s', f)" for i j s s' f
    using that loop [of "b_keys b" "drop i (take j (b_ops b))" s s' f] assms(1)
    by (auto simp: DoOpsCoreLoop_def dest!: in_set_dropD in_set_takeD split: if_splits)
  have "\<not> f" if "run_phases I (mode_of opt) (b_keys b) (b_ops b) ps s = Some (s', f)" for ps s s' f
    using that
  proof (induction ps arbitrary: s)
    case (Cons ij ps)
    then show ?case using phase by (cases ij) (fastforce split: Option.bind_splits if_splits)
  qed simp
  then have "DoOps I opt b s \<noteq> Some (s', True)" for s s' by (auto simp: DoOps_def)
  then have "repeat_runs I opt b n \<noteq> Some Failed" for n by (induction n) (auto split: Option.bind_splits if_splits)
  then show ?thesis by (simp add: Run_def)
qed

text \<open>An index that answers every lookup with \<open>NOT_FOUND\<close> and every range query with 0\<close>

definition blind_ops :: "unit index_ops" where
  "blind_ops = \<lparr>ix_new = (), ix_applicable = (\<lambda>u r i t. True), ix_Build = (\<lambda>kvs s. Some s), ix_EqualityLookup = (\<lambda>k s. Some NOT_FOUND),
     ix_RangeQuery = (\<lambda>lo hi s. Some 0), ix_Insert = (\<lambda>k v s. Some s)\<rparr>"

definition blind_benchmark :: benchmark where
  "blind_benchmark = \<lparr>b_keys = [10], b_ops = [\<lparr>op_kind = LOOKUP, lo_key = 10, hi_key = 0, op_result = 0\<rparr>], b_index_data = [(10, 0)],
     b_name = \<lparr>is_mix = False, num_blocks = 1, is_range_query = False, insert_part = 0, has_bulkload = False\<rparr>, b_points = [0, 0, 1]\<rparr>"

lemma blind_lookup_wrong: "lookup_wrong [10] 10 0 NOT_FOUND"
proof -
  have "0 < unat NOT_FOUND" by (simp add: unat_gt_0 NOT_FOUND_def)
  then show ?thesis by (simp add: lookup_wrong_def Suc_le_eq)
qed

lemma through_skips_verification_witness:
  "Run blind_ops \<lparr>o_repeats = 2, o_through = True, o_build = False, o_verify = True\<rparr> blind_benchmark \<noteq> Some Failed
   \<and> Run blind_ops \<lparr>o_repeats = 2, o_through = False, o_build = False, o_verify = True\<rparr> blind_benchmark = Some Failed"
proof
  show "Run blind_ops \<lparr>o_repeats = 2, o_through = True, o_build = False, o_verify = True\<rparr> blind_benchmark \<noteq> Some Failed"
    by (rule through_skips_verification) (simp_all add: blind_benchmark_def)
  show "Run blind_ops \<lparr>o_repeats = 2, o_through = False, o_build = False, o_verify = True\<rparr> blind_benchmark = Some Failed"
    by (simp add: Run_def blind_ops_def blind_benchmark_def numeral_2_eq_2 DoOps_def phases_def flag_def DoOpsCoreLoop_def
        do_op_def checked_def mode_of_def op_kinds blind_lookup_wrong)
qed

end
