(* ===== verification/Pla_Props.thy ===== *)
theory Pla_Props
  imports Pla_Segments
begin

text \<open>
  The properties of the piecewise linear model behind the static PGM index.
\<close>

definition sample_points :: "nat \<Rightarrow> int \<times> int" where
  "sample_points i = ([0, 1, 1, 2, 50, 51, 52, 90] ! i, int i)"

lemma sample_points_sorted: "\<forall>i j. i \<le> j \<longrightarrow> j < 8 \<longrightarrow> fst (sample_points i) \<le> fst (sample_points j)"
proof (intro allI impI)
  fix i j :: nat
  assume "i \<le> j" "j < 8"
  then show "fst (sample_points i) \<le> fst (sample_points j)"
    using sorted_nth_mono [of "[0, 1, 1, 2, 50, 51, 52, 90 :: int]" i j] by (simp add: sample_points_def)
qed

text \<open>C39: make_segmentation on points with ascending keys raises no exception and returns segments that
  follow each other over all positions. Each one starts at the first key of its range, both extreme lines
  of its rectangle pass all its points within the error, every line that does so has a slope between
  theirs, and the point at which the next segment begins fits no line together with this segment.\<close>

lemma pla_segments_right:
  assumes "0 < error" and "\<forall>i j. i \<le> j \<longrightarrow> j < n \<longrightarrow> fst (inp i) \<le> fst (inp j)"
  shows "\<exists>segs. make_segmentation n error inp = Some segs \<and> covers 0 n segs \<and> (\<forall>x\<in>set segs. segment_right error inp n x)"
  using make_segmentation_ok [OF assms(1), of n inp] assms(2) by blast

lemma pla_segments_right_witness:
  "\<exists>segs. make_segmentation 8 1 sample_points = Some segs \<and> covers 0 8 segs \<and> (\<forall>x\<in>set segs. segment_right 1 sample_points 8 x)"
  using pla_segments_right [OF _ sample_points_sorted, of 1] by simp

text \<open>C40: The greedy segmentation is optimal: no division of the positions into consecutive ranges, each
  starting at a new key and passed by some line within the error, has fewer parts than the segments
  that make_segmentation returns.\<close>

lemma pla_segments_fewest:
  assumes "0 < error" and "\<forall>i j. i \<le> j \<longrightarrow> j < n \<longrightarrow> fst (inp i) \<le> fst (inp j)"
    and "covers 0 n parts" and "\<forall>x\<in>set parts. part_fits error inp x"
  shows "\<exists>segs. make_segmentation n error inp = Some segs \<and> length segs \<le> length parts"
proof -
  obtain segs where "make_segmentation n error inp = Some segs" "covers 0 n segs" "\<forall>x\<in>set segs. segment_right error inp n x"
    using make_segmentation_ok [OF assms(1), of n inp] assms(2) by blast
  then show ?thesis using greedy_least [OF assms(3,4)] by blast
qed

lemma pla_segments_fewest_witness:
  "\<exists>segs. make_segmentation 8 1 sample_points = Some segs \<and> length segs \<le> length [(0, 4, ()), (4::nat, 8::nat, ())]"
proof (rule pla_segments_fewest [OF _ sample_points_sorted])
  have r: "run_start sample_points 0" "run_start sample_points 4" by (simp_all add: run_start_def sample_points_def)
  have "fed sample_points 0 4 = [\<lparr>px = 0, py = 0\<rparr>, \<lparr>px = 1, py = 1\<rparr>, \<lparr>px = 2, py = 3\<rparr>]"
    "fed sample_points 4 8 = [\<lparr>px = 50, py = 4\<rparr>, \<lparr>px = 51, py = 5\<rparr>, \<lparr>px = 52, py = 6\<rparr>, \<lparr>px = 90, py = 7\<rparr>]"
    by (simp_all add: fed_def sample_points_def upt_conv_Cons)
  then have "fits 1 (3/2) 0 (fed sample_points 0 4)" "fits 1 (1/20) (5/2) (fed sample_points 4 8)"
    by (simp_all add: fits_def line_within_def line_def abs_le_iff)
  then show "\<forall>x\<in>set [(0, 4, ()), (4, 8, ())]. part_fits 1 sample_points x" using r by (auto simp: part_fits_def)
qed simp_all

end
