(* ===== verification/Pgm_Wrapper.thy ===== *)
theory Pgm_Wrapper
  imports Pgm_Build
begin

text \<open>
  The static PGM index as an index of the benchmark (\<open>competitors/pgm_index.h\<close>): the sorted pairs with
  a PGM index over their keys, with 4 as the error of its upper levels. A lookup answers with the position of the key.
\<close>

record pgm_wrapper =
  static_pgm :: pgm_index
  pairs_of :: "(u64 \<times> u64) list"

definition PGM_Build :: "nat \<Rightarrow> (u64 \<times> u64) list \<Rightarrow> pgm_wrapper option" where
  "PGM_Build pgm_error data = do {
     let keys = map fst data;
     p \<leftarrow> pgm_construct pgm_error 4 keys;
     Some \<lparr>static_pgm = p, pairs_of = data\<rparr> }"

text \<open>\<open>SearchClass::lower_bound\<close> in the window of the key, with which both queries begin\<close>

definition window_search :: "nat \<Rightarrow> u64 search_fn \<Rightarrow> u64 search_fn \<Rightarrow> pgm_wrapper \<Rightarrow> u64 \<Rightarrow> nat option" where
  "window_search pgm_error lower_fn upper_fn w key = do {
     (pos, lo, hi) \<leftarrow> find_approximate pgm_error 4 upper_fn (static_pgm w) key;
     it \<leftarrow> lower_fn (int lo) (int hi) key (int pos) (vec_at fst (pairs_of w)) (<);
     Some (nat it) }"

definition PGM_EqualityLookup :: "nat \<Rightarrow> u64 search_fn \<Rightarrow> u64 search_fn \<Rightarrow> pgm_wrapper \<Rightarrow> u64 \<Rightarrow> u64 option" where
  "PGM_EqualityLookup pgm_error lower_fn upper_fn w lookup_key = do {
     it \<leftarrow> window_search pgm_error lower_fn upper_fn w lookup_key;
     Some (if it = length (pairs_of w) \<or> fst (pairs_of w ! it) \<noteq> lookup_key then OVERFLOW else of_nat it) }"

text \<open>The two loops of a range query, on the pairs from the iterator on\<close>

fun skip_smaller :: "u64 \<Rightarrow> (u64 \<times> u64) list \<Rightarrow> (u64 \<times> u64) list" where
  "skip_smaller lower_key [] = []"
| "skip_smaller lower_key (x # r) = (if fst x < lower_key then skip_smaller lower_key r else x # r)"

fun sum_while :: "u64 \<Rightarrow> (u64 \<times> u64) list \<Rightarrow> u64 \<Rightarrow> u64" where
  "sum_while upper_key [] result = result"
| "sum_while upper_key (x # r) result = (if fst x \<le> upper_key then sum_while upper_key r (result + snd x) else result)"

definition PGM_RangeQuery :: "nat \<Rightarrow> u64 search_fn \<Rightarrow> u64 search_fn \<Rightarrow> pgm_wrapper \<Rightarrow> u64 \<Rightarrow> u64 \<Rightarrow> u64 option" where
  "PGM_RangeQuery pgm_error lower_fn upper_fn w lower_key upper_key = do {
     it \<leftarrow> window_search pgm_error lower_fn upper_fn w lower_key;
     Some (sum_while upper_key (skip_smaller lower_key (drop it (pairs_of w))) 0) }"

subsection \<open>The queries\<close>

definition loadable_pairs :: "(u64 \<times> u64) list \<Rightarrow> bool" where
  "loadable_pairs kvs \<longleftrightarrow> loadable_keys (map fst kvs)"

lemma loadable_pairs_at:
  assumes "loadable_pairs kvs" "i < length kvs"
  shows "rank (map fst kvs) (fst (kvs ! i)) = i \<and> uint (fst (kvs ! i)) \<le> 2 ^ 44"
proof
  have ks: "sorted_wrt (<) (map fst kvs)" "uint (last (map fst kvs)) < 2 ^ 44" "kvs \<noteq> []" using assms(1) by (auto simp: loadable_pairs_def loadable_keys_def)
  show "rank (map fst kvs) (fst (kvs ! i)) = i"
    by (rule rank_eq) (use sorted_wrt_nth_less [OF ks(1), of _ i] assms(2) in auto)
  have "map fst kvs ! i \<le> map fst kvs ! (length (map fst kvs) - 1)"
    using sorted_nth_mono [OF strict_sorted_imp_sorted [OF ks(1)], of i "length (map fst kvs) - 1"] assms(2) by simp
  then have "map fst kvs ! i \<le> last (map fst kvs)" using ks(3) by (subst last_conv_nth) simp_all
  then have "uint (map fst kvs ! i) \<le> uint (last (map fst kvs))" by (simp only: word_le_def)
  also have "\<dots> \<le> 2 ^ 44" by (rule order.strict_implies_order [OF ks(2)])
  finally show "uint (fst (kvs ! i)) \<le> 2 ^ 44" by (simp only: nth_map [OF assms(2)])
qed

lemma PGM_Build_ok:
  assumes "loadable_pairs kvs" "0 < e" "e \<le> 1024"
  shows "\<exists>w. PGM_Build e kvs = Some w"
proof -
  have "(0::nat) < 4" "(4::nat) \<le> 1024" by simp_all
  then obtain p where "pgm_construct e 4 (map fst kvs) = Some p"
    by (rule pgm_construct_ok [OF assms(1) [unfolded loadable_pairs_def] assms(2,3)]) (rule that)
  then show ?thesis by (simp add: PGM_Build_def)
qed

lemma window_search_ok:
  assumes SU: "search_class S U" and kvs: "loadable_pairs kvs" and e: "0 < e" "e \<le> 1024" and b: "PGM_Build e kvs = Some w"
    and key: "uint key \<le> 2 ^ 44"
  obtains hi where "window_search e S U w key = Some (min (rank (map fst kvs) key) hi)" "key \<in> fst ` set kvs \<Longrightarrow> rank (map fst kvs) key \<le> hi"
proof -
  let ?ks = "map fst kvs" and ?r = "rank (map fst kvs) key"
  have ks: "loadable_keys ?ks" using kvs by (simp add: loadable_pairs_def)
  have w: "pairs_of w = kvs" "pgm_construct e 4 ?ks = Some (static_pgm w)" using b by (auto simp: PGM_Build_def split: Option.bind_splits)
  have "(0::nat) < 4" "(4::nat) \<le> 1024" by simp_all
  from find_approximate_ok [OF SU ks e this key] w(2) obtain pos lo hi where
    fa: "find_approximate e 4 U (static_pgm w) key = Some (pos, lo, hi)" and win: "window_right ?ks key (pos, lo, hi)" by auto
  have srt: "sorted ?ks" using ks by (simp add: loadable_keys_def strict_sorted_imp_sorted)
  have n: "length kvs \<le> 2 ^ 30" using ks by (simp add: loadable_keys_def)
  have r: "?r = length (takeWhile (\<lambda>x. fst x < key) kvs)" by (simp add: rank_def takeWhile_map o_def)
  have "S (int lo) (int hi) key (int pos) (vec_at fst kvs) (<) = Some (min (int ?r) (int hi))"
    unfolding r by (rule search_class.lower_clipped [OF SU _ _ _ _ _ readable_vec_at sorted_range_vec [OF srt] is_lower_bound_vec [OF srt]])
      (use win n r in \<open>auto simp: window_right_def\<close>)
  then have "window_search e S U w key = Some (min ?r hi)" by (simp add: window_search_def fa w(1) flip: of_nat_min)
  then show thesis by (rule that) (use win in \<open>auto simp: window_right_def\<close>)
qed

lemma skip_smaller_filter:
  "sorted (map fst kvs) \<Longrightarrow> j \<le> rank (map fst kvs) key \<Longrightarrow> skip_smaller key (drop j kvs) = filter (\<lambda>x. key \<le> fst x) kvs"
proof (induction kvs arbitrary: j)
  case (Cons x kvs)
  show ?case
  proof (cases "fst x < key")
    case True
    then show ?thesis using Cons.prems Cons.IH [of "j - 1"] Cons.IH [of 0] by (cases j) (auto simp: rank_def)
  next
    case False
    then have "\<forall>y\<in>set kvs. key \<le> fst y" using Cons.prems(1) by (auto intro: order_trans)
    then show ?thesis using False Cons.prems(2) by (simp add: rank_def filter_True)
  qed
qed simp

lemma sum_while_sum:
  "sorted (map fst kvs) \<Longrightarrow> sum_while hi kvs r = r + sum_list (map snd (filter (\<lambda>x. fst x \<le> hi) kvs))"
proof (induction kvs arbitrary: r)
  case (Cons x kvs)
  have "filter (\<lambda>x. fst x \<le> hi) kvs = []" if "\<not> fst x \<le> hi"
    using that Cons.prems by (auto simp: filter_empty_conv dest: order_trans)
  then show ?case using Cons by (simp add: add.assoc)
qed simp

lemma PGM_RangeQuery_ok:
  assumes SU: "search_class S U" and kvs: "loadable_pairs kvs" and e: "0 < e" "e \<le> 1024" and b: "PGM_Build e kvs = Some w"
    and lo: "uint lo \<le> 2 ^ 44"
  shows "PGM_RangeQuery e S U w lo hi = Some (sum_list (map snd (filter (\<lambda>(k, v). lo \<le> k \<and> k \<le> hi) kvs)))"
proof -
  obtain h where h: "window_search e S U w lo = Some (min (rank (map fst kvs) lo) h)"
    by (rule window_search_ok [OF SU kvs e b lo]) (rule that)
  have srt: "sorted (map fst kvs)" using kvs by (simp add: loadable_pairs_def loadable_keys_def strict_sorted_imp_sorted)
  have f: "sorted (map fst (filter (\<lambda>x. lo \<le> fst x) kvs))" by (rule sorted_filter [OF srt])
  have "pairs_of w = kvs" using b by (auto simp: PGM_Build_def split: Option.bind_splits)
  then show ?thesis
    using h skip_smaller_filter [OF srt, of "min (rank (map fst kvs) lo) h" lo] sum_while_sum [OF f, of hi 0]
    by (simp add: PGM_RangeQuery_def case_prod_beta')
qed

lemma PGM_EqualityLookup_ok:
  assumes SU: "search_class S U" and kvs: "loadable_pairs kvs" and e: "0 < e" "e \<le> 1024" and b: "PGM_Build e kvs = Some w"
    and key: "uint key \<le> 2 ^ 44"
  shows "PGM_EqualityLookup e S U w key = Some (if key \<in> fst ` set kvs then of_nat (rank (map fst kvs) key) else OVERFLOW)"
proof -
  let ?r = "rank (map fst kvs) key"
  obtain h where h: "window_search e S U w key = Some (min ?r h)" "key \<in> fst ` set kvs \<Longrightarrow> ?r \<le> h"
    by (rule window_search_ok [OF SU kvs e b key]) (rule that)
  have d: "pairs_of w = kvs" using b by (auto simp: PGM_Build_def split: Option.bind_splits)
  have le: "?r \<le> length kvs" using length_takeWhile_le [of _ "map fst kvs"] by (simp add: rank_def)
  show ?thesis
  proof (cases "key \<in> fst ` set kvs")
    case True
    obtain j where j: "j < length kvs" "fst (kvs ! j) = key" using True by (auto simp: in_set_conv_nth)
    have "?r = j" using loadable_pairs_at [OF kvs j(1)] unfolding j(2) by simp
    then show ?thesis using h True j d by (simp add: PGM_EqualityLookup_def)
  next
    case False
    have "fst (kvs ! i) \<noteq> key" if "i < length kvs" for i using False nth_mem [OF that] by force
    then show ?thesis using h(1) le d False by (auto simp: PGM_EqualityLookup_def)
  qed
qed

end
