(* ===== verification/Pgm_Props.thy ===== *)
theory Pgm_Props
  imports Pgm_Wrapper Dpgm_Static
begin

text \<open>
  The properties of the static PGM index, alone, as an index of the benchmark, and inside the dynamic
  PGM index.
\<close>

lemma find_approximate_width:
  assumes "find_approximate e er U p key = Some (pos, lo, hi)"
  shows "hi - lo \<le> 2 * e + 1"
  using assms by (auto simp: find_approximate_def SUB_ERR_def ADD_ERR_def Let_def split: Option.bind_splits if_splits)

text \<open>C9: The constructor succeeds on any keys that are ascending, different and below \<open>2 ^ 44\<close>, at most
  \<open>2 ^ 30\<close> of them, in spite of all roundings of the slopes and intercepts. For every key up to \<open>2 ^ 44\<close> the
  index returns a window of at most \<open>2 * Error + 1\<close> positions that contains its guess. The window does not
  begin behind the rank of the key, and has the rank of a key that is present, at its end at the
  latest; of an absent key below the last one it has the rank or ends right before it.\<close>

lemma pgm_window_right:
  assumes "search_class S U" and "loadable_keys ks" and "0 < e" "e \<le> 1024" and "0 < er" "er \<le> 1024" and "uint key \<le> 2 ^ 44"
  shows "\<exists>p pos lo hi. pgm_construct e er ks = Some p \<and> find_approximate e er U p key = Some (pos, lo, hi)
    \<and> lo \<le> pos \<and> pos \<le> hi \<and> hi \<le> length ks \<and> hi - lo \<le> 2 * e + 1 \<and> lo \<le> rank ks key
    \<and> (key \<in> set ks \<longrightarrow> rank ks key \<le> hi) \<and> (key \<le> last ks \<longrightarrow> rank ks key \<le> hi + 1)"
proof -
  obtain p pos lo hi where "pgm_construct e er ks = Some p" "find_approximate e er U p key = Some (pos, lo, hi)"
    "window_right ks key (pos, lo, hi)"
    using find_approximate_ok [OF assms] by auto
  then show ?thesis using find_approximate_width by (fastforce simp: window_right_def)
qed

definition sample_keys :: "u64 list" where
  "sample_keys = [0, 3, 7, 8, 18]"

lemma sample_keys: "loadable_keys sample_keys" "length sample_keys = 5" "rank sample_keys 8 = 3"
  by (simp_all add: loadable_keys_def sample_keys_def rank_def)

lemma pgm_window_right_witness:
  "\<exists>p pos lo hi. pgm_construct 1 4 sample_keys = Some p \<and> find_approximate 1 4 binary_upper_bound p 8 = Some (pos, lo, hi)
    \<and> lo \<le> 3 \<and> 3 \<le> hi \<and> hi \<le> 5 \<and> hi - lo \<le> 3"
proof -
  have "uint (8 :: u64) \<le> 2 ^ 44" "8 \<in> set sample_keys" by (simp_all add: sample_keys_def)
  with pgm_window_right [OF binary.search_class_axioms sample_keys(1), of 1 4 8] show ?thesis by (auto simp: sample_keys)
qed

text \<open>C10: The benchmark index over the static PGM index builds on sorted pairs with different keys, finds the
  position of every key that is present, answers a key that is absent with the overflow value, and returns the sum
  of the values in any range, with every search class: its two loops repair the windows that end early.\<close>

lemma pgm_wrapper_correct:
  assumes "search_class S U" and "loadable_pairs kvs" and "0 < e" "e \<le> 1024"
  shows "\<exists>w. PGM_Build e kvs = Some w
    \<and> (\<forall>i<length kvs. PGM_EqualityLookup e S U w (fst (kvs ! i)) = Some (of_nat i))
    \<and> (\<forall>key. key \<notin> fst ` set kvs \<longrightarrow> uint key \<le> 2 ^ 44 \<longrightarrow> PGM_EqualityLookup e S U w key = Some OVERFLOW)
    \<and> (\<forall>lo hi. uint lo \<le> 2 ^ 44 \<longrightarrow>
          PGM_RangeQuery e S U w lo hi = Some (sum_list (map snd (filter (\<lambda>(k, v). lo \<le> k \<and> k \<le> hi) kvs))))"
proof -
  obtain w where w: "PGM_Build e kvs = Some w" using PGM_Build_ok [OF assms(2-4)] by blast
  have "PGM_EqualityLookup e S U w (fst (kvs ! i)) = Some (of_nat i)" if "i < length kvs" for i
    using PGM_EqualityLookup_ok [OF assms w] loadable_pairs_at [OF assms(2) that] that by simp
  then show ?thesis using w PGM_EqualityLookup_ok [OF assms w] PGM_RangeQuery_ok [OF assms w] by auto
qed

definition sample_pairs :: "(u64 \<times> u64) list" where
  "sample_pairs = [(0, 10), (3, 20), (7, 30), (8, 40), (18, 50)]"

lemma pgm_wrapper_correct_witness:
  "\<exists>w. PGM_Build 1 sample_pairs = Some w
    \<and> PGM_EqualityLookup 1 interpolation_lower_bound interpolation_upper_bound w 8 = Some 3
    \<and> PGM_EqualityLookup 1 interpolation_lower_bound interpolation_upper_bound w 9 = Some OVERFLOW
    \<and> PGM_RangeQuery 1 interpolation_lower_bound interpolation_upper_bound w 4 9 = Some 70"
proof -
  have "loadable_pairs sample_pairs" by (simp add: loadable_pairs_def loadable_keys_def sample_pairs_def)
  from pgm_wrapper_correct [OF interpolation.search_class_axioms this, of 1] obtain w where w: "PGM_Build 1 sample_pairs = Some w"
    "\<forall>i<length sample_pairs. PGM_EqualityLookup 1 interpolation_lower_bound interpolation_upper_bound w (fst (sample_pairs ! i)) = Some (of_nat i)"
    "\<forall>key. key \<notin> fst ` set sample_pairs \<longrightarrow> uint key \<le> 2 ^ 44
      \<longrightarrow> PGM_EqualityLookup 1 interpolation_lower_bound interpolation_upper_bound w key = Some OVERFLOW"
    "\<forall>lo hi. uint lo \<le> 2 ^ 44 \<longrightarrow> PGM_RangeQuery 1 interpolation_lower_bound interpolation_upper_bound w lo hi
      = Some (sum_list (map snd (filter (\<lambda>(k, v). lo \<le> k \<and> k \<le> hi) sample_pairs)))"
    by auto
  have "PGM_EqualityLookup 1 interpolation_lower_bound interpolation_upper_bound w 8 = Some 3"
    using w(2) [rule_format, of 3] by (simp add: sample_pairs_def)
  moreover have "PGM_EqualityLookup 1 interpolation_lower_bound interpolation_upper_bound w 9 = Some OVERFLOW"
    using w(3) [rule_format, of 9] by (simp add: sample_pairs_def)
  moreover have "PGM_RangeQuery 1 interpolation_lower_bound interpolation_upper_bound w 4 9 = Some 70"
    using w(4) [rule_format, of 4 9] by (simp add: sample_pairs_def)
  ultimately show ?thesis using w(1) by blast
qed

text \<open>C8: The dynamic PGM index over the static one, without a hypothesis on its windows: after bulk loading
  more than \<open>2 ^ 14\<close> sorted pairs and inserting pairs with new keys, all below \<open>2 ^ 44\<close>, no insertion has failed,
  every lookup answers with the value of its key and every range query with the sum of the values in
  the range, whichever levels were merged and whichever static indexes rebuilt.\<close>

lemma dpgm_static_correct:
  assumes "search_class S U" and "0 < e" "e \<le> 1024" and "sorted (map fst bulk)" "2 ^ 14 < length bulk"
    and "distinct (map fst (bulk @ kvs))" and "\<forall>(k, v)\<in>set (bulk @ kvs). uint k < 2 ^ 44" and "length (bulk @ kvs) \<le> 2 ^ 30"
  shows "\<exists>st0 st. dpgm_construct (static_index e U) bulk = Inr st0 \<and> insert_all (dpgm_insert (static_index e U)) kvs st0 = Inr st
    \<and> (\<forall>key. uint key \<le> 2 ^ 44 \<longrightarrow> dpgm_EqualityLookup (static_index e U) S st key
          = Inr (case map_of (bulk @ kvs) key of None \<Rightarrow> OVERFLOW | Some v \<Rightarrow> v))
    \<and> (\<forall>lo hi. uint lo \<le> 2 ^ 44 \<longrightarrow> dpgm_RangeQuery (static_index e U) S st lo hi
          = Some (Inr (sum_list (map snd (filter (\<lambda>(k, v). lo \<le> k \<and> k \<le> hi) (bulk @ kvs))))))"
proof -
  obtain st0 st where st: "dpgm_construct (static_index e U) bulk = Inr st0" "insert_all (dpgm_insert (static_index e U)) kvs st0 = Inr st"
    and inv: "dpgm_inv (static_index e U) st" "small_keys st" "dpgm_map st = map_of (bulk @ kvs)"
    and items: "mset (map (\<lambda>x. (ikey x, ivalue x)) (dpgm_items st)) = mset (bulk @ kvs)"
    using dpgm_static_ok [OF assms] by blast
  note q = static_queries [OF assms(1-3) inv(1,2)]
  show ?thesis
    by (intro exI conjI allI impI) (use st q range_of_pairs [OF items] in \<open>simp_all add: inv(3)\<close>)
qed

lemma dpgm_static_correct_witness:
  "\<exists>st0 st. dpgm_construct (static_index 16 binary_upper_bound) many_kvs = Inr st0
    \<and> insert_all (dpgm_insert (static_index 16 binary_upper_bound)) [(40000, 7), (30000, 5)] st0 = Inr st
    \<and> dpgm_EqualityLookup (static_index 16 binary_upper_bound) binary_lower_bound st 30000 = Inr 5
    \<and> dpgm_EqualityLookup (static_index 16 binary_upper_bound) binary_lower_bound st 123 = Inr 1
    \<and> dpgm_RangeQuery (static_index 16 binary_upper_bound) binary_lower_bound st 20000 50000 = Some (Inr 12)"
proof -
  let ?C = "static_index 16 binary_upper_bound" and ?new = "[(40000, 7), (30000, 5)] :: (u64 \<times> u64) list"
  have below: "\<forall>(k, v)\<in>set many_kvs. k < 20000 \<and> v = 1" by (auto simp: many_kvs_def word_less_nat_alt unsigned_of_nat take_bit_nat_eq_self)
  have len: "2 ^ 14 < length many_kvs" "length (many_kvs @ ?new) \<le> 2 ^ 30" by (simp_all add: many_kvs(3))
  have "distinct (map fst (many_kvs @ ?new))" using many_kvs(2) below by auto
  moreover have "\<forall>(k, v)\<in>set (many_kvs @ ?new). uint k < 2 ^ 44" using below by (fastforce simp: word_less_def)
  ultimately obtain st0 st where st: "dpgm_construct ?C many_kvs = Inr st0" "insert_all (dpgm_insert ?C) ?new st0 = Inr st"
    and look: "\<And>key. uint key \<le> 2 ^ 44 \<Longrightarrow> dpgm_EqualityLookup ?C binary_lower_bound st key
          = Inr (case map_of (many_kvs @ ?new) key of None \<Rightarrow> OVERFLOW | Some v \<Rightarrow> v)"
    and rng: "\<And>lo hi. uint lo \<le> 2 ^ 44 \<Longrightarrow> dpgm_RangeQuery ?C binary_lower_bound st lo hi
          = Some (Inr (sum_list (map snd (filter (\<lambda>(k, v). lo \<le> k \<and> k \<le> hi) (many_kvs @ ?new)))))"
    using dpgm_static_correct [OF binary.search_class_axioms _ _ many_kvs(1) len(1) _ _ len(2), of 16] by auto
  have none: "map_of many_kvs 30000 = None" using below by (force simp: map_of_eq_None_iff)
  have "(of_nat 123, 1) \<in> set many_kvs" unfolding many_kvs_def by (simp only: set_map set_upt) (rule imageI, simp)
  then have some: "map_of many_kvs 123 = Some 1" using many_kvs(2) by simp
  have "filter (\<lambda>(k, v). 20000 \<le> k \<and> k \<le> 50000) many_kvs = []" using below by (fastforce simp: filter_empty_conv)
  then show ?thesis using st look [of 30000] look [of 123] rng [of 20000 50000] none some by (auto simp: map_add_def)
qed

end
