(* ===== verification/Spec2Isabelle.thy ===== *)
theory Spec2Isabelle
  imports Search_Props Lipp_Props Lipp_Iter_Props Dpgm_Props Hybrid_Props Btree_Erase_Props Benchmark_Props Pla_Props Pgm_Props
begin

text \<open>
  A verification library for the learned-index benchmark of this repository.

  THE PROGRAM. The benchmark (\<open>src/benchmark.h\<close>) loads sorted pairs of 64-bit keys and values
  into an index, runs a stream of lookups, range queries and insertions on it, and compares the
  answers. Every index is a class with the operations \<open>Build\<close>, \<open>EqualityLookup\<close>,
  \<open>RangeQuery\<close> and \<open>Insert\<close> (\<open>src/competitors/base.h\<close>), most of them templates over one of the
  search classes of \<open>src/searches\<close>. Modelled are the four scalar search classes, the learned index
  \<open>LIPP\<close>, the static and the dynamic PGM index, the hybrid of the latter and LIPP with its background
  thread (the index this repository adds), the STX B+ tree, the generator of the workloads (\<open>src/generate.cc\<close>) and the
  driver itself.

  CONVENTIONS. A key or value of the indexes is a \<open>64 word\<close>; the search classes and the B+ tree are
  polymorphic in ordered keys. A struct is a record, a tagged union a datatype, an array a list whose
  length is the number of slots in use. A read outside an array, a null pointer that is followed, a
  failed assertion and a loop that does not end are values: \<open>None\<close> of an option, or \<open>Inl\<close> an
  error of a sum where the code distinguishes how it stops. A loop whose end is not evident is a
  \<open>partial_function\<close>, and that it ends is proved. Template arguments are arguments: the search class,
  with the contract \<open>search_class\<close>, and the static index inside the dynamic one (\<open>pgm_class\<close>), whose
  instance in this program is \<open>static_index\<close>.

  SEARCH CLASSES (\<open>src/searches\<close>). \<open>Search_Base\<close> states the interface as the locale
  \<open>search_class\<close>: from every start in a sorted readable range \<open>lower_bound\<close> and \<open>upper_bound\<close>
  return the bound and read inside the range only. \<open>Linear_Search\<close>, \<open>Binary_Search\<close>,
  \<open>Exponential_Search\<close> and \<open>Interpolation_Search\<close> model the four classes and interpret the locale;
  the interpolation is computed in the \<open>double\<close> arithmetic of \<open>Floats\<close> (rationals rounded to 53
  bits), which is exact enough for ranges shorter than 2 to the 53. \<open>Search_Props\<close> holds the
  properties.

  LIPP (\<open>src/competitors/lipp\<close>). \<open>Lipp_Node\<close> (nodes, bitmaps, linear models in extended
  precision), \<open>Lipp_Build\<close> and \<open>Lipp_Bulk\<close> (node constructors, the FMCD bulk build),
  \<open>Lipp_Scan\<close> (flattening and destroying a subtree), \<open>Lipp_Ops\<close> (\<open>find\<close>, \<open>exists\<close>, \<open>at\<close>,
  \<open>insert_tree\<close> with its counters and rebuilds, \<open>bulk_load\<close>), \<open>Lipp_Iter\<close> (the iterator,
  \<open>lower_bound\<close>, \<open>RangeQuery\<close>). \<open>Lipp_Spec\<close> gives the map a tree stands for and its invariant;
  \<open>Lipp_Insert\<close>, \<open>Lipp_Correct\<close> and \<open>Lipp_Index\<close> prove that the operations keep the invariant and
  refine map operations, as an interpretation of \<open>index_class\<close>. \<open>Lipp_Total\<close> is the error analysis
  of \<open>build_tree_two\<close>: below 2 to the 60 two different keys always get different slots. The depth of
  the recursive bulk build is fuel; a depth of the number of keys decides it, since every level
  either splits the keys or repeats them for ever. \<open>Lipp_Props\<close>, \<open>Lipp_Iter_Props\<close>: properties,
  and the inputs on which the assertions stop the program.

  DYNAMIC PGM INDEX (\<open>src/competitors/PGM-index/include/pgm_index_dynamic.hpp\<close>).
  \<open>Dpgm_Level\<close> (items, tombstones, merge of two levels), \<open>Dpgm_Ops\<close> (levels, choice of the level,
  pairwise merge through two buffers, erasure, constructors, lookup), \<open>Dpgm_Iter\<close> (the iterator
  with its priority queue, range queries). \<open>Dpgm_Merge\<close>, \<open>Dpgm_Insert\<close>, \<open>Dpgm_Index\<close>: a merge
  into an empty or new level refines the update of the map; with new keys the level sizes are the
  digits of a binary counter (\<open>dpgm_cap\<close>, 2 to the 53 less one items, is far inside it), so insertions never
  fail: interpretation of \<open>bounded_index\<close>. \<open>Dpgm_Find\<close>, \<open>Dpgm_Range\<close>: lookups and range queries.
  The static index of a level is the template argument \<open>PGMType\<close>, here the parameter \<open>pgm_class\<close>. The
  hypothesis \<open>windows_enclose\<close> of the general theorems is what its window promises: it does not begin
  behind the place of the key, and a key of the level lies in it or at its end. \<open>Dpgm_Static\<close> instantiates
  the parameter with the model of the static PGM index, proves the hypothesis for it, and with it that
  the lookups and range queries of the whole structure are right for keys below 2 to the 44.

  PIECEWISE LINEAR MODEL (\<open>PGM-index/include/piecewise_linear_model.hpp\<close>), from which the static PGM
  index is made. \<open>Pla\<close> has the hulls, \<open>add_point\<close> and \<open>make_segmentation\<close> in the integers of the code.
  \<open>Pla_Ok\<close> proves the invariant: the rectangle holds the two extreme lines, and the two hulls keep every
  bound that matters (the move of the least slope is the mirror image of the other move);
  \<open>Pla_Segments\<close> that \<open>add_point\<close> refuses a point exactly when no line fits, and that the greedy
  segmentation is right and has the fewest segments. \<open>Pla_Props\<close>: properties.

  STATIC PGM INDEX (\<open>PGM-index/include/pgm_index.hpp\<close>, \<open>src/competitors/pgm_index.h\<close>). \<open>Pgm_Index\<close> has the
  line of a segment in \<open>long double\<close>, the segment with its \<open>double\<close> slope and 32-bit intercept, the
  construction of the levels and the search from the top level down. The proof follows a key
  through the roundings: \<open>Pgm_Float\<close> the error of every operation, \<open>Pgm_Segment\<close> that the stored line
  passes the points of its segment within the error bound and one position more between them, \<open>Pgm_Level\<close>
  that one level is built and what it promises, \<open>Pgm_Search\<close> that a step down a level finds the segment
  of the key, \<open>Pgm_Build\<close> the whole index. \<open>Pgm_Wrapper\<close> is the index of the benchmark, \<open>Pgm_Props\<close> the
  properties, those of the dynamic index over the static one among them. The bounds are part of the
  statements: keys below 2 to the 44, at most 2 to the 30 of them, errors up to 1024. With them the accumulated
  rounding errors cannot move a prediction by more than the windows allow for, and the intercepts fit 32 bits; far
  larger keys lose the exactness the argument needs, and the conversion of a prediction to \<open>int64_t\<close>
  may then have no defined result. The keys of a level are different: a level of the dynamic index has no key twice
  while the inserted keys are new.

  HYBRID INDEX (\<open>src/competitors/hybrid_pgm_lipp.h\<close>). \<open>Hybrid\<close> has the operations on the shared
  state, and the two threads as the step relation \<open>hstep\<close>, one step per index call or critical
  section. \<open>Hybrid_Inv\<close> proves the invariant over all interleavings, \<open>Hybrid_Props\<close> that lookups
  are right (over the real static index, so with its bounds on keys), that no pair is lost, that the destructor drains the buffer, and where it fails.

  B+ TREE (\<open>src/competitors/stx-btree-0.9\<close>, \<open>src/competitors/stx_btree.h\<close>). \<open>Btree_Node\<close> has the
  nodes, the leaf chain as link maps beside the tree, iterators and searches in a node; leaves are
  named by the order of their allocation. \<open>Btree_Inv\<close> is the invariant, the one \<open>verify\<close> checks,
  \<open>Btree_Search\<close> the queries and iterator laws (locale \<open>iterator_class\<close> of \<open>Iterators\<close>),
  \<open>Btree_Insert\<close> and \<open>Btree_Insert_Ok\<close> insertion with all splits, \<open>Btree_Bulk\<close> bulk loading,
  \<open>Btree_Erase\<close> erasure by key and by iterator: a call works on a node and its surroundings (the
  keys of the parent, the neighbours, where these hang), and returns them changed, as the code
  changes them through pointers; \<open>Btree_Repair\<close> shows that every shift and merge leaves the parent
  well-formed, \<open>Btree_Erase_Ok\<close> and \<open>Btree_Erase_Iter\<close> that the two descents remove one entry,
  \<open>Btree_Verify\<close> the self-check, \<open>Btree_Copy\<close> clear, copy and assignment, \<open>Btree_Stx\<close> the index
  of the benchmark as an interpretation of \<open>total_index\<close>, \<open>Btree_Props\<close> and \<open>Btree_Erase_Props\<close> the properties. The
  hypothesis \<open>btree_class_ok\<close> holds for every instance of the traits: at least 8 and fewer than 2
  to the 16 slots.

  WORKLOADS AND DRIVER (\<open>src/util.h\<close>, \<open>src/generate.cc\<close>, \<open>src/benchmark.h\<close>). \<open>Workload\<close> has the pairs
  and operations, the binary files (locale \<open>codec\<close>, interpreted for every type of item) and the random
  numbers; \<open>Generate\<close> the generator for 64-bit keys and one thread, with the results of \<open>std::shuffle\<close> and
  \<open>std::sample\<close> as parameters; \<open>Generate_Ok\<close> that every expected answer it writes is right at its
  turn. \<open>Benchmark\<close> has the constructor of the driver, the phases, the verified loop over the operations
  and the repeated runs; \<open>Benchmark_Ok\<close> the contract \<open>bench_index\<close> of an index (it stands for a
  multiset of pairs) and that the driver reports no error on an index that keeps it;
  \<open>Benchmark_Index\<close> interprets it for the B+ tree and for LIPP; \<open>Block_Phases\<close> that the phases the driver finds in a
  block-wise workload are the blocks the generator made. \<open>Benchmark_Props\<close> composes all of them: what the
  generator writes, the driver reads, runs and accepts.

  CONTRACTS. \<open>Prelude\<close> holds the shared vocabulary, \<open>Index_Base\<close> the contracts of the indexes:
  \<open>index_class\<close> (partial correctness), \<open>total_index\<close> (every insertion returns), \<open>bounded_insert\<close>
  and \<open>bounded_index\<close> (insertions of new keys below a capacity return).

  NOT MODELLED. Timing, output, names and sizes of the indexes; the command line; the driver and the
  generator for several threads and for string keys; the generated
  template instantiations (\<open>src/benchmarks\<close>); the AVX search (vector intrinsics); the counters of
  \<open>search.h\<close>; the allocators; printing; \<open>min_heap_merge\<close> of the dynamic PGM index, which is never
  called; the binary-search and compressed variants of the static PGM index; the backup copies of sources; the vendored libraries.
\<close>

end
